(* ===== verification/Kernel_Prelude.thy ===== *)
theory Kernel_Prelude
  imports Main "HOL-Library.Word" "HOL-Library.Monad_Syntax" "HOL-Library.Signed_Division"
begin

text \<open>
  Shared vocabulary of the development: the machine integers of \<^verbatim>\<open>include/sys/defs.h\<close>,
  C arrays as lists whose out-of-range accesses fail, NUL-terminated strings, and chains of
  \<^verbatim>\<open>next\<close> pointers through a typed heap.  The generic lemmas about them are collected
  here, so that the component theories only contain facts about the code.
\<close>

unbundle bit_operations_syntax

section \<open>Machine integers and pointers\<close>

type_synonym u8 = "8 word"
type_synonym u16 = "16 word"
type_synonym u32 = "32 word"
type_synonym u64 = "64 word"

text \<open>A C \<^verbatim>\<open>int\<close> obtained by narrowing a 64-bit value: the low 32 bits, read as two's complement.\<close>

definition to_int :: "u64 \<Rightarrow> int" where
  "to_int x = sint (ucast x :: u32)"

lemma uint_bound_of_unat: "unat x < 2 ^ n \<Longrightarrow> uint x < 2 ^ n"
  by (metis of_nat_less_iff of_nat_numeral of_nat_power uint_nat)

lemma sint_eq_uint_small:
  fixes y :: u32
  assumes "uint y < 2 ^ 31"
  shows "sint y = uint y"
proof -
  have "- (2 ^ 31) \<le> uint y" using order.trans [OF _ uint_ge_0 [of y], of "- (2 ^ 31)"] by simp
  then show ?thesis unfolding sint_uint using assms
    by (intro signed_take_bit_int_eq_self) auto
qed

lemma to_int_small:
  assumes "unat x < 2 ^ 31"
  shows "to_int x = int (unat x)"
proof -
  have b: "uint x < 2 ^ 31" using assms by (rule uint_bound_of_unat)
  then have "uint (ucast x :: u32) = uint x"
    by (simp add: unsigned_ucast_eq take_bit_int_eq_self)
  with b show ?thesis by (simp add: to_int_def sint_eq_uint_small)
qed

lemma ucast_down_word_of_int: "ucast (word_of_int k :: u64) = (word_of_int k :: u32)"
  by (rule ucast_down_wi) (simp add: is_down)

lemma ucast_down_sub: "ucast (a - b :: u64) = (ucast a - ucast b :: u32)"
  using ucast_down_word_of_int [of "uint a - uint b"] by (simp add: word_of_int_minus)

text \<open>Narrowing a pointer to \<^verbatim>\<open>int\<close> before subtracting another does not change the narrowed difference.\<close>

lemma to_int_sub_low: "to_int (word_of_int (to_int l) - p) = to_int (l - p)"
proof -
  have "(ucast (word_of_int (to_int l) - p :: u64) :: u32) = ucast (l - p)"
    unfolding ucast_down_sub ucast_down_word_of_int by (simp add: to_int_def)
  then show ?thesis unfolding to_int_def by simp
qed

lemma unat_of_nat64: "t < 2 ^ 64 \<Longrightarrow> unat (of_nat t :: u64) = t"
  by (simp add: unat_of_nat take_bit_nat_eq_self)

lemma unat_add_mult64:
  fixes a :: u64
  assumes "unat a + c * t < 2 ^ 64"
  shows "unat (a + of_nat c * of_nat t) = unat a + c * t"
proof -
  have "a + of_nat c * of_nat t = of_nat (unat a + c * t)" by simp
  with assms show ?thesis by (simp only: unat_of_nat64)
qed

section \<open>Arrays\<close>

text \<open>
  A C array is a list.  Reading or writing outside of it is undefined behaviour in C; the
  model returns \<^const>\<open>None\<close> there, so a routine that returns \<^const>\<open>Some\<close> stayed inside
  all of its buffers.
\<close>

definition aget :: "'a list \<Rightarrow> nat \<Rightarrow> 'a option" where
  "aget xs i = (if i < length xs then Some (xs ! i) else None)"

definition aput :: "'a list \<Rightarrow> nat \<Rightarrow> 'a \<Rightarrow> 'a list option" where
  "aput xs i x = (if i < length xs then Some (xs[i := x]) else None)"

lemma aget_Some [simp]: "i < length xs \<Longrightarrow> aget xs i = Some (xs ! i)"
  by (simp add: aget_def)

lemma aget_None [simp]: "length xs \<le> i \<Longrightarrow> aget xs i = None"
  by (simp add: aget_def)

lemma aput_Some [simp]: "i < length xs \<Longrightarrow> aput xs i x = Some (xs[i := x])"
  by (simp add: aput_def)

lemma aput_None [simp]: "length xs \<le> i \<Longrightarrow> aput xs i x = None"
  by (simp add: aput_def)

lemma aput_eq_Some_iff: "aput xs i x = Some ys \<longleftrightarrow> i < length xs \<and> ys = xs[i := x]"
  by (auto simp: aput_def)

lemma aget_eq_Some_iff: "aget xs i = Some y \<longleftrightarrow> i < length xs \<and> y = xs ! i"
  by (auto simp: aget_def)

section \<open>Counted loops\<close>

text \<open>
  \<^verbatim>\<open>for (i = lo; i < lo + n; i++) body\<close>, where the body may fault: the loop stops at the
  first fault.
\<close>

fun for_n :: "nat \<Rightarrow> nat \<Rightarrow> (nat \<Rightarrow> 's \<Rightarrow> 's option) \<Rightarrow> 's \<Rightarrow> 's option" where
  "for_n i 0 body s = Some s"
| "for_n i (Suc n) body s = do { s' \<leftarrow> body i s; for_n (Suc i) n body s' }"

lemma for_n_rule:
  assumes "for_n lo n body s = Some t" and "P lo s"
    and "\<And>i u v. \<lbrakk> lo \<le> i; i < lo + n; P i u; body i u = Some v \<rbrakk> \<Longrightarrow> P (Suc i) v"
  shows "P (lo + n) t"
  using assms
proof (induction n arbitrary: lo s)
  case 0
  then show ?case by simp
next
  case (Suc n)
  from Suc.prems(1) obtain u where u: "body lo s = Some u" "for_n (Suc lo) n body u = Some t"
    by (auto simp: bind_eq_Some_conv)
  have "P (Suc lo) u" using Suc.prems(3) [OF _ _ Suc.prems(2) u(1)] by simp
  from Suc.IH [OF u(2) this] Suc.prems(3) show ?case by simp
qed

lemma for_n_cong:
  "(\<And>i u. lo \<le> i \<Longrightarrow> i < lo + n \<Longrightarrow> body i u = body' i u) \<Longrightarrow> for_n lo n body s = for_n lo n body' s"
proof (induction n arbitrary: lo s)
  case (Suc n)
  have ih: "for_n (Suc lo) n body u = for_n (Suc lo) n body' u" for u by (rule Suc.IH) (use Suc.prems in auto)
  have "body lo s = body' lo s" using Suc.prems by simp
  then show ?case using ih by (cases "body' lo s") simp_all
qed simp

lemma for_n_append:
  "for_n lo (m + n) body s = do { u \<leftarrow> for_n lo m body s; for_n (lo + m) n body u }"
proof (induction m arbitrary: lo s)
  case 0
  then show ?case by simp
next
  case (Suc m)
  then show ?case by (cases "body lo s") auto
qed

lemma for_n_0_eta [simp]: "for_n i 0 body = Some"
  by (rule ext) simp

lemma for_n_Suc_right:
  "for_n lo (Suc n) body s = do { u \<leftarrow> for_n lo n body s; body (lo + n) u }"
  using for_n_append [of lo n 1 body s] by simp

lemma for_n_total:
  assumes "\<And>i u. \<lbrakk> lo \<le> i; i < lo + n \<rbrakk> \<Longrightarrow> body i u = Some (f i u)"
  shows "for_n lo n body s = Some (fold f [lo..<lo + n] s)"
  using assms
proof (induction n arbitrary: lo s)
  case 0
  then show ?case by simp
next
  case (Suc n)
  have "body lo s = Some (f lo s)" using Suc.prems [of lo] by simp
  moreover have "for_n (Suc lo) n body (f lo s) = Some (fold f [Suc lo..<Suc lo + n] (f lo s))"
    by (rule Suc.IH) (use Suc.prems in auto)
  ultimately show ?case by (simp add: upt_rec)
qed

text \<open>Filling and copying, the two array loops of the string routines.\<close>

lemma for_n_fill:
  "for_n 0 n (\<lambda>i d. aput d i (f i)) d =
     (if n \<le> length d then Some (map f [0..<n] @ drop n d) else None)"
proof (induction n)
  case 0
  then show ?case by simp
next
  case (Suc n)
  show ?case unfolding for_n_Suc_right Suc
    by (auto simp: list_update_append Cons_nth_drop_Suc [symmetric])
qed

lemma for_n_copy:
  "for_n 0 n (\<lambda>i d. do { x \<leftarrow> aget s i; aput d i x }) d =
     (if n \<le> length s \<and> n \<le> length d then Some (take n s @ drop n d) else None)"
proof (induction n)
  case 0
  then show ?case by simp
next
  case (Suc n)
  show ?case unfolding for_n_Suc_right Suc
    by (auto simp: list_update_append Cons_nth_drop_Suc [symmetric] take_Suc_conv_app_nth
        aget_def aput_def)
qed

section \<open>C strings\<close>

definition NUL :: char where
  "NUL = CHR 0x00"

text \<open>The text a character array holds, up to its first NUL.\<close>

definition cstr :: "string \<Rightarrow> string" where
  "cstr s = takeWhile (\<lambda>c. c \<noteq> NUL) s"

definition terminated :: "string \<Rightarrow> bool" where
  "terminated s = (NUL \<in> set s)"

lemma cstr_Nil [simp]: "cstr [] = []"
  by (simp add: cstr_def)

lemma cstr_Cons: "cstr (c # s) = (if c = NUL then [] else c # cstr s)"
  by (simp add: cstr_def)

lemma terminated_Cons [simp]: "terminated (c # s) \<longleftrightarrow> c = NUL \<or> terminated s"
  by (auto simp: terminated_def)

lemma terminated_Nil [simp]: "\<not> terminated []"
  by (simp add: terminated_def)

lemma NUL_notin_cstr [simp]: "NUL \<notin> set (cstr s)"
  by (auto simp: cstr_def dest: set_takeWhileD)

lemma length_cstr_less: "terminated s \<Longrightarrow> length (cstr s) < length s"
  by (induction s) (auto simp: cstr_Cons)

lemma nth_cstr: "i < length (cstr s) \<Longrightarrow> cstr s ! i = s ! i"
  by (simp add: cstr_def takeWhile_nth)

lemma nth_length_cstr: "terminated s \<Longrightarrow> s ! length (cstr s) = NUL"
  by (induction s) (auto simp: cstr_Cons)

lemma cstr_append_NUL [simp]: "NUL \<notin> set t \<Longrightarrow> cstr (t @ NUL # rest) = t"
  by (induction t) (auto simp: cstr_Cons)

lemma terminated_append [simp]: "terminated (t @ u) \<longleftrightarrow> terminated t \<or> terminated u"
  by (auto simp: terminated_def)

lemma take_length_cstr: "take (length (cstr s)) s = cstr s"
  by (induction s) (auto simp: cstr_Cons)

lemma cstr_drop: "i \<le> length (cstr s) \<Longrightarrow> cstr (drop i s) = drop i (cstr s)"
proof (induction s arbitrary: i)
  case Nil
  then show ?case by simp
next
  case (Cons c s)
  then show ?case by (cases i) (auto simp: cstr_Cons split: if_splits)
qed

section \<open>Chains of \<^verbatim>\<open>next\<close> pointers\<close>

text \<open>
  \<open>chain nxt p ps q\<close>: starting at \<open>p\<close> and following \<open>nxt\<close>, the nodes met are \<open>ps\<close>
  (none of them null) and the pointer reached after them is \<open>q\<close>.
\<close>

fun chain :: "('p \<Rightarrow> 'p::zero) \<Rightarrow> 'p \<Rightarrow> 'p list \<Rightarrow> 'p \<Rightarrow> bool" where
  "chain nxt p [] q = (p = q)"
| "chain nxt p (a # ps) q = (p = a \<and> a \<noteq> 0 \<and> chain nxt (nxt a) ps q)"

lemma chain_append:
  "chain nxt p (ps @ qs) q \<longleftrightarrow> (\<exists>r. chain nxt p ps r \<and> chain nxt r qs q)"
  by (induction ps arbitrary: p) auto

lemma chain_cong:
  "(\<And>a. a \<in> set ps \<Longrightarrow> f a = g a) \<Longrightarrow> chain f p ps q = chain g p ps q"
  by (induction ps arbitrary: p) auto

lemma chain_upd [simp]: "a \<notin> set ps \<Longrightarrow> chain (f(a := v)) p ps q = chain f p ps q"
  by (rule chain_cong) auto

lemma chain_nonnull: "chain nxt p ps q \<Longrightarrow> a \<in> set ps \<Longrightarrow> a \<noteq> 0"
  by (induction ps arbitrary: p) auto

lemma chain_hd: "chain nxt p ps q \<Longrightarrow> ps \<noteq> [] \<Longrightarrow> p = hd ps"
  by (cases ps) auto

lemma chain_null_iff: "chain nxt 0 ps q \<longleftrightarrow> ps = [] \<and> q = 0"
  by (cases ps) auto

lemma chain_unique:
  "chain nxt p ps 0 \<Longrightarrow> chain nxt p qs 0 \<Longrightarrow> ps = qs"
proof (induction ps arbitrary: p qs)
  case Nil
  then show ?case by (cases qs) auto
next
  case (Cons a ps)
  then show ?case by (cases qs) auto
qed

lemma chain_next:
  "chain nxt p (ps @ a # b # qs) q \<Longrightarrow> nxt a = b"
  by (auto simp: chain_append)

lemma chain_last:
  "chain nxt p (ps @ [a]) q \<Longrightarrow> nxt a = q"
  by (auto simp: chain_append)

end
