(* ===== verification/Klibc.thy ===== *)
theory Klibc
  imports Kernel_Prelude
begin

text \<open>
  \<^verbatim>\<open>sys/klibc.c\<close>: the kernel's string and memory routines.  A character array is a list of
  \<^typ>\<open>char\<close> that starts at the pointer passed; source and destination are different objects,
  as they are in every call in the kernel.  A routine returns \<^const>\<open>None\<close> exactly when the C
  code would leave one of its arrays.
\<close>

section \<open>The routines\<close>

definition memset :: "string \<Rightarrow> int \<Rightarrow> int \<Rightarrow> string option" where
  "memset s num sz = for_n 0 (nat sz) (\<lambda>i uc. aput uc i (char_of num)) s"

function kstrlength_loop :: "string \<Rightarrow> nat \<Rightarrow> nat option" where
  "kstrlength_loop string stringlen =
     do { c \<leftarrow> aget string stringlen;
          if c \<noteq> NUL then kstrlength_loop string (Suc stringlen) else Some stringlen }"
  by pat_completeness auto
termination
  by (relation "measure (\<lambda>(s, i). length s - i)") (auto simp: aget_def split: if_splits)

definition kstrlength :: "string \<Rightarrow> nat option" where
  "kstrlength string = kstrlength_loop string 0"

function kstrcmp_loop :: "string \<Rightarrow> string \<Rightarrow> nat \<Rightarrow> int option" where
  "kstrcmp_loop string1 string2 i =
     do { a \<leftarrow> aget string1 i;
          if a \<noteq> NUL
          then do { b \<leftarrow> aget string2 i;
                    if a \<noteq> b then Some (-1) else kstrcmp_loop string1 string2 (Suc i) }
          else Some 0 }"
  by pat_completeness auto
termination
  by (relation "measure (\<lambda>(s1, s2, i). length s1 - i)") (auto simp: aget_def split: if_splits)

definition kstrcmp :: "string \<Rightarrow> string \<Rightarrow> int option" where
  "kstrcmp string1 string2 =
     do { n1 \<leftarrow> kstrlength string1;
          n2 \<leftarrow> kstrlength string2;
          if n1 \<noteq> n2 then Some (-1) else kstrcmp_loop string1 string2 0 }"

text \<open>\<^verbatim>\<open>kmemcpy\<close> copies 64-bit words; note \<^verbatim>\<open>i <= size\<close> in its loop.\<close>

definition kmemcpy :: "u64 list \<Rightarrow> u64 list \<Rightarrow> u64 \<Rightarrow> u64 list option" where
  "kmemcpy source dest sz =
     for_n 0 (Suc (unat (sz div 8))) (\<lambda>i d. do { x \<leftarrow> aget source i; aput d i x }) dest"

definition kmemcpychar :: "'a list \<Rightarrow> 'a list \<Rightarrow> u64 \<Rightarrow> 'a list option" where
  "kmemcpychar source dest sz =
     for_n 0 (unat sz) (\<lambda>i ud. do { x \<leftarrow> aget source i; aput ud i x }) dest"

definition kstrcat :: "string \<Rightarrow> string \<Rightarrow> string \<Rightarrow> string option" where
  "kstrcat string1 string2 concatstr =
     do { string1len \<leftarrow> kstrlength string1;
          string2len \<leftarrow> kstrlength string2;
          c1 \<leftarrow> for_n 0 string1len (\<lambda>i c. do { x \<leftarrow> aget string1 i; aput c i x }) concatstr;
          c2 \<leftarrow> for_n 0 string2len
                 (\<lambda>j c. do { x \<leftarrow> aget string2 j; aput c (string1len + j) x }) c1;
          aput c2 (string1len + string2len) NUL }"

definition PAGE_SIZE :: u64 where
  "PAGE_SIZE = 4096"

definition roundup :: "u64 \<Rightarrow> u64" where
  "roundup sz =
     (let rem = to_int (sz mod PAGE_SIZE) in
      if 0 < rem then (sz div PAGE_SIZE) * PAGE_SIZE + PAGE_SIZE
      else (sz div PAGE_SIZE) * PAGE_SIZE)"

function kstrcopy_loop :: "string \<Rightarrow> string \<Rightarrow> nat \<Rightarrow> string option" where
  "kstrcopy_loop String1 String2 i =
     do { c \<leftarrow> aget String2 i;
          if c \<noteq> NUL
          then do { s \<leftarrow> aput String1 i c; kstrcopy_loop s String2 (Suc i) }
          else aput String1 i NUL }"
  by pat_completeness auto
termination
  by (relation "measure (\<lambda>(s1, s2, i). length s2 - i)") (auto simp: aget_def split: if_splits)

definition kstrcopy :: "string \<Rightarrow> string \<Rightarrow> string option" where
  "kstrcopy String1 String2 = kstrcopy_loop String1 String2 0"

function kstrncopy_loop :: "string \<Rightarrow> string \<Rightarrow> int \<Rightarrow> nat \<Rightarrow> string option" where
  "kstrncopy_loop String1 String2 n i =
     do { c \<leftarrow> aget String2 i;
          if c \<noteq> NUL \<and> int i < n
          then do { s \<leftarrow> aput String1 i c; kstrncopy_loop s String2 n (Suc i) }
          else aput String1 i NUL }"
  by pat_completeness auto
termination
  by (relation "measure (\<lambda>(s1, s2, n, i). length s2 - i)") (auto simp: aget_def split: if_splits)

definition kstrncopy :: "string \<Rightarrow> string \<Rightarrow> int \<Rightarrow> string option" where
  "kstrncopy String1 String2 n = kstrncopy_loop String1 String2 n 0"

function itoa_loop :: "int \<Rightarrow> string \<Rightarrow> nat \<Rightarrow> string option" where
  "itoa_loop intvalue string i =
     (if intvalue \<noteq> 0
      then do { s \<leftarrow> aput string i (char_of (intvalue smod 10 + 48));
                itoa_loop (intvalue sdiv 10) s (Suc i) }
      else aput string i NUL)"
  by pat_completeness auto
termination
  by (relation "measure (\<lambda>(v, s, i). length s - i)") (auto simp: aput_def split: if_splits)

definition itoa :: "int \<Rightarrow> string \<Rightarrow> string option" where
  "itoa intvalue string = itoa_loop intvalue string 0"

declare kstrlength_loop.simps [simp del] kstrcmp_loop.simps [simp del]
  kstrcopy_loop.simps [simp del] kstrncopy_loop.simps [simp del] itoa_loop.simps [simp del]

section \<open>What the loops compute\<close>

lemma terminated_iff_length: "terminated s \<longleftrightarrow> length (cstr s) < length s"
  by (induction s) (auto simp: cstr_Cons)

lemma drop_cases:
  assumes "i \<le> length s"
  obtains (stop) "i = length s" "drop i s = []"
        | (more) "i < length s" "drop i s = s ! i # drop (Suc i) s"
  using assms by (cases "i < length s") (auto simp: Cons_nth_drop_Suc)

lemma kstrlength_loop_eq:
  "i \<le> length s \<Longrightarrow> kstrlength_loop s i =
     (if terminated (drop i s) then Some (i + length (cstr (drop i s))) else None)"
proof (induction s i rule: kstrlength_loop.induct)
  case (1 s i)
  from "1.prems" show ?case
  proof (cases rule: drop_cases)
    case stop
    then show ?thesis by (subst kstrlength_loop.simps) simp
  next
    case more
    with "1.IH" [of "s ! i"] show ?thesis
      by (subst kstrlength_loop.simps) (auto simp: cstr_Cons)
  qed
qed

lemma kstrlength_eq [simp]:
  "kstrlength s = (if terminated s then Some (length (cstr s)) else None)"
  by (simp add: kstrlength_def kstrlength_loop_eq)

lemma kstrcmp_loop_eq:
  assumes "terminated s1" "terminated s2" "length (cstr s1) = length (cstr s2)"
  shows "i \<le> length (cstr s1) \<Longrightarrow>
    kstrcmp_loop s1 s2 i = Some (if drop i (cstr s1) = drop i (cstr s2) then 0 else -1)"
  using assms
proof (induction s1 s2 i rule: kstrcmp_loop.induct)
  case (1 s1 s2 i)
  have l1: "length (cstr s1) < length s1" and l2: "length (cstr s1) < length s2"
    using "1.prems" length_cstr_less by fastforce+
  show ?case
  proof (cases "i = length (cstr s1)")
    case True
    moreover have "s1 ! i = NUL" using nth_length_cstr "1.prems"(2) True by blast
    ultimately show ?thesis using l1 "1.prems"
      by (subst kstrcmp_loop.simps) simp
  next
    case False
    with "1.prems" have i: "i < length (cstr s1)" "i < length (cstr s2)" by auto
    then have n1: "s1 ! i = cstr s1 ! i" and n2: "s2 ! i = cstr s2 ! i"
      by (simp_all add: nth_cstr)
    have nn: "s1 ! i \<noteq> NUL" using i n1 NUL_notin_cstr nth_mem by metis
    have d1: "drop i (cstr s1) = s1 ! i # drop (Suc i) (cstr s1)"
      and d2: "drop i (cstr s2) = s2 ! i # drop (Suc i) (cstr s2)"
      using i n1 n2 by (simp_all add: Cons_nth_drop_Suc)
    show ?thesis
    proof (cases "s1 ! i = s2 ! i")
      case True
      with "1.IH" [of "s1 ! i" "s2 ! i"] "1.prems" nn i l1 l2 d1 d2 show ?thesis
        by (subst kstrcmp_loop.simps) simp
    next
      case False
      with nn i l1 l2 d1 d2 show ?thesis
        by (subst kstrcmp_loop.simps) simp
    qed
  qed
qed

lemma kstrcmp_eq [simp]:
  "kstrcmp s1 s2 =
     (if terminated s1 \<and> terminated s2
      then Some (if cstr s1 = cstr s2 then 0 else -1) else None)"
  by (auto simp: kstrcmp_def kstrcmp_loop_eq)

lemma kmemcpychar_eq:
  "kmemcpychar s d n =
     (if unat n \<le> length s \<and> unat n \<le> length d
      then Some (take (unat n) s @ drop (unat n) d) else None)"
  by (simp add: kmemcpychar_def for_n_copy)

lemma memset_eq:
  "memset s num sz =
     (if nat sz \<le> length s then Some (replicate (nat sz) (char_of num) @ drop (nat sz) s)
      else None)"
  by (simp add: memset_def for_n_fill map_replicate_const)

lemma kstrcopy_loop_eq:
  "i \<le> length s \<Longrightarrow> i \<le> length d \<Longrightarrow> kstrcopy_loop d s i =
     (let n = length (cstr (drop i s)) in
      if terminated (drop i s) \<and> i + n < length d
      then Some (take i d @ cstr (drop i s) @ NUL # drop (Suc (i + n)) d) else None)"
proof (induction d s i rule: kstrcopy_loop.induct)
  case (1 d s i)
  from "1.prems"(1) show ?case
  proof (cases rule: drop_cases)
    case stop
    then show ?thesis by (subst kstrcopy_loop.simps) simp
  next
    case more
    show ?thesis
    proof (cases "i < length d")
      case True
      with more "1.IH" [of "s ! i" "d[i := s ! i]"] show ?thesis
        by (subst kstrcopy_loop.simps)
          (auto simp: cstr_Cons Let_def take_Suc_conv_app_nth upd_conv_take_nth_drop add.commute)
    next
      case False
      with more show ?thesis
        by (subst kstrcopy_loop.simps) (auto simp: cstr_Cons Let_def)
    qed
  qed
qed

lemma kstrcopy_eq [simp]:
  "kstrcopy d s =
     (if terminated s \<and> length (cstr s) < length d
      then Some (cstr s @ NUL # drop (Suc (length (cstr s))) d) else None)"
  by (simp add: kstrcopy_def kstrcopy_loop_eq Let_def)

lemma kstrncopy_loop_eq:
  "i \<le> length s \<Longrightarrow> i \<le> length d \<Longrightarrow> kstrncopy_loop d s n i =
     (let k = min (length (cstr (drop i s))) (nat (n - int i)) in
      if k < length (drop i s) \<and> i + k < length d
      then Some (take i d @ take k (drop i s) @ NUL # drop (Suc (i + k)) d) else None)"
proof (induction d s n i rule: kstrncopy_loop.induct)
  case (1 d s n i)
  from "1.prems"(1) show ?case
  proof (cases rule: drop_cases)
    case stop
    then show ?thesis by (subst kstrncopy_loop.simps) (simp add: Let_def)
  next
    case more
    show ?thesis
    proof (cases "s ! i \<noteq> NUL \<and> int i < n")
      case False
      with more show ?thesis
        by (subst kstrncopy_loop.simps)
          (auto simp: cstr_Cons Let_def aput_def upd_conv_take_nth_drop)
    next
      case True
      then have n: "nat (n - int i) = Suc (nat (n - int (Suc i)))" by linarith
      show ?thesis
      proof (cases "i < length d")
        case True
        with \<open>s ! i \<noteq> NUL \<and> int i < n\<close> more "1.IH" [of "s ! i" "d[i := s ! i]"] n show ?thesis
          by (subst kstrncopy_loop.simps)
            (auto simp: cstr_Cons Let_def take_Suc_conv_app_nth upd_conv_take_nth_drop less_diff_conv,
              simp add: add.commute)
      next
        case False
        with \<open>s ! i \<noteq> NUL \<and> int i < n\<close> more show ?thesis
          by (subst kstrncopy_loop.simps) (simp add: Let_def)
      qed
    qed
  qed
qed

lemma kstrncopy_eq:
  "kstrncopy d s n =
     (let k = min (length (cstr s)) (nat n) in
      if k < length s \<and> k < length d then Some (take k s @ NUL # drop (Suc k) d) else None)"
  by (simp add: kstrncopy_def kstrncopy_loop_eq Let_def)

lemma for_n_copy_at:
  assumes "p \<le> length d"
  shows "for_n 0 n (\<lambda>j c. do { x \<leftarrow> aget s j; aput c (p + j) x }) d =
     (if n \<le> length s \<and> p + n \<le> length d
      then Some (take p d @ take n s @ drop (p + n) d) else None)"
proof (induction n)
  case 0
  with assms show ?case by simp
next
  case (Suc n)
  show ?case unfolding for_n_Suc_right Suc
    by (auto simp: list_update_append Cons_nth_drop_Suc [symmetric] take_Suc_conv_app_nth
        aget_def aput_def min_def)
qed

lemma kstrcat_eq:
  "kstrcat s1 s2 c =
     (if terminated s1 \<and> terminated s2 \<and> length (cstr s1) + length (cstr s2) < length c
      then Some (cstr s1 @ cstr s2 @ NUL # drop (Suc (length (cstr s1) + length (cstr s2))) c)
      else None)"
proof (cases "terminated s1 \<and> terminated s2")
  case False
  then show ?thesis by (auto simp: kstrcat_def)
next
  case True
  then have "length (cstr s1) \<le> length s1" "length (cstr s2) \<le> length s2"
    using length_cstr_less less_imp_le by blast+
  with True show ?thesis
    by (auto simp: kstrcat_def for_n_copy for_n_copy_at take_length_cstr
        list_update_append Cons_nth_drop_Suc [symmetric] aput_eq_Some_iff)
      (simp_all add: aput_def add.commute)
qed

section \<open>Decimal digits\<close>

text \<open>The digits of a number, least significant first, as the \<^verbatim>\<open>% 10\<close> loops of the kernel produce them.\<close>

function lsd_digits :: "int \<Rightarrow> string" where
  "lsd_digits v = (if v = 0 then [] else char_of (v smod 10 + 48) # lsd_digits (v sdiv 10))"
  by pat_completeness auto
termination
  by (relation "measure (\<lambda>v. nat \<bar>v\<bar>)")
    (auto simp: signed_divide_int_def abs_mult sgn_if nat_less_iff)

declare lsd_digits.simps [simp del]

lemma lsd_digits_0 [simp]: "lsd_digits 0 = []"
  by (subst lsd_digits.simps) simp

lemma sdiv_nonneg: "0 \<le> v \<Longrightarrow> 0 < w \<Longrightarrow> (v::int) sdiv w = v div w"
  by (cases "v = 0") (simp_all add: signed_divide_int_def)

lemma smod_nonneg: "0 \<le> v \<Longrightarrow> 0 < w \<Longrightarrow> (v::int) smod w = v mod w"
  by (cases "v = 0") (simp_all add: signed_modulo_int_def sgn_if)

lemma lsd_digits_pos:
  "0 < v \<Longrightarrow> lsd_digits v = char_of (v mod 10 + 48) # lsd_digits (v div 10)"
  by (subst lsd_digits.simps) (simp add: sdiv_nonneg smod_nonneg)

text \<open>The value of a digit string, least significant digit first.\<close>

definition lsd_value :: "string \<Rightarrow> int" where
  "lsd_value ds = foldr (\<lambda>c v. (of_char c - 48) + 10 * v) ds 0"

lemma lsd_value_simps [simp]:
  "lsd_value [] = 0" "lsd_value (c # ds) = (of_char c - 48) + 10 * lsd_value ds"
  by (simp_all add: lsd_value_def)

lemma of_char_digit: "0 \<le> v \<Longrightarrow> (of_char (char_of (v mod 10 + 48 :: int)) :: int) = v mod 10 + 48"
proof -
  have "(v mod 10 + 48) mod 256 = v mod 10 + 48"
    by (rule mod_pos_pos_trivial) (auto intro: add_nonneg_nonneg)
  then show ?thesis by simp
qed

lemma lsd_value_digits: "0 \<le> v \<Longrightarrow> lsd_value (lsd_digits v) = v"
proof (induction v rule: lsd_digits.induct)
  case (1 v)
  show ?case
  proof (cases "v = 0")
    case False
    with 1 have p: "0 < v" by simp
    have "lsd_value (lsd_digits (v div 10)) = v div 10"
      using 1 False by (simp add: sdiv_nonneg pos_imp_zdiv_nonneg_iff)
    with p show ?thesis by (simp add: lsd_digits_pos of_char_digit)
  qed simp
qed

definition is_digit :: "char \<Rightarrow> bool" where
  "is_digit c = (48 \<le> (of_char c :: int) \<and> (of_char c :: int) < 58)"

lemma is_digit_not_NUL: "is_digit c \<Longrightarrow> c \<noteq> NUL"
  by (auto simp: is_digit_def NUL_def)

lemma lsd_digits_are_digits: "0 \<le> v \<Longrightarrow> c \<in> set (lsd_digits v) \<Longrightarrow> is_digit c"
proof (induction v rule: lsd_digits.induct)
  case (1 v)
  show ?case
  proof (cases "v = 0")
    case True
    with "1.prems" show ?thesis by simp
  next
    case False
    with 1 have p: "0 < v" by simp
    have "is_digit (char_of (v mod 10 + 48))"
      using p by (simp add: is_digit_def of_char_digit)
    with 1 False p show ?thesis
      by (auto simp: lsd_digits_pos sdiv_nonneg pos_imp_zdiv_nonneg_iff)
  qed
qed

lemma NUL_notin_lsd_digits: "0 \<le> v \<Longrightarrow> NUL \<notin> set (lsd_digits v)"
  using lsd_digits_are_digits is_digit_not_NUL by blast

lemma lsd_digits_inj: "0 \<le> v \<Longrightarrow> 0 \<le> w \<Longrightarrow> lsd_digits v = lsd_digits w \<Longrightarrow> v = w"
  using lsd_value_digits by metis

lemma itoa_loop_eq:
  "i \<le> length s \<Longrightarrow> itoa_loop v s i =
     (if i + length (lsd_digits v) < length s
      then Some (take i s @ lsd_digits v @ NUL # drop (Suc (i + length (lsd_digits v))) s)
      else None)"
proof (induction v s i rule: itoa_loop.induct)
  case (1 v s i)
  show ?case
  proof (cases "v = 0")
    case True
    then show ?thesis
      by (subst itoa_loop.simps) (auto simp: aput_def upd_conv_take_nth_drop)
  next
    case False
    then have l: "lsd_digits v = char_of (v smod 10 + 48) # lsd_digits (v sdiv 10)"
      by (subst lsd_digits.simps) simp
    show ?thesis
    proof (cases "i < length s")
      case True
      with False 1 l show ?thesis
        by (subst itoa_loop.simps)
          (auto simp: take_Suc_conv_app_nth upd_conv_take_nth_drop, simp_all add: add.commute)
    next
      case False
      with \<open>v \<noteq> 0\<close> l "1.prems" show ?thesis by (subst itoa_loop.simps) simp
    qed
  qed
qed

lemma itoa_eq:
  "itoa v s =
     (if length (lsd_digits v) < length s
      then Some (lsd_digits v @ NUL # drop (Suc (length (lsd_digits v))) s) else None)"
  by (simp add: itoa_def itoa_loop_eq)

section \<open>Page rounding\<close>

lemma unat_div_numeral: "unat (x div numeral k :: u64) = unat x div unat (numeral k :: u64)"
  by (rule unat_div)

lemma unat_mod_numeral: "unat (x mod numeral k :: u64) = unat x mod unat (numeral k :: u64)"
  by (rule unat_mod)

lemma to_int_page_rem: "to_int (x mod PAGE_SIZE) = int (unat x mod 4096)"
proof -
  have u: "unat (x mod PAGE_SIZE) = unat x mod 4096"
    by (simp add: PAGE_SIZE_def unat_mod)
  then have "unat (x mod PAGE_SIZE) < 4096" by simp
  then have "unat (x mod PAGE_SIZE) < 2 ^ 31" by simp
  with u show ?thesis by (simp add: to_int_small)
qed

section \<open>Properties\<close>

text \<open>\<^verbatim>\<open>kstrcmp\<close> decides equality of the two strings: it faults exactly when one of them has
  no terminator inside its array, returns 0 when they are equal and -1 otherwise, whatever
  lies behind the terminators.\<close>

theorem kstrcmp_decides_equality:
  "kstrcmp s1 s2 =
     (if terminated s1 \<and> terminated s2
      then Some (if cstr s1 = cstr s2 then 0 else -1) else None)"
  by (rule kstrcmp_eq)

text \<open>\<^verbatim>\<open>kstrcopy\<close> succeeds exactly when the source is terminated and fits with its terminator,
  and then the copy compares equal to the source, the array keeps its length and the bytes
  behind the terminator are untouched.\<close>

theorem kstrcopy_roundtrip:
  "(kstrcopy d s \<noteq> None \<longleftrightarrow> terminated s \<and> length (cstr s) < length d) \<and>
   (case kstrcopy d s of None \<Rightarrow> True
    | Some d' \<Rightarrow> kstrcmp d' s = Some 0 \<and> length d' = length d
        \<and> drop (Suc (length (cstr s))) d' = drop (Suc (length (cstr s))) d)"
  by (auto simp: Let_def)

text \<open>\<^verbatim>\<open>kstrcat\<close> writes the concatenation: where both strings are terminated and fit, the result
  holds the first string followed by the second; otherwise the code leaves a buffer.\<close>

theorem kstrcat_concatenates:
  "map_option cstr (kstrcat s1 s2 c) =
     (if terminated s1 \<and> terminated s2 \<and> length (cstr s1) + length (cstr s2) < length c
      then Some (cstr s1 @ cstr s2) else None)"
  using cstr_append_NUL [of "cstr s1 @ cstr s2"] by (simp add: kstrcat_eq)

text \<open>\<^verbatim>\<open>roundup\<close> returns the least multiple of the page size that is not below its argument,
  unless that multiple is not representable, where it wraps to 0.\<close>

theorem roundup_least_multiple:
  "unat (roundup x) =
     (if unat x \<le> 2 ^ 64 - 4096 then ((unat x + 4095) div 4096) * 4096 else 0)"
proof -
  define q where "q = unat x div 4096"
  define e where "e = unat x mod 4096"
  have m: "unat x = 4096 * q + e" and e: "e < 4096" by (simp_all add: q_def e_def)
  have "unat x < 2 ^ 64" using unsigned_less [of x] by simp
  then have q: "q < 2 ^ 52" using m by simp
  have base: "unat (x div 4096 * 4096) = q * 4096"
    using q by (simp add: unat_word_ariths unat_div flip: q_def)
  have r: "roundup x = (if e = 0 then x div 4096 * 4096 else x div 4096 * 4096 + 4096)"
    unfolding roundup_def Let_def to_int_page_rem by (simp add: PAGE_SIZE_def e_def)
  show ?thesis
  proof (cases "e = 0")
    case True
    then have "(unat x + 4095) div 4096 = q" using m by simp
    then show ?thesis using True r base m q by simp
  next
    case False
    then have d: "(unat x + 4095) div 4096 = Suc q" using m e by simp
    have u: "unat (x div 4096 * 4096 + 4096) = (q * 4096 + 4096) mod 2 ^ 64"
      unfolding unat_word_ariths(1) base by simp
    show ?thesis
    proof (cases "q < 2 ^ 52 - 1")
      case True
      then show ?thesis using False r d u m e by simp
    next
      case False
      with q have "q = 2 ^ 52 - 1" by simp
      then show ?thesis using \<open>e \<noteq> 0\<close> r u m e by simp
    qed
  qed
qed

text \<open>\<^verbatim>\<open>itoa\<close> writes a non-negative number's decimal digits least significant first (reversed),
  terminated, so that the number can be read back from the reversed text only; 0 gives the
  empty string.\<close>

theorem itoa_reversed_digits:
  assumes "0 \<le> v" and "itoa v s = Some r"
  shows "lsd_value (cstr r) = v \<and> (\<forall>c \<in> set (cstr r). is_digit c) \<and> length r = length s"
  using assms NUL_notin_lsd_digits [of v] lsd_digits_are_digits [of v]
  by (auto simp: itoa_eq lsd_value_digits split: if_splits)

theorem itoa_reversed_digits_witness:
  "itoa 120 ''xxxxxx'' = Some (''021'' @ NUL # ''xx'') \<and> lsd_value (cstr (''021'' @ NUL # ''xx'')) = 120"
proof -
  have e: "itoa 120 ''xxxxxx'' = Some (''021'' @ NUL # ''xx'')"
    by (simp add: itoa_eq lsd_digits_pos char_of_def)
  show ?thesis using e itoa_reversed_digits [OF _ e] by simp
qed

text \<open>\<^verbatim>\<open>kmemcpy\<close> copies one 64-bit word more than \<^verbatim>\<open>size / 8\<close>: it faults on buffers of exactly
  the requested size, and on larger ones overwrites the word behind the requested block.\<close>

theorem kmemcpy_copies_one_word_more:
  "kmemcpy s d n =
     (let k = Suc (unat n div 8) in
      if k \<le> length s \<and> k \<le> length d then Some (take k s @ drop k d) else None)"
  by (simp add: kmemcpy_def for_n_copy unat_div Let_def del: for_n.simps)

end
