(* ===== verification/Frame_Queue.thy ===== *)
theory Frame_Queue
  imports Kernel_Prelude
begin

text \<open>
  The interface of a page-frame allocator, as its clients see it: a bounded FIFO queue of free
  frames.  \<open>take_one\<close> hands out the frame at the front, \<open>give\<close> appends a frame that is
  returned, \<open>free\<close> is the queue, \<open>ok\<close> the provider's invariant and \<open>cap\<close> the number of
  frames that the pool can ever hold.  \<^verbatim>\<open>Allocator\<close> and \<^verbatim>\<open>Paging\<close> interpret it with the
  code's own operations.
\<close>

fun takes :: "('s \<Rightarrow> 'f \<times> 's) \<Rightarrow> nat \<Rightarrow> 's \<Rightarrow> 'f list \<times> 's" where
  "takes take_one 0 s = ([], s)"
| "takes take_one (Suc n) s =
     (let (f, s1) = take_one s; (fs, s2) = takes take_one n s1 in (f # fs, s2))"

datatype 'f frame_op = Take | Give 'f

text \<open>A run of requests, with the frames handed out in order.\<close>

fun frame_run :: "('s \<Rightarrow> 'f \<times> 's) \<Rightarrow> ('f \<Rightarrow> 's \<Rightarrow> 's) \<Rightarrow> 'f frame_op list \<Rightarrow> 's \<Rightarrow> 'f list \<times> 's" where
  "frame_run take_one give [] s = ([], s)"
| "frame_run take_one give (Take # ops) s =
     (let (f, s1) = take_one s; (fs, s2) = frame_run take_one give ops s1 in (f # fs, s2))"
| "frame_run take_one give (Give f # ops) s = frame_run take_one give ops (give f s)"

text \<open>The same run on the abstract queue; \<^const>\<open>None\<close> where a request leaves the contract.\<close>

fun queue_run :: "nat \<Rightarrow> 'f frame_op list \<Rightarrow> 'f list \<Rightarrow> ('f list \<times> 'f list) option" where
  "queue_run cap [] q = Some ([], q)"
| "queue_run cap (Take # ops) [] = None"
| "queue_run cap (Take # ops) (f # q) = map_option (\<lambda>(fs, r). (f # fs, r)) (queue_run cap ops q)"
| "queue_run cap (Give f # ops) q =
     (if q \<noteq> [] \<and> length q < cap then queue_run cap ops (q @ [f]) else None)"

locale frame_queue =
  fixes take_one :: "'s \<Rightarrow> 'f \<times> 's"
    and give :: "'f \<Rightarrow> 's \<Rightarrow> 's"
    and free :: "'s \<Rightarrow> 'f list"
    and ok :: "'s \<Rightarrow> bool"
    and cap :: nat
  assumes take_law: "ok s \<Longrightarrow> free s = f # q \<Longrightarrow>
      fst (take_one s) = f \<and> free (snd (take_one s)) = q \<and> ok (snd (take_one s))"
    and give_law: "ok s \<Longrightarrow> free s \<noteq> [] \<Longrightarrow> length (free s) < cap \<Longrightarrow>
      free (give f s) = free s @ [f] \<and> ok (give f s)"
    and cap_law: "ok s \<Longrightarrow> length (free s) \<le> cap"
begin

lemma takes_prefix:
  "ok s \<Longrightarrow> n \<le> length (free s) \<Longrightarrow>
     fst (takes take_one n s) = take n (free s)
     \<and> free (snd (takes take_one n s)) = drop n (free s) \<and> ok (snd (takes take_one n s))"
proof (induction n arbitrary: s)
  case 0
  then show ?case by simp
next
  case (Suc n)
  then obtain f q where q: "free s = f # q" by (cases "free s") auto
  from take_law [OF Suc.prems(1) q] Suc.IH [of "snd (take_one s)"] Suc.prems(2) q
  show ?case by (auto simp: Let_def split: prod.splits)
qed

text \<open>Frames handed out one after the other are different as long as the queue has no duplicate.\<close>

lemma takes_distinct:
  "ok s \<Longrightarrow> n \<le> length (free s) \<Longrightarrow> distinct (free s) \<Longrightarrow>
     distinct (fst (takes take_one n s))
     \<and> set (fst (takes take_one n s)) \<inter> set (free (snd (takes take_one n s))) = {}"
  using takes_prefix [of s n] distinct_append [of "take n (free s)" "drop n (free s)"] by simp

text \<open>A returned frame is handed out again only after every frame that was free before it.\<close>

lemma give_then_drain:
  assumes "ok s" "free s \<noteq> []" "length (free s) < cap"
  shows "fst (takes take_one (Suc (length (free s))) (give f s)) = free s @ [f]"
  using give_law [OF assms, of f] takes_prefix [of "give f s" "Suc (length (free s))"] by simp

text \<open>Every run that stays within the contract behaves as the abstract queue.\<close>

lemma run_refines:
  "ok s \<Longrightarrow> queue_run cap ops (free s) = Some (fs, q) \<Longrightarrow>
     fst (frame_run take_one give ops s) = fs \<and> free (snd (frame_run take_one give ops s)) = q
     \<and> ok (snd (frame_run take_one give ops s))"
proof (induction ops arbitrary: s fs)
  case Nil
  then show ?case by simp
next
  case (Cons a ops)
  show ?case
  proof (cases a)
    case Take
    with Cons.prems obtain f r where r: "free s = f # r" by (cases "free s") auto
    from take_law [OF Cons.prems(1) r] Cons.IH [of "snd (take_one s)"] Cons.prems(2) Take r
    show ?thesis by (fastforce simp: Let_def split: prod.splits)
  next
    case (Give f)
    with Cons.prems have c: "free s \<noteq> []" "length (free s) < cap"
      and run: "queue_run cap ops (free s @ [f]) = Some (fs, q)" by (auto split: if_splits)
    from give_law [OF Cons.prems(1) c, of f] Cons.IH [of "give f s"] run Give
    show ?thesis by simp
  qed
qed

end

end
