(* ===== verification/Allocator.thy ===== *)
theory Allocator
  imports Frame_Queue
begin

text \<open>
  \<^verbatim>\<open>sys/allocator.c\<close>: the physical page allocator.  Its state is a linked list of
  \<^verbatim>\<open>struct free_list\<close> nodes, one per page frame, and three pointers into it.  The heap of
  nodes is a total map from addresses to nodes: before paging the kernel may write at any
  physical address (address 0 included, which the code does), and afterwards it reaches the
  nodes through the kernel mapping.  The record \<^verbatim>\<open>kmem\<close> also holds the page-table memory used
  by \<^verbatim>\<open>sys/virtualmem.c\<close>, because \<^verbatim>\<open>bump\<close> maps the page that it returns.
\<close>

section \<open>State\<close>

record free_list =
  fl_current :: u64
  fl_next :: u64

record kmem =
  fl :: "u64 \<Rightarrow> free_list"
  head_free :: u64
  head_end :: u64
  head_unalloc :: u64
  unallocated :: u64
  pool_end :: u64
  number_of_free_pages :: u64
  num_of_pages :: u64
  pml4t_t :: u64
  ptmem :: "u64 \<Rightarrow> u64"

definition KERNBASE :: u64 where
  "KERNBASE = 0xffffffff80000000"

definition USERBASE :: u64 where
  "USERBASE = 0xFFFFCCCC00000000"

definition set_next :: "u64 \<Rightarrow> u64 \<Rightarrow> 'a kmem_scheme \<Rightarrow> 'a kmem_scheme" where
  "set_next a v s = s\<lparr>fl := (fl s)(a := (fl s a)\<lparr>fl_next := v\<rparr>)\<rparr>"

definition set_current :: "u64 \<Rightarrow> u64 \<Rightarrow> 'a kmem_scheme \<Rightarrow> 'a kmem_scheme" where
  "set_current a v s = s\<lparr>fl := (fl s)(a := (fl s a)\<lparr>fl_current := v\<rparr>)\<rparr>"

abbreviation next_of :: "'a kmem_scheme \<Rightarrow> u64 \<Rightarrow> u64" where
  "next_of s \<equiv> (\<lambda>a. fl_next (fl s a))"

section \<open>Building the list at boot\<close>

text \<open>
  The \<^verbatim>\<open>for\<close> loop of \<^verbatim>\<open>initbump\<close>, with \<open>i\<close> the page, \<open>j\<close> the address of its node and \<open>k\<close> the
  number of nodes written, an \<^verbatim>\<open>int\<close> that wraps around; the loop does not return when \<open>i\<close> wraps around.
\<close>

partial_function (option) initbump_loop ::
    "u64 \<Rightarrow> u64 \<Rightarrow> u64 \<Rightarrow> u32 \<Rightarrow> 'a kmem_scheme \<Rightarrow> (u32 \<times> 'a kmem_scheme) option" where
  "initbump_loop physend i j k s =
     (if i \<le> physend - 4096
      then initbump_loop physend (i + 4096) (j + 16) (k + 1)
             (s\<lparr>fl := (fl s)(j := (fl s j)\<lparr>fl_current := i,
                                            fl_next := (if i \<noteq> physend - 4096 then j + 16 else 0)\<rparr>)\<rparr>)
      else Some (k, s))"

text \<open>The number of frames that the nodes themselves occupy (16 bytes per node).\<close>

definition int_pages :: "u32 \<Rightarrow> int" where
  "int_pages k = (let n = sint (k * 16); l = n sdiv 4096 in if l * 4096 < n then l + 1 else l)"

text \<open>The same for a number of nodes that does not overflow.\<close>

definition node_pages :: "nat \<Rightarrow> nat" where
  "node_pages k = (let l = (k * 16) div 4096 in if l * 4096 < k * 16 then Suc l else l)"

fun skip_nodes :: "nat \<Rightarrow> 'a kmem_scheme \<Rightarrow> 'a kmem_scheme" where
  "skip_nodes 0 s = s"
| "skip_nodes (Suc l) s = skip_nodes l (s\<lparr>head_free := fl_next (fl s (head_free s))\<rparr>)"

definition initbump :: "u64 \<Rightarrow> u64 \<Rightarrow> u64 \<Rightarrow> 'a kmem_scheme \<Rightarrow> 'a kmem_scheme option" where
  "initbump physbase physfree physend s =
     do { (k, s1) \<leftarrow> initbump_loop physend physfree physfree 0
                      (s\<lparr>unallocated := physfree, pool_end := physend, head_free := physfree\<rparr>);
          let l = int_pages k;
          Some (skip_nodes (unat (word_of_int l :: u32)) (s1\<lparr>number_of_free_pages := word_of_int (sint (k - word_of_int l))\<rparr>)) }"

text \<open>
  Turning paging on makes the nodes, so far reached at their physical addresses, reachable
  at \<^const>\<open>KERNBASE\<close> plus that address (\<^verbatim>\<open>main.c\<close>, the writes to cr3 and cr0).
\<close>

definition enable_paging :: "'a kmem_scheme \<Rightarrow> 'a kmem_scheme" where
  "enable_paging s = s\<lparr>fl := (\<lambda>a. fl s (a - KERNBASE))\<rparr>"

partial_function (option) rebase_loop :: "u64 \<Rightarrow> 'a kmem_scheme \<Rightarrow> (u64 \<times> 'a kmem_scheme) option" where
  "rebase_loop temp_free s =
     (if fl_next (fl s temp_free) \<noteq> 0
      then let s' = set_next temp_free (fl_next (fl s temp_free) + KERNBASE) s
           in rebase_loop (fl_next (fl s' temp_free)) s'
      else Some (temp_free, s))"

definition init_after_paging :: "'a kmem_scheme \<Rightarrow> 'a kmem_scheme option" where
  "init_after_paging s =
     do { let s = s\<lparr>head_free := head_free s + KERNBASE\<rparr>;
          (temp_free, s) \<leftarrow> rebase_loop (head_free s) s;
          Some (s\<lparr>head_end := temp_free, head_unalloc := temp_free\<rparr>) }"

section \<open>Allocation\<close>

definition count_pages :: "u64 \<Rightarrow> u64" where
  "count_pages sz = (let n = sz div 4096 in if n * 4096 < sz then n + 1 else n)"

text \<open>One turn of the \<^verbatim>\<open>while (num_of_pages != 0)\<close> loop that all four allocators share.\<close>

definition bump_step :: "'a kmem_scheme \<Rightarrow> 'a kmem_scheme" where
  "bump_step s =
     (let temp_free = head_free s;
          s = s\<lparr>head_free := fl_next (fl s (head_free s))\<rparr>;
          s = set_next (head_end s) temp_free s;
          s = s\<lparr>head_end := fl_next (fl s (head_end s))\<rparr>;
          s = set_next (head_end s) 0 s
      in s\<lparr>num_of_pages := num_of_pages s - 1,
           number_of_free_pages := number_of_free_pages s - 1\<rparr>)"

lemma num_of_pages_bump_step [simp]: "num_of_pages (bump_step s) = num_of_pages s - 1"
  by (simp add: bump_step_def Let_def set_next_def)

function bump_loop :: "'a kmem_scheme \<Rightarrow> 'a kmem_scheme" where
  "bump_loop s = (if num_of_pages s \<noteq> 0 then bump_loop (bump_step s) else s)"
  by pat_completeness auto
termination
  by (relation "measure (\<lambda>s. unat (num_of_pages s))") (auto simp: unat_minus_one unat_gt_0)

declare bump_loop.simps [simp del]

definition grab :: "u64 \<Rightarrow> 'a kmem_scheme \<Rightarrow> u64 option \<times> 'a kmem_scheme" where
  "grab sz s =
     (let s = s\<lparr>num_of_pages := count_pages sz\<rparr> in
      if number_of_free_pages s < num_of_pages s then (None, s)
      else (Some (fl_current (fl s (head_free s))), bump_loop s))"

definition bump_initial :: "u64 \<Rightarrow> 'a kmem_scheme \<Rightarrow> u64 \<times> 'a kmem_scheme" where
  "bump_initial sz s =
     (case grab sz s of (None, s) \<Rightarrow> (0, s) | (Some ret, s) \<Rightarrow> (ret + KERNBASE, s))"

definition bump_user :: "u64 \<Rightarrow> 'a kmem_scheme \<Rightarrow> u64 \<times> 'a kmem_scheme" where
  "bump_user sz s =
     (case grab sz s of (None, s) \<Rightarrow> (0, s) | (Some ret, s) \<Rightarrow> (ret + USERBASE, s))"

definition bump_physical :: "u64 \<Rightarrow> 'a kmem_scheme \<Rightarrow> u64 \<times> 'a kmem_scheme" where
  "bump_physical sz s =
     (case grab sz s of (None, s) \<Rightarrow> (0, s) | (Some ret, s) \<Rightarrow> (ret, s))"

definition get_unallocated :: "'a kmem_scheme \<Rightarrow> u64" where
  "get_unallocated s = fl_current (fl s (head_free s))"

definition get_num_free :: "'a kmem_scheme \<Rightarrow> u64" where
  "get_num_free s = number_of_free_pages s"

text \<open>The two halves of \<^verbatim>\<open>kfree\<close> around its call of \<^verbatim>\<open>unmap_page\<close>: which frame a pointer names,
  and the return of that frame to the list.\<close>

definition freed_phys :: "u64 \<Rightarrow> u64" where
  "freed_phys p =
     (if p AND KERNBASE = KERNBASE then p - KERNBASE
      else if p AND USERBASE = USERBASE then p - USERBASE
      else p)"

definition release :: "u64 \<Rightarrow> 'a kmem_scheme \<Rightarrow> 'a kmem_scheme" where
  "release phy_address s =
     (let s = s\<lparr>head_unalloc := fl_next (fl s (head_unalloc s))\<rparr>;
          s = set_current (head_unalloc s) phy_address s
      in s\<lparr>number_of_free_pages := number_of_free_pages s + 1\<rparr>)"

section \<open>The list as a ring of nodes\<close>

text \<open>All nodes of the list in order, from \<^verbatim>\<open>head_free\<close> to \<^verbatim>\<open>head_end\<close>.\<close>

definition ring :: "'a kmem_scheme \<Rightarrow> u64 list \<Rightarrow> bool" where
  "ring s ns \<longleftrightarrow> chain (next_of s) (head_free s) ns 0 \<and> distinct ns \<and> 2 \<le> length ns
     \<and> head_end s = last ns"

text \<open>
  The invariant of the allocator after boot: the first nodes carry the free frames, the
  others wait for a frame to be freed, and \<^verbatim>\<open>head_unalloc\<close> is the last carrier in use.
\<close>

definition fl_inv :: "'a kmem_scheme \<Rightarrow> u64 list \<Rightarrow> u64 list \<Rightarrow> bool" where
  "fl_inv s fs us \<longleftrightarrow> ring s (fs @ us) \<and> unat (number_of_free_pages s) = length fs
     \<and> (fs \<noteq> [] \<longrightarrow> head_unalloc s = last fs)"

text \<open>What the list stands for: the queue of free frames.\<close>

definition frames :: "'a kmem_scheme \<Rightarrow> u64 list \<Rightarrow> u64 list" where
  "frames s fs = map (\<lambda>a. fl_current (fl s a)) fs"

lemma fl_current_set_next [simp]: "fl_current (fl (set_next a v s) b) = fl_current (fl s b)"
  by (simp add: set_next_def)

lemma fl_next_set_next [simp]:
  "fl_next (fl (set_next a v s) b) = (if b = a then v else fl_next (fl s b))"
  by (simp add: set_next_def)

lemma set_next_fields [simp]:
  "head_free (set_next a v s) = head_free s" "head_end (set_next a v s) = head_end s"
  "head_unalloc (set_next a v s) = head_unalloc s"
  "number_of_free_pages (set_next a v s) = number_of_free_pages s"
  "num_of_pages (set_next a v s) = num_of_pages s"
  "pml4t_t (set_next a v s) = pml4t_t s" "ptmem (set_next a v s) = ptmem s"
  by (simp_all add: set_next_def)

lemma bump_step_fields [simp]:
  "fl_current (fl (bump_step s) a) = fl_current (fl s a)"
  "number_of_free_pages (bump_step s) = number_of_free_pages s - 1"
  "head_unalloc (bump_step s) = head_unalloc s"
  "pml4t_t (bump_step s) = pml4t_t s" "ptmem (bump_step s) = ptmem s"
  by (simp_all add: bump_step_def Let_def)

lemma ring_bump_step:
  assumes "ring s (x # xs)"
  shows "ring (bump_step s) (xs @ [x])"
proof -
  from assms have hd: "head_free s = x" and x0: "x \<noteq> 0"
    and ch: "chain (next_of s) (fl_next (fl s x)) xs 0"
    and d: "distinct (x # xs)" and xs: "xs \<noteq> []" and he: "head_end s = last xs"
    by (auto simp: ring_def)
  obtain ys y where ys: "xs = ys @ [y]" using xs by (cases xs rule: rev_cases) auto
  have y: "head_end s = y" "y \<noteq> x" "y \<notin> set ys" "y \<noteq> 0" "x \<notin> set ys"
    using he d ch ys by (auto simp: chain_append)
  have hy: "fl_next (fl s x) = hd (ys @ [y])"
    using ch ys by (cases ys) auto
  have nx: "next_of (bump_step s) = (next_of s)(y := x, x := 0)"
    using hd y by (auto simp: bump_step_def Let_def fun_eq_iff)
  have hf: "head_free (bump_step s) = fl_next (fl s x)"
    and hend: "head_end (bump_step s) = x"
    using hd y by (simp_all add: bump_step_def Let_def)
  have "chain (next_of (bump_step s)) (fl_next (fl s x)) ys y"
    using ch ys y by (auto simp: nx chain_append)
  then have "chain (next_of (bump_step s)) (fl_next (fl s x)) (xs @ [x]) 0"
    using y x0 ys by (auto simp: nx chain_append)
  with hf hend d xs show ?thesis
    by (cases xs) (auto simp: ring_def)
qed

lemma ring_bump_loop:
  "ring s ns \<Longrightarrow> ring (bump_loop s) (rotate (unat (num_of_pages s)) ns)"
proof (induction s arbitrary: ns rule: bump_loop.induct)
  case (1 s)
  show ?case
  proof (cases "num_of_pages s = 0")
    case True
    with 1 show ?thesis by (simp add: bump_loop.simps [of s])
  next
    case False
    obtain x xs where ns: "ns = x # xs" using "1.prems" by (cases ns) (auto simp: ring_def)
    have "ring (bump_step s) (rotate1 ns)"
      using "1.prems" ns by (simp add: ring_bump_step)
    with "1.IH" False have "ring (bump_loop (bump_step s))
        (rotate (unat (num_of_pages (bump_step s))) (rotate1 ns))" by blast
    moreover have "unat (num_of_pages s) = Suc (unat (num_of_pages s - 1))"
      using False by (simp add: unat_minus_one unat_gt_0)
    ultimately show ?thesis using False
      by (simp add: bump_loop.simps [of s] rotate1_rotate_swap)
  qed
qed

lemma bump_loop_fields [simp]:
  "fl_current (fl (bump_loop s) a) = fl_current (fl s a) \<and>
   number_of_free_pages (bump_loop s) = number_of_free_pages s - num_of_pages s \<and>
   head_unalloc (bump_loop s) = head_unalloc s \<and> num_of_pages (bump_loop s) = 0 \<and>
   pml4t_t (bump_loop s) = pml4t_t s \<and> ptmem (bump_loop s) = ptmem s"
proof (induction s rule: bump_loop.induct)
  case (1 s)
  then show ?case
    by (cases "num_of_pages s = 0") (simp_all add: bump_loop.simps [of s])
qed

lemma rotate_prefix: "n \<le> length xs \<Longrightarrow> rotate n (xs @ ys) = drop n xs @ ys @ take n xs"
  using rotate_append [of "take n xs" "drop n xs @ ys"]
  by (simp flip: append_assoc)

section \<open>Taking and returning frames\<close>

lemma count_pages_ceil: "unat (count_pages sz) = (unat sz + 4095) div 4096"
proof -
  define q where "q = unat sz div 4096"
  define e where "e = unat sz mod 4096"
  have m: "unat sz = 4096 * q + e" and e: "e < 4096" by (simp_all add: q_def e_def)
  have "unat sz < 2 ^ 64" using unsigned_less [of sz] by simp
  then have q: "q < 2 ^ 52" using m by simp
  have base: "unat (sz div 4096 * 4096) = q * 4096" and d: "unat (sz div 4096) = q"
    using q by (simp_all add: unat_word_ariths unat_div flip: q_def)
  have lt: "sz div 4096 * 4096 < sz \<longleftrightarrow> 0 < e"
    unfolding word_less_nat_alt base using m by simp
  show ?thesis
  proof (cases "e = 0")
    case True
    then show ?thesis using lt d m by (simp add: count_pages_def Let_def)
  next
    case False
    then have "(unat sz + 4095) div 4096 = Suc q" using m e by simp
    moreover have "unat (sz div 4096 + 1) = Suc q"
      using q d by (simp add: unat_word_ariths)
    ultimately show ?thesis using False lt by (simp add: count_pages_def Let_def)
  qed
qed

lemma count_pages_4096 [simp]: "count_pages 4096 = 1"
  by (simp add: count_pages_def)

lemma grab_success:
  assumes "fl_inv s fs us" and "unat (count_pages sz) \<le> length fs"
  defines "n \<equiv> unat (count_pages sz)"
  shows "\<exists>s'. grab sz s = (Some (fl_current (fl s (head_free s))), s')
     \<and> fl_inv s' (drop n fs) (us @ take n fs)
     \<and> (\<forall>a. fl_current (fl s' a) = fl_current (fl s a))
     \<and> ptmem s' = ptmem s \<and> pml4t_t s' = pml4t_t s"
proof -
  let ?t = "s\<lparr>num_of_pages := count_pages sz\<rparr>"
  have r: "ring ?t (fs @ us)" and nf: "unat (number_of_free_pages s) = length fs"
    and hu: "fs \<noteq> [] \<Longrightarrow> head_unalloc s = last fs"
    using assms(1) by (auto simp: fl_inv_def ring_def)
  have le: "count_pages sz \<le> number_of_free_pages s"
    using assms(2) nf by (simp add: word_le_nat_alt)
  from ring_bump_loop [OF r] have "ring (bump_loop ?t) (drop n fs @ us @ take n fs)"
    using assms(2) by (simp add: n_def rotate_prefix)
  moreover have "unat (number_of_free_pages s - count_pages sz) = length fs - n"
    using le nf by (simp add: unat_sub n_def)
  moreover have "drop n fs \<noteq> [] \<Longrightarrow> head_unalloc s = last (drop n fs)"
    using hu by (cases "fs = []") (auto simp: last_drop)
  ultimately show ?thesis using le
    by (auto simp: grab_def Let_def fl_inv_def)
qed

lemma grab_failure:
  assumes "fl_inv s fs us" and "length fs < unat (count_pages sz)"
  shows "grab sz s = (None, s\<lparr>num_of_pages := count_pages sz\<rparr>)"
  using assms by (auto simp: grab_def fl_inv_def word_less_nat_alt)

lemma fl_inv_head: "fl_inv s (a # fs) us \<Longrightarrow> head_free s = a"
  by (auto simp: fl_inv_def ring_def)

lemma length_ring_bound: "ring s ns \<Longrightarrow> length ns < 2 ^ 64"
proof -
  assume r: "ring s ns"
  then have "0 \<notin> set ns" using chain_nonnull [of "next_of s"] by (auto simp: ring_def)
  then have "set ns \<subset> UNIV" by auto
  then have "card (set ns) < card (UNIV :: u64 set)" by (intro psubset_card_mono) auto
  with r show ?thesis by (simp add: ring_def distinct_card card_word)
qed

lemma release_inv:
  assumes inv: "fl_inv s fs (u # us)" and ne: "fs \<noteq> []"
  shows "fl_inv (release p s) (fs @ [u]) us \<and>
     frames (release p s) (fs @ [u]) = frames s fs @ [p]"
proof -
  obtain ys y where ys: "fs = ys @ [y]" using ne by (cases fs rule: rev_cases) auto
  from inv have r: "ring s (fs @ u # us)" and nf: "unat (number_of_free_pages s) = length fs"
    and hu: "head_unalloc s = y"
    using ys by (auto simp: fl_inv_def)
  have nx: "fl_next (fl s y) = u" and dis: "u \<notin> set fs"
    using r ys by (auto simp: ring_def chain_append)
  have len: "length (fs @ u # us) < 2 ^ 64" by (rule length_ring_bound [OF r])
  have fl: "fl (release p s) = (fl s)(u := (fl s u)\<lparr>fl_current := p\<rparr>)"
    and hf: "head_free (release p s) = head_free s" "head_end (release p s) = head_end s"
      "head_unalloc (release p s) = u"
      "number_of_free_pages (release p s) = number_of_free_pages s + 1"
    using hu nx by (simp_all add: release_def set_current_def Let_def)
  have "next_of (release p s) = next_of s" by (auto simp: fl fun_eq_iff)
  then have "ring (release p s) ((fs @ [u]) @ us)"
    using r hf by (simp add: ring_def)
  moreover have "unat (number_of_free_pages s + 1) = Suc (length fs)"
    using nf len by (simp add: unat_word_ariths)
  moreover have "frames (release p s) fs = frames s fs"
    using dis by (auto simp: frames_def fl)
  ultimately show ?thesis using hf by (simp add: fl_inv_def frames_def fl)
qed

section \<open>The allocator as a queue of frames\<close>

text \<open>The addresses of the first \<open>n\<close> nodes from \<open>p\<close> on.\<close>

fun follow :: "'a kmem_scheme \<Rightarrow> nat \<Rightarrow> u64 \<Rightarrow> u64 list" where
  "follow s 0 p = []"
| "follow s (Suc n) p = p # follow s n (fl_next (fl s p))"

definition free_frames :: "'a kmem_scheme \<Rightarrow> u64 list" where
  "free_frames s = frames s (follow s (unat (number_of_free_pages s)) (head_free s))"

definition alloc_ok :: "nat \<Rightarrow> 'a kmem_scheme \<Rightarrow> bool" where
  "alloc_ok N s \<longleftrightarrow> (\<exists>fs us. fl_inv s fs us \<and> length fs + length us = N)"

lemma follow_chain: "chain (next_of s) p (xs @ ys) q \<Longrightarrow> follow s (length xs) p = xs"
  by (induction xs arbitrary: p) auto

lemma free_frames_eq: "fl_inv s fs us \<Longrightarrow> free_frames s = frames s fs"
  using follow_chain [of s "head_free s" fs us 0]
  by (simp add: free_frames_def fl_inv_def ring_def)

lemma frames_simps [simp]: "frames s [] = []" "frames s (a # fs) = fl_current (fl s a) # frames s fs"
  by (simp_all add: frames_def)

lemma length_frames [simp]: "length (frames s fs) = length fs"
  by (simp add: frames_def)

lemma frames_cong: "(\<And>a. fl_current (fl s' a) = fl_current (fl s a)) \<Longrightarrow> frames s' fs = frames s fs"
  by (simp add: frames_def)

lemma alloc_ok_frames: "alloc_ok n s \<Longrightarrow> length (free_frames s) \<le> n"
  by (auto simp: alloc_ok_def free_frames_eq)

text \<open>A request for \<open>n\<close> pages takes the first \<open>n\<close> frames off the queue and returns the first.\<close>

lemma grab_queue:
  assumes ok: "alloc_ok N s" and n: "n = unat (count_pages sz)" "n \<le> length (free_frames s)" "0 < n"
  shows "\<exists>s'. grab sz s = (Some (hd (free_frames s)), s') \<and> alloc_ok N s'
     \<and> free_frames s' = drop n (free_frames s) \<and> ptmem s' = ptmem s \<and> pml4t_t s' = pml4t_t s"
proof -
  from ok obtain fs us where inv: "fl_inv s fs us" and N: "length fs + length us = N"
    by (auto simp: alloc_ok_def)
  note ff = free_frames_eq [OF inv]
  from n inv obtain a as where fs: "fs = a # as" by (cases fs) (auto simp: ff)
  from grab_success [OF inv, of sz] n obtain s' where s':
    "grab sz s = (Some (fl_current (fl s (head_free s))), s')"
    "fl_inv s' (drop n fs) (us @ take n fs)"
    "\<And>a. fl_current (fl s' a) = fl_current (fl s a)" "ptmem s' = ptmem s" "pml4t_t s' = pml4t_t s"
    by (auto simp: ff)
  have "free_frames s' = drop n (free_frames s)"
    using free_frames_eq [OF s'(2)] s'(3) ff by (simp add: frames_def drop_map)
  moreover have "alloc_ok N s'" using s'(2) N n by (force simp: alloc_ok_def ff)
  ultimately show ?thesis using s' fl_inv_head [of s a as us] inv fs ff by auto
qed

lemma release_queue:
  assumes ok: "alloc_ok N s" and "free_frames s \<noteq> []" "length (free_frames s) < N"
  shows "free_frames (release p s) = free_frames s @ [p] \<and> alloc_ok N (release p s)"
proof -
  from ok obtain fs us where inv: "fl_inv s fs us" and N: "length fs + length us = N"
    by (auto simp: alloc_ok_def)
  note ff = free_frames_eq [OF inv]
  from assms ff N obtain u us' where us: "us = u # us'" by (cases us) auto
  have "fs \<noteq> []" using assms(2) ff by auto
  then have r: "fl_inv (release p s) (fs @ [u]) us'" "frames (release p s) (fs @ [u]) = frames s fs @ [p]"
    using release_inv [of s fs u us' p] inv us by auto
  then show ?thesis using free_frames_eq [OF r(1)] ff N us by (force simp: alloc_ok_def)
qed

interpretation frame_pool: frame_queue "bump_physical 4096" release free_frames "alloc_ok N" N for N
proof (unfold_locales, goal_cases)
  case (1 s f q)
  then show ?case using grab_queue [of N s 1 4096] by (auto simp: bump_physical_def)
next
  case (2 s f)
  then show ?case by (rule release_queue)
next
  case (3 s)
  then show ?case by (rule alloc_ok_frames)
qed

section \<open>Boot\<close>

text \<open>Node \<open>t\<close> of a pool of \<open>N\<close> pages that starts at \<open>pf\<close>: its address, page and contents.\<close>

definition node_addr :: "u64 \<Rightarrow> nat \<Rightarrow> u64" where
  "node_addr pf t = pf + 16 * of_nat t"

definition page_addr :: "u64 \<Rightarrow> nat \<Rightarrow> u64" where
  "page_addr pf t = pf + 4096 * of_nat t"

definition node_val :: "u64 \<Rightarrow> nat \<Rightarrow> nat \<Rightarrow> free_list" where
  "node_val pf N t = \<lparr>fl_current = page_addr pf t,
                      fl_next = (if Suc t < N then node_addr pf (Suc t) else 0)\<rparr>"

text \<open>A pool that does not wrap around the address space and does not start at 0.\<close>

definition pool_fits :: "u64 \<Rightarrow> nat \<Rightarrow> bool" where
  "pool_fits pf N \<longleftrightarrow> 0 < unat pf \<and> unat pf + 4096 * N < 2 ^ 64"

lemma unat_page_addr: "pool_fits pf N \<Longrightarrow> t \<le> N \<Longrightarrow> unat (page_addr pf t) = unat pf + 4096 * t"
  using unat_add_mult64 [of pf 4096 t] by (simp add: page_addr_def pool_fits_def)

lemma unat_node_addr: "pool_fits pf N \<Longrightarrow> t \<le> N \<Longrightarrow> unat (node_addr pf t) = unat pf + 16 * t"
  using unat_add_mult64 [of pf 16 t] by (simp add: node_addr_def pool_fits_def)

lemma node_addr_inj:
  assumes "pool_fits pf N" "t \<le> N" "u \<le> N"
  shows "node_addr pf t = node_addr pf u \<longleftrightarrow> t = u"
proof
  assume "node_addr pf t = node_addr pf u"
  then have "unat pf + 16 * t = unat pf + 16 * u"
    using unat_node_addr [OF assms(1,2)] unat_node_addr [OF assms(1,3)] by metis
  then show "t = u" by simp
qed simp

lemma page_addr_inj:
  assumes "pool_fits pf N" "t \<le> N" "u \<le> N"
  shows "page_addr pf t = page_addr pf u \<longleftrightarrow> t = u"
proof
  assume "page_addr pf t = page_addr pf u"
  then have "unat pf + 4096 * t = unat pf + 4096 * u"
    using unat_page_addr [OF assms(1,2)] unat_page_addr [OF assms(1,3)] by metis
  then show "t = u" by simp
qed simp

lemma node_addr_nonnull: "pool_fits pf N \<Longrightarrow> t \<le> N \<Longrightarrow> node_addr pf t \<noteq> 0"
  using unat_node_addr [of pf N t] by (auto simp: pool_fits_def)

definition write_node :: "u64 \<Rightarrow> nat \<Rightarrow> nat \<Rightarrow> (u64 \<Rightarrow> free_list) \<Rightarrow> (u64 \<Rightarrow> free_list)" where
  "write_node pf N t f = f(node_addr pf t := node_val pf N t)"

lemma page_addr_Suc: "page_addr pf t + 4096 = page_addr pf (Suc t)"
  by (simp add: page_addr_def algebra_simps)

lemma node_addr_Suc: "node_addr pf t + 16 = node_addr pf (Suc t)"
  by (simp add: node_addr_def algebra_simps)

lemma free_list_overwritten [simp]:
  "(r :: free_list)\<lparr>fl_current := a, fl_next := b\<rparr> = \<lparr>fl_current = a, fl_next = b\<rparr>"
  by (cases r) simp

lemma initbump_loop_run:
  assumes fits: "pool_fits pf N" and N: "0 < N"
  shows "m \<le> N \<Longrightarrow> initbump_loop (page_addr pf N) (page_addr pf m) (node_addr pf m) k s =
     Some (k + of_nat (N - m), s\<lparr>fl := fold (write_node pf N) [m..<N] (fl s)\<rparr>)"
proof (induction "N - m" arbitrary: m k s)
  case 0
  have last: "page_addr pf N - 4096 = page_addr pf (N - Suc 0)"
    using page_addr_Suc [of pf "N - 1"] N by (simp add: diff_eq_eq)
  have "\<not> page_addr pf N \<le> page_addr pf (N - Suc 0)"
    using fits N by (simp add: word_le_nat_alt unat_page_addr)
  moreover have "m = N" using 0 by simp
  ultimately show ?case by (subst initbump_loop.simps) (simp add: last)
next
  case (Suc d)
  then have m: "m < N" "Suc m \<le> N" "d = N - Suc m" by auto
  have last: "page_addr pf N - 4096 = page_addr pf (N - Suc 0)"
    using page_addr_Suc [of pf "N - 1"] N by (simp add: diff_eq_eq)
  have le: "page_addr pf m \<le> page_addr pf (N - Suc 0)"
    using fits m by (simp add: word_le_nat_alt unat_page_addr)
  have eq: "page_addr pf m = page_addr pf (N - Suc 0) \<longleftrightarrow> \<not> Suc m < N"
    using page_addr_inj [OF fits, of m "N - 1"] m by auto
  have "initbump_loop (page_addr pf N) (page_addr pf m) (node_addr pf m) k s =
      initbump_loop (page_addr pf N) (page_addr pf (Suc m)) (node_addr pf (Suc m)) (k + 1)
        (s\<lparr>fl := write_node pf N m (fl s)\<rparr>)"
    using le by (subst initbump_loop.simps)
      (simp add: last page_addr_Suc node_addr_Suc eq write_node_def node_val_def)
  also have "\<dots> = Some (k + 1 + of_nat (N - Suc m),
      s\<lparr>fl := fold (write_node pf N) [Suc m..<N] (write_node pf N m (fl s))\<rparr>)"
    using Suc.hyps(1) [OF m(3) m(2), of "k + 1" "s\<lparr>fl := write_node pf N m (fl s)\<rparr>"] by simp
  also have "k + 1 + of_nat (N - Suc m) = k + of_nat (N - m)"
    using m(1) by (simp add: Suc_diff_Suc [symmetric])
  finally show ?case using m(1) by (simp add: upt_conv_Cons)
qed

lemma fold_write_node_at:
  assumes "pool_fits pf N" "n \<le> N" "m \<le> t" "t < n"
  shows "fold (write_node pf N) [m..<n] f (node_addr pf t) = node_val pf N t"
  using assms(2-)
proof (induction n)
  case 0
  then show ?case by simp
next
  case (Suc n)
  then show ?case
    using node_addr_inj [OF assms(1), of t n]
    by (auto simp: write_node_def)
qed

definition node_list :: "u64 \<Rightarrow> nat \<Rightarrow> nat \<Rightarrow> u64 list" where
  "node_list pf l N = map (node_addr pf) [l..<N]"

lemma node_list_chain:
  assumes fits: "pool_fits pf N"
    and heap: "\<And>t. m \<le> t \<Longrightarrow> t < N \<Longrightarrow> h (node_addr pf t) = node_val pf N t"
  shows "m \<le> l \<Longrightarrow> l < N \<Longrightarrow> chain (\<lambda>a. fl_next (h a)) (node_addr pf l) (node_list pf l N) 0"
proof (induction "N - l" arbitrary: l)
  case 0
  then show ?case by simp
next
  case (Suc d)
  show ?case
  proof (cases "Suc l < N")
    case True
    with Suc have "chain (\<lambda>a. fl_next (h a)) (node_addr pf (Suc l)) (node_list pf (Suc l) N) 0" by auto
    then show ?thesis using True Suc.prems heap [of l] node_addr_nonnull [OF fits, of l]
      by (simp add: node_list_def upt_conv_Cons node_val_def)
  next
    case False
    with Suc.prems have "N = Suc l" by simp
    then show ?thesis using heap [of l] Suc.prems node_addr_nonnull [OF fits, of l]
      by (simp add: node_list_def upt_conv_Cons node_val_def)
  qed
qed

lemma skip_nodes_run:
  assumes fits: "pool_fits pf N" and heap: "\<And>t. t < N \<Longrightarrow> fl s (node_addr pf t) = node_val pf N t"
  shows "m + l < N \<Longrightarrow> head_free s = node_addr pf m \<Longrightarrow>
     skip_nodes l s = s\<lparr>head_free := node_addr pf (m + l)\<rparr>"
  using heap
proof (induction l arbitrary: m s)
  case 0
  then show ?case by simp
next
  case (Suc l)
  let ?s = "s\<lparr>head_free := node_addr pf (Suc m)\<rparr>"
  have "fl_next (fl s (head_free s)) = node_addr pf (Suc m)"
    using Suc.prems by (simp add: node_val_def)
  moreover have "skip_nodes l ?s = ?s\<lparr>head_free := node_addr pf (Suc m + l)\<rparr>"
    by (rule Suc.IH) (use Suc.prems in auto)
  ultimately show ?case by simp
qed

lemma node_pages_ceil: "node_pages k = (k + 255) div 256"
proof -
  define q where "q = k div 256"
  define e where "e = k mod 256"
  have k: "k = 256 * q + e" and e: "e < 256" by (simp_all add: q_def e_def)
  then have "(k * 16) div 4096 = q" by simp
  then have "node_pages k = (if e = 0 then q else Suc q)"
    using k by (simp add: node_pages_def)
  moreover have "(k + 255) div 256 = (if e = 0 then q else Suc q)"
    using k e by (auto intro!: div_nat_eqI)
  ultimately show ?thesis by simp
qed

lemma node_pages_less: "2 \<le> k \<Longrightarrow> node_pages k < k"
  unfolding node_pages_ceil by (simp add: div_less_iff_less_mult)

lemma int_pages_count:
  assumes "N \<le> 2 ^ 19"
  shows "int_pages (of_nat N) = int (node_pages N)" "sint (of_nat N :: u32) = int N"
proof -
  have s: "sint (of_nat n :: u32) = int n" if "n < 2 ^ 31" for n
  proof -
    have "uint (of_nat n :: u32) = int n" using that by (simp add: uint_nat unat_of_nat take_bit_nat_eq_self)
    then show ?thesis using that sint_eq_uint_small [of "of_nat n"] by simp
  qed
  have "sint (of_nat N * 16 :: u32) = int (N * 16)" using s [of "N * 16"] assms by (simp add: mult.commute)
  moreover have "int (N * 16) sdiv 4096 = int (N * 16 div 4096)" by (cases "N = 0") (simp_all add: signed_divide_int_def zdiv_int)
  ultimately show "int_pages (of_nat N) = int (node_pages N)"
    unfolding int_pages_def node_pages_def Let_def by (simp del: of_nat_mult)
  show "sint (of_nat N :: u32) = int N" using s [of N] assms by simp
qed

lemma initbump_run:
  assumes fits: "pool_fits pf N" and N: "2 \<le> N" "N \<le> 2 ^ 19"
  shows "\<exists>s'. initbump pb pf (page_addr pf N) s = Some s'
     \<and> head_free s' = node_addr pf (node_pages N) \<and> head_end s' = head_end s
     \<and> unat (number_of_free_pages s') = N - node_pages N
     \<and> (\<forall>t < N. fl s' (node_addr pf t) = node_val pf N t)"
proof -
  let ?s0 = "s\<lparr>unallocated := pf, pool_end := page_addr pf N, head_free := pf\<rparr>"
  let ?s1 = "?s0\<lparr>fl := fold (write_node pf N) [0..<N] (fl s)\<rparr>"
  let ?l = "node_pages N"
  let ?s2 = "?s1\<lparr>number_of_free_pages := word_of_int (int N - int ?l)\<rparr>"
  have l: "?l < N" using N(1) by (rule node_pages_less)
  have u: "unat (word_of_int (int N - int ?l) :: u64) = N - ?l"
    using l N(2) unat_of_nat64 [of "N - ?l"] by (simp add: of_nat_diff)
  have li: "unat (of_nat ?l :: u32) = ?l" using l N(2) by (simp add: unat_of_nat take_bit_nat_eq_self)
  have "of_nat N - of_nat ?l = (of_nat (N - ?l) :: u32)" using l by (simp add: of_nat_diff)
  then have "sint (of_nat N - of_nat ?l :: u32) = int N - int ?l"
    using int_pages_count(2) [of "N - ?l"] l N(2) by (simp add: of_nat_diff)
  then have diff: "(word_of_int (sint (of_nat N - of_nat ?l :: u32)) :: u64) = word_of_int (int N - int ?l)" by (simp only:)
  have "page_addr pf 0 = pf" "node_addr pf 0 = pf" by (simp_all add: page_addr_def node_addr_def)
  with initbump_loop_run [OF fits, of 0 0 ?s0] N
  have loop: "initbump_loop (page_addr pf N) pf pf 0 ?s0 = Some (of_nat N, ?s1)" by simp
  have heap: "fl ?s2 (node_addr pf t) = node_val pf N t" if "t < N" for t
    using fold_write_node_at [OF fits, of N 0 t] that by simp
  have "skip_nodes ?l ?s2 = ?s2\<lparr>head_free := node_addr pf (0 + ?l)\<rparr>"
    by (rule skip_nodes_run [OF fits heap]) (use l \<open>node_addr pf 0 = pf\<close> in auto)
  then show ?thesis using loop u heap li diff
    by (simp add: initbump_def Let_def int_pages_count(1) [OF N(2)])
qed

text \<open>
  \<^verbatim>\<open>init_after_paging\<close> walks the list through the kernel mapping while it rewrites the
  pointers: the nodes it reaches are the physical ones shifted by \<^const>\<open>KERNBASE\<close>.
\<close>

definition kva :: "u64 \<Rightarrow> u64" where
  "kva p = p + KERNBASE"

lemma kva_inj [simp]: "kva p = kva q \<longleftrightarrow> p = q"
  by (simp add: kva_def)

lemma rebase_loop_run:
  assumes "chain (\<lambda>a. fl_next (fl s (kva a))) p ps 0" "ps \<noteq> []" "distinct ps"
    "\<And>a. a \<in> set ps \<Longrightarrow> kva a \<noteq> 0"
  shows "\<exists>s'. rebase_loop (kva p) s = Some (kva (last ps), s')
     \<and> chain (next_of s') (kva p) (map kva ps) 0
     \<and> (\<forall>a. a \<notin> set ps \<longrightarrow> fl s' (kva a) = fl s (kva a))
     \<and> (\<forall>a. fl_current (fl s' a) = fl_current (fl s a))
     \<and> s'\<lparr>fl := fl s\<rparr> = s"
  using assms
proof (induction ps arbitrary: p s)
  case Nil
  then show ?case by simp
next
  case (Cons a ps)
  then have p: "p = a" and a0: "kva a \<noteq> 0" by auto
  show ?case
  proof (cases "ps = []")
    case True
    with Cons.prems p a0 show ?thesis by (subst rebase_loop.simps) auto
  next
    case False
    then obtain b qs where ps: "ps = b # qs" by (cases ps) auto
    let ?s = "set_next (kva a) (kva b) s"
    have nx: "fl_next (fl s (kva a)) = b" and b0: "b \<noteq> 0"
      using Cons.prems(1) p ps by auto
    have "chain (\<lambda>x. fl_next (fl ?s (kva x))) b ps 0"
      using Cons.prems(1,3) p nx
      by (subst chain_cong [where g = "\<lambda>x. fl_next (fl s (kva x))"]) auto
    from Cons.IH [OF this False] Cons.prems obtain s' where s':
      "rebase_loop (kva b) ?s = Some (kva (last ps), s')"
      "chain (next_of s') (kva b) (map kva ps) 0"
      "\<forall>x. x \<notin> set ps \<longrightarrow> fl s' (kva x) = fl ?s (kva x)"
      "\<forall>x. fl_current (fl s' x) = fl_current (fl ?s x)" "s'\<lparr>fl := fl ?s\<rparr> = ?s" by auto
    have step: "rebase_loop (kva p) s = rebase_loop (kva b) ?s"
      using p nx b0 by (subst rebase_loop.simps) (simp add: kva_def Let_def)
    have frame: "s'\<lparr>fl := fl s\<rparr> = s"
    proof -
      have "s'\<lparr>fl := fl s\<rparr> = (s'\<lparr>fl := fl ?s\<rparr>)\<lparr>fl := fl s\<rparr>" by simp
      also have "\<dots> = s" unfolding s'(5) by (simp add: set_next_def)
      finally show ?thesis .
    qed
    have "fl_next (fl s' (kva a)) = kva b" using s'(3) Cons.prems(3) by simp
    moreover have "\<forall>x. x \<notin> set (a # ps) \<longrightarrow> fl s' (kva x) = fl s (kva x)"
      using s'(3) by (auto simp: set_next_def)
    ultimately show ?thesis using step s' p a0 ps frame
      by (intro exI [of _ s']) auto
  qed
qed

lemma distinct_node_list: "pool_fits pf N \<Longrightarrow> distinct (node_list pf l N)"
  by (auto simp: node_list_def distinct_map inj_on_def node_addr_inj)

text \<open>
  Between \<^verbatim>\<open>initbump\<close> and the switch to paging, \<^verbatim>\<open>start\<close> allocates its page tables with
  \<^verbatim>\<open>bump_initial\<close> while \<^verbatim>\<open>head_end\<close> is still null: the nodes it takes form a list of their
  own (whose first link is written at address 0) and are lost to the pool.
\<close>

definition early_inv :: "u64 \<Rightarrow> nat \<Rightarrow> nat \<Rightarrow> 'a kmem_scheme \<Rightarrow> bool" where
  "early_inv pf N l s \<longleftrightarrow> l < N \<and> head_free s = node_addr pf l
     \<and> unat (number_of_free_pages s) = N - l
     \<and> (\<forall>t. l \<le> t \<and> t < N \<longrightarrow> fl s (node_addr pf t) = node_val pf N t \<and> head_end s \<noteq> node_addr pf t)"

lemma early_bump_step:
  assumes fits: "pool_fits pf N" and inv: "early_inv pf N l s" and l: "Suc l < N"
  shows "early_inv pf N (Suc l) (bump_step s)"
proof -
  have he: "head_end s \<noteq> node_addr pf t" if "l \<le> t" "t < N" for t
    using inv that by (simp add: early_inv_def)
  have v: "fl s (node_addr pf l) = node_val pf N l" "head_free s = node_addr pf l"
    using inv by (auto simp: early_inv_def)
  have hf: "head_free (bump_step s) = node_addr pf (Suc l)" "head_end (bump_step s) = node_addr pf l"
    using v l by (simp_all add: bump_step_def Let_def node_val_def)
  have keep: "fl (bump_step s) (node_addr pf t) = fl s (node_addr pf t)" if "l < t" "t < N" for t
    using he [of t] that node_addr_inj [OF fits, of t l] v
    by (auto simp: bump_step_def Let_def set_next_def)
  have "unat (number_of_free_pages s - 1) = N - Suc l"
  proof -
    have "unat (number_of_free_pages s) = N - l" "l < N" using inv by (auto simp: early_inv_def)
    moreover from this have "number_of_free_pages s \<noteq> 0" by auto
    ultimately show ?thesis by (simp add: unat_minus_one)
  qed
  then show ?thesis using hf keep l inv node_addr_inj [OF fits, of l]
    by (auto simp: early_inv_def)
qed

lemma early_bump_loop:
  assumes fits: "pool_fits pf N"
  shows "early_inv pf N l s \<Longrightarrow> l + unat (num_of_pages s) < N \<Longrightarrow>
     early_inv pf N (l + unat (num_of_pages s)) (bump_loop s)"
proof (induction s arbitrary: l rule: bump_loop.induct)
  case (1 s)
  show ?case
  proof (cases "num_of_pages s = 0")
    case True
    with 1 show ?thesis by (simp add: bump_loop.simps [of s])
  next
    case False
    have u: "unat (num_of_pages s) = Suc (unat (num_of_pages s - 1))"
      using False by (simp add: unat_minus_one unat_gt_0)
    have "early_inv pf N (Suc l) (bump_step s)"
      using 1 u by (intro early_bump_step [OF fits]) auto
    with "1.IH" [OF False, of "Suc l"] "1.prems" u False show ?thesis
      by (simp add: bump_loop.simps [of s])
  qed
qed

lemma early_bump_initial:
  assumes fits: "pool_fits pf N" and inv: "early_inv pf N l s"
    and l: "l + unat (count_pages sz) < N"
  shows "fst (bump_initial sz s) = kva (page_addr pf l)
     \<and> early_inv pf N (l + unat (count_pages sz)) (snd (bump_initial sz s))"
proof -
  let ?s = "s\<lparr>num_of_pages := count_pages sz\<rparr>"
  have "early_inv pf N l ?s" using inv by (simp add: early_inv_def)
  from early_bump_loop [OF fits this] l
  have "early_inv pf N (l + unat (count_pages sz)) (bump_loop ?s)" by simp
  moreover have "\<not> number_of_free_pages s < count_pages sz"
    using inv l by (simp add: early_inv_def word_less_nat_alt)
  moreover have "fl_current (fl s (head_free s)) = page_addr pf l"
    using inv by (simp add: early_inv_def node_val_def)
  ultimately show ?thesis by (simp add: bump_initial_def grab_def Let_def kva_def)
qed

definition early_allocs :: "u64 list \<Rightarrow> 'a kmem_scheme \<Rightarrow> 'a kmem_scheme" where
  "early_allocs szs s = fold (\<lambda>sz s. snd (bump_initial sz s)) szs s"

definition early_pages :: "u64 list \<Rightarrow> nat" where
  "early_pages szs = (\<Sum>sz \<leftarrow> szs. unat (count_pages sz))"

lemma early_allocs_inv:
  assumes fits: "pool_fits pf N"
  shows "early_inv pf N l s \<Longrightarrow> l + early_pages szs < N \<Longrightarrow>
     early_inv pf N (l + early_pages szs) (early_allocs szs s)"
proof (induction szs arbitrary: l s)
  case Nil
  then show ?case by (simp add: early_allocs_def early_pages_def)
next
  case (Cons sz szs)
  have b: "early_inv pf N (l + unat (count_pages sz)) (snd (bump_initial sz s))"
    using early_bump_initial [OF fits Cons.prems(1), of sz] Cons.prems(2)
    by (simp add: early_pages_def)
  show ?case using Cons.IH [OF b] Cons.prems(2)
    by (simp add: early_allocs_def early_pages_def add.assoc)
qed

text \<open>
  The allocator's part of \<^verbatim>\<open>start\<close>: the list is built, \<open>early\<close> page-table allocations of the
  given sizes happen, paging is switched on, and the list is moved to its new addresses.
\<close>

definition boot_allocator :: "u64 \<Rightarrow> u64 \<Rightarrow> u64 \<Rightarrow> u64 list \<Rightarrow> 'a kmem_scheme \<Rightarrow> 'a kmem_scheme option" where
  "boot_allocator physbase physfree physend early s =
     do { s1 \<leftarrow> initbump physbase physfree physend s;
          init_after_paging (enable_paging (early_allocs early s1)) }"

lemma initbump_early_inv:
  assumes fits: "pool_fits pf N" and N: "2 \<le> N" "N \<le> 2 ^ 19" and he: "head_end s = 0"
  shows "\<exists>s'. initbump pb pf (page_addr pf N) s = Some s' \<and> early_inv pf N (node_pages N) s'"
proof -
  obtain s' where s': "initbump pb pf (page_addr pf N) s = Some s'"
     "head_free s' = node_addr pf (node_pages N)" "head_end s' = head_end s"
     "unat (number_of_free_pages s') = N - node_pages N"
     "\<forall>t < N. fl s' (node_addr pf t) = node_val pf N t"
    using initbump_run [OF fits N] by blast
  then show ?thesis using he node_addr_nonnull [OF fits] node_pages_less [OF N(1)]
    by (auto simp: early_inv_def)
qed

lemma rebased_inv:
  assumes fits: "pool_fits pf N" and inv: "early_inv pf N l s" and l: "2 + l \<le> N"
    and high: "unat pf + 4096 * N \<le> 2 ^ 31"
  shows "\<exists>s'. init_after_paging (enable_paging s) = Some s' \<and> alloc_ok (N - l) s'
     \<and> free_frames s' = map (page_addr pf) [l..<N]"
proof -
  define s2 where "s2 = (enable_paging s)\<lparr>head_free := kva (head_free s)\<rparr>"
  have heap: "fl s2 (kva a) = fl s a" for a
    by (simp add: s2_def enable_paging_def kva_def)
  let ?ns = "node_list pf l N"
  have ne: "?ns \<noteq> []" using l by (simp add: node_list_def)
  have heap': "chain (\<lambda>a. fl_next (fl s a)) (node_addr pf l) ?ns 0"
    by (rule node_list_chain [OF fits, of l]) (use inv l in \<open>auto simp: early_inv_def\<close>)
  have ch: "chain (\<lambda>a. fl_next (fl s2 (kva a))) (node_addr pf l) ?ns 0"
    unfolding heap by (rule heap')
  have hi: "kva a \<noteq> 0" if m: "a \<in> set ?ns" for a
  proof
    assume "kva a = 0"
    then have "a = 0 - KERNBASE" by (metis kva_def add_diff_cancel_right')
    then have "unat a = 2 ^ 31" by (simp add: KERNBASE_def)
    moreover obtain t where "t < N" "a = node_addr pf t" using m by (auto simp: node_list_def)
    ultimately show False using unat_node_addr [OF fits, of t] high by simp
  qed
  obtain s3 where s3: "rebase_loop (kva (node_addr pf l)) s2 = Some (kva (last ?ns), s3)"
    "chain (next_of s3) (kva (node_addr pf l)) (map kva ?ns) 0"
    "\<And>a. fl_current (fl s3 a) = fl_current (fl s2 a)" "s3\<lparr>fl := fl s2\<rparr> = s2"
    using rebase_loop_run [OF ch ne distinct_node_list [OF fits]] hi by blast
  have s1: "head_free s = node_addr pf l" "unat (number_of_free_pages s) = N - l"
    "\<And>t. l \<le> t \<Longrightarrow> t < N \<Longrightarrow> fl s (node_addr pf t) = node_val pf N t"
    using inv by (auto simp: early_inv_def)
  have hf: "head_free s3 = kva (node_addr pf l)" "number_of_free_pages s3 = number_of_free_pages s"
    using arg_cong [OF s3(4), of head_free] arg_cong [OF s3(4), of number_of_free_pages] s1(1)
    by (simp_all add: s2_def enable_paging_def)
  let ?s' = "s3\<lparr>head_end := kva (last ?ns), head_unalloc := kva (last ?ns)\<rparr>"
  have run: "init_after_paging (enable_paging s) = Some ?s'"
    using s1(1) s3(1) by (simp add: init_after_paging_def s2_def enable_paging_def kva_def Let_def)
  have inv': "fl_inv ?s' (map kva ?ns) []"
    using s3(2) hf s1(2) l ne distinct_node_list [OF fits, of l]
    by (simp add: fl_inv_def ring_def last_map distinct_map inj_on_def) (simp add: node_list_def)
  have "free_frames ?s' = map (page_addr pf) [l..<N]"
    unfolding free_frames_eq [OF inv'] frames_def
    using s3(3) heap s1(3) by (simp add: node_list_def node_val_def)
  moreover have "alloc_ok (N - l) ?s'"
    unfolding alloc_ok_def by (intro exI conjI, rule inv') (simp add: node_list_def)
  ultimately show ?thesis using run by blast
qed

lemma boot_allocator_run:
  assumes fits: "pool_fits pf N" and N: "2 + node_pages N + early_pages early \<le> N"
    and high: "unat pf + 4096 * N \<le> 2 ^ 31" and he: "head_end s = 0"
  defines "l \<equiv> node_pages N + early_pages early"
  shows "\<exists>s'. boot_allocator pb pf (page_addr pf N) early s = Some s'
     \<and> alloc_ok (N - l) s' \<and> free_frames s' = map (page_addr pf) [l..<N]"
proof -
  have N2: "2 \<le> N" "N \<le> 2 ^ 19" using N high by simp_all
  obtain s1 where s1: "initbump pb pf (page_addr pf N) s = Some s1" "early_inv pf N (node_pages N) s1"
    using initbump_early_inv [OF fits N2 he] by blast
  have e: "early_inv pf N l (early_allocs early s1)"
    unfolding l_def by (rule early_allocs_inv [OF fits s1(2)]) (use N in simp)
  show ?thesis using rebased_inv [OF fits e _ high] s1(1) N by (simp add: boot_allocator_def l_def)
qed

section \<open>Pointers and frames\<close>

lemma and_mask_low:
  fixes p :: u64
  assumes "p < 2 ^ 31"
  shows "p AND KERNBASE = 0" "p AND USERBASE = 0"
proof -
  have p: "p = p AND mask 31" using assms by (simp add: less_mask_eq)
  have "mask 31 AND KERNBASE = 0" "mask 31 AND USERBASE = 0"
    by (simp_all add: KERNBASE_def USERBASE_def mask_eq_exp_minus_1)
  with p show "p AND KERNBASE = 0" "p AND USERBASE = 0"
    by (metis and.assoc and_zero_eq)+
qed

lemma freed_phys_inverse:
  assumes "p < 2 ^ 31"
  shows "freed_phys (p + KERNBASE) = p" "freed_phys (p + USERBASE) = p" "freed_phys p = p"
proof -
  note low = and_mask_low [OF assms]
  have k: "p + KERNBASE = p OR KERNBASE" and u: "p + USERBASE = p OR USERBASE"
    using low by (simp_all add: disjunctive_add_eq_or)
  have "(p + KERNBASE) AND KERNBASE = KERNBASE" "(p + USERBASE) AND USERBASE = USERBASE"
    by (simp_all add: k u bit.conj_disj_distrib2 low)
  moreover have "(p + USERBASE) AND KERNBASE = USERBASE AND KERNBASE"
    by (simp add: u bit.conj_disj_distrib2 low)
  moreover have "USERBASE AND KERNBASE \<noteq> KERNBASE" "KERNBASE \<noteq> 0" "USERBASE \<noteq> 0"
    by (simp_all add: KERNBASE_def USERBASE_def)
  ultimately show "freed_phys (p + KERNBASE) = p" "freed_phys (p + USERBASE) = p" "freed_phys p = p"
    using low by (simp_all add: freed_phys_def)
qed

section \<open>A small pool for the witnesses\<close>

text \<open>Three nodes at 16, 32 and 48; the first two carry the frames 0x5000 and 0x6000.\<close>

definition demo_nodes :: "u64 \<Rightarrow> free_list" where
  "demo_nodes = (\<lambda>_. \<lparr>fl_current = 0, fl_next = 0\<rparr>)
     (16 := \<lparr>fl_current = 0x5000, fl_next = 32\<rparr>, 32 := \<lparr>fl_current = 0x6000, fl_next = 48\<rparr>,
      48 := \<lparr>fl_current = 0x7000, fl_next = 0\<rparr>)"

definition demo_pool :: kmem where
  "demo_pool = \<lparr>fl = demo_nodes, head_free = 16, head_end = 48, head_unalloc = 32,
     unallocated = 0, pool_end = 0, number_of_free_pages = 2, num_of_pages = 0,
     pml4t_t = 0, ptmem = (\<lambda>_. 0)\<rparr>"

lemma demo_pool_inv: "fl_inv demo_pool [16, 32] [48]"
  by (simp add: fl_inv_def ring_def demo_pool_def demo_nodes_def)

lemma demo_pool_ok: "alloc_ok 3 demo_pool"
  using demo_pool_inv by (force simp: alloc_ok_def)

lemma demo_pool_frames: "free_frames demo_pool = [0x5000, 0x6000]"
  unfolding free_frames_eq [OF demo_pool_inv] by (simp add: demo_pool_def demo_nodes_def)

section \<open>Properties\<close>

text \<open>C6: after boot the pool holds exactly the page frames behind the memory that the list nodes
  and the early page tables occupy, in ascending order, and the boot code returns: a pool of
  \<open>N\<close> pages from \<open>pf\<close> loses the \<open>node_pages N\<close> frames that store the nodes and the frames
  handed out before paging.\<close>

theorem boot_pool_frames:
  assumes "pool_fits pf N" and "2 + node_pages N + early_pages early \<le> N"
    and "unat pf + 4096 * N \<le> 2 ^ 31" and "head_end s = 0"
  shows "\<exists>s'. boot_allocator pb pf (page_addr pf N) early s = Some s'
     \<and> alloc_ok (N - (node_pages N + early_pages early)) s'
     \<and> free_frames s' = map (page_addr pf) [node_pages N + early_pages early..<N]"
  using assms by (rule boot_allocator_run)

theorem boot_pool_frames_witness:
  "\<exists>s'. boot_allocator 0 0x200000 (page_addr 0x200000 8) [4096] (demo_pool\<lparr>head_end := 0\<rparr>) = Some s'
     \<and> alloc_ok 6 s' \<and> free_frames s' = map (page_addr 0x200000) [2..<8]"
proof -
  have e: "node_pages 8 = 1" "early_pages [4096] = 1"
    by (simp_all add: node_pages_def early_pages_def)
  have h: "pool_fits 0x200000 8" "2 + node_pages 8 + early_pages [4096] \<le> 8"
    "unat (0x200000 :: u64) + 4096 * 8 \<le> 2 ^ 31" "head_end (demo_pool\<lparr>head_end := 0\<rparr>) = 0"
    by (simp_all add: pool_fits_def e)
  have m: "8 - (node_pages 8 + early_pages [4096]) = 6" "node_pages 8 + early_pages [4096] = 2"
    by (simp_all add: e)
  show ?thesis
    using boot_pool_frames [OF h, of 0, unfolded m(1), unfolded m(2)] .
qed

text \<open>the nodes of the free list never overlap the frames that the pool hands out: every node
  ends at or below the first frame of the pool.\<close>

theorem nodes_below_frames:
  assumes "pool_fits pf N" and "t < N" and "node_pages N \<le> u" and "u < N"
  shows "unat (node_addr pf t) + 16 \<le> unat (page_addr pf u)"
proof -
  have "16 * Suc t \<le> 16 * N" using assms(2) by simp
  also have "16 * N \<le> 4096 * ((N + 255) div 256)" by simp
  also have "\<dots> \<le> 4096 * u" using assms(3) by (simp add: node_pages_ceil)
  finally show ?thesis using assms by (simp add: unat_node_addr unat_page_addr)
qed

theorem nodes_below_frames_witness:
  "unat (node_addr 0x200000 7) + 16 \<le> unat (page_addr 0x200000 1)"
  by (rule nodes_below_frames [of _ 8]) (simp_all add: pool_fits_def node_pages_def)

text \<open>A satisfiable request of \<open>n > 0\<close> pages returns the frame at the front of the queue and
  removes exactly the first \<open>n\<close> frames from it; \<open>n\<close> is the size rounded up to pages.\<close>

theorem bump_physical_takes_prefix:
  assumes "alloc_ok N s" and "0 < sz" and "(unat sz + 4095) div 4096 \<le> length (free_frames s)"
  shows "fst (bump_physical sz s) = hd (free_frames s)
     \<and> free_frames (snd (bump_physical sz s)) = drop ((unat sz + 4095) div 4096) (free_frames s)
     \<and> alloc_ok N (snd (bump_physical sz s))"
proof -
  have "0 < unat sz" using assms(2) by (simp add: unat_gt_0)
  then have "0 < (unat sz + 4095) div 4096" by (simp add: div_greater_zero_iff)
  then show ?thesis using grab_queue [OF assms(1) refl, of sz] assms(3)
    by (auto simp: bump_physical_def count_pages_ceil)
qed

theorem bump_physical_takes_prefix_witness:
  "fst (bump_physical 5000 demo_pool) = 0x5000 \<and> free_frames (snd (bump_physical 5000 demo_pool)) = []"
  using bump_physical_takes_prefix [OF demo_pool_ok, of 5000] by (simp add: demo_pool_frames)

text \<open>A request for more pages than are free fails: every allocator of the file then returns
  the null pointer and leaves list, counters and page tables as they were.\<close>

theorem exhausted_request_fails:
  assumes "fl_inv s fs us" and "length fs < (unat sz + 4095) div 4096"
  shows "bump_physical sz s = (0, s\<lparr>num_of_pages := count_pages sz\<rparr>)
     \<and> bump_user sz s = (0, s\<lparr>num_of_pages := count_pages sz\<rparr>)
     \<and> bump_initial sz s = (0, s\<lparr>num_of_pages := count_pages sz\<rparr>)"
  using grab_failure [OF assms(1), of sz] assms(2)
  by (simp add: count_pages_ceil bump_physical_def bump_user_def bump_initial_def)

theorem exhausted_request_fails_witness:
  "fst (bump_physical 9000 demo_pool) = 0"
  using exhausted_request_fails [OF demo_pool_inv, of 9000] by simp

text \<open>Frames handed out one by one are pairwise different and none of them is still free, as
  long as the queue holds no frame twice.\<close>

theorem no_double_allocation:
  assumes "alloc_ok N s" and "n \<le> length (free_frames s)" and "distinct (free_frames s)"
  shows "distinct (fst (takes (bump_physical 4096) n s))
     \<and> set (fst (takes (bump_physical 4096) n s))
         \<inter> set (free_frames (snd (takes (bump_physical 4096) n s))) = {}"
  using assms by (rule frame_pool.takes_distinct)

theorem no_double_allocation_witness:
  "distinct (fst (takes (bump_physical 4096) 2 demo_pool))"
  using no_double_allocation [OF demo_pool_ok, of 2] by (simp add: demo_pool_frames)

text \<open>C1: every run of single-page allocations and returned frames that keeps at least one frame
  free when a frame is returned behaves as a FIFO queue of frames.\<close>

theorem allocator_refines_queue:
  assumes "alloc_ok N s" and "queue_run N ops (free_frames s) = Some (fs, q)"
  shows "fst (frame_run (bump_physical 4096) release ops s) = fs
     \<and> free_frames (snd (frame_run (bump_physical 4096) release ops s)) = q
     \<and> alloc_ok N (snd (frame_run (bump_physical 4096) release ops s))"
  using assms by (rule frame_pool.run_refines)

theorem allocator_refines_queue_witness:
  "fst (frame_run (bump_physical 4096) release [Take, Give 0x9000, Take, Take] demo_pool)
     = [0x5000, 0x6000, 0x9000]"
  using allocator_refines_queue [OF demo_pool_ok, of "[Take, Give 0x9000, Take, Take]"]
  by (simp add: demo_pool_frames)

text \<open>returning a frame to a pool that has been emptied loses it: \<^verbatim>\<open>head_unalloc\<close> runs off the
  end of the list, the frame's address is stored at node 0, and the counter says that one
  frame is free while the next allocation returns the frame of the first carrier, which is in
  use.\<close>

theorem empty_pool_release_reuses_frame:
  assumes "fl_inv s fs us" and "length fs = (unat sz + 4095) div 4096" and "fs \<noteq> []"
  shows "head_unalloc (release p (snd (bump_physical sz s))) = 0
     \<and> free_frames (release p (snd (bump_physical sz s))) = [fl_current (fl s (hd (us @ fs)))]"
proof -
  let ?s' = "snd (bump_physical sz s)"
  have n: "unat (count_pages sz) = length fs" using assms(2) by (simp add: count_pages_ceil)
  from grab_success [OF assms(1), of sz] n obtain s' where s':
    "grab sz s = (Some (fl_current (fl s (head_free s))), s')" "fl_inv s' [] (us @ fs)"
    "\<And>a. fl_current (fl s' a) = fl_current (fl s a)" by auto
  have e: "?s' = s'" using s'(1) by (simp add: bump_physical_def)
  have hu: "head_unalloc s' = head_unalloc s"
    using s'(1) by (auto simp: grab_def Let_def split: if_splits)
  obtain ys y where ys: "fs = ys @ [y]" using assms(3) by (cases fs rule: rev_cases) auto
  then have "head_unalloc s = y" using assms(1) by (simp add: fl_inv_def)
  moreover have r: "ring s' ((us @ ys) @ [y])" using s'(2) ys by (simp add: fl_inv_def)
  ultimately have nx: "fl_next (fl s' (head_unalloc s')) = 0"
    using hu chain_last [of "next_of s'" "head_free s'" "us @ ys" y 0] by (simp add: ring_def)
  have c: "chain (next_of s') (head_free s') (us @ fs) 0"
    using s'(2) by (simp add: fl_inv_def ring_def)
  have ne: "us @ fs \<noteq> []" using assms(3) by simp
  have hd0: "head_free s' = hd (us @ fs)" "hd (us @ fs) \<noteq> 0"
    using chain_hd [OF c ne] chain_nonnull [OF c hd_in_set [OF ne]] by simp_all
  have num: "number_of_free_pages s' = 0"
    using s'(2) by (simp add: fl_inv_def unat_eq_zero)
  show ?thesis unfolding e using nx hd0 num s'(3)
    by (simp add: release_def set_current_def Let_def free_frames_def frames_def)
qed

theorem empty_pool_release_reuses_frame_witness:
  "free_frames (release 0x5000 (snd (bump_physical 5000 (demo_pool)))) = [0x7000]"
  using empty_pool_release_reuses_frame [OF demo_pool_inv, of 5000 "0x5000"]
  by (simp add: demo_pool_def demo_nodes_def)

text \<open>\<^verbatim>\<open>kfree\<close> finds the frame behind a pointer of any of the three flavours the allocators
  return, for every frame of the 2 GiB that the kernel maps.\<close>

theorem freed_phys_roundtrip:
  assumes "p < 2 ^ 31"
  shows "freed_phys (p + KERNBASE) = p \<and> freed_phys (p + USERBASE) = p \<and> freed_phys p = p"
  using freed_phys_inverse [OF assms] by simp

theorem freed_phys_roundtrip_witness: "freed_phys (0x5000 + USERBASE) = 0x5000"
  using freed_phys_roundtrip [of "0x5000"] by simp

end
