(* ===== verification/Paging.thy ===== *)
theory Paging
  imports Allocator
begin

text \<open>
  \<^verbatim>\<open>sys/virtualmem.c\<close>, with \<^verbatim>\<open>bump\<close> and \<^verbatim>\<open>kfree\<close> of \<^verbatim>\<open>sys/allocator.c\<close>, which call it, and the
  test \<^verbatim>\<open>is_cow_enabled\<close> of \<^verbatim>\<open>sys/idt.c\<close>.  Page tables are arrays of 512 quadwords in
  the memory \<^verbatim>\<open>ptmem\<close>, addressed as the kernel does, through its mapping of physical memory
  at \<^const>\<open>KERNBASE\<close>.  The functions \<^verbatim>\<open>bump\<close> and \<^verbatim>\<open>map_address\<close> call each other; the model
  gives \<^verbatim>\<open>bump\<close> a call depth and returns \<^const>\<open>None\<close> when it is exceeded.
\<close>

section \<open>Table entries\<close>

definition rd :: "u64 \<Rightarrow> u64 \<Rightarrow> 'a kmem_scheme \<Rightarrow> u64" where
  "rd tbl i s = ptmem s (tbl + 8 * i)"

definition wr :: "u64 \<Rightarrow> u64 \<Rightarrow> u64 \<Rightarrow> 'a kmem_scheme \<Rightarrow> 'a kmem_scheme" where
  "wr tbl i v s = s\<lparr>ptmem := (ptmem s)(tbl + 8 * i := v)\<rparr>"

text \<open>\<^verbatim>\<open>for (i = 0; i < n; i++) body\<close> for a body that cannot fail.\<close>

fun for_to :: "nat \<Rightarrow> (u64 \<Rightarrow> 's \<Rightarrow> 's) \<Rightarrow> 's \<Rightarrow> 's" where
  "for_to 0 body s = s"
| "for_to (Suc n) body s = body (of_nat n) (for_to n body s)"

definition zero_table :: "u64 \<Rightarrow> 'a kmem_scheme \<Rightarrow> 'a kmem_scheme" where
  "zero_table tbl s = for_to 512 (\<lambda>i. wr tbl i 0) s"

definition PAGE_MASK :: u64 where
  "PAGE_MASK = 0xfffffffffffff000"

definition pml4t_index :: "u64 \<Rightarrow> u64" where
  "pml4t_index address = drop_bit 39 address AND 0x1ff"

definition pdpt_index :: "u64 \<Rightarrow> u64" where
  "pdpt_index address = drop_bit 30 address AND 0x1ff"

definition pdt_index :: "u64 \<Rightarrow> u64" where
  "pdt_index address = drop_bit 21 address AND 0x1ff"

definition pt_index :: "u64 \<Rightarrow> u64" where
  "pt_index address = drop_bit 12 address AND 0x1ff"

text \<open>The address of the table that an entry refers to.\<close>

definition table_of :: "u64 \<Rightarrow> u64" where
  "table_of e = KERNBASE + (e AND PAGE_MASK)"

text \<open>The entry that refers to the table \<open>p\<close>.\<close>

definition entry_for :: "u64 \<Rightarrow> u64 \<Rightarrow> u64" where
  "entry_for p flags = ((p AND PAGE_MASK) - KERNBASE) OR flags"

text \<open>
  The step that every mapping routine repeats on its way down: follow entry \<open>i\<close> of
  \<open>tbl\<close>, or make a new table when it is not present.  \<^verbatim>\<open>map_address\<close> and \<^verbatim>\<open>map_user_address\<close>
  write the entry before they clear the new table, the two others clear first.
\<close>

type_synonym 'a pages = "'a kmem_scheme \<Rightarrow> (u64 \<times> 'a kmem_scheme) option"

definition get_table :: "'a pages \<Rightarrow> u64 \<Rightarrow> u64 \<Rightarrow> u64 \<Rightarrow> 'a pages" where
  "get_table alloc tbl i flags s =
     (if rd tbl i s AND 1 = 0
      then do { (p, s) \<leftarrow> alloc s;
                Some (p, zero_table p (wr tbl i (entry_for p flags) s)) }
      else Some (table_of (rd tbl i s), s))"

definition get_cleared_table :: "'a pages \<Rightarrow> u64 \<Rightarrow> u64 \<Rightarrow> u64 \<Rightarrow> 'a pages" where
  "get_cleared_table alloc tbl i flags s =
     (if rd tbl i s AND 1 = 0
      then do { (p, s) \<leftarrow> alloc s;
                Some (p, wr tbl i (entry_for p flags) (zero_table p s)) }
      else Some (table_of (rd tbl i s), s))"

section \<open>Mapping a range\<close>

text \<open>The local variables of the mapping loops: the four indices, and the tables they index.\<close>

record cursor =
  c_pml4t :: u64
  c_pdpt :: u64
  c_pdt :: u64
  c_pt :: u64
  pdpt_p :: u64
  page_directory :: u64
  page_table :: u64

definition cursor_at :: "u64 \<Rightarrow> u64 \<Rightarrow> u64 \<Rightarrow> u64 \<Rightarrow> cursor" where
  "cursor_at address p3 p2 p1 =
     \<lparr>c_pml4t = pml4t_index address, c_pdpt = pdpt_index address, c_pdt = pdt_index address,
      c_pt = pt_index address, pdpt_p = p3, page_directory = p2, page_table = p1\<rparr>"

text \<open>
  The three \<^verbatim>\<open>if (..._index == 512)\<close> blocks in the loops of \<^verbatim>\<open>map_address\<close> and
  \<^verbatim>\<open>map_user_address\<close>, which differ in the flags only.
\<close>

definition new_pdpt :: "'a pages \<Rightarrow> u64 \<Rightarrow> u64 \<Rightarrow> cursor \<times> 'a kmem_scheme
    \<Rightarrow> (cursor \<times> 'a kmem_scheme) option" where
  "new_pdpt alloc root flags = (\<lambda>(c, s).
     if c_pdpt c = 512
     then do { (p, s) \<leftarrow> alloc s;
               let s = zero_table p s;
               let i = c_pml4t c + 1;
               Some (c\<lparr>c_pdpt := 0, c_pml4t := i, pdpt_p := p, c_pdt := 512\<rparr>,
                     wr root i (entry_for p flags) s) }
     else Some (c, s))"

definition new_directory :: "'a pages \<Rightarrow> u64 \<Rightarrow> cursor \<times> 'a kmem_scheme
    \<Rightarrow> (cursor \<times> 'a kmem_scheme) option" where
  "new_directory alloc flags = (\<lambda>(c, s).
     if c_pdt c = 512
     then do { (p, s) \<leftarrow> alloc s;
               let s = zero_table p s;
               let i = c_pdpt c + 1;
               Some (c\<lparr>c_pdt := 0, c_pdpt := i, page_directory := p, c_pt := 512\<rparr>,
                     wr (pdpt_p c) i (entry_for p flags) s) }
     else Some (c, s))"

definition new_page_table :: "'a pages \<Rightarrow> u64 \<Rightarrow> cursor \<times> 'a kmem_scheme
    \<Rightarrow> (cursor \<times> 'a kmem_scheme) option" where
  "new_page_table alloc flags = (\<lambda>(c, s).
     if c_pt c = 512
     then do { (p, s) \<leftarrow> alloc s;
               let s = zero_table p s;
               let i = c_pdt c + 1;
               Some (c\<lparr>c_pt := 0, c_pdt := i, page_table := p\<rparr>,
                     wr (page_directory c) i (entry_for p flags) s) }
     else Some (c, s))"

text \<open>Entering one page, unless the slot is taken already.\<close>

definition set_page :: "u64 \<Rightarrow> u64 \<Rightarrow> cursor \<Rightarrow> 'a kmem_scheme \<Rightarrow> 'a kmem_scheme" where
  "set_page phys flags c s =
     (if rd (page_table c) (c_pt c) s AND 1 = 0 then wr (page_table c) (c_pt c) (phys OR flags) s
      else s)"

definition map_turn :: "'a pages \<Rightarrow> u64 \<Rightarrow> u64 \<Rightarrow> u64 \<Rightarrow> u64 \<Rightarrow> cursor \<times> 'a kmem_scheme
    \<Rightarrow> (cursor \<times> 'a kmem_scheme) option" where
  "map_turn alloc root flags tflags phys cs =
     do { cs \<leftarrow> new_pdpt alloc root flags cs;
          cs \<leftarrow> new_directory alloc tflags cs;
          (c, s) \<leftarrow> new_page_table alloc tflags cs;
          Some (c\<lparr>c_pt := c_pt c + 1\<rparr>, set_page phys tflags c s) }"

text \<open>
  The loop \<^verbatim>\<open>for (; size >= lo; map_phy_address += 4096, size -= 4096, pt_index++)\<close>;
  \<^verbatim>\<open>map_address\<close> writes the bound as \<^verbatim>\<open>size > 0\<close>.
\<close>

function map_loop :: "(u64 \<Rightarrow> 'c \<Rightarrow> 'c option) \<Rightarrow> int \<Rightarrow> u64 \<Rightarrow> int \<Rightarrow> 'c \<Rightarrow> 'c option" where
  "map_loop turn lo phys sz cs =
     (if lo \<le> sz then do { cs \<leftarrow> turn phys cs; map_loop turn lo (phys + 4096) (sz - 4096) cs }
      else Some cs)"
  by pat_completeness auto
termination
  by (relation "measure (\<lambda>(_, lo, _, sz, _). nat (sz - lo + 1))") auto

declare map_loop.simps [simp del]

text \<open>The number of bytes that \<^verbatim>\<open>map_address\<close> maps: up to the first free frame, in a C \<^verbatim>\<open>int\<close>.\<close>

definition structs_for :: "int \<Rightarrow> int" where
  "structs_for num_of_entries =
     (num_of_entries sdiv 512) + (if 0 < num_of_entries smod 512 then 1 else 0)"

definition map_size :: "u64 \<Rightarrow> u64 \<Rightarrow> int" where
  "map_size abc map_phy_address =
     (let d = abc - map_phy_address;
          num_of_entries = to_int (d div 4096) + (if 0 < d mod 512 then 1 else 0);
          num_of_structs = structs_for num_of_entries
      in to_int (d + word_of_int ((num_of_structs - 1) * 4096)))"

definition map_address_with :: "'a pages \<Rightarrow> u64 \<Rightarrow> u64 \<Rightarrow> 'a kmem_scheme \<Rightarrow> 'a kmem_scheme option"
where
  "map_address_with alloc address map_phy_address s =
     do { let table = (\<lambda>s. Some (bump_initial 4096 s));
          (p3, s) \<leftarrow> get_table table (pml4t_t s) (pml4t_index address) 3 s;
          (p2, s) \<leftarrow> get_table table p3 (pdpt_index address) 3 s;
          (p1, s) \<leftarrow> get_table table p2 (pdt_index address) 3 s;
          let sz = map_size (get_unallocated s) map_phy_address;
          let phys = map_phy_address AND 0xfffff000;
          (c, s) \<leftarrow> map_loop (map_turn alloc (pml4t_t s) 3 3) 1 phys sz
                      (cursor_at address p3 p2 p1, s);
          Some s }"

text \<open>\<^verbatim>\<open>bump\<close> with at most \<open>depth\<close> nested calls.\<close>

fun bump :: "nat \<Rightarrow> u64 \<Rightarrow> 'a pages" where
  "bump 0 sz s = None"
| "bump (Suc depth) sz s =
     (case grab sz s of
        (None, s) \<Rightarrow> Some (0, s)
      | (Some ret, s) \<Rightarrow>
          do { s \<leftarrow> map_address_with (bump depth 4096) (ret + KERNBASE) ret s;
               Some (ret + KERNBASE, s) })"

definition map_address :: "nat \<Rightarrow> u64 \<Rightarrow> u64 \<Rightarrow> 'a kmem_scheme \<Rightarrow> 'a kmem_scheme option" where
  "map_address depth = map_address_with (bump depth 4096)"

text \<open>\<^verbatim>\<open>map_user_address\<close>; \<open>alloc\<close> is its call of \<^verbatim>\<open>bump\<close>.\<close>

definition user_map_size :: "int \<Rightarrow> int" where
  "user_map_size size_to_map =
     (let num_of_entries = (size_to_map sdiv 4096) + (if 0 < size_to_map smod 512 then 1 else 0)
      in size_to_map + (structs_for num_of_entries - 1) * 4096)"

definition map_user_with :: "'a pages \<Rightarrow> u64 \<Rightarrow> u64 \<Rightarrow> int \<Rightarrow> u64 \<Rightarrow> u64 \<Rightarrow> 'a kmem_scheme
    \<Rightarrow> 'a kmem_scheme option" where
  "map_user_with alloc address map_phy_address size_to_map map_table flags s =
     do { (p3, s) \<leftarrow> get_table alloc map_table (pml4t_index address) flags s;
          (p2, s) \<leftarrow> get_table alloc p3 (pdpt_index address) flags s;
          (p1, s) \<leftarrow> get_table alloc p2 (pdt_index address) flags s;
          (c, s) \<leftarrow> map_loop (map_turn alloc map_table flags 7) 0 (map_phy_address AND 0xfffff000)
                      (user_map_size size_to_map) (cursor_at address p3 p2 p1, s);
          Some s }"

definition map_user_address :: "nat \<Rightarrow> u64 \<Rightarrow> u64 \<Rightarrow> int \<Rightarrow> u64 \<Rightarrow> u64 \<Rightarrow> 'a kmem_scheme
    \<Rightarrow> 'a kmem_scheme option" where
  "map_user_address depth = map_user_with (bump depth 4096)"

section \<open>The kernel's own tables\<close>

definition initial_table :: "cursor \<times> 'a kmem_scheme \<Rightarrow> cursor \<times> 'a kmem_scheme" where
  "initial_table = (\<lambda>(c, s).
     let (p3, s) = bump_initial 4096 s;
         c = c\<lparr>c_pdpt := 0, c_pml4t := c_pml4t c + 1, pdpt_p := p3\<rparr>
     in (c, if c_pml4t c = 512 then s
            else zero_table p3 (wr (pml4t_t s) (c_pml4t c) (entry_for p3 3) s)))"

definition initial_directory :: "cursor \<times> 'a kmem_scheme \<Rightarrow> cursor \<times> 'a kmem_scheme" where
  "initial_directory = (\<lambda>(c, s).
     let (p2, s) = bump_initial 4096 s;
         c = c\<lparr>c_pdt := 0, c_pdpt := c_pdpt c + 1, page_directory := p2\<rparr>;
         (c, s) = (if c_pdpt c = 512 then initial_table (c, s) else (c, s))
     in (c, zero_table p2 (wr (pdpt_p c) (c_pdpt c) (entry_for p2 3) s)))"

definition initial_turn :: "u64 \<Rightarrow> cursor \<times> 'a kmem_scheme \<Rightarrow> (cursor \<times> 'a kmem_scheme) option"
where
  "initial_turn phys = (\<lambda>(c, s).
     let (c, s) =
           (if c_pt c = 512
            then let (p1, s) = bump_initial 4096 s;
                     c = c\<lparr>c_pt := 0, c_pdt := c_pdt c + 1, page_table := p1\<rparr>;
                     (c, s) = (if c_pdt c = 512 then initial_directory (c, s) else (c, s))
                 in (c, zero_table p1 (wr (page_directory c) (c_pdt c) (entry_for p1 3) s))
            else (c, s))
     in Some (c\<lparr>c_pt := c_pt c + 1\<rparr>, set_page phys 3 c s))"

definition map_address_initial :: "u64 \<Rightarrow> u64 \<Rightarrow> 'a kmem_scheme \<Rightarrow> 'a kmem_scheme option" where
  "map_address_initial address map_phy_address s =
     do { let table = (\<lambda>s. Some (bump_initial 4096 s));
          (p3, s) \<leftarrow> get_cleared_table table (pml4t_t s) (pml4t_index address) 3 s;
          (p2, s) \<leftarrow> get_cleared_table table p3 (pdpt_index address) 3 s;
          (p1, s) \<leftarrow> get_cleared_table table p2 (pdt_index address) 3 s;
          (c, s) \<leftarrow> map_loop initial_turn 0 (map_phy_address AND 0xfffff000)
                      (map_size (get_unallocated s) map_phy_address)
                      (cursor_at address p3 p2 p1, s);
          Some s }"

definition init_paging :: "'a kmem_scheme \<Rightarrow> 'a kmem_scheme option" where
  "init_paging s =
     do { s \<leftarrow> map_address_initial KERNBASE 0 s;
          Some (wr (pml4t_t s) 510 (entry_for (pml4t_t s) 3) s) }"

text \<open>The body of the two loops of \<^verbatim>\<open>map_pagetables\<close>: a page table for slot \<open>i\<close> of \<open>pdt\<close>.\<close>

definition fill_slot :: "nat \<Rightarrow> u64 \<Rightarrow> nat \<Rightarrow> 'a kmem_scheme \<Rightarrow> 'a kmem_scheme option" where
  "fill_slot depth pdt i s =
     (if rd pdt (of_nat i) s = 0
      then do { let (pt, s) = bump_physical 4096 s;
                s \<leftarrow> map_address depth (pt + KERNBASE) pt s;
                let s = zero_table (pt + KERNBASE) s;
                Some (wr pdt (of_nat i) ((pt AND PAGE_MASK) OR 3) s) }
      else Some s)"

definition map_pagetables :: "nat \<Rightarrow> 'a kmem_scheme \<Rightarrow> 'a kmem_scheme option" where
  "map_pagetables depth s =
     do { let pdpt = table_of (rd (pml4t_t s) 511 s);
          let pdt = table_of (rd pdpt 510 s);
          s \<leftarrow> for_n 0 512 (fill_slot depth pdt) s;
          if rd pdpt 511 s = 0
          then do { let (pdt, s) = bump_physical 4096 s;
                    s \<leftarrow> map_address depth (pdt + KERNBASE) pdt s;
                    let s = zero_table (pdt + KERNBASE) s;
                    let s = wr pdpt 511 ((pdt AND PAGE_MASK) OR 3) s;
                    for_n 0 512 (fill_slot depth (pdt + KERNBASE)) s }
          else Some s }"

section \<open>Duplicating an address space\<close>

definition cow_mark :: "u64 \<Rightarrow> u64" where
  "cow_mark e = (e AND 0xfffffffffffffffd) OR 0x200"

definition share_entry :: "u64 \<Rightarrow> u64 \<Rightarrow> u64 \<Rightarrow> 'a kmem_scheme \<Rightarrow> 'a kmem_scheme" where
  "share_entry source_pt new_pt i s =
     (if 0 < rd source_pt i s
      then let s = wr source_pt i (rd source_pt i s AND 0xfffffffffffffffd) s;
               s = wr source_pt i (rd source_pt i s OR 0x200) s;
               s = wr new_pt i (rd source_pt i s AND PAGE_MASK) s
           in wr new_pt i (rd source_pt i s OR 0x205) s
      else s)"

definition duplicate_pt :: "u64 \<Rightarrow> u64 \<Rightarrow> 'a kmem_scheme \<Rightarrow> 'a kmem_scheme" where
  "duplicate_pt source_pt new_pt s = for_to 512 (share_entry source_pt new_pt) s"

text \<open>The step of the upper levels: mark the entry, make a table for the copy and descend.\<close>

definition duplicate_entry :: "'a pages \<Rightarrow> (u64 \<Rightarrow> u64 \<Rightarrow> 'a kmem_scheme \<Rightarrow> 'a kmem_scheme option)
    \<Rightarrow> u64 \<Rightarrow> u64 \<Rightarrow> nat \<Rightarrow> 'a kmem_scheme \<Rightarrow> 'a kmem_scheme option" where
  "duplicate_entry alloc below source_t new_t i s =
     do { let s = wr source_t (of_nat i) (rd source_t (of_nat i) s AND 0xfffffffffffffffd) s;
          let s = wr source_t (of_nat i) (rd source_t (of_nat i) s OR 0x200) s;
          let sub = table_of (rd source_t (of_nat i) s);
          (new_sub, s) \<leftarrow> alloc s;
          let s = zero_table new_sub s;
          let s = wr new_t (of_nat i) ((new_sub - KERNBASE) AND PAGE_MASK) s;
          let s = wr new_t (of_nat i) (rd new_t (of_nat i) s OR 0x205) s;
          below sub new_sub s }"

definition duplicate_pdt :: "'a pages \<Rightarrow> u64 \<Rightarrow> u64 \<Rightarrow> 'a kmem_scheme \<Rightarrow> 'a kmem_scheme option" where
  "duplicate_pdt alloc source_pdt new_pdt =
     for_n 0 512 (\<lambda>i s. if 0 < rd source_pdt (of_nat i) s
       then duplicate_entry alloc (\<lambda>pt new_pt s. Some (duplicate_pt pt new_pt s))
              source_pdt new_pdt i s
       else Some s)"

definition duplicate_pdpt :: "'a pages \<Rightarrow> u64 \<Rightarrow> u64 \<Rightarrow> 'a kmem_scheme \<Rightarrow> 'a kmem_scheme option" where
  "duplicate_pdpt alloc source_pdpt new_pdpt_t =
     for_n 0 512 (\<lambda>i s. if 0 < rd source_pdpt (of_nat i) s
       then duplicate_entry alloc (duplicate_pdt alloc) source_pdpt new_pdpt_t i s
       else Some s)"

definition duplicate_slot :: "'a pages \<Rightarrow> u64 \<Rightarrow> u64 \<Rightarrow> nat \<Rightarrow> 'a kmem_scheme
    \<Rightarrow> 'a kmem_scheme option" where
  "duplicate_slot alloc source_table user_table i s =
     (if 0 < rd source_table (of_nat i) s
      then if i = 510 then Some s
        else if i = 511 then Some (wr user_table (of_nat i) (rd source_table (of_nat i) s) s)
        else duplicate_entry alloc (duplicate_pdpt alloc) source_table user_table i s
      else Some s)"

definition duplicate_page_table_with :: "'a pages \<Rightarrow> u64 \<Rightarrow> 'a pages" where
  "duplicate_page_table_with alloc source_table s =
     do { (user_table, s) \<leftarrow> alloc s;
          let s = zero_table user_table s;
          s \<leftarrow> for_n 0 512 (duplicate_slot alloc source_table user_table) s;
          Some (user_table, wr user_table 510 (entry_for user_table 3) s) }"

definition duplicate_page_table :: "nat \<Rightarrow> u64 \<Rightarrow> 'a pages" where
  "duplicate_page_table depth = duplicate_page_table_with (bump depth 4096)"

text \<open>\<^verbatim>\<open>map_user_pml4\<close>: entry 510 is computed from entry 0 of the new table, as written.\<close>

definition map_user_pml4_with :: "'a pages \<Rightarrow> 'a pages" where
  "map_user_pml4_with alloc s =
     do { (user_table, s) \<leftarrow> alloc s;
          let s = zero_table user_table s;
          let s = for_to 512 (\<lambda>i s. if rd (pml4t_t s) i s \<noteq> 0
                    then wr user_table i (rd (pml4t_t s) i s) s else s) s;
          Some (user_table, wr user_table 510
            (((rd user_table 0 s AND PAGE_MASK) - KERNBASE) OR 7) s) }"

definition map_user_pml4 :: "nat \<Rightarrow> 'a pages" where
  "map_user_pml4 depth = map_user_pml4_with (bump depth 4096)"

section \<open>Unmapping, freeing and copy-on-write\<close>

text \<open>\<open>cur\<close> is \<^verbatim>\<open>currentthread->page_table\<close>, a physical address.\<close>

definition unmap_page :: "u64 \<Rightarrow> u64 \<Rightarrow> 'a kmem_scheme \<Rightarrow> 'a kmem_scheme" where
  "unmap_page cur virtual_address s =
     (let current_table = cur + KERNBASE;
          pdpt = table_of (rd current_table (pml4t_index virtual_address) s);
          pdt = table_of (rd pdpt (pdpt_index virtual_address) s);
          pt = table_of (rd pdt (pdt_index virtual_address) s)
      in wr pt (pt_index virtual_address) 0 s)"

definition kfree :: "u64 \<Rightarrow> u64 \<Rightarrow> 'a kmem_scheme \<Rightarrow> 'a kmem_scheme" where
  "kfree cur freed_pointer s =
     release (freed_phys freed_pointer) (unmap_page cur freed_pointer s)"

text \<open>
  The processor's page walk from the table \<open>root\<close>: the frame behind a virtual address, if every
  entry on the way is present.
\<close>

definition sub_table :: "u64 \<Rightarrow> u64 \<Rightarrow> 'a kmem_scheme \<Rightarrow> u64 option" where
  "sub_table tbl i s = (if rd tbl i s AND 1 = 0 then None else Some (table_of (rd tbl i s)))"

definition table_path :: "u64 \<Rightarrow> u64 \<Rightarrow> 'a kmem_scheme \<Rightarrow> (u64 \<times> u64 \<times> u64) option" where
  "table_path root va s =
     do { p3 \<leftarrow> sub_table root (pml4t_index va) s;
          p2 \<leftarrow> sub_table p3 (pdpt_index va) s;
          p1 \<leftarrow> sub_table p2 (pdt_index va) s;
          Some (p3, p2, p1) }"

definition walk :: "u64 \<Rightarrow> u64 \<Rightarrow> 'a kmem_scheme \<Rightarrow> u64 option" where
  "walk root va s =
     do { (p3, p2, p1) \<leftarrow> table_path root va s;
          if rd p1 (pt_index va) s AND 1 = 0 then None
          else Some (rd p1 (pt_index va) s AND PAGE_MASK) }"

text \<open>
  \<^verbatim>\<open>kmemcpychar(src, dst, 4096)\<close> on two page frames, a quadword at a time, and the same for the
  page at a virtual address, which the processor translates; a page that is not present faults.
\<close>

definition copy_frame :: "u64 \<Rightarrow> u64 \<Rightarrow> 'a kmem_scheme \<Rightarrow> 'a kmem_scheme" where
  "copy_frame src dst s = for_to 512 (\<lambda>i s. wr dst i (rd src i s) s) s"

definition opened_table :: "'a pages \<Rightarrow> u64 \<Rightarrow> u64 \<Rightarrow> u64 \<Rightarrow> 'a pages" where
  "opened_table alloc tbl i sub s =
     (if rd tbl i s AND 1 = 0 then get_cleared_table alloc tbl i 7 s
      else let p = table_of (rd tbl i s) in Some (p, wr p sub (rd p sub s OR 7) s))"

definition copy_page_with :: "'a pages \<Rightarrow> u64 \<Rightarrow> u64 \<Rightarrow> u64 \<Rightarrow> 'a kmem_scheme \<Rightarrow> 'a kmem_scheme option"
where
  "copy_page_with alloc cur user_table page s =
     do { let i4 = pml4t_index page;
          let i3 = pdpt_index page;
          let i2 = pdt_index page;
          let i1 = pt_index page;
          let s = wr user_table i4 (rd user_table i4 s OR 7) s;
          (pdpt, s) \<leftarrow> opened_table alloc user_table i4 i3 s;
          (page_directory, s) \<leftarrow> opened_table alloc pdpt i3 i2 s;
          (page_table, s) \<leftarrow> get_cleared_table alloc page_directory i2 7 s;
          let (phy_value, s) = bump_physical 4096 s;
          if rd page_table i1 s AND 1 \<noteq> 0
          then do { (copy_value, s) \<leftarrow> alloc s;
                    old \<leftarrow> walk user_table page s;
                    let s = copy_frame (KERNBASE + old) copy_value s;
                    let s = wr page_table i1 (phy_value OR 7) s;
                    new \<leftarrow> walk user_table page s;
                    let s = copy_frame copy_value (KERNBASE + new) s;
                    Some (kfree cur copy_value s) }
          else Some (wr page_table i1 (phy_value OR 7) s) }"

definition copy_page :: "nat \<Rightarrow> u64 \<Rightarrow> u64 \<Rightarrow> u64 \<Rightarrow> 'a kmem_scheme \<Rightarrow> 'a kmem_scheme option" where
  "copy_page depth = copy_page_with (bump depth 4096)"

definition is_cow_enabled :: "u64 \<Rightarrow> u64 \<Rightarrow> 'a kmem_scheme \<Rightarrow> bool" where
  "is_cow_enabled cur i s \<longleftrightarrow>
     cur \<noteq> 0 \<and> rd (cur + KERNBASE) i s AND 0x200 \<noteq> 0 \<and> rd (cur + KERNBASE) i s AND 1 = 1"

end
