(* ===== verification/Address_Space.thy ===== *)
theory Address_Space
  imports Paging
begin

text \<open>
  What the routines of \<^verbatim>\<open>sys/virtualmem.c\<close> do to the tables, seen through the processor's
  page walk.
\<close>

section \<open>Slots of page-aligned tables\<close>

lemma PAGE_MASK_eq: "PAGE_MASK = NOT (mask 12)"
  by (simp add: PAGE_MASK_def mask_eq_exp_minus_1)

lemma and_PAGE_MASK: "x AND PAGE_MASK = push_bit 12 (drop_bit 12 x)"
  unfolding PAGE_MASK_eq by (rule bit_word_eqI) (auto simp: bit_simps)

lemma unat_and_PAGE_MASK: "unat (x AND PAGE_MASK) = 4096 * (unat x div 4096)"
proof -
  have "unat x < 2 ^ 64" using unsigned_less [of x] by simp
  then have "4096 * (unat x div 4096) < 2 ^ 64" by (simp add: div_times_less_eq_dividend order.strict_trans1)
  then show ?thesis unfolding and_PAGE_MASK
    by (simp add: unsigned_push_bit_eq unsigned_drop_bit_eq push_bit_eq_mult drop_bit_eq_div take_bit_nat_eq_self mult.commute unat_word_ariths unat_div)
qed

definition page_aligned :: "u64 \<Rightarrow> bool" where
  "page_aligned t \<longleftrightarrow> t AND PAGE_MASK = t"

lemma page_aligned_iff: "page_aligned t \<longleftrightarrow> 4096 dvd unat t"
  unfolding page_aligned_def
  by (metis dvd_mult_div_cancel dvd_triv_left unat_and_PAGE_MASK word_unat_eq_iff)

lemma unat_index: "i < 512 \<Longrightarrow> unat (i :: u64) < 512"
  by (simp add: word_less_nat_alt)

lemma unat_slot:
  assumes "page_aligned t" "i < 512"
  shows "unat (t + 8 * i) = unat t + 8 * unat i"
proof -
  obtain q where q: "unat t = 4096 * q" using assms(1) by (auto simp: page_aligned_iff)
  have "unat t < 2 ^ 64" using unsigned_less [of t] by simp
  then have "q < 2 ^ 52" using q by simp
  then show ?thesis using unat_index [OF assms(2)] q by (simp add: unat_word_ariths)
qed

lemma slot_eq_iff:
  assumes "page_aligned t" "page_aligned u" "i < 512" "j < 512"
  shows "t + 8 * i = u + 8 * j \<longleftrightarrow> t = u \<and> i = j"
proof -
  obtain q where q1: "unat t = 4096 * q" using assms(1) by (auto simp: page_aligned_iff)
  obtain r where r1: "unat u = 4096 * r" using assms(2) by (auto simp: page_aligned_iff)
  note q = q1 r1
  have "unat t + 8 * unat i = unat u + 8 * unat j \<longleftrightarrow> q = r \<and> unat i = unat j"
  proof
    assume e: "unat t + 8 * unat i = unat u + 8 * unat j"
    have "(unat t + 8 * unat i) div 4096 = q" "(unat u + 8 * unat j) div 4096 = r"
      using q unat_index [OF assms(3)] unat_index [OF assms(4)] by simp_all
    with e have "q = r" by metis
    with e q show "q = r \<and> unat i = unat j" by simp
  qed (simp add: q)
  then show ?thesis using assms q
    by (simp add: word_unat_eq_iff [of "t + 8 * i"] unat_slot word_unat_eq_iff [of t] word_unat_eq_iff [of i])
qed

lemma rd_wr [simp]:
  assumes "page_aligned t" "page_aligned u" "i < 512" "j < 512"
  shows "rd t i (wr u j v s) = (if t = u \<and> i = j then v else rd t i s)"
  by (auto simp: rd_def wr_def slot_eq_iff [OF assms])

lemma index_less [simp]:
  "pml4t_index a < 512" "pdpt_index a < 512" "pdt_index a < 512" "pt_index a < 512"
proof -
  have "x AND 0x1ff < 512" for x :: u64
    using and_mask_less' [of 9 x] by (simp add: mask_eq_exp_minus_1)
  then show "pml4t_index a < 512" "pdpt_index a < 512" "pdt_index a < 512" "pt_index a < 512"
    by (simp_all add: pml4t_index_def pdpt_index_def pdt_index_def pt_index_def)
qed

lemma page_aligned_uint: "page_aligned t \<longleftrightarrow> 4096 dvd uint t"
  unfolding page_aligned_iff using int_dvd_int_iff [of 4096 "unat t"] by simp

lemma page_aligned_add: "page_aligned a \<Longrightarrow> page_aligned b \<Longrightarrow> page_aligned (a + b)"
  unfolding page_aligned_uint uint_word_ariths by (intro dvd_mod dvd_add) simp_all

lemma page_aligned_minus: "page_aligned a \<Longrightarrow> page_aligned b \<Longrightarrow> page_aligned (a - b)"
  unfolding page_aligned_uint uint_word_ariths by (intro dvd_mod dvd_diff) simp_all

lemma page_aligned_mult [simp]: "page_aligned (4096 * x)"
  unfolding page_aligned_uint uint_word_ariths by (intro dvd_mod) simp_all

lemma page_aligned_and [simp]: "page_aligned (x AND PAGE_MASK)"
  by (simp add: page_aligned_def and.assoc)

lemma page_aligned_KERNBASE [simp]: "page_aligned KERNBASE"
  by (simp add: page_aligned_def KERNBASE_def PAGE_MASK_def)

lemma page_aligned_table_of [simp]: "page_aligned (table_of e)"
  by (simp add: table_of_def page_aligned_add)


section \<open>Loops over the slots of a table\<close>

lemma unat_less_Suc_index:
  assumes "j < 512" "n < 512"
  shows "unat (j :: u64) < Suc n \<longleftrightarrow> unat j < n \<or> j = of_nat n"
  using assms by (auto simp: word_unat_eq_iff unat_of_nat64)

text \<open>A loop whose turn \<open>i\<close> changes slot \<open>i\<close> of the tables only, as a function of the slot's old
  contents and of slot \<open>i\<close> of a table \<open>a\<close>.\<close>

lemma for_to_rows:
  assumes "\<And>i s u j. \<lbrakk> i < 512; page_aligned u; j < 512 \<rbrakk> \<Longrightarrow>
      rd u j (body i s) = (if j = i then G u (rd a j s) (rd u j s) else rd u j s)"
    and "n \<le> 512" "page_aligned a" "page_aligned u" "j < 512"
  shows "rd u j (for_to n body s) = (if unat j < n then G u (rd a j s) (rd u j s) else rd u j s)"
  using assms(2, 4, 5)
proof (induction n arbitrary: u j)
  case 0
  then show ?case by simp
next
  case (Suc n)
  have n: "of_nat n < (512 :: u64)" using Suc.prems(1) by (simp add: word_less_nat_alt unat_of_nat64)
  have un: "unat (of_nat n :: u64) = n" using Suc.prems(1) by (simp add: unat_of_nat64)
  show ?case
  proof (cases "j = of_nat n")
    case True
    then have "unat j = n" by (simp only: un)
    then show ?thesis
      using Suc.IH [OF _ Suc.prems(2) Suc.prems(3)] Suc.IH [OF _ assms(3) Suc.prems(3)] Suc.prems
      by (simp add: assms(1) True [symmetric])
  next
    case False
    then show ?thesis
      using Suc.IH [OF _ Suc.prems(2) Suc.prems(3)] Suc.prems
      by (simp add: assms(1) [OF n] unat_less_Suc_index)
  qed
qed

lemma for_to_inv: "(\<And>i s. P s \<Longrightarrow> P (body i s)) \<Longrightarrow> P s \<Longrightarrow> P (for_to n body s)"
  by (induction n) auto

text \<open>The allocator's share of the state, which no table write touches.\<close>

definition pool :: "'a kmem_scheme \<Rightarrow> (u64 \<Rightarrow> free_list) \<times> u64 \<times> u64 \<times> u64 \<times> u64 \<times> u64 \<times> u64" where
  "pool s = (fl s, head_free s, head_end s, head_unalloc s, number_of_free_pages s,
             num_of_pages s, pml4t_t s)"

lemma pool_wr [simp]: "pool (wr t i v s) = pool s"
  by (simp add: pool_def wr_def)

lemma pool_for_to: "(\<And>i s. pool (body i s) = pool s) \<Longrightarrow> pool (for_to n body s) = pool s"
  by (induction n) auto

lemma pool_zero_table [simp]: "pool (zero_table t s) = pool s"
  by (simp add: zero_table_def pool_for_to)

lemma pool_fields:
  assumes "pool s' = pool s"
  shows "fl s' = fl s" "head_free s' = head_free s" "head_end s' = head_end s"
    "head_unalloc s' = head_unalloc s" "number_of_free_pages s' = number_of_free_pages s"
    "pml4t_t s' = pml4t_t s"
  using assms by (auto simp: pool_def)

lemma fl_inv_pool: "pool s' = pool s \<Longrightarrow> fl_inv s' fs us = fl_inv s fs us"
  by (frule pool_fields(2), frule pool_fields(3), frule pool_fields(4), frule pool_fields(5),
      drule pool_fields(1)) (simp only: fl_inv_def ring_def)

lemma frames_pool: "pool s' = pool s \<Longrightarrow> frames s' fs = frames s fs"
  by (drule pool_fields(1)) (simp only: frames_def)

lemma rd_zero_table [simp]:
  assumes "page_aligned t" "page_aligned u" "j < 512"
  shows "rd u j (zero_table t s) = (if u = t then 0 else rd u j s)"
proof -
  have "rd u j (for_to 512 (\<lambda>i. wr t i 0) s) =
      (if unat j < 512 then (if u = t then 0 else rd u j s) else rd u j s)"
    by (rule for_to_rows [where a = t and G = "\<lambda>u x y. if u = t then 0 else y"])
       (use assms in auto)
  then show ?thesis using unat_index [OF assms(3)] by (simp add: zero_table_def)
qed

section \<open>Following and writing entries\<close>

lemma low_and_PAGE_MASK: "f < 4096 \<Longrightarrow> f AND PAGE_MASK = 0"
  by (simp add: word_unat_eq_iff [of "f AND PAGE_MASK"] unat_and_PAGE_MASK word_less_nat_alt)

lemma aligned_and_low:
  assumes "page_aligned x" "f < 4096"
  shows "x AND f = 0"
proof -
  have "x AND f = (x AND PAGE_MASK) AND f" using assms(1) by (simp add: page_aligned_def)
  also have "\<dots> = x AND (f AND PAGE_MASK)" by (simp only: and.assoc and.commute and.left_commute)
  finally show ?thesis using low_and_PAGE_MASK [OF assms(2)] by simp
qed

lemma table_of_entry_for [simp]:
  assumes "page_aligned p" "f < 4096"
  shows "table_of (entry_for p f) = p"
proof -
  have a: "page_aligned (p - KERNBASE)" using assms(1) by (simp add: page_aligned_minus)
  have "entry_for p f AND PAGE_MASK = p - KERNBASE"
    using a assms(1) low_and_PAGE_MASK [OF assms(2)] by (simp add: entry_for_def page_aligned_def bit.conj_disj_distrib2)
  then show ?thesis by (simp add: table_of_def)
qed

lemma entry_for_present [simp]:
  assumes "page_aligned p" "f AND 1 = 1"
  shows "entry_for p f AND 1 = 1"
proof -
  have "page_aligned (p - KERNBASE)" using assms(1) by (simp add: page_aligned_minus)
  then have "(p - KERNBASE) AND 1 = 0" by (rule aligned_and_low) simp
  then show ?thesis using assms
    by (simp add: entry_for_def page_aligned_def bit.conj_disj_distrib2)
qed

lemma sub_table_iff: "sub_table t i s = Some p \<longleftrightarrow> rd t i s AND 1 \<noteq> 0 \<and> p = table_of (rd t i s)"
  by (auto simp: sub_table_def)

lemma sub_table_cong: "rd t i s' = rd t i s \<Longrightarrow> sub_table t i s' = sub_table t i s"
  by (simp add: sub_table_def)

text \<open>A path only depends on the slots it goes through.\<close>

lemma table_path_cong:
  assumes "table_path root va s = Some (p3, p2, p1)"
    and "rd root (pml4t_index va) s' = rd root (pml4t_index va) s"
    and "rd p3 (pdpt_index va) s' = rd p3 (pdpt_index va) s"
    and "rd p2 (pdt_index va) s' = rd p2 (pdt_index va) s"
  shows "table_path root va s' = Some (p3, p2, p1)"
  using assms by (auto simp: table_path_def sub_table_def bind_eq_Some_conv split: if_splits)

lemma table_path_aligned:
  assumes "table_path root va s = Some (p3, p2, p1)"
  shows "page_aligned p3" "page_aligned p2" "page_aligned p1"
  using assms by (auto simp: table_path_def sub_table_def bind_eq_Some_conv split: if_splits)

lemma get_table_present:
  "sub_table t i s = Some p \<Longrightarrow> get_table alloc t i f s = Some (p, s)"
  by (simp add: sub_table_iff get_table_def)

section \<open>Filling slots of one page table\<close>

lemma map_turn_plain:
  assumes "c_pdpt c < 512" "c_pdt c < 512" "c_pt c < 512"
  shows "map_turn alloc root f tf phys (c, s)
     = Some (c\<lparr>c_pt := c_pt c + 1\<rparr>, set_page phys tf c s)"
  using assms by (auto simp: map_turn_def new_pdpt_def new_directory_def new_page_table_def)

lemma pool_set_page [simp]: "pool (set_page phys f c s) = pool s"
  by (simp add: set_page_def)

lemma rd_set_page:
  assumes "page_aligned (page_table c)" "c_pt c < 512" "page_aligned u" "j < 512"
  shows "rd u j (set_page phys f c s) =
    (if u = page_table c \<and> j = c_pt c \<and> rd u j s AND 1 = 0 then phys OR f else rd u j s)"
  using assms by (auto simp: set_page_def)

text \<open>The entries that \<open>k\<close> turns from slot \<open>p\<close> on make: absent slots are filled, others kept.\<close>

definition filled :: "u64 \<Rightarrow> nat \<Rightarrow> nat \<Rightarrow> u64 \<Rightarrow> u64 \<Rightarrow> 'a kmem_scheme \<Rightarrow> 'a kmem_scheme \<Rightarrow> bool" where
  "filled pt p k phys f s s' \<longleftrightarrow> pool s' = pool s \<and>
     (\<forall>u j. page_aligned u \<longrightarrow> j < 512 \<longrightarrow> rd u j s' =
        (if u = pt \<and> p \<le> unat j \<and> unat j < p + k \<and> rd u j s AND 1 = 0
         then (phys + 4096 * of_nat (unat j - p)) OR f else rd u j s))"

lemma filled_rd:
  assumes "filled pt p k phys f s s'" "page_aligned u" "j < 512"
  shows "rd u j s' = (if u = pt \<and> p \<le> unat j \<and> unat j < p + k \<and> rd u j s AND 1 = 0
         then (phys + 4096 * of_nat (unat j - p)) OR f else rd u j s)"
  using assms unfolding filled_def by blast

lemma map_loop_fill:
  assumes "c_pdpt c < 512" "c_pdt c < 512" "page_aligned (page_table c)"
    and "unat (c_pt c) + k \<le> 512" and "- d < lo" "lo \<le> 4096 - d"
  shows "\<exists>c' s'. map_loop (map_turn alloc root f tf) lo phys (4096 * int k - d) (c, s) = Some (c', s')
     \<and> filled (page_table c) (unat (c_pt c)) k phys tf s s'"
  using assms
proof (induction k arbitrary: c s phys)
  case 0
  then show ?case by (auto simp: map_loop.simps filled_def)
next
  case (Suc k)
  let ?c = "c\<lparr>c_pt := c_pt c + 1\<rparr>" and ?s = "set_page phys tf c s"
  have lt: "c_pt c < 512" using Suc.prems(4) by (simp add: word_less_nat_alt)
  have p1: "unat (c_pt c + 1) = Suc (unat (c_pt c))"
    using Suc.prems(4) by (simp add: unat_word_ariths)
  have "lo \<le> 4096 * int (Suc k) - d" using Suc.prems(6) by simp
  moreover have "4096 * int (Suc k) - d - 4096 = 4096 * int k - d" by simp
  ultimately have step: "map_loop (map_turn alloc root f tf) lo phys (4096 * int (Suc k) - d) (c, s)
      = map_loop (map_turn alloc root f tf) lo (phys + 4096) (4096 * int k - d) (?c, ?s)"
    by (simp add: map_loop.simps [of _ lo phys] map_turn_plain [OF Suc.prems(1, 2) lt])
  have "\<exists>c' s'. map_loop (map_turn alloc root f tf) lo (phys + 4096) (4096 * int k - d) (?c, ?s)
       = Some (c', s') \<and> filled (page_table ?c) (unat (c_pt ?c)) k (phys + 4096) tf ?s s'"
    by (rule Suc.IH) (use Suc.prems p1 in auto)
  then obtain c' s' where r: "map_loop (map_turn alloc root f tf) lo (phys + 4096) (4096 * int k - d) (?c, ?s)
       = Some (c', s')" and fi: "filled (page_table c) (Suc (unat (c_pt c))) k (phys + 4096) tf ?s s'"
    by (auto simp: p1)
  have "filled (page_table c) (unat (c_pt c)) (Suc k) phys tf s s'"
    unfolding filled_def
  proof (intro conjI allI impI)
    show "pool s' = pool s" using fi by (simp add: filled_def)
    fix u :: u64 and j :: u64
    assume u: "page_aligned u" and j: "j < 512"
    have eqj: "j = c_pt c \<longleftrightarrow> unat j = unat (c_pt c)" by (simp add: word_unat_eq_iff)
    have shift: "phys + 4096 + 4096 * of_nat (unat j - Suc (unat (c_pt c)))
        = phys + 4096 * of_nat (unat j - unat (c_pt c))" if "Suc (unat (c_pt c)) \<le> unat j"
    proof -
      have "unat j - unat (c_pt c) = Suc (unat j - Suc (unat (c_pt c)))" using that by simp
      then show ?thesis by (simp add: algebra_simps)
    qed
    show "rd u j s' = (if u = page_table c \<and> unat (c_pt c) \<le> unat j \<and> unat j < unat (c_pt c) + Suc k
        \<and> rd u j s AND 1 = 0 then (phys + 4096 * of_nat (unat j - unat (c_pt c))) OR tf else rd u j s)"
    proof (cases "j = c_pt c")
      case True
      with filled_rd [OF fi u j] rd_set_page [OF Suc.prems(3) lt u j, of phys tf s]
      show ?thesis by auto
    next
      case False
      then have "unat j \<noteq> unat (c_pt c)" using eqj by simp
      then have "unat (c_pt c) \<le> unat j \<longleftrightarrow> Suc (unat (c_pt c)) \<le> unat j" by linarith
      with False show ?thesis
        using shift filled_rd [OF fi u j] rd_set_page [OF Suc.prems(3) lt u j, of phys tf s]
        by (cases "Suc (unat (c_pt c)) \<le> unat j") auto
    qed
  qed
  then show ?case using step r by auto
qed

section \<open>Indices of consecutive pages\<close>

lemma unat_pt_index: "unat (pt_index va) = unat va div 4096 mod 512"
proof -
  have "(x :: u64) AND 0x1ff = take_bit 9 x" for x
    by (simp add: take_bit_eq_mask mask_eq_exp_minus_1)
  then show ?thesis
    by (simp add: pt_index_def take_bit_eq_mod drop_bit_eq_div unat_div unat_mod)
qed

lemma unat_drop_bit_21: "unat (drop_bit 21 (x :: u64)) = unat x div 2097152"
  by (simp add: drop_bit_eq_div unat_div)

lemma next_pages:
  assumes "unat (pt_index va) + k < 512"
  shows "drop_bit 21 (va + 4096 * of_nat k) = drop_bit 21 va"
    and "unat (pt_index (va + 4096 * of_nat k)) = unat (pt_index va) + k"
proof -
  define q where "q = unat va div 4096 div 512"
  define t where "t = unat va div 4096 mod 512"
  define e where "e = unat va mod 4096"
  have d: "unat va div 4096 = 512 * q + t" by (simp add: q_def t_def)
  have v: "unat va = 2097152 * q + (4096 * t + e)"
    using div_mult_mod_eq [of "unat va" 4096] d by (simp add: e_def algebra_simps)
  have e: "e < 4096" by (simp add: e_def)
  have t: "t + k < 512" using assms by (simp add: unat_pt_index t_def)
  have lt: "unat va < 2 ^ 64" using unsigned_less [of va] by simp
  then have "q < 2 ^ 43" using v by simp
  then have "2097152 * q + (4096 * (t + k) + e) < 2 ^ 64" using t e by simp
  then have u: "unat (va + 4096 * of_nat k) = 2097152 * q + (4096 * (t + k) + e)"
    using unat_add_mult64 [of va 4096 k] v by (simp add: algebra_simps)
  have dv: "unat (va + 4096 * of_nat k) div 2097152 = q" "unat va div 2097152 = q"
    unfolding u v using t e by simp_all
  show "drop_bit 21 (va + 4096 * of_nat k) = drop_bit 21 va"
    using dv by (simp only: word_unat_eq_iff unat_drop_bit_21)
  have "unat (va + 4096 * of_nat k) = 4096 * (512 * q + (t + k)) + e" using u by simp
  then have "unat (va + 4096 * of_nat k) div 4096 = 512 * q + (t + k)" using e by simp
  then show "unat (pt_index (va + 4096 * of_nat k)) = unat (pt_index va) + k"
    using t by (simp add: unat_pt_index t_def [symmetric])
qed

lemma next_indices:
  assumes "unat (pt_index va) + k < 512"
  shows "pml4t_index (va + 4096 * of_nat k) = pml4t_index va"
    "pdpt_index (va + 4096 * of_nat k) = pdpt_index va"
    "pdt_index (va + 4096 * of_nat k) = pdt_index va"
proof -
  have e: "drop_bit 39 x = drop_bit 18 (drop_bit 21 x)" "drop_bit 30 x = drop_bit 9 (drop_bit 21 x)"
    for x :: u64 by simp_all
  show "pml4t_index (va + 4096 * of_nat k) = pml4t_index va"
    "pdpt_index (va + 4096 * of_nat k) = pdpt_index va"
    "pdt_index (va + 4096 * of_nat k) = pdt_index va"
    by (simp_all only: pml4t_index_def pdpt_index_def pdt_index_def e next_pages [OF assms])
qed

lemma table_path_next:
  "unat (pt_index va) + k < 512 \<Longrightarrow> table_path root (va + 4096 * of_nat k) s = table_path root va s"
  by (simp only: table_path_def next_indices)

section \<open>Mapping into existing tables\<close>

lemma user_map_size_pages:
  assumes "1 \<le> n" "n < 512"
  shows "user_map_size (4096 * int n) = 4096 * int n"
proof -
  have a: "(4096 * int n) sdiv 4096 = int n" using assms by (simp add: signed_divide_int_def)
  have b: "(4096 * int n) smod 512 = 0" by (simp add: signed_modulo_int_def)
  have c: "int n sdiv 512 = 0" "int n smod 512 = int n"
    using assms by (simp_all add: signed_divide_int_def signed_modulo_int_def)
  show ?thesis using assms by (simp add: user_map_size_def structs_for_def Let_def a b c)
qed

lemma map_user_present:
  assumes "table_path root va s = Some (p3, p2, p1)" "1 \<le> n" "unat (pt_index va) + n < 512"
  shows "\<exists>s'. map_user_with alloc va phys (4096 * int n) root f s = Some s' \<and>
    filled p1 (unat (pt_index va)) (n + 1) (phys AND 0xfffff000) 7 s s'"
proof -
  let ?c = "cursor_at va p3 p2 p1"
  have "\<exists>c' s'. map_loop (map_turn alloc root f 7) 0 (phys AND 0xfffff000) (4096 * int (n + 1) - 4096) (?c, s)
     = Some (c', s') \<and> filled (page_table ?c) (unat (c_pt ?c)) (n + 1) (phys AND 0xfffff000) 7 s s'"
    by (rule map_loop_fill)
      (use assms table_path_aligned [OF assms(1)] in \<open>simp_all add: cursor_at_def\<close>)
  then show ?thesis using assms
    by (auto simp: map_user_with_def table_path_def bind_eq_Some_conv get_table_present
        user_map_size_pages cursor_at_def)
qed

lemma walk_filled:
  assumes "table_path root va s = Some (p3, p2, p1)" "page_aligned root" "p1 \<notin> {root, p3, p2}"
    and "filled p1 (unat (pt_index va)) (Suc n) phys f s s'" "unat (pt_index va) + n < 512"
    and "f AND 1 = 1" "f < 4096" "page_aligned phys" "k \<le> n"
  shows "walk root (va + 4096 * of_nat k) s' =
    (case walk root (va + 4096 * of_nat k) s of None \<Rightarrow> Some (phys + 4096 * of_nat k) | Some p \<Rightarrow> Some p)"
proof -
  have k: "unat (pt_index va) + k < 512" using assms by simp
  note al = table_path_aligned [OF assms(1)]
  note rd' = filled_rd [OF assms(4)]
  have path': "table_path root va s' = Some (p3, p2, p1)"
    by (rule table_path_cong [OF assms(1)]) (use assms(3) in \<open>auto simp: rd' assms(2) al\<close>)
  have fr: "page_aligned (phys + 4096 * of_nat k)"
    using assms(8) by (intro page_aligned_add page_aligned_mult)
  have dec: "((phys + 4096 * of_nat k) OR f) AND 1 = 1"
      "((phys + 4096 * of_nat k) OR f) AND PAGE_MASK = phys + 4096 * of_nat k"
    using fr assms(6) low_and_PAGE_MASK [OF assms(7)] aligned_and_low [OF fr, of 1]
    by (simp_all add: bit.conj_disj_distrib2 page_aligned_def)
  show ?thesis using k assms(9)
    by (auto simp: walk_def table_path_next assms(1) path' rd' al next_pages(2) dec)
qed

section \<open>Sources of new tables\<close>

definition empty_table :: "u64 \<Rightarrow> 'a kmem_scheme \<Rightarrow> bool" where
  "empty_table p s \<longleftrightarrow> (\<forall>j. j < 512 \<longrightarrow> rd p j s = 0)"

text \<open>The tables \<open>T\<close> are unchanged, up to the slot \<open>i\<close> of \<open>t\<close>.\<close>

definition kept :: "u64 set \<Rightarrow> u64 \<Rightarrow> u64 \<Rightarrow> 'a kmem_scheme \<Rightarrow> 'a kmem_scheme \<Rightarrow> bool" where
  "kept T t i s s' \<longleftrightarrow> (\<forall>u j. u \<in> T \<longrightarrow> j < 512 \<longrightarrow> \<not> (u = t \<and> j = i) \<longrightarrow> rd u j s' = rd u j s)"

lemma empty_table_rd: "empty_table p s \<Longrightarrow> j < 512 \<Longrightarrow> rd p j s = 0"
  by (simp add: empty_table_def)

lemma kept_rd: "kept T t i s s' \<Longrightarrow> u \<in> T \<Longrightarrow> j < 512 \<Longrightarrow> u \<noteq> t \<or> j \<noteq> i \<Longrightarrow> rd u j s' = rd u j s"
  by (auto simp: kept_def)

text \<open>
  What the mapping routines rely on when they call an allocator: with \<open>n\<close> pages left, and
  the tables \<open>T\<close> in use, the page it returns is aligned and not in use, and no table in use changes.
\<close>

locale table_source =
  fixes alloc :: "'a pages"
    and ok :: "nat \<Rightarrow> u64 set \<Rightarrow> 'a kmem_scheme \<Rightarrow> bool"
  assumes table_law: "ok (Suc n) T s \<Longrightarrow> \<exists>p s'. alloc s = Some (p, s') \<and> page_aligned p \<and> p \<notin> T
      \<and> ok n (insert p T) s' \<and> (\<forall>u\<in>T. \<forall>i. i < 512 \<longrightarrow> rd u i s' = rd u i s)"
    and aligned_law: "ok n T s \<Longrightarrow> u \<in> T \<Longrightarrow> page_aligned u"
    and write_law: "ok n T s \<Longrightarrow> u \<in> T \<Longrightarrow> i < 512 \<Longrightarrow> ok n T (wr u i v s)"
begin

lemma clear_law: "ok n T s \<Longrightarrow> u \<in> T \<Longrightarrow> ok n T (zero_table u s)"
proof -
  assume o: "ok n T s" and u: "u \<in> T"
  have "m \<le> 512 \<Longrightarrow> ok n T (for_to m (\<lambda>i. wr u i 0) s)" for m
  proof (induction m)
    case 0
    then show ?case using o by simp
  next
    case (Suc m)
    then have "of_nat m < (512 :: u64)" by (simp add: word_less_nat_alt unat_of_nat64)
    then show ?case using Suc u by (simp add: write_law)
  qed
  then show ?thesis by (simp add: zero_table_def)
qed

lemma get_absent:
  assumes o: "ok (Suc n) T s" and t: "t \<in> T" and i: "i < 512" and absent: "rd t i s AND 1 = 0"
    and f: "f AND 1 = 1" "f < 4096"
  shows "\<exists>p s'. get_table alloc t i f s = Some (p, s') \<and> ok n (insert p T) s' \<and> p \<notin> T
    \<and> sub_table t i s' = Some p \<and> empty_table p s' \<and> kept T t i s s'"
proof -
  from table_law [OF o] obtain p s1 where a: "alloc s = Some (p, s1)" "page_aligned p" "p \<notin> T"
    and o1: "ok n (insert p T) s1" and same: "\<And>u i. u \<in> T \<Longrightarrow> i < 512 \<Longrightarrow> rd u i s1 = rd u i s"
    by blast
  let ?s = "zero_table p (wr t i (entry_for p f) s1)"
  have al: "\<And>u. u \<in> T \<Longrightarrow> page_aligned u" using o aligned_law by blast
  have r: "rd u j ?s = (if u = p then 0 else if u = t \<and> j = i then entry_for p f else rd u j s)"
    if "u \<in> insert p T" "j < 512" for u j
    using that a al same t i by auto
  have "get_table alloc t i f s = Some (p, ?s)" using a absent by (simp add: get_table_def)
  moreover have "ok n (insert p T) ?s" using o1 t i by (intro clear_law write_law) auto
  moreover have "sub_table t i ?s = Some p" using r [of t i] t i a f by (auto simp: sub_table_iff)
  moreover have "empty_table p ?s" using r by (simp add: empty_table_def)
  moreover have "kept T t i s ?s" using r a by (auto simp: kept_def)
  ultimately show ?thesis using a(3) by blast
qed

text \<open>Three new tables below an absent entry of a root table form an empty path.\<close>

lemma fresh_path:
  assumes o: "ok (n + 3) T s" and root: "root \<in> T" and absent: "rd root (pml4t_index va) s AND 1 = 0"
    and f: "f AND 1 = 1" "f < 4096"
  shows "\<exists>p3 p2 p1 s1 s2 s3. get_table alloc root (pml4t_index va) f s = Some (p3, s1)
    \<and> get_table alloc p3 (pdpt_index va) f s1 = Some (p2, s2)
    \<and> get_table alloc p2 (pdt_index va) f s2 = Some (p1, s3)
    \<and> table_path root va s3 = Some (p3, p2, p1) \<and> p1 \<notin> insert p2 (insert p3 T)
    \<and> empty_table p1 s3 \<and> ok n (insert p1 (insert p2 (insert p3 T))) s3
    \<and> kept T root (pml4t_index va) s s3"
proof -
  have o': "ok (Suc (Suc (Suc n))) T s" using o by (simp add: numeral_3_eq_3)
  from get_absent [OF o' root index_less(1) absent f] obtain p3 s1 where
    g3: "get_table alloc root (pml4t_index va) f s = Some (p3, s1)" "ok (Suc (Suc n)) (insert p3 T) s1"
    "p3 \<notin> T" "sub_table root (pml4t_index va) s1 = Some p3" and z3: "empty_table p3 s1"
    and k3: "kept T root (pml4t_index va) s s1"
    by blast
  have "rd p3 (pdpt_index va) s1 AND 1 = 0" by (simp add: empty_table_rd [OF z3])
  from get_absent [OF g3(2) insertI1 index_less(2) this f] obtain p2 s2 where
    g2: "get_table alloc p3 (pdpt_index va) f s1 = Some (p2, s2)"
    "ok (Suc n) (insert p2 (insert p3 T)) s2"
    "p2 \<notin> insert p3 T" "sub_table p3 (pdpt_index va) s2 = Some p2" and z2: "empty_table p2 s2"
    and k2: "kept (insert p3 T) p3 (pdpt_index va) s1 s2"
    by blast
  have "rd p2 (pdt_index va) s2 AND 1 = 0" by (simp add: empty_table_rd [OF z2])
  from get_absent [OF g2(2) insertI1 index_less(3) this f] obtain p1 s3 where
    g1: "get_table alloc p2 (pdt_index va) f s2 = Some (p1, s3)"
    "ok n (insert p1 (insert p2 (insert p3 T))) s3"
    "p1 \<notin> insert p2 (insert p3 T)" "sub_table p2 (pdt_index va) s3 = Some p1"
    and z1: "empty_table p1 s3"
    and k1: "kept (insert p2 (insert p3 T)) p2 (pdt_index va) s2 s3"
    by blast
  have "root \<noteq> p3" "root \<noteq> p2" "p3 \<noteq> p2" using root g3 g2 by auto
  then have "rd root (pml4t_index va) s3 = rd root (pml4t_index va) s1"
    "rd p3 (pdpt_index va) s3 = rd p3 (pdpt_index va) s2"
    using root by (simp_all add: kept_rd [OF k1] kept_rd [OF k2])
  then have path: "table_path root va s3 = Some (p3, p2, p1)"
    using g3(4) g2(4) g1(4) sub_table_cong [of root _ s3 s1] sub_table_cong [of p3 _ s3 s2]
    by (simp add: table_path_def)
  have keep: "kept T root (pml4t_index va) s s3" unfolding kept_def
  proof (intro allI impI)
    fix u j :: u64
    assume u: "u \<in> T" "j < 512" "\<not> (u = root \<and> j = pml4t_index va)"
    then have "u \<noteq> p3" "u \<noteq> p2" using g3 g2 by auto
    then show "rd u j s3 = rd u j s"
      using u by (auto simp: kept_rd [OF k1] kept_rd [OF k2] kept_rd [OF k3])
  qed
  show ?thesis
    by (intro exI conjI) (fact g3(1) g2(1) g1(1) path g1(3) z1 g1(2) keep)+
qed

lemma map_user_fresh:
  assumes o: "ok 3 T s" and root: "root \<in> T" and absent: "rd root (pml4t_index va) s AND 1 = 0"
    and f: "f AND 1 = 1" "f < 4096" and n: "1 \<le> n" "unat (pt_index va) + n < 512"
  shows "\<exists>s'. map_user_with alloc va phys (4096 * int n) root f s = Some s'
    \<and> (\<forall>k\<le>n. walk root (va + 4096 * of_nat k) s' = Some ((phys AND 0xfffff000) + 4096 * of_nat k))
    \<and> kept T root (pml4t_index va) s s'"
proof -
  from fresh_path [of 0, OF _ root absent f] o obtain p3 p2 p1 s1 s2 s3 where
    g: "get_table alloc root (pml4t_index va) f s = Some (p3, s1)"
    "get_table alloc p3 (pdpt_index va) f s1 = Some (p2, s2)"
    "get_table alloc p2 (pdt_index va) f s2 = Some (p1, s3)"
    and path: "table_path root va s3 = Some (p3, p2, p1)" and p1: "p1 \<notin> insert p2 (insert p3 T)"
    and z: "empty_table p1 s3" and keep: "kept T root (pml4t_index va) s s3"
    by auto
  let ?ph = "phys AND 0xfffff000"
  have ra: "page_aligned root" using aligned_law o root by blast
  have pa: "page_aligned ?ph" by (simp add: page_aligned_def PAGE_MASK_def and.assoc)
  let ?c = "cursor_at va p3 p2 p1"
  have "\<exists>c' s'. map_loop (map_turn alloc root f 7) 0 ?ph (4096 * int (n + 1) - 4096) (?c, s3)
     = Some (c', s') \<and> filled (page_table ?c) (unat (c_pt ?c)) (n + 1) ?ph 7 s3 s'"
    by (rule map_loop_fill)
      (use n table_path_aligned [OF path] in \<open>simp_all add: cursor_at_def\<close>)
  then obtain s' where m: "map_user_with alloc va phys (4096 * int n) root f s = Some s'"
    and fi: "filled p1 (unat (pt_index va)) (Suc n) ?ph 7 s3 s'"
    using n by (auto simp: map_user_with_def bind_eq_Some_conv g user_map_size_pages cursor_at_def)
  have w: "walk root (va + 4096 * of_nat k) s' = Some (?ph + 4096 * of_nat k)" if k: "k \<le> n" for k
  proof -
    have "walk root (va + 4096 * of_nat k) s3 = None"
      using k n by (simp add: walk_def table_path_next path empty_table_rd [OF z])
    then show ?thesis
      using walk_filled [OF path ra _ fi n(2) _ _ pa k] p1 root by auto
  qed
  have "kept T root (pml4t_index va) s s'" unfolding kept_def
  proof (intro allI impI)
    fix u j :: u64
    assume u: "u \<in> T" "j < 512" "\<not> (u = root \<and> j = pml4t_index va)"
    then have "u \<noteq> p1" "page_aligned u" using p1 o aligned_law by auto
    then show "rd u j s' = rd u j s" using u by (auto simp: filled_rd [OF fi] kept_rd [OF keep])
  qed
  with m w show ?thesis by blast
qed

end

section \<open>The allocators as sources of tables\<close>

text \<open>\<open>n\<close> more tables can be taken: frames that are aligned, below 2 GiB and not in use.\<close>

definition frames_ok :: "u64 list \<Rightarrow> u64 set \<Rightarrow> bool" where
  "frames_ok ps T \<longleftrightarrow> distinct ps \<and> (\<forall>t\<in>T. page_aligned t)
     \<and> (\<forall>p\<in>set ps. page_aligned p \<and> p < 2 ^ 31 \<and> p + KERNBASE \<notin> T)"

definition tables_left :: "nat \<Rightarrow> u64 set \<Rightarrow> 'a kmem_scheme \<Rightarrow> bool" where
  "tables_left n T s \<longleftrightarrow>
     (\<exists>fs us. fl_inv s fs us \<and> n \<le> length fs \<and> frames_ok (frames s fs) T)"

lemma frames_ok_Cons:
  "frames_ok (p # ps) T \<Longrightarrow> frames_ok ps (insert (p + KERNBASE) T)"
  by (auto simp: frames_ok_def page_aligned_add)

lemma fl_inv_wr [simp]: "fl_inv (wr t i v s) fs us = fl_inv s fs us"
  by (rule fl_inv_pool) simp

lemma frames_wr [simp]: "frames (wr t i v s) fs = frames s fs"
  by (rule frames_pool) simp

lemma rd_ptmem: "ptmem s' = ptmem s \<Longrightarrow> rd t i s' = rd t i s"
  by (simp add: rd_def)

lemma grab_one:
  assumes "fl_inv s (a # fs) us"
  shows "\<exists>s'. grab 4096 s = (Some (fl_current (fl s a)), s') \<and> fl_inv s' fs (us @ [a])
     \<and> (\<forall>x. fl_current (fl s' x) = fl_current (fl s x)) \<and> ptmem s' = ptmem s \<and> pml4t_t s' = pml4t_t s"
  using grab_success [OF assms, of 4096] fl_inv_head [OF assms] by auto

interpretation initial_tables:
  table_source "\<lambda>s. Some (bump_initial 4096 s)" tables_left
proof
  fix n :: nat and T :: "u64 set" and s :: "'a kmem_scheme"
  assume "tables_left (Suc n) T s"
  then obtain a fs us where inv: "fl_inv s (a # fs) us" and n: "n \<le> length fs"
    and ok: "frames_ok (fl_current (fl s a) # frames s fs) T"
    by (auto simp: tables_left_def Suc_le_length_iff)
  from grab_one [OF inv] obtain s' where s': "grab 4096 s = (Some (fl_current (fl s a)), s')"
    "fl_inv s' fs (us @ [a])" "\<And>x. fl_current (fl s' x) = fl_current (fl s x)" "ptmem s' = ptmem s"
    by blast
  have "tables_left n (insert (fl_current (fl s a) + KERNBASE) T) s'"
    unfolding tables_left_def
    using s'(2) n frames_ok_Cons [OF ok] frames_cong [of s' s fs, OF s'(3)] by auto
  moreover have "page_aligned (fl_current (fl s a) + KERNBASE)"
    "fl_current (fl s a) + KERNBASE \<notin> T"
    using ok by (auto simp: frames_ok_def page_aligned_add)
  ultimately show "\<exists>p s'. Some (bump_initial 4096 s) = Some (p, s') \<and> page_aligned p \<and> p \<notin> T
      \<and> tables_left n (insert p T) s' \<and> (\<forall>u\<in>T. \<forall>i. i < 512 \<longrightarrow> rd u i s' = rd u i s)"
    using s'(1) by (simp add: bump_initial_def rd_ptmem [OF s'(4)])
next
  fix n :: nat and T :: "u64 set" and s :: "'a kmem_scheme" and u i v :: u64
  assume "tables_left n T s" "u \<in> T"
  then show "tables_left n T (wr u i v s)"
    by (simp add: tables_left_def)
qed (auto simp: tables_left_def frames_ok_def)

lemma map_size_next: "map_size (ret + 4096) ret = 4096"
proof -
  have t: "to_int 1 = 1" "to_int 4096 = 4096" by (simp_all add: to_int_small)
  have "structs_for 1 = 1" by (simp add: structs_for_def signed_divide_int_def signed_modulo_int_def)
  then show ?thesis by (simp add: map_size_def Let_def t)
qed

text \<open>
  \<^verbatim>\<open>bump\<close> also maps the page it returns.  When the next free frame follows the one it takes, and
  the kernel has a page table for it, exactly one slot of that table changes.
\<close>

lemma bump_one:
  assumes inv: "fl_inv s (a # b # fs) us" and ret: "fl_current (fl s a) = ret"
    and adj: "fl_current (fl s b) = ret + 4096"
    and path: "table_path (pml4t_t s) (ret + KERNBASE) s = Some (p3, p2, p1)"
  shows "\<exists>s1 s'. bump (Suc depth) 4096 s = Some (ret + KERNBASE, s')
    \<and> fl_inv s' (b # fs) (us @ [a]) \<and> (\<forall>x. fl_current (fl s' x) = fl_current (fl s x))
    \<and> pml4t_t s' = pml4t_t s \<and> ptmem s1 = ptmem s
    \<and> filled p1 (unat (pt_index (ret + KERNBASE))) 1 (ret AND 0xfffff000) 3 s1 s'"
proof -
  from grab_one [OF inv] ret obtain s1 where s1: "grab 4096 s = (Some ret, s1)"
    "fl_inv s1 (b # fs) (us @ [a])" "\<And>x. fl_current (fl s1 x) = fl_current (fl s x)"
    "ptmem s1 = ptmem s" "pml4t_t s1 = pml4t_t s" by auto
  let ?va = "ret + KERNBASE"
  let ?c = "cursor_at ?va p3 p2 p1"
  have path1: "table_path (pml4t_t s1) ?va s1 = Some (p3, p2, p1)"
    unfolding s1(5) by (rule table_path_cong [OF path]) (simp_all add: rd_ptmem [OF s1(4)])
  have "get_unallocated s1 = ret + 4096"
    using fl_inv_head [OF s1(2)] adj s1(3) by (simp add: get_unallocated_def)
  then have sz: "map_size (get_unallocated s1) ret = 4096"
    by (simp only: map_size_next)
  have "\<exists>c' s'. map_loop (map_turn (bump depth 4096) (pml4t_t s1) 3 3) 1 (ret AND 0xfffff000)
      (4096 * int 1 - 0) (?c, s1) = Some (c', s')
     \<and> filled (page_table ?c) (unat (c_pt ?c)) 1 (ret AND 0xfffff000) 3 s1 s'"
    using unat_index [OF index_less(4), of ?va] table_path_aligned [OF path]
    by (intro map_loop_fill) (simp_all add: cursor_at_def)
  then obtain s' where m: "map_address_with (bump depth 4096) ?va ret s1 = Some s'"
    and fi: "filled p1 (unat (pt_index ?va)) 1 (ret AND 0xfffff000) 3 s1 s'"
    using path1
    by (auto simp: map_address_with_def table_path_def bind_eq_Some_conv get_table_present sz
        cursor_at_def)
  have p: "pool s' = pool s1" using fi by (simp add: filled_def)
  have "fl_inv s' (b # fs) (us @ [a])" using fl_inv_pool [OF p] s1(2) by simp
  moreover have "fl_current (fl s' x) = fl_current (fl s x)" for x
    using pool_fields(1) [OF p] s1(3) by simp
  moreover have "pml4t_t s' = pml4t_t s" using pool_fields(6) [OF p] s1(5) by simp
  ultimately show ?thesis using s1 m fi by auto
qed

text \<open>
  The kernel's own tables: \<open>L\<close> are its page tables and \<open>U\<close> the levels above them.  Calls of
  \<^verbatim>\<open>bump\<close> only write to \<open>L\<close>, so they keep every path of the kernel's mapping.
\<close>

definition kernel_mapped :: "u64 set \<Rightarrow> u64 set \<Rightarrow> 'a kmem_scheme \<Rightarrow> u64 \<Rightarrow> bool" where
  "kernel_mapped U L s p \<longleftrightarrow> (\<exists>p3 p2 p1. table_path (pml4t_t s) (p + KERNBASE) s = Some (p3, p2, p1)
     \<and> pml4t_t s \<in> U \<and> p3 \<in> U \<and> p2 \<in> U \<and> p1 \<in> L)"

definition bump_left :: "u64 set \<Rightarrow> u64 set \<Rightarrow> nat \<Rightarrow> u64 set \<Rightarrow> 'a kmem_scheme \<Rightarrow> bool" where
  "bump_left U L n T s \<longleftrightarrow> U \<inter> L = {} \<and> T \<inter> (U \<union> L) = {} \<and> (\<forall>u\<in>U \<union> L. page_aligned u) \<and>
     (\<exists>fs us. fl_inv s fs us \<and> n < length fs \<and> frames_ok (frames s fs) T
        \<and> frames_ok (frames s fs) (U \<union> L)
        \<and> successively (\<lambda>p q. q = p + 4096) (frames s fs)
        \<and> (\<forall>p\<in>set (frames s fs). kernel_mapped U L s p))"

lemma kernel_mapped_keep:
  assumes "kernel_mapped U L s p" "pml4t_t s' = pml4t_t s" "\<forall>u\<in>U. page_aligned u"
    and "\<And>u i. \<lbrakk> u \<in> U; i < 512 \<rbrakk> \<Longrightarrow> rd u i s' = rd u i s"
  shows "kernel_mapped U L s' p"
proof -
  from assms(1) obtain p3 p2 p1 where
    p: "table_path (pml4t_t s) (p + KERNBASE) s = Some (p3, p2, p1)"
    "pml4t_t s \<in> U" "p3 \<in> U" "p2 \<in> U" "p1 \<in> L" by (auto simp: kernel_mapped_def)
  then have "table_path (pml4t_t s) (p + KERNBASE) s' = Some (p3, p2, p1)"
    by (intro table_path_cong [OF p(1)]) (simp_all add: assms(4))
  with p assms(2) show ?thesis by (auto simp: kernel_mapped_def)
qed

lemma bump_left_take:
  assumes "bump_left U L (Suc n) T s"
  shows "\<exists>p s'. bump (Suc depth) 4096 s = Some (p, s') \<and> page_aligned p \<and> p \<notin> T
    \<and> bump_left U L n (insert p T) s' \<and> pml4t_t s' = pml4t_t s
    \<and> (\<forall>u\<in>T \<union> U. \<forall>i. i < 512 \<longrightarrow> rd u i s' = rd u i s)"
proof -
  from assms obtain fs' us where inv': "fl_inv s fs' us" and n': "Suc n < length fs'"
    and ok': "frames_ok (frames s fs') T" "frames_ok (frames s fs') (U \<union> L)"
    and sc': "successively (\<lambda>p q. q = p + 4096) (frames s fs')"
    and km': "\<forall>p\<in>set (frames s fs'). kernel_mapped U L s p"
    unfolding bump_left_def by blast
  from n' obtain a b fs where fs': "fs' = a # b # fs"
    by (metis Suc_le_length_iff less_imp_le_nat Suc_leI)
  note inv = inv' [unfolded fs'] and ok = ok' [unfolded fs'] and sc = sc' [unfolded fs']
    and km = km' [unfolded fs', rule_format]
  have n: "n \<le> length fs" using n' fs' by simp
  have dis: "U \<inter> L = {}" "T \<inter> (U \<union> L) = {}" "\<forall>u\<in>U \<union> L. page_aligned u"
    using assms by (auto simp: bump_left_def)
  define ret where "ret = fl_current (fl s a)"
  from km [of ret] obtain p3 p2 p1 where
    path: "table_path (pml4t_t s) (ret + KERNBASE) s = Some (p3, p2, p1)"
    and p1: "p1 \<in> L" by (auto simp: kernel_mapped_def ret_def)
  have adj: "fl_current (fl s b) = ret + 4096" using sc by (simp add: ret_def)
  from bump_one [OF inv ret_def [symmetric] adj path, of depth] obtain s1 s' where
    r: "bump (Suc depth) 4096 s = Some (ret + KERNBASE, s')" "fl_inv s' (b # fs) (us @ [a])"
    "\<And>x. fl_current (fl s' x) = fl_current (fl s x)" "pml4t_t s' = pml4t_t s" "ptmem s1 = ptmem s"
    and fi: "filled p1 (unat (pt_index (ret + KERNBASE))) 1 (ret AND 0xfffff000) 3 s1 s'"
    by blast
  have keep: "rd u i s' = rd u i s" if "page_aligned u" "i < 512" "u \<noteq> p1" for u i
    using that by (simp add: filled_rd [OF fi] rd_ptmem [OF r(5)])
  have fr: "frames s' xs = frames s xs" for xs by (rule frames_cong) (rule r(3))
  have mapped: "kernel_mapped U L s' p" if "p \<in> set (frames s (b # fs))" for p
    using that dis p1 by (intro kernel_mapped_keep [OF km _ ]) (auto intro!: keep simp: r(4))
  have "bump_left U L n (insert (ret + KERNBASE) T) s'"
    unfolding bump_left_def
  proof (intro conjI exI ballI)
    show "fl_inv s' (b # fs) (us @ [a])" by (rule r(2))
    show "n < length (b # fs)" using n by simp
    show "frames_ok (frames s' (b # fs)) (insert (ret + KERNBASE) T)"
      using frames_ok_Cons [of ret "frames s (b # fs)" T] ok(1) by (simp add: fr r(3) ret_def)
    show "frames_ok (frames s' (b # fs)) (U \<union> L)"
      using ok(2) by (auto simp: fr r(3) frames_ok_def)
    show "successively (\<lambda>p q. q = p + 4096) (frames s' (b # fs))"
      using sc by (auto simp: fr r(3))
    show "insert (ret + KERNBASE) T \<inter> (U \<union> L) = {}"
      using dis ok(2) by (auto simp: frames_ok_def ret_def)
    show "kernel_mapped U L s' p" if "p \<in> set (frames s' (b # fs))" for p
      using that by (simp add: mapped fr r(3))
  qed (use dis in auto)
  moreover have "page_aligned (ret + KERNBASE)" "ret + KERNBASE \<notin> T"
    using ok(1) by (auto simp: frames_ok_def ret_def page_aligned_add)
  moreover have "rd u i s' = rd u i s" if "u \<in> T \<union> U" "i < 512" for u i
    using that dis ok(1) p1 by (intro keep) (auto simp: frames_ok_def)
  ultimately show ?thesis using r(1, 4) by blast
qed

interpretation bump_tables: table_source "bump (Suc depth) 4096" "bump_left U L" for depth U L
proof
  fix n :: nat and T :: "u64 set" and s :: "'a kmem_scheme"
  assume "bump_left U L (Suc n) T s"
  then show "\<exists>p s'. bump (Suc depth) 4096 s = Some (p, s') \<and> page_aligned p \<and> p \<notin> T
    \<and> bump_left U L n (insert p T) s' \<and> (\<forall>u\<in>T. \<forall>i. i < 512 \<longrightarrow> rd u i s' = rd u i s)"
    using bump_left_take [of U L n T s depth] by blast
next
  fix n :: nat and T :: "u64 set" and s :: "'a kmem_scheme" and u :: u64
  assume "bump_left U L n T s" "u \<in> T"
  then show "page_aligned u" by (auto simp: bump_left_def frames_ok_def)
next
  fix n :: nat and T :: "u64 set" and s :: "'a kmem_scheme" and u i v :: u64
  assume b: "bump_left U L n T s" and u: "u \<in> T" and i: "i < 512"
  have al: "page_aligned u" using b u by (auto simp: bump_left_def frames_ok_def)
  have km: "kernel_mapped U L (wr u i v s) p" if "kernel_mapped U L s p" for p
    using b u i al by (intro kernel_mapped_keep [OF that])
      (auto simp: bump_left_def pool_fields(6) [OF pool_wr])
  show "bump_left U L n T (wr u i v s)" using b km
    by (auto simp: bump_left_def)
qed

section \<open>When the next free frame lies below\<close>

lemma to_int_word_of_int:
  "to_int (word_of_int z) = signed_take_bit 31 z"
  by (simp add: to_int_def ucast_down_wi is_down_def source_size_def target_size_def word_size sint_sbintrunc')

lemma uint_of_int64: "0 \<le> x \<Longrightarrow> x < 2 ^ 64 \<Longrightarrow> uint (word_of_int x :: u64) = x"
  by (simp add: uint_word_of_int)

lemma map_size_back:
  assumes "0 < k" "k < 2 ^ 18"
  shows "map_size (ret - 4096 * of_nat k) ret < 1"
proof -
  let ?d = "- (4096 * of_nat k) :: u64"
  have d: "?d = word_of_int (4096 * (2 ^ 52 - int k))" by simp
  have b: "0 \<le> 4096 * (2 ^ 52 - int k)" "4096 * (2 ^ 52 - int k) < 2 ^ 64" using assms by simp_all
  have u: "uint ?d = 4096 * (2 ^ 52 - int k)"
    unfolding d using b by (rule uint_of_int64)
  have q: "?d div 4096 = word_of_int (2 ^ 52 - int k)"
  proof (rule word_uint_eqI)
    have "0 \<le> 2 ^ 52 - int k" "2 ^ 52 - int k < 2 ^ 64" using assms by simp_all
    from uint_of_int64 [OF this]
    show "uint (?d div 4096) = uint (word_of_int (2 ^ 52 - int k) :: u64)"
      by (simp only: uint_div u) simp
  qed
  have r: "?d mod 512 = 0"
  proof (rule word_uint_eqI)
    have "(4096 * (2 ^ 52 - int k)) mod 512 = 0" by (simp add: mod_eq_0_iff_dvd)
    then show "uint (?d mod 512) = uint (0 :: u64)" unfolding uint_mod u by simp
  qed
  have tq: "to_int (?d div 4096) = - int k"
  proof -
    have e: "(2 ^ 52 - int k) mod 2 ^ n = - int k mod 2 ^ n" if "n = Suc 31" for n
      using mod_mult_self1 [of "- int k" "2 ^ 20" "2 ^ 32"] that by simp
    have "signed_take_bit 31 (2 ^ 52 - int k) = signed_take_bit 31 (- int k)"
      by (rule signed_take_bit_eq_iff_take_bit_eq [THEN iffD2])
        (simp only: take_bit_eq_mod e)
    also have "\<dots> = - int k" by (rule signed_take_bit_int_eq_self) (use assms in auto)
    finally show ?thesis by (simp only: q to_int_word_of_int)
  qed
  define m where "m = int (k div 512)"
  have m: "0 \<le> m" "m < 2 ^ 9" using assms by (simp_all add: m_def)
  have sd: "int k sdiv 512 = m" and sm: "\<not> 0 < (- int k) smod 512"
    using assms by (simp_all add: m_def signed_divide_int_def signed_modulo_int_def zdiv_int)
  have sz: "to_int (?d + word_of_int ((- m - 1) * 4096)) = - 4096 * (int k + m + 1)"
  proof -
    have "?d + word_of_int ((- m - 1) * 4096) = word_of_int (- 4096 * (int k + m + 1))"
      by (simp add: algebra_simps)
    moreover have "signed_take_bit 31 (- 4096 * (int k + m + 1)) = - 4096 * (int k + m + 1)"
      by (rule signed_take_bit_int_eq_self) (use assms m in auto)
    ultimately show ?thesis by (simp only: to_int_word_of_int)
  qed
  have "map_size (ret - 4096 * of_nat k) ret = - 4096 * (int k + m + 1)"
    using sz sm by (simp add: map_size_def structs_for_def Let_def r tq sd)
  then show ?thesis using m by simp
qed


end
