(* ===== verification/Cow.thy ===== *)
theory Cow
  imports Address_Space
begin

text \<open>
  Copy-on-write and unmapping: the effect of \<^verbatim>\<open>duplicate_pt\<close>, \<^verbatim>\<open>map_user_pml4\<close>, \<^verbatim>\<open>unmap_page\<close>
  and of the fault handler's \<^verbatim>\<open>copy_page\<close>, and the properties of the paging code.
\<close>

section \<open>Sharing the pages of a table\<close>

lemma rd_share_entry:
  assumes "page_aligned src" "page_aligned new" "src \<noteq> new" "i < 512" "page_aligned u" "j < 512"
  shows "rd u j (share_entry src new i s) =
    (if j = i then
       (if u = src then (if 0 < rd src j s then cow_mark (rd src j s) else rd u j s)
        else if u = new \<and> 0 < rd src j s then cow_mark (rd src j s) OR 0x205 else rd u j s)
     else rd u j s)"
  using assms by (auto simp: share_entry_def Let_def cow_mark_def)

lemma rd_duplicate_pt:
  assumes "page_aligned src" "page_aligned new" "src \<noteq> new" "page_aligned u" "j < 512"
  shows "rd u j (duplicate_pt src new s) =
    (if u = src then (if 0 < rd src j s then cow_mark (rd src j s) else rd u j s)
     else if u = new \<and> 0 < rd src j s then cow_mark (rd src j s) OR 0x205 else rd u j s)"
proof -
  let ?G = "\<lambda>u x y. if u = src then (if 0 < x then cow_mark x else y)
     else if u = new \<and> 0 < x then cow_mark x OR 0x205 else y"
  have "rd u j (for_to 512 (share_entry src new) s) =
      (if unat j < 512 then ?G u (rd src j s) (rd u j s) else rd u j s)"
    by (rule for_to_rows) (use assms in \<open>auto simp: rd_share_entry\<close>)
  then show ?thesis using unat_index [OF assms(5)] by (simp add: duplicate_pt_def)
qed

lemma cow_mark_bits:
  "cow_mark e AND 2 = 0" "cow_mark e AND 0x200 = 0x200" "cow_mark e AND 1 = e AND 1"
  "cow_mark e AND PAGE_MASK = e AND PAGE_MASK"
  "(cow_mark e OR 0x205) AND 2 = 0" "(cow_mark e OR 0x205) AND 0x200 = 0x200"
  "(cow_mark e OR 0x205) AND 1 = 1" "(cow_mark e OR 0x205) AND PAGE_MASK = e AND PAGE_MASK"
  by (simp_all add: cow_mark_def bit.conj_disj_distrib2 and.assoc PAGE_MASK_def)

section \<open>Copying a page table root\<close>

lemma pool_for_to_pml4:
  "pool (for_to n (\<lambda>i s. if rd (pml4t_t s) i s \<noteq> 0 then wr t i (rd (pml4t_t s) i s) s else s) s) = pool s"
  by (rule pool_for_to) simp

lemma rd_copy_root:
  assumes "page_aligned t" "page_aligned (pml4t_t s)" "page_aligned u" "j < 512" "t \<noteq> pml4t_t s"
  shows "rd u j (for_to 512 (\<lambda>i s. if rd (pml4t_t s) i s \<noteq> 0 then wr t i (rd (pml4t_t s) i s) s else s) s)
    = (if u = t \<and> rd (pml4t_t s) j s \<noteq> 0 then rd (pml4t_t s) j s else rd u j s)"
proof -
  let ?k = "pml4t_t s"
  have same: "for_to n (\<lambda>i s. if rd (pml4t_t s) i s \<noteq> 0 then wr t i (rd (pml4t_t s) i s) s else s) s
      = for_to n (\<lambda>i s. if rd ?k i s \<noteq> 0 then wr t i (rd ?k i s) s else s) s" for n
  proof (induction n)
    case (Suc n)
    have "pml4t_t (for_to n (\<lambda>i s. if rd ?k i s \<noteq> 0 then wr t i (rd ?k i s) s else s) s) = ?k"
      by (rule pool_fields(6), rule pool_for_to) simp
    then show ?case using Suc by simp
  qed simp
  have "rd u j (for_to 512 (\<lambda>i s. if rd ?k i s \<noteq> 0 then wr t i (rd ?k i s) s else s) s)
      = (if unat j < 512 then (\<lambda>u x y. if u = t \<and> x \<noteq> 0 then x else y) u (rd ?k j s) (rd u j s)
         else rd u j s)"
    by (rule for_to_rows [where a = ?k]) (use assms in auto)
  then show ?thesis using unat_index [OF assms(4)] by (simp add: same)
qed

section \<open>Unmapping\<close>

lemma unmap_page_path:
  assumes "table_path (cur + KERNBASE) va s = Some (p3, p2, p1)"
  shows "unmap_page cur va s = wr p1 (pt_index va) 0 s"
  using assms
  by (auto simp: unmap_page_def Let_def table_path_def sub_table_def bind_eq_Some_conv split: if_splits)

lemma and_mask_32:
  fixes p :: u64
  assumes "p < 2 ^ 31"
  shows "p AND 0xffffffff = p"
proof -
  have p: "p = p AND mask 31" using assms by (simp add: less_mask_eq)
  have "mask 31 AND 0xffffffff = (mask 31 :: u64)" by (simp add: mask_eq_exp_minus_1)
  with p show ?thesis by (metis and.assoc)
qed

lemma walk_None_iff:
  "table_path root va s = Some (p3, p2, p1) \<Longrightarrow> walk root va s = None \<longleftrightarrow> rd p1 (pt_index va) s AND 1 = 0"
  by (simp add: walk_def)

section \<open>A small machine for the witnesses\<close>

text \<open>
  The kernel's tables are at physical 0x1000 (root), 0x2000, 0x3000 and 0x4000 (page table); the
  frames 0x5000 to 0x8000 are free; the page at 0x9000 is an empty root table of a process.
\<close>

definition demo_memory :: "u64 \<Rightarrow> u64" where
  "demo_memory = (\<lambda>_. 0)(0xffffffff80001ff8 := 0x2003, 0xffffffff80002ff0 := 0x3003,
     0xffffffff80003000 := 0x4003)"

definition demo_space :: kmem where
  "demo_space = \<lparr>fl = (\<lambda>_. \<lparr>fl_current = 0, fl_next = 0\<rparr>)
       (16 := \<lparr>fl_current = 0x5000, fl_next = 32\<rparr>, 32 := \<lparr>fl_current = 0x6000, fl_next = 48\<rparr>,
        48 := \<lparr>fl_current = 0x7000, fl_next = 64\<rparr>, 64 := \<lparr>fl_current = 0x8000, fl_next = 80\<rparr>,
        80 := \<lparr>fl_current = 0, fl_next = 0\<rparr>),
     head_free = 16, head_end = 80, head_unalloc = 64, unallocated = 0, pool_end = 0,
     number_of_free_pages = 4, num_of_pages = 0, pml4t_t = 0xffffffff80001000, ptmem = demo_memory\<rparr>"

definition demo_root :: u64 where
  "demo_root = 0xffffffff80009000"

lemma demo_space_inv: "fl_inv demo_space [16, 32, 48, 64] [80]"
  by (simp add: fl_inv_def ring_def demo_space_def)

lemma demo_frames: "frames demo_space [16, 32, 48, 64] = [0x5000, 0x6000, 0x7000, 0x8000]"
  by (simp add: demo_space_def)

lemma demo_path:
  assumes "pml4t_index va = 511" "pdpt_index va = 510" "pdt_index va = 0"
  shows "table_path (pml4t_t demo_space) va demo_space
    = Some (0xffffffff80002000, 0xffffffff80003000, 0xffffffff80004000)"
  using assms
  by (simp add: table_path_def sub_table_def rd_def demo_space_def demo_memory_def table_of_def
      KERNBASE_def PAGE_MASK_def)

lemma demo_kernel_mapped:
  assumes "p \<in> {0x5000, 0x6000, 0x7000, 0x8000}"
  shows "kernel_mapped {0xffffffff80001000, 0xffffffff80002000, 0xffffffff80003000}
    {0xffffffff80004000} demo_space p"
proof -
  have "pml4t_index (p + KERNBASE) = 511" "pdpt_index (p + KERNBASE) = 510"
    "pdt_index (p + KERNBASE) = 0"
    using assms
    by (auto simp: pml4t_index_def pdpt_index_def pdt_index_def KERNBASE_def drop_bit_eq_div)
  from demo_path [OF this] show ?thesis
    unfolding kernel_mapped_def by (simp add: demo_space_def)
qed

lemma demo_bump_left:
  "bump_left {0xffffffff80001000, 0xffffffff80002000, 0xffffffff80003000} {0xffffffff80004000}
     3 {demo_root} demo_space"
proof -
  have "frames_ok (frames demo_space [16, 32, 48, 64]) {demo_root}"
    unfolding demo_frames by (simp add: frames_ok_def demo_root_def page_aligned_def PAGE_MASK_def KERNBASE_def)
  moreover have "frames_ok (frames demo_space [16, 32, 48, 64])
      ({0xffffffff80001000, 0xffffffff80002000, 0xffffffff80003000} \<union> {0xffffffff80004000})"
    unfolding demo_frames by (simp add: frames_ok_def page_aligned_def PAGE_MASK_def KERNBASE_def)
  moreover have "successively (\<lambda>p q. q = p + 4096) (frames demo_space [16, 32, 48, 64])"
    unfolding demo_frames by simp
  moreover have "\<forall>p\<in>set (frames demo_space [16, 32, 48, 64]).
      kernel_mapped {0xffffffff80001000, 0xffffffff80002000, 0xffffffff80003000}
        {0xffffffff80004000} demo_space p"
    unfolding demo_frames using demo_kernel_mapped by simp
  moreover have "3 < length [16, 32, 48, 64 :: u64]" by simp
  ultimately show ?thesis
    using demo_space_inv unfolding bump_left_def
    by (auto simp: demo_root_def page_aligned_def PAGE_MASK_def)
qed

lemma demo_root_empty: "empty_table demo_root demo_space"
  unfolding empty_table_def
proof (intro allI impI)
  fix j :: u64
  assume j: "j < 512"
  have "demo_root + 8 * j \<noteq> t + 8 * i"
    if "t \<in> {0xffffffff80001000, 0xffffffff80002000, 0xffffffff80003000}" "i < 512" for t i
    using slot_eq_iff [of demo_root t j i] that j
    by (auto simp: demo_root_def page_aligned_def PAGE_MASK_def)
  from this [of "0xffffffff80001000" 511] this [of "0xffffffff80002000" 510]
    this [of "0xffffffff80003000" 0]
  show "rd demo_root j demo_space = 0"
    by (simp add: rd_def demo_space_def demo_memory_def)
qed

section \<open>Properties\<close>

text \<open>\<^verbatim>\<open>map_user_address\<close> on \<open>n\<close> pages whose page table exists returns, fills the absent
  slots with consecutive frames and keeps the present ones; it does so for \<open>n + 1\<close>
  pages, one more than the size it is given.\<close>

theorem map_user_maps_one_page_more:
  assumes "table_path root va s = Some (p3, p2, p1)" and "page_aligned root"
    and "p1 \<notin> {root, p3, p2}" and "1 \<le> n" and "unat (pt_index va) + n < 512"
  shows "\<exists>s'. map_user_address depth va phys (4096 * int n) root f s = Some s'
     \<and> (\<forall>k \<le> n. walk root (va + 4096 * of_nat k) s' =
          (case walk root (va + 4096 * of_nat k) s of
             None \<Rightarrow> Some ((phys AND 0xfffff000) + 4096 * of_nat k) | Some p \<Rightarrow> Some p))"
proof -
  from map_user_present [OF assms(1, 4, 5), of "bump depth 4096" phys f] obtain s' where
    s': "map_user_address depth va phys (4096 * int n) root f s = Some s'"
    "filled p1 (unat (pt_index va)) (Suc n) (phys AND 0xfffff000) 7 s s'"
    by (auto simp: map_user_address_def)
  have "page_aligned (phys AND 0xfffff000)"
    by (simp add: page_aligned_def PAGE_MASK_def and.assoc)
  with s' show ?thesis using walk_filled [OF assms(1, 2, 3) s'(2) assms(5)] by auto
qed

text \<open>The second page behind one requested page is mapped.\<close>

theorem map_user_maps_one_page_more_witness:
  "\<exists>s'. map_user_address 0 0xffffffff80100000 0x100000 4096 0xffffffff80001000 7 demo_space = Some s'
     \<and> walk 0xffffffff80001000 0xffffffff80101000 s' = Some 0x101000"
proof -
  have i: "pml4t_index 0xffffffff80100000 = 511" "pdpt_index 0xffffffff80100000 = 510"
    "pdt_index 0xffffffff80100000 = 0" "unat (pt_index 0xffffffff80100000) = 256"
    by (simp_all add: pml4t_index_def pdpt_index_def pdt_index_def pt_index_def drop_bit_eq_div)
  have path: "table_path 0xffffffff80001000 0xffffffff80100000 demo_space
      = Some (0xffffffff80002000, 0xffffffff80003000, 0xffffffff80004000)"
    using demo_path [OF i(1-3)] by (simp add: demo_space_def)
  have pt: "pt_index 0xffffffff80101000 = 257"
    by (simp add: pt_index_def drop_bit_eq_div)
  have w: "walk 0xffffffff80001000 0xffffffff80101000 demo_space = None"
    using table_path_next [of "0xffffffff80100000" 1 "0xffffffff80001000" demo_space] i(4) path pt
    by (simp add: walk_def rd_def demo_space_def demo_memory_def)
  obtain s' where "map_user_address 0 0xffffffff80100000 0x100000 (4096 * int 1) 0xffffffff80001000 7
        demo_space = Some s'"
    "\<forall>k\<le>1. walk 0xffffffff80001000 (0xffffffff80100000 + 4096 * of_nat k) s' =
          (case walk 0xffffffff80001000 (0xffffffff80100000 + 4096 * of_nat k) demo_space of
             None \<Rightarrow> Some ((0x100000 AND 0xfffff000) + 4096 * of_nat k) | Some p \<Rightarrow> Some p)"
    using map_user_maps_one_page_more [OF path, of 1 0 "0x100000" 7] i(4)
    by (auto simp: page_aligned_def PAGE_MASK_def)
  then show ?thesis using w by (auto dest: spec [of _ 1])
qed

text \<open>C2: Mapping \<open>n\<close> whole pages, one or more, into an empty part of a process's address space: the root table has no entry
  for the address, the pages and one more behind them lie in the reach of one page table, the flags have the present bit and stay in the
  low twelve bits, and the queue of \<^verbatim>\<open>bump\<close> holds at least four free frames that follow each other and that the kernel's
  own tables map, outside of the tables in use.  With tables taken from
  \<^verbatim>\<open>bump\<close> the call returns, the page walk of the process then finds every page it was asked to
  map and the one behind them, and no other entry of a table in use changes.\<close>

theorem map_user_address_new_tables:
  assumes "bump_left U L 3 T s" and "root \<in> T" and "rd root (pml4t_index va) s AND 1 = 0"
    and "f AND 1 = 1" and "f < 4096" and "1 \<le> n" and "unat (pt_index va) + n < 512"
  shows "\<exists>s'. map_user_address (Suc depth) va phys (4096 * int n) root f s = Some s'
     \<and> (\<forall>k \<le> n. walk root (va + 4096 * of_nat k) s' = Some ((phys AND 0xfffff000) + 4096 * of_nat k))
     \<and> kept T root (pml4t_index va) s s'"
  using assms unfolding map_user_address_def by (rule bump_tables.map_user_fresh)

theorem map_user_address_new_tables_witness:
  "\<exists>s'. map_user_address 1 0x400000 0x300000 8192 demo_root 7 demo_space = Some s'
     \<and> walk demo_root 0x401000 s' = Some 0x301000"
proof -
  have i: "pml4t_index 0x400000 = 0" "unat (pt_index 0x400000) = 0"
    by (simp_all add: pml4t_index_def pt_index_def drop_bit_eq_div)
  have "rd demo_root (pml4t_index 0x400000) demo_space AND 1 = 0"
    by (simp add: i rd_def demo_root_def demo_space_def demo_memory_def)
  from map_user_address_new_tables [OF demo_bump_left _ this, of 7 2 0 "0x300000"] i
  show ?thesis by (auto dest: spec [of _ 1])
qed

text \<open>C3: the page that \<^verbatim>\<open>bump\<close> returns is mapped, at the address it returns, to the frame taken
  from the pool, when the next free frame follows it and the kernel has the page table.\<close>

theorem bump_returns_mapped_page:
  assumes "fl_inv s (a # b # fs) us" and "fl_current (fl s b) = fl_current (fl s a) + 4096"
    and "table_path (pml4t_t s) (fl_current (fl s a) + KERNBASE) s = Some (p3, p2, p1)"
    and "page_aligned (pml4t_t s)" and "p1 \<notin> {pml4t_t s, p3, p2}"
    and "walk (pml4t_t s) (fl_current (fl s a) + KERNBASE) s = None"
    and "page_aligned (fl_current (fl s a))" and "fl_current (fl s a) < 2 ^ 31"
  shows "\<exists>s'. bump (Suc depth) 4096 s = Some (fl_current (fl s a) + KERNBASE, s')
     \<and> walk (pml4t_t s') (fl_current (fl s a) + KERNBASE) s' = Some (fl_current (fl s a))
     \<and> free_frames s' = tl (free_frames s)"
proof -
  define ret where "ret = fl_current (fl s a)"
  note path = assms(3) [folded ret_def]
  from bump_one [OF assms(1) ret_def [symmetric] assms(2) [folded ret_def] path, of depth]
  obtain s1 s' where
    r: "bump (Suc depth) 4096 s = Some (ret + KERNBASE, s')" "fl_inv s' (b # fs) (us @ [a])"
    "\<And>x. fl_current (fl s' x) = fl_current (fl s x)" "pml4t_t s' = pml4t_t s" "ptmem s1 = ptmem s"
    and fi: "filled p1 (unat (pt_index (ret + KERNBASE))) 1 (ret AND 0xfffff000) 3 s1 s'"
    by blast
  have path1: "table_path (pml4t_t s) (ret + KERNBASE) s1 = Some (p3, p2, p1)"
    by (rule table_path_cong [OF path]) (simp_all add: rd_ptmem [OF r(5)])
  have w1: "walk (pml4t_t s) (ret + KERNBASE) s1 = None"
    using assms(6) by (simp add: ret_def [symmetric] walk_def path1 path rd_ptmem [OF r(5)]
        split: if_splits)
  have ret: "ret AND 0xfffff000 = ret"
  proof -
    have "ret AND 0xffffffff = ret"
      using assms(8) by (simp add: ret_def [symmetric] and_mask_32)
    then have "ret AND (PAGE_MASK AND 0xffffffff) = ret"
      using assms(7) by (simp add: ret_def [symmetric] page_aligned_def flip: and.assoc)
    then show ?thesis by (simp add: PAGE_MASK_def)
  qed
  have al: "page_aligned ret" using assms(7) by (simp add: ret_def)
  have "walk (pml4t_t s) (ret + KERNBASE) s' = Some ret"
    using walk_filled [OF path1 assms(4, 5) fi [unfolded ret, simplified One_nat_def], of 0] w1 al
      unat_index [OF index_less(4), of "ret + KERNBASE"] by simp
  moreover have "free_frames s' = tl (free_frames s)"
    using free_frames_eq [OF assms(1)] free_frames_eq [OF r(2)] frames_cong [of s' s, OF r(3)]
    by (simp add: r(3))
  ultimately show ?thesis using r by (auto simp: ret_def)
qed

theorem bump_returns_mapped_page_witness:
  "\<exists>s'. bump 1 4096 demo_space = Some (0xffffffff80005000, s')
     \<and> walk (pml4t_t s') 0xffffffff80005000 s' = Some 0x5000"
proof -
  have i: "pml4t_index 0xffffffff80005000 = 511" "pdpt_index 0xffffffff80005000 = 510"
    "pdt_index 0xffffffff80005000 = 0" "pt_index 0xffffffff80005000 = 5"
    by (simp_all add: pml4t_index_def pdpt_index_def pdt_index_def pt_index_def drop_bit_eq_div)
  note path = demo_path [OF i(1-3)]
  have f: "fl_current (fl demo_space 16) + KERNBASE = 0xffffffff80005000"
    "fl_current (fl demo_space 16) = 0x5000" "fl_current (fl demo_space 32) = 0x6000"
    "pml4t_t demo_space = 0xffffffff80001000"
    by (simp_all add: demo_space_def KERNBASE_def)
  have "walk (pml4t_t demo_space) 0xffffffff80005000 demo_space = None"
    using path by (simp add: walk_def i rd_def demo_space_def demo_memory_def)
  with bump_returns_mapped_page [OF demo_space_inv, of _ _ _ 0] path show ?thesis
    by (auto simp: page_aligned_def PAGE_MASK_def KERNBASE_def f(2-4) simp del: bump.simps)
qed

text \<open>when the next free frame lies below the one that \<^verbatim>\<open>bump\<close> takes, as after frames were
  freed, the size that \<^verbatim>\<open>map_address\<close> computes is negative and the page it returns is not mapped.\<close>

theorem bump_leaves_recycled_page_unmapped:
  assumes "fl_inv s (a # b # fs) us"
    and "fl_current (fl s b) = fl_current (fl s a) - 4096 * of_nat k" and "0 < k" and "k < 2 ^ 18"
    and "table_path (pml4t_t s) (fl_current (fl s a) + KERNBASE) s = Some (p3, p2, p1)"
    and "walk (pml4t_t s) (fl_current (fl s a) + KERNBASE) s = None"
  shows "\<exists>s'. bump (Suc depth) 4096 s = Some (fl_current (fl s a) + KERNBASE, s')
     \<and> walk (pml4t_t s') (fl_current (fl s a) + KERNBASE) s' = None"
proof -
  define ret where "ret = fl_current (fl s a)"
  note path = assms(5) [folded ret_def]
  from grab_one [OF assms(1)] obtain s1 where s1: "grab 4096 s = (Some ret, s1)"
    "fl_inv s1 (b # fs) (us @ [a])" "\<And>x. fl_current (fl s1 x) = fl_current (fl s x)"
    "ptmem s1 = ptmem s" "pml4t_t s1 = pml4t_t s" by (auto simp: ret_def)
  have path1: "table_path (pml4t_t s1) (ret + KERNBASE) s1 = Some (p3, p2, p1)"
    unfolding s1(5) by (rule table_path_cong [OF path]) (simp_all add: rd_ptmem [OF s1(4)])
  have "get_unallocated s1 = ret - 4096 * of_nat k"
    using fl_inv_head [OF s1(2)] assms(2) s1(3) by (simp add: get_unallocated_def ret_def)
  then have "\<not> 1 \<le> map_size (get_unallocated s1) ret"
    using map_size_back [OF assms(3, 4), of ret] by simp
  then have "map_address_with (bump depth 4096) (ret + KERNBASE) ret s1 = Some s1"
    using path1
    by (auto simp: map_address_with_def table_path_def bind_eq_Some_conv get_table_present
        map_loop.simps)
  moreover have "walk (pml4t_t s1) (ret + KERNBASE) s1 = None"
    using assms(6) walk_None_iff [OF path] walk_None_iff [OF path1 [unfolded s1(5)]]
    by (simp add: ret_def [symmetric] s1(5) rd_ptmem [OF s1(4)])
  ultimately show ?thesis using s1(1) by (simp add: ret_def)
qed

text \<open>The machine of the witnesses with the frames 0x6000 and 0x5000 in falling order.\<close>

definition demo_recycled :: kmem where
  "demo_recycled = demo_space\<lparr>fl := (\<lambda>_. \<lparr>fl_current = 0, fl_next = 0\<rparr>)
       (16 := \<lparr>fl_current = 0x6000, fl_next = 32\<rparr>, 32 := \<lparr>fl_current = 0x5000, fl_next = 48\<rparr>,
        48 := \<lparr>fl_current = 0, fl_next = 0\<rparr>),
     head_end := 48, head_unalloc := 32, number_of_free_pages := 2\<rparr>"

theorem bump_leaves_recycled_page_unmapped_witness:
  "\<exists>s'. bump 1 4096 demo_recycled = Some (0xffffffff80006000, s')
     \<and> walk (pml4t_t s') 0xffffffff80006000 s' = None"
proof -
  have inv: "fl_inv demo_recycled [16, 32] [48]"
    by (simp add: fl_inv_def ring_def demo_recycled_def demo_space_def)
  have i: "pml4t_index 0xffffffff80006000 = 511" "pdpt_index 0xffffffff80006000 = 510"
    "pdt_index 0xffffffff80006000 = 0" "pt_index 0xffffffff80006000 = 6"
    by (simp_all add: pml4t_index_def pdpt_index_def pdt_index_def pt_index_def drop_bit_eq_div)
  have same: "ptmem demo_recycled = ptmem demo_space" "pml4t_t demo_recycled = pml4t_t demo_space"
    by (simp_all add: demo_recycled_def)
  have path: "table_path (pml4t_t demo_recycled) 0xffffffff80006000 demo_recycled
      = Some (0xffffffff80002000, 0xffffffff80003000, 0xffffffff80004000)"
    unfolding same(2)
    by (rule table_path_cong [OF demo_path [OF i(1-3)]]) (simp_all add: rd_ptmem [OF same(1)])
  have w: "walk (pml4t_t demo_recycled) 0xffffffff80006000 demo_recycled = None"
    by (simp add: walk_def path rd_ptmem [OF same(1)])
      (simp add: i rd_def demo_space_def demo_memory_def)
  have f: "fl_current (fl demo_recycled 16) = 0x6000" "fl_current (fl demo_recycled 32) = 0x5000"
    by (simp_all add: demo_recycled_def)
  show ?thesis
    using bump_leaves_recycled_page_unmapped [OF inv, of 1 _ _ _ 0] w path
    by (auto simp: f KERNBASE_def simp del: bump.simps)
qed

text \<open>C5: \<^verbatim>\<open>duplicate_pt\<close> shares every page copy-on-write: afterwards an entry of the parent and of
  the child refer to the same frame as before, neither is writable, both carry the
  copy-on-write bit, the child's is present, and unused slots stay unused.\<close>

theorem duplicate_pt_shares_cow:
  assumes "page_aligned src" and "page_aligned new" and "src \<noteq> new" and "j < 512"
    and "empty_table new s"
  shows "(rd src j s = 0 \<longrightarrow> rd src j (duplicate_pt src new s) = 0 \<and> rd new j (duplicate_pt src new s) = 0)
     \<and> (rd src j s \<noteq> 0 \<longrightarrow> (\<forall>t \<in> {src, new}.
          rd t j (duplicate_pt src new s) AND PAGE_MASK = rd src j s AND PAGE_MASK
        \<and> rd t j (duplicate_pt src new s) AND 2 = 0
        \<and> rd t j (duplicate_pt src new s) AND 0x200 = 0x200)
        \<and> rd src j (duplicate_pt src new s) AND 1 = rd src j s AND 1
        \<and> rd new j (duplicate_pt src new s) AND 1 = 1)"
  using assms empty_table_rd [OF assms(5, 4)]
  by (simp add: rd_duplicate_pt cow_mark_bits word_gt_0)

theorem duplicate_pt_shares_cow_witness:
  "rd 0xffffffff80003000 0 (duplicate_pt 0xffffffff80003000 demo_root demo_space) AND 2 = 0"
proof -
  have a: "page_aligned 0xffffffff80003000" "page_aligned demo_root" "0xffffffff80003000 \<noteq> demo_root"
    by (simp_all add: page_aligned_def PAGE_MASK_def demo_root_def)
  have "rd 0xffffffff80003000 0 demo_space = 0x4003"
    by (simp add: rd_def demo_space_def demo_memory_def)
  then show ?thesis using duplicate_pt_shares_cow [OF a, of 0, OF _ demo_root_empty] by simp
qed

text \<open>C4: \<^verbatim>\<open>kfree\<close> on a mapped pointer below \<open>KERNBASE + 2^31\<close>, whose page table is none of the tables above it, in a
  state of the pool where a frame is free and another one is in use: it removes the mapping from the running process's
  tables, keeps every mapping that goes through another slot, and puts the frame at the end
  of the queue of free frames.  (When no frame is free, the queue breaks: that is
  another theorem, \<open>empty_pool_release_reuses_frame\<close>.)\<close>

theorem kfree_unmaps_and_returns:
  assumes "alloc_ok N s" and "free_frames s \<noteq> []" and "length (free_frames s) < N" and "p < 2 ^ 31"
    and "table_path (cur + KERNBASE) (p + KERNBASE) s = Some (p3, p2, p1)"
    and "page_aligned cur" and "p1 \<notin> {cur + KERNBASE, p3, p2}"
  shows "walk (cur + KERNBASE) (p + KERNBASE) (kfree cur (p + KERNBASE) s) = None
     \<and> (\<forall>va q3 q2 q1. table_path (cur + KERNBASE) va s = Some (q3, q2, q1) \<longrightarrow> p1 \<noteq> q3 \<longrightarrow> p1 \<noteq> q2
          \<longrightarrow> \<not> (q1 = p1 \<and> pt_index va = pt_index (p + KERNBASE))
          \<longrightarrow> walk (cur + KERNBASE) va (kfree cur (p + KERNBASE) s) = walk (cur + KERNBASE) va s)
     \<and> free_frames (kfree cur (p + KERNBASE) s) = free_frames s @ [p]"
proof -
  let ?va = "p + KERNBASE" and ?root = "cur + KERNBASE"
  let ?w = "wr p1 (pt_index ?va) 0 s" and ?k = "kfree cur ?va s"
  have k: "?k = release p ?w"
    by (simp add: kfree_def unmap_page_path [OF assms(5)] freed_phys_inverse [OF assms(4)])
  have mem: "rd t i ?k = rd t i ?w" for t i
    by (rule rd_ptmem) (simp add: k release_def set_current_def Let_def)
  have al: "page_aligned ?root" using assms(6) by (simp add: page_aligned_add)
  note pal = table_path_aligned [OF assms(5)]
  have keep: "table_path ?root va ?k = Some (q3, q2, q1)"
    if "table_path ?root va s = Some (q3, q2, q1)" "p1 \<noteq> q3" "p1 \<noteq> q2" for va q3 q2 q1
    by (rule table_path_cong [OF that(1)])
      (use that assms(7) al pal table_path_aligned [OF that(1)] in \<open>auto simp: mem\<close>)
  have "walk ?root ?va ?k = None"
    using keep [OF assms(5)] assms(7) pal by (simp add: walk_def mem)
  moreover have "walk ?root va ?k = walk ?root va s"
    if "table_path ?root va s = Some (q3, q2, q1)" "p1 \<noteq> q3" "p1 \<noteq> q2"
      "\<not> (q1 = p1 \<and> pt_index va = pt_index ?va)" for va q3 q2 q1
    using keep [OF that(1-3)] that pal table_path_aligned [OF that(1)] by (auto simp: walk_def mem)
  moreover have "free_frames ?k = free_frames s @ [p]"
  proof -
    from assms(1) obtain fs us where inv: "fl_inv s fs us" and n: "length fs + length us = N"
      by (auto simp: alloc_ok_def)
    then have inv': "fl_inv ?w fs us" and ff: "free_frames ?w = free_frames s"
      by (simp_all add: free_frames_eq [of ?w fs us] free_frames_eq [of s fs us])
    have "alloc_ok N ?w" using inv' n by (auto simp: alloc_ok_def)
    then show ?thesis using frame_pool.give_law [of N ?w p] assms(2, 3) by (simp add: k ff)
  qed
  ultimately show ?thesis by blast
qed

theorem kfree_unmaps_and_returns_witness:
  "walk 0xffffffff80001000 0xffffffff80005000 (kfree 0x1000 0xffffffff80005000 demo_space) = None"
proof -
  have i: "pml4t_index 0xffffffff80005000 = 511" "pdpt_index 0xffffffff80005000 = 510"
    "pdt_index 0xffffffff80005000 = 0"
    by (simp_all add: pml4t_index_def pdpt_index_def pdt_index_def drop_bit_eq_div)
  have c: "0x1000 + KERNBASE = pml4t_t demo_space" "0x5000 + KERNBASE = 0xffffffff80005000"
    "pml4t_t demo_space = 0xffffffff80001000"
    by (simp_all add: KERNBASE_def demo_space_def)
  have ok: "alloc_ok 5 demo_space" using demo_space_inv by (force simp: alloc_ok_def)
  have f: "free_frames demo_space = [0x5000, 0x6000, 0x7000, 0x8000]"
    using free_frames_eq [OF demo_space_inv] demo_frames by simp
  have p: "table_path (0x1000 + KERNBASE) (0x5000 + KERNBASE) demo_space
      = Some (0xffffffff80002000, 0xffffffff80003000, 0xffffffff80004000)"
    using demo_path [OF i] by (simp only: c)
  show ?thesis
    using kfree_unmaps_and_returns [OF ok _ _ _ p] unfolding f c
    by (simp add: page_aligned_def PAGE_MASK_def)
qed

text \<open>\<^verbatim>\<open>map_user_pml4\<close> returns a table with every entry of the kernel's root except slot 510,
  whose entry should refer to the new table itself, as in the two other roots the kernel
  builds, but refers to the address in entry 0 of the kernel's root.\<close>

theorem map_user_pml4_copies_root:
  assumes "bump_left U L 1 {} s" and "pml4t_t s \<in> U"
  shows "\<exists>t s'. map_user_pml4 (Suc depth) s = Some (t, s') \<and> page_aligned t \<and> t \<noteq> pml4t_t s
     \<and> (\<forall>j. j < 512 \<longrightarrow> j \<noteq> 510 \<longrightarrow> rd t j s' = rd (pml4t_t s) j s)
     \<and> table_of (rd t 510 s') = rd (pml4t_t s) 0 s AND PAGE_MASK"
proof -
  have "bump_left U L (Suc 0) {} s" using assms(1) by simp
  from bump_left_take [OF this, of depth] obtain t s1 where
    b: "bump (Suc depth) 4096 s = Some (t, s1)" "page_aligned t" "bump_left U L 0 {t} s1"
    "pml4t_t s1 = pml4t_t s" and same: "\<And>u i. u \<in> U \<Longrightarrow> i < 512 \<Longrightarrow> rd u i s1 = rd u i s"
    by (metis UnCI)
  have ne: "t \<noteq> pml4t_t s" and al: "page_aligned (pml4t_t s)"
    using b(3) assms by (auto simp: bump_left_def)
  let ?z = "zero_table t s1"
  let ?c = "for_to 512 (\<lambda>i s. if rd (pml4t_t s) i s \<noteq> 0 then wr t i (rd (pml4t_t s) i s) s else s) ?z"
  have root: "pml4t_t ?z = pml4t_t s" using pool_fields(6) [OF pool_zero_table, of t s1] b(4) by simp
  have rd: "rd t j ?c = rd (pml4t_t s) j s" if "j < 512" for j
    using rd_copy_root [of t ?z t j] that b(2) al ne root same [OF assms(2) that] by auto
  have "rd t 0 ?c = rd (pml4t_t s) 0 s" by (rule rd) simp
  then have "table_of (((rd t 0 ?c AND PAGE_MASK) - KERNBASE) OR 7) = rd (pml4t_t s) 0 s AND PAGE_MASK"
    using table_of_entry_for [of "rd (pml4t_t s) 0 s AND PAGE_MASK" 7]
    by (simp add: entry_for_def and.assoc)
  then show ?thesis using b ne al rd
    by (auto simp: map_user_pml4_def map_user_pml4_with_def Let_def simp del: bump.simps)
qed

theorem map_user_pml4_copies_root_witness:
  "\<exists>t s'. map_user_pml4 1 demo_space = Some (t, s') \<and> rd t 511 s' = 0x2003 \<and> table_of (rd t 510 s') = 0"
proof -
  have b: "bump_left {0xffffffff80001000, 0xffffffff80002000, 0xffffffff80003000}
     {0xffffffff80004000} 1 {} demo_space"
    using demo_bump_left unfolding bump_left_def frames_ok_def by fastforce
  have r: "pml4t_t demo_space = 0xffffffff80001000"
    "rd 0xffffffff80001000 511 demo_space = 0x2003" "rd 0xffffffff80001000 0 demo_space = 0"
    by (simp_all add: rd_def demo_space_def demo_memory_def)
  show ?thesis using map_user_pml4_copies_root [OF b, of 0] r by fastforce
qed

end
