(* ===== verification/Objects.thy ===== *)
theory Objects
  imports Address_Space
begin

text \<open>
  \<^const>\<open>bump\<close> as an allocator of kernel structures: a structure of at most a page takes one page, and the
  part of the state that is not the memory of the paging theory (the extension of the record) does
  not change.  Every function on the way is a sequence of updates of that memory.
\<close>

section \<open>The extension of the state is not touched\<close>

lemma more_wr [simp]: "kmem.more (wr t i v s) = kmem.more s"
  by (simp add: wr_def)

lemma more_for_to: "(\<And>i s. kmem.more (body i s) = kmem.more s) \<Longrightarrow> kmem.more (for_to n body s) = kmem.more s"
  by (induction n) auto

lemma more_zero_table [simp]: "kmem.more (zero_table t s) = kmem.more s"
  by (simp add: zero_table_def more_for_to)

lemma more_bump_step [simp]: "kmem.more (bump_step s) = kmem.more s"
  by (simp add: bump_step_def Let_def set_next_def)

lemma more_bump_loop [simp]: "kmem.more (bump_loop s) = kmem.more s"
proof (induction s rule: bump_loop.induct)
  case (1 s)
  then show ?case by (subst bump_loop.simps) simp
qed

lemma more_grab: "grab sz s = (r, s') \<Longrightarrow> kmem.more s' = kmem.more s"
  by (auto simp: grab_def Let_def split: if_splits)

lemma more_bump_initial: "bump_initial sz s = (p, s') \<Longrightarrow> kmem.more s' = kmem.more s"
  by (auto simp: bump_initial_def dest: more_grab split: prod.splits option.splits)

lemma more_bump_user: "bump_user sz s = (p, s') \<Longrightarrow> kmem.more s' = kmem.more s"
  by (auto simp: bump_user_def dest: more_grab split: prod.splits option.splits)

definition keeps_more :: "'a pages \<Rightarrow> bool" where
  "keeps_more f \<longleftrightarrow> (\<forall>s p s'. f s = Some (p, s') \<longrightarrow> kmem.more s' = kmem.more s)"

lemma keeps_moreD: "keeps_more f \<Longrightarrow> f s = Some (p, s') \<Longrightarrow> kmem.more s' = kmem.more s"
  by (auto simp: keeps_more_def)

lemma keeps_more_initial: "keeps_more (\<lambda>s. Some (bump_initial sz s))"
  by (auto simp: keeps_more_def dest: more_bump_initial)

lemma keeps_more_get_table: "keeps_more alloc \<Longrightarrow> keeps_more (get_table alloc t i f)"
  by (auto simp: keeps_more_def get_table_def bind_eq_Some_conv)

lemma more_set_page [simp]: "kmem.more (set_page phys f c s) = kmem.more s"
  by (simp add: set_page_def)

lemma more_map_turn:
  assumes "keeps_more alloc" "map_turn alloc root f tf phys (c, s) = Some (c', s')"
  shows "kmem.more s' = kmem.more s"
  using assms(2)
  by (auto simp: map_turn_def new_pdpt_def new_directory_def new_page_table_def bind_eq_Some_conv Let_def
      dest!: keeps_moreD [OF assms(1)] split: if_splits)

lemma more_map_loop:
  "(\<And>phys c s c' s'. turn phys (c, s) = Some (c', s') \<Longrightarrow> kmem.more s' = kmem.more s) \<Longrightarrow>
   map_loop turn lo phys sz (c, s) = Some (c', s') \<Longrightarrow> kmem.more s' = kmem.more s"
proof (induction turn lo phys sz "(c, s)" arbitrary: c s rule: map_loop.induct)
  case (1 turn lo phys sz c s)
  show ?case
  proof (cases "lo \<le> sz")
    case True
    then obtain c1 s1 where t: "turn phys (c, s) = Some (c1, s1)"
      "map_loop turn lo (phys + 4096) (sz - 4096) (c1, s1) = Some (c', s')"
      using 1(3) by (subst (asm) map_loop.simps) (auto simp: bind_eq_Some_conv)
    have "kmem.more s' = kmem.more s1" by (rule 1(1) [OF True t(1) 1(2) t(2)])
    then show ?thesis using 1(2) [OF t(1)] by simp
  next
    case False
    then show ?thesis using 1(3) by (subst (asm) map_loop.simps) simp
  qed
qed

lemma more_map_loop_turn:
  assumes "keeps_more alloc" "map_loop (map_turn alloc root f tf) lo phys sz (c, s) = Some (c', s')"
  shows "kmem.more s' = kmem.more s"
  by (rule more_map_loop [OF _ assms(2)]) (rule more_map_turn [OF assms(1)])

lemma more_map_address_with:
  assumes "keeps_more alloc" "map_address_with alloc a phys s = Some s'"
  shows "kmem.more s' = kmem.more s"
proof -
  note g = keeps_moreD [OF keeps_more_get_table [OF keeps_more_initial]]
  show ?thesis using assms(2)
    by (auto simp: map_address_with_def bind_eq_Some_conv Let_def
        dest!: g more_map_loop_turn [OF assms(1)])
qed

lemma keeps_more_bump: "keeps_more (bump depth sz)"
proof (induction depth arbitrary: sz)
  case 0
  then show ?case by (simp add: keeps_more_def)
next
  case (Suc depth)
  show ?case
    unfolding keeps_more_def
    by (auto simp: bind_eq_Some_conv dest!: more_grab more_map_address_with [OF Suc] split: prod.splits option.splits)
qed

section \<open>Structures of at most a page\<close>

lemma count_pages_small:
  assumes "0 < sz" "sz \<le> 4096"
  shows "count_pages sz = 1"
proof (cases "sz = 4096")
  case False
  then have "unat sz < 4096" using assms by (simp add: word_less_nat_alt word_le_nat_alt word_unat_eq_iff)
  then have "unat (sz div 4096) = 0" by (simp add: unat_div)
  then have "sz div 4096 = 0" by (simp add: unat_eq_zero)
  then show ?thesis using assms(1) by (simp add: count_pages_def)
qed (simp add: count_pages_def)

lemma bump_small:
  assumes "0 < sz" "sz \<le> 4096"
  shows "bump depth sz = bump depth 4096"
proof -
  have "grab sz s = grab 4096 s" for s :: "'a kmem_scheme"
    using count_pages_small [OF assms] count_pages_small [of 4096] by (simp add: grab_def)
  then show ?thesis by (cases depth) (auto intro!: ext)
qed

text \<open>How many more structures fit does not depend on the extension either.\<close>

lemma bump_left_truncate:
  assumes "kmem.truncate s' = kmem.truncate s"
  shows "bump_left U L n T s' = bump_left U L n T s"
proof -
  have f: "fl s' = fl s" "head_free s' = head_free s" "head_end s' = head_end s" "head_unalloc s' = head_unalloc s"
    "number_of_free_pages s' = number_of_free_pages s" "num_of_pages s' = num_of_pages s"
    "pml4t_t s' = pml4t_t s" "ptmem s' = ptmem s"
    using assms by (simp_all add: kmem.truncate_def)
  have p: "pool s' = pool s" using f by (simp add: pool_def)
  have "kernel_mapped U L s' q = kernel_mapped U L s q" for q
    using f by (simp add: kernel_mapped_def table_path_def sub_table_def rd_def)
  then show ?thesis
    using fl_inv_pool [OF p] frames_pool [OF p] by (simp add: bump_left_def)
qed

end
