(* ===== verification/Sched.thy ===== *)
theory Sched
  imports Kernel_Prelude
begin

text \<open>
  The process table and the scheduler: \<^verbatim>\<open>struct PCB\<close> of \<^verbatim>\<open>include/sys/contextswitch.h\<close>,
  \<^verbatim>\<open>schedule\<close>, \<^verbatim>\<open>create_thread\<close> and \<^verbatim>\<open>thread_on_completion\<close> of \<^verbatim>\<open>sys/contextswitch.c\<close>, the list
  operations of \<^verbatim>\<open>sys_waitpid\<close>, \<^verbatim>\<open>sys_fork\<close> and \<^verbatim>\<open>sys_kill\<close> in \<^verbatim>\<open>sys/syscall.c\<close>, and the preemption
  in the timer interrupt of \<^verbatim>\<open>sys/idt.c\<close>.  Process control blocks are a map from addresses;
  saving and restoring registers (\<^verbatim>\<open>switch_to\<close>) is in \<open>Switch\<close>.  A loop that follows a list returns
  \<^const>\<open>None\<close> when it does not end or reads through the null pointer.
\<close>

section \<open>State\<close>

datatype pstate = RUNNING | SLEEPING | ZOMBIE | BLOCKED

record pcb =
  p_kstack :: "u64 list"
  p_mm :: u64
  p_pid :: u32
  p_ppid :: u32
  p_is_wait :: int
  p_rsp :: u64
  p_heap_ptr :: u64
  p_ursp :: u64
  p_state :: pstate
  p_child_process :: u64
  p_next :: u64
  p_elapsed :: int
  p_totalslice :: int
  p_gotoaddr :: u64
  p_page_table :: u64
  p_cwd :: string
  p_name :: string

record sys =
  pcbs :: "u64 \<Rightarrow> pcb"
  threadlist :: u64
  currentthread :: u64
  mainthread :: u64
  blockedlist :: u64
  processcount :: u32

definition KSTACKLEN :: nat where
  "KSTACKLEN = 400"

definition upd :: "u64 \<Rightarrow> (pcb \<Rightarrow> pcb) \<Rightarrow> sys \<Rightarrow> sys" where
  "upd a f s = s\<lparr>pcbs := (pcbs s)(a := f (pcbs s a))\<rparr>"

abbreviation pnext :: "sys \<Rightarrow> u64 \<Rightarrow> u64" where
  "pnext s \<equiv> (\<lambda>a. p_next (pcbs s a))"

abbreviation state_of :: "sys \<Rightarrow> u64 \<Rightarrow> pstate" where
  "state_of s a \<equiv> p_state (pcbs s a)"

lemma upd_simps [simp]:
  "pcbs (upd a f s) b = (if b = a then f (pcbs s a) else pcbs s b)"
  "threadlist (upd a f s) = threadlist s" "currentthread (upd a f s) = currentthread s"
  "mainthread (upd a f s) = mainthread s" "blockedlist (upd a f s) = blockedlist s"
  "processcount (upd a f s) = processcount s"
  by (simp_all add: upd_def)

section \<open>Walking a list\<close>

text \<open>The first node from \<open>p\<close> on that satisfies \<open>P\<close>, the null pointer when there is none.\<close>

partial_function (option) find_node :: "(u64 \<Rightarrow> bool) \<Rightarrow> sys \<Rightarrow> u64 \<Rightarrow> u64 option" where
  "find_node P s p =
     (if p = 0 then Some 0 else if P p then Some p
      else find_node P s (p_next (pcbs s p)))"

declare find_node.simps [simp del]

definition find_ready :: "sys \<Rightarrow> u64 \<Rightarrow> u64 option" where
  "find_ready s = find_node (\<lambda>a. state_of s a = SLEEPING) s"

text \<open>The head of a list of nodes, the null pointer for the empty list.\<close>

definition hd0 :: "u64 list \<Rightarrow> u64" where
  "hd0 as = (case as of [] \<Rightarrow> 0 | a # _ \<Rightarrow> a)"

lemma hd0_simps [simp]: "hd0 [] = 0" "hd0 (a # as) = a"
  by (simp_all add: hd0_def)

lemma hd0_append: "hd0 (as @ bs) = (if as = [] then hd0 bs else hd0 as)"
  by (cases as) auto

lemma find_node_chain:
  "chain (pnext s) p ps 0 \<Longrightarrow>
     find_node P s p = Some (hd0 (filter P ps))"
proof (induction ps arbitrary: p)
  case Nil
  then show ?case by (simp add: find_node.simps)
next
  case (Cons a ps)
  then show ?case by (auto simp: find_node.simps [of P s a])
qed

section \<open>Scheduling\<close>

text \<open>\<^verbatim>\<open>schedule\<close>: the choice of the next thread, and the change of states.\<close>

definition pick_next :: "sys \<Rightarrow> u64 option" where
  "pick_next s =
     (let me = currentthread s in
      if me \<noteq> 0 \<and> p_next (pcbs s me) \<noteq> 0 \<and> state_of s me \<noteq> BLOCKED
      then do { nx \<leftarrow> find_ready s (p_next (pcbs s me));
                if nx = 0 then find_ready s (threadlist s) else Some nx }
      else find_ready s (threadlist s))"

definition schedule :: "sys \<Rightarrow> sys option" where
  "schedule s =
     do { let me = currentthread s;
          nx \<leftarrow> pick_next s;
          let s = (if me = mainthread s then upd me (\<lambda>p. p\<lparr>p_state := ZOMBIE\<rparr>) s
                   else if me \<noteq> 0 \<and> state_of s me \<noteq> ZOMBIE then upd me (\<lambda>p. p\<lparr>p_state := SLEEPING\<rparr>) s
                   else s);
          let nx = (if nx = 0 then mainthread s else nx);
          let s = (if nx \<noteq> 0 then upd nx (\<lambda>p. p\<lparr>p_state := RUNNING\<rparr>) s else s);
          Some (s\<lparr>currentthread := nx\<rparr>) }"

text \<open>The timer interrupt takes the processor away when the time slice is used up.\<close>

definition timer_preempt :: "sys \<Rightarrow> sys option" where
  "timer_preempt s =
     (let me = currentthread s;
          s = upd me (\<lambda>p. p\<lparr>p_elapsed := p_elapsed p + 1\<rparr>) s
      in if p_totalslice (pcbs s me) \<le> p_elapsed (pcbs s me)
         then schedule (upd me (\<lambda>p. p\<lparr>p_elapsed := 0\<rparr>) s)
         else Some s)"

section \<open>Creating threads\<close>

partial_function (option) last_node :: "sys \<Rightarrow> u64 \<Rightarrow> u64 option" where
  "last_node s p =
     (if p = 0 then None else if p_next (pcbs s p) = 0 then Some p
      else last_node s (p_next (pcbs s p)))"

declare last_node.simps [simp del]

text \<open>\<open>thread\<close> is the page from \<^verbatim>\<open>bump\<close>, \<open>retfun\<close> the address of \<^verbatim>\<open>thread_on_completion\<close>, \<open>pml4\<close> the
  physical address of the kernel's root table.\<close>

definition create_thread :: "u64 \<Rightarrow> u64 \<Rightarrow> u64 \<Rightarrow> u64 \<Rightarrow> sys \<Rightarrow> sys option" where
  "create_thread thread retfun pml4 faddr s =
     do { stack \<leftarrow> for_n 0 KSTACKLEN (\<lambda>i st. aput st i 0) (p_kstack (pcbs s thread));
          stack \<leftarrow> aput stack (KSTACKLEN - 1) retfun;
          stack \<leftarrow> aput stack (KSTACKLEN - 2) faddr;
          let s = upd thread (\<lambda>p. p\<lparr>p_kstack := stack, p_gotoaddr := faddr, p_next := 0,
                    p_totalslice := 1, p_state := SLEEPING,
                    p_rsp := thread + of_nat (8 * (KSTACKLEN - 10)), p_page_table := pml4\<rparr>) s;
          tl \<leftarrow> last_node s (threadlist s);
          Some (upd tl (\<lambda>p. p\<lparr>p_next := thread\<rparr>) s) }"

section \<open>Waiting and completion\<close>

text \<open>The first loop of \<^verbatim>\<open>sys_waitpid\<close>: mark the child.\<close>

partial_function (option) mark_child :: "u32 \<Rightarrow> u32 \<Rightarrow> u64 \<Rightarrow> bool \<times> sys \<Rightarrow> (bool \<times> sys) option" where
  "mark_child parent_id pid p bs =
     (if p = 0 then Some bs
      else let (setwait, s) = bs;
               hit = (p_ppid (pcbs s p) = parent_id \<and> parent_id \<noteq> 0 \<and> p_pid (pcbs s p) = pid);
               bs = (if hit then (True, upd p (\<lambda>q. q\<lparr>p_is_wait := 1\<rparr>) s) else bs)
           in mark_child parent_id pid (p_next (pcbs s p)) bs)"

declare mark_child.simps [simp del]

text \<open>The loops that unlink the process \<open>pid\<close> from the thread list; the head is not
  unlinked, as in the code.  The result is the node found, or the null pointer.\<close>

partial_function (option) unlink_loop :: "u32 \<Rightarrow> u64 \<Rightarrow> u64 \<Rightarrow> sys \<Rightarrow> (u64 \<times> sys) option" where
  "unlink_loop pid prev p s =
     (if p = 0 then Some (0, s)
      else if p_pid (pcbs s p) = pid
      then Some (p, if prev \<noteq> 0 then upd prev (\<lambda>q. q\<lparr>p_next := p_next (pcbs s p)\<rparr>) s else s)
      else unlink_loop pid p (p_next (pcbs s p)) s)"

declare unlink_loop.simps [simp del]

definition sys_waitpid :: "u32 \<Rightarrow> sys \<Rightarrow> (u32 \<times> sys) option" where
  "sys_waitpid pid s =
     do { let me = currentthread s;
          let parent_id = p_pid (pcbs s me);
          let s = upd me (\<lambda>p. p\<lparr>p_state := SLEEPING\<rparr>) s;
          (setwait, s) \<leftarrow> mark_child parent_id pid (threadlist s) (False, s);
          s \<leftarrow> (if setwait
               then do { (_, s) \<leftarrow> unlink_loop parent_id 0 (threadlist s) s;
                         Some (if blockedlist s = 0
                               then upd me (\<lambda>p. p\<lparr>p_next := 0\<rparr>) (s\<lparr>blockedlist := me\<rparr>)
                               else (upd me (\<lambda>p. p\<lparr>p_next := blockedlist s\<rparr>) s)\<lparr>blockedlist := me\<rparr>) }
               else Some s);
          s \<leftarrow> schedule (upd me (\<lambda>p. p\<lparr>p_state := BLOCKED\<rparr>) s);
          Some (pid, s) }"

text \<open>\<^verbatim>\<open>thread_on_completion\<close>: the first loop finds the running thread, and reads the successor of
  the node it steps to, also when that is the null pointer.\<close>

partial_function (option) zombie_loop :: "u64 \<Rightarrow> u64 \<Rightarrow> sys \<Rightarrow> (u64 \<times> u64 \<times> sys) option" where
  "zombie_loop p nx s =
     (if p = 0 then Some (0, nx, s)
      else if state_of s p = RUNNING then Some (p, nx, upd p (\<lambda>q. q\<lparr>p_state := ZOMBIE\<rparr>) s)
      else let q = p_next (pcbs s p) in
           if q = 0 then None else zombie_loop q (p_next (pcbs s q)) s)"

partial_function (option) give_slice :: "u64 \<Rightarrow> sys \<Rightarrow> sys option" where
  "give_slice p s =
     (if p = 0 then Some s
      else let me = pcbs s (currentthread s) in
        give_slice (p_next (pcbs s p))
             (if p_ppid me = p_pid (pcbs s p)
              then upd p (\<lambda>q. q\<lparr>p_totalslice := p_totalslice q + p_totalslice me\<rparr>) s else s))"

declare zombie_loop.simps [simp del] give_slice.simps [simp del]

text \<open>The loops over the blocked list that put the parent behind \<open>anchor\<close>.\<close>

partial_function (option) wake_parent :: "u32 \<Rightarrow> u64 \<Rightarrow> u64 \<Rightarrow> u64 \<Rightarrow> sys \<Rightarrow> sys option" where
  "wake_parent ppid anchor nx p s =
     (if p = 0 then Some s
      else if p_pid (pcbs s p) = ppid
      then Some (let s = s\<lparr>blockedlist := p_next (pcbs s p)\<rparr>;
                     s = upd anchor (\<lambda>q. q\<lparr>p_next := p\<rparr>) s
                 in upd p (\<lambda>q. q\<lparr>p_next := nx\<rparr>) s)
      else wake_parent ppid anchor nx (p_next (pcbs s p)) s)"

declare wake_parent.simps [simp del]

definition thread_on_completion :: "sys \<Rightarrow> sys option" where
  "thread_on_completion s =
     do { let temp_list = blockedlist s;
          (temp, nx, s) \<leftarrow> zombie_loop (threadlist s) 0 s;
          s \<leftarrow> give_slice (threadlist s) s;
          s \<leftarrow> give_slice (blockedlist s) s;
          if temp \<noteq> 0 \<and> 0 < p_ppid (pcbs s temp) \<and> p_is_wait (pcbs s temp) = 1
          then do { sib \<leftarrow> find_node (\<lambda>a. state_of s a \<noteq> ZOMBIE \<and> temp \<noteq> a
                             \<and> p_ppid (pcbs s temp) = p_ppid (pcbs s a)) s (threadlist s);
                    if sib = 0
                    then wake_parent (p_ppid (pcbs s temp)) temp nx temp_list s
                    else if p_is_wait (pcbs s sib) \<noteq> 1
                    then wake_parent (p_ppid (pcbs s sib)) sib (p_next (pcbs s sib)) temp_list s
                    else Some s }
          else Some s }"

section \<open>Round robin\<close>

text \<open>The order in which \<^verbatim>\<open>schedule\<close> looks for a thread: first behind the current one.\<close>

definition ready :: "sys \<Rightarrow> u64 list \<Rightarrow> u64 list" where
  "ready s = filter (\<lambda>a. state_of s a = SLEEPING)"

lemma pick_next_spec:
  assumes "chain (pnext s) (threadlist s) (ys @ me # zs) 0" "currentthread s = me"
    and "state_of s me \<noteq> BLOCKED"
  shows "pick_next s = Some (hd0 (ready s (zs @ ys @ me # zs)))"
proof -
  have me: "me \<noteq> 0" and z: "chain (pnext s) (p_next (pcbs s me)) zs 0"
    using assms(1) by (auto simp: chain_append)
  have all: "find_ready s (threadlist s) = Some (hd0 (ready s (ys @ me # zs)))"
    unfolding find_ready_def ready_def by (rule find_node_chain) (rule assms(1))
  have after: "find_ready s (p_next (pcbs s me)) = Some (hd0 (ready s zs))"
    unfolding find_ready_def ready_def by (rule find_node_chain) (rule z)
  show ?thesis
  proof (cases "ready s zs")
    case Nil
    then have "hd0 (ready s (zs @ ys @ me # zs)) = hd0 (ready s (ys @ me # zs))"
      by (simp add: ready_def)
    then show ?thesis using Nil all after me assms by (simp add: pick_next_def Let_def)
  next
    case (Cons a as)
    then have "hd0 (ready s (zs @ ys @ me # zs)) = a" by (simp add: ready_def)
    moreover have "a \<in> set zs" using Cons by (auto simp: ready_def dest: filter_eq_ConsD)
    then have "a \<noteq> 0" "p_next (pcbs s me) \<noteq> 0"
      using chain_nonnull [OF z] z by (auto simp: chain_null_iff)
    ultimately show ?thesis using Cons after me assms by (simp add: pick_next_def Let_def)
  qed
qed

text \<open>What \<^verbatim>\<open>schedule\<close> does once the next thread is chosen.\<close>

definition switched :: "u64 \<Rightarrow> sys \<Rightarrow> sys" where
  "switched nx s =
     (let me = currentthread s;
          s = (if me = mainthread s then upd me (\<lambda>p. p\<lparr>p_state := ZOMBIE\<rparr>) s
               else if me \<noteq> 0 \<and> state_of s me \<noteq> ZOMBIE then upd me (\<lambda>p. p\<lparr>p_state := SLEEPING\<rparr>) s
               else s);
          nx = (if nx = 0 then mainthread s else nx);
          s = (if nx \<noteq> 0 then upd nx (\<lambda>p. p\<lparr>p_state := RUNNING\<rparr>) s else s)
      in s\<lparr>currentthread := nx\<rparr>)"

lemma schedule_eq: "schedule s = map_option (\<lambda>nx. switched nx s) (pick_next s)"
  by (simp add: schedule_def switched_def Let_def map_option_case option.case_eq_if)
    (auto split: option.splits)

lemma switched_simps [simp]:
  "p_next (pcbs (switched nx s) a) = p_next (pcbs s a)"
  "p_pid (pcbs (switched nx s) a) = p_pid (pcbs s a)"
  "p_ppid (pcbs (switched nx s) a) = p_ppid (pcbs s a)"
  "threadlist (switched nx s) = threadlist s" "blockedlist (switched nx s) = blockedlist s"
  "mainthread (switched nx s) = mainthread s"
  by (simp_all add: switched_def Let_def)

lemma current_switched: "currentthread (switched nx s) = (if nx = 0 then mainthread s else nx)"
  by (simp add: switched_def Let_def)

lemma state_switched:
  "state_of (switched nx s) a =
     (let me = currentthread s; q = (if nx = 0 then mainthread s else nx) in
      if a = q \<and> q \<noteq> 0 then RUNNING
      else if a = me \<and> me = mainthread s then ZOMBIE
      else if a = me \<and> me \<noteq> 0 \<and> state_of s me \<noteq> ZOMBIE then SLEEPING
      else state_of s a)"
  by (auto simp: switched_def Let_def)

section \<open>No thread starves\<close>

text \<open>
  The running system: the thread list is \<open>xs\<close>, the threads that have not ended are \<open>as\<close>, the
  one that runs is \<open>as ! i\<close> and the others are ready; the boot thread has ended.
\<close>

definition alive :: "sys \<Rightarrow> u64 list \<Rightarrow> u64 list" where
  "alive s = filter (\<lambda>a. state_of s a \<noteq> ZOMBIE)"

definition running_system :: "u64 list \<Rightarrow> u64 list \<Rightarrow> nat \<Rightarrow> sys \<Rightarrow> bool" where
  "running_system xs as i s \<longleftrightarrow> chain (pnext s) (threadlist s) xs 0 \<and> distinct xs
     \<and> alive s xs = as \<and> i < length as \<and> currentthread s = as ! i \<and> mainthread s \<notin> set as
     \<and> (\<forall>a\<in>set as. state_of s a = (if a = as ! i then RUNNING else SLEEPING))"

fun run_schedules :: "nat \<Rightarrow> sys \<Rightarrow> sys option" where
  "run_schedules 0 s = Some s"
| "run_schedules (Suc n) s = do { s \<leftarrow> schedule s; run_schedules n s }"

lemma filter_alive_ready:
  assumes "\<And>a. a \<in> set bs \<Longrightarrow> state_of s a = SLEEPING \<or> state_of s a = ZOMBIE"
  shows "ready s bs = alive s bs"
  unfolding ready_def alive_def by (rule filter_cong) (use assms in auto)

lemma schedule_step:
  assumes "running_system xs as i s" "2 \<le> length as"
  shows "\<exists>s'. schedule s = Some s' \<and> running_system xs as (Suc i mod length as) s'"
proof -
  let ?me = "as ! i" and ?j = "Suc i mod length as"
  have ch: "chain (pnext s) (threadlist s) xs 0" and ds: "distinct xs" and as: "alive s xs = as"
    and i: "i < length as" and cur: "currentthread s = ?me" and mt: "mainthread s \<notin> set as"
    and st: "\<And>a. a \<in> set as \<Longrightarrow> state_of s a = (if a = ?me then RUNNING else SLEEPING)"
    using assms(1) by (auto simp: running_system_def)
  have me: "?me \<in> set as" "?me \<in> set xs" using i as by (auto simp: alive_def dest: nth_mem)
  obtain ys zs where xs: "xs = ys @ ?me # zs" using me(2) by (auto dest: split_list)
  have nz: "\<And>a. a \<in> set xs \<Longrightarrow> a \<noteq> 0" using chain_nonnull [OF ch] by blast
  have sme: "state_of s ?me = RUNNING" using st me by simp
  have das: "distinct as" using as ds by (auto simp: alive_def)
  have eas: "as = alive s ys @ ?me # alive s zs"
    using as xs sme by (simp add: alive_def)
  have idx: "length (alive s ys) = i"
  proof -
    have "as ! length (alive s ys) = ?me" using arg_cong [OF eas, of "\<lambda>l. l ! length (alive s ys)"] by simp
    moreover have "length (alive s ys) < length as" using arg_cong [OF eas, of length] by simp
    ultimately show ?thesis using das i by (simp add: nth_eq_iff_index_eq)
  qed
  have sub: "\<And>a. a \<in> set ys \<union> set zs \<Longrightarrow> state_of s a = SLEEPING \<or> state_of s a = ZOMBIE"
  proof -
    fix a assume a: "a \<in> set ys \<union> set zs"
    then have "a \<noteq> ?me" "a \<in> set xs" using ds xs by auto
    then show "state_of s a = SLEEPING \<or> state_of s a = ZOMBIE"
      using st [of a] as by (cases "state_of s a = ZOMBIE") (auto simp: alive_def)
  qed
  have rd: "ready s (zs @ ys @ ?me # zs) = alive s zs @ alive s ys @ alive s zs"
    using filter_alive_ready [of zs s] filter_alive_ready [of ys s] sub sme by (auto simp: ready_def alive_def)
  have nx: "hd0 (ready s (zs @ ys @ ?me # zs)) = as ! ?j"
  proof (cases "alive s zs")
    case Nil
    have l: "length as = Suc i" using arg_cong [OF eas, of length] idx Nil by simp
    then have "alive s ys \<noteq> []" using assms(2) idx by auto
    then obtain b bs where b: "alive s ys = b # bs" by (cases "alive s ys") auto
    have "as ! 0 = b" using arg_cong [OF eas, of "\<lambda>l. l ! 0"] b by simp
    then show ?thesis using Nil b l by (simp add: rd)
  next
    case (Cons b bs)
    have "length as = Suc i + length (alive s zs)" using arg_cong [OF eas, of length] idx by simp
    then have j: "?j = Suc i" using Cons by simp
    have "as ! Suc i = b"
      using arg_cong [OF eas, of "\<lambda>l. l ! Suc i"] idx Cons by (simp add: nth_append)
    then show ?thesis using Cons j by (simp add: rd)
  qed
  have j: "?j < length as" "?j \<noteq> i" using assms(2) i by (auto simp: mod_Suc)
  then have jm: "as ! ?j \<in> set as" "as ! ?j \<noteq> ?me" using das i by (auto simp: nth_eq_iff_index_eq)
  have "set as \<subseteq> set xs" using as by (auto simp: alive_def)
  with nz jm(1) have j0: "as ! ?j \<noteq> 0" by blast
  have "pick_next s = Some (as ! ?j)"
    using pick_next_spec [OF ch [unfolded xs] cur] sme nx by simp
  then have sch: "schedule s = Some (switched (as ! ?j) s)" by (simp add: schedule_eq)
  have m: "mainthread s \<noteq> ?me" using mt me by auto
  have st': "state_of (switched (as ! ?j) s) a =
      (if a = as ! ?j then RUNNING else if a = ?me then SLEEPING else state_of s a)" for a
    using j0 m cur sme nz me by (simp add: state_switched Let_def)
  have "alive (switched (as ! ?j) s) xs = alive s xs"
    unfolding alive_def by (rule filter_cong) (use jm st sme in \<open>auto simp: st'\<close>)
  then have "alive (switched (as ! ?j) s) xs = as" using as by simp
  moreover have "chain (pnext (switched (as ! ?j) s)) (threadlist s) xs 0"
    using ch by (simp cong: chain_cong)
  ultimately have "running_system xs as ?j (switched (as ! ?j) s)"
    using ds j mt st j0 jm by (auto simp: running_system_def current_switched st')
  with sch show ?thesis by blast
qed

lemma run_schedules_rotates:
  "running_system xs as i s \<Longrightarrow> 2 \<le> length as \<Longrightarrow>
    \<exists>s'. run_schedules k s = Some s' \<and> running_system xs as ((i + k) mod length as) s'"
proof (induction k arbitrary: i s)
  case 0
  then show ?case by (simp add: running_system_def)
next
  case (Suc k)
  from schedule_step [OF Suc.prems] obtain t where
    t: "schedule s = Some t" "running_system xs as (Suc i mod length as) t" by blast
  from Suc.IH [OF t(2) Suc.prems(2)] show ?case
    using t(1) by (auto simp: mod_add_left_eq)
qed

section \<open>Lists of processes\<close>

lemma last_node_chain:
  "chain (pnext s) p (ps @ [a]) 0 \<Longrightarrow> last_node s p = Some a"
proof (induction ps arbitrary: p)
  case Nil
  then show ?case by (simp add: last_node.simps)
next
  case (Cons b ps)
  have "p_next (pcbs s b) \<noteq> 0"
    using Cons.prems by (cases ps) auto
  then show ?case using Cons by (simp add: last_node.simps [of s b])
qed

lemma unlink_loop_skip:
  assumes "chain (pnext s) p (ys @ zs) 0" "\<And>a. a \<in> set ys \<Longrightarrow> p_pid (pcbs s a) \<noteq> pid"
  shows "unlink_loop pid prev p s = unlink_loop pid (if ys = [] then prev else last ys) (hd0 zs) s"
  using assms
proof (induction ys arbitrary: p prev)
  case Nil
  then show ?case by (cases zs) auto
next
  case (Cons b ys)
  then have "unlink_loop pid prev p s = unlink_loop pid b (p_next (pcbs s b)) s"
    by (simp add: unlink_loop.simps [of pid prev])
  also have "\<dots> = unlink_loop pid (if ys = [] then b else last ys) (hd0 zs) s"
    by (rule Cons.IH) (use Cons.prems in auto)
  finally show ?case by simp
qed

text \<open>Unlinking a process that is not the head of its list.\<close>

lemma unlink_loop_inner:
  assumes "chain (pnext s) p (ys @ b # me # zs) 0" "distinct (ys @ b # me # zs)"
    and "\<And>a. a \<in> set (ys @ [b]) \<Longrightarrow> p_pid (pcbs s a) \<noteq> pid" "p_pid (pcbs s me) = pid"
  shows "unlink_loop pid 0 p s = Some (me, upd b (\<lambda>q. q\<lparr>p_next := p_next (pcbs s me)\<rparr>) s)
    \<and> chain (pnext (upd b (\<lambda>q. q\<lparr>p_next := p_next (pcbs s me)\<rparr>) s)) p (ys @ b # zs) 0"
proof -
  have "me \<noteq> 0" "b \<noteq> 0" using assms(1) by (auto simp: chain_append)
  moreover have "unlink_loop pid 0 p s = unlink_loop pid b me s"
    using unlink_loop_skip [of s p "ys @ [b]" "me # zs" pid 0] assms by simp
  ultimately have "unlink_loop pid 0 p s = Some (me, upd b (\<lambda>q. q\<lparr>p_next := p_next (pcbs s me)\<rparr>) s)"
    using assms(4) by (simp add: unlink_loop.simps)
  moreover have "pnext (upd b (\<lambda>q. q\<lparr>p_next := p_next (pcbs s me)\<rparr>) s) = (pnext s)(b := p_next (pcbs s me))"
    by auto
  ultimately show ?thesis using assms(1, 2) by (auto simp: chain_append)
qed

lemma mark_child_chain:
  assumes "chain (pnext s) p ps 0"
  shows "\<exists>s'. mark_child parent pid p (w, s) = Some (w \<or> (\<exists>a\<in>set ps. p_ppid (pcbs s a) = parent
      \<and> parent \<noteq> 0 \<and> p_pid (pcbs s a) = pid), s')
    \<and> (\<forall>a. p_next (pcbs s' a) = p_next (pcbs s a) \<and> p_pid (pcbs s' a) = p_pid (pcbs s a)
         \<and> p_ppid (pcbs s' a) = p_ppid (pcbs s a) \<and> p_state (pcbs s' a) = p_state (pcbs s a)
         \<and> p_totalslice (pcbs s' a) = p_totalslice (pcbs s a))
    \<and> threadlist s' = threadlist s \<and> currentthread s' = currentthread s
    \<and> mainthread s' = mainthread s \<and> blockedlist s' = blockedlist s"
  using assms
proof (induction ps arbitrary: p w s)
  case Nil
  then show ?case by (simp add: mark_child.simps)
next
  case (Cons b ps)
  define hit where "hit \<longleftrightarrow> p_ppid (pcbs s b) = parent \<and> parent \<noteq> 0 \<and> p_pid (pcbs s b) = pid"
  define s1 where "s1 = (if hit then upd b (\<lambda>q. q\<lparr>p_is_wait := 1\<rparr>) s else s)"
  have f: "p_next (pcbs s1 a) = p_next (pcbs s a)" "p_pid (pcbs s1 a) = p_pid (pcbs s a)"
    "p_ppid (pcbs s1 a) = p_ppid (pcbs s a)" "p_state (pcbs s1 a) = p_state (pcbs s a)"
    "p_totalslice (pcbs s1 a) = p_totalslice (pcbs s a)" for a
    by (simp_all add: s1_def)
  have g: "threadlist s1 = threadlist s" "currentthread s1 = currentthread s"
    "mainthread s1 = mainthread s" "blockedlist s1 = blockedlist s"
    by (simp_all add: s1_def)
  have b: "p = b" "b \<noteq> 0" and ch: "chain (pnext s1) (p_next (pcbs s1 b)) ps 0"
    using Cons.prems by (simp_all add: f)
  have step: "mark_child parent pid p (w, s) = mark_child parent pid (p_next (pcbs s1 b)) (w \<or> hit, s1)"
    using b by (simp add: mark_child.simps [of _ _ b] hit_def [symmetric] s1_def Let_def)
  from Cons.IH [OF ch, of "w \<or> hit"] show ?case
    unfolding step f g by (auto simp: hit_def)
qed

lemma mark_child_hit:
  assumes "chain (pnext s) p ps 0"
    and "\<exists>a\<in>set ps. p_ppid (pcbs s a) = parent \<and> parent \<noteq> 0 \<and> p_pid (pcbs s a) = pid"
  shows "\<exists>s'. mark_child parent pid p (w, s) = Some (True, s')
    \<and> (\<forall>a. p_next (pcbs s' a) = p_next (pcbs s a) \<and> p_pid (pcbs s' a) = p_pid (pcbs s a))
    \<and> threadlist s' = threadlist s \<and> currentthread s' = currentthread s
    \<and> mainthread s' = mainthread s \<and> blockedlist s' = blockedlist s"
  using mark_child_chain [OF assms(1), of parent pid w] assms(2) by auto

lemma find_ready_chain: "chain (pnext s) p ps 0 \<Longrightarrow> \<exists>nx. find_ready s p = Some nx"
  using find_node_chain by (auto simp: find_ready_def)

lemma schedule_blocked:
  assumes "chain (pnext s) (threadlist s) ps 0" "state_of s (currentthread s) = BLOCKED"
  shows "schedule s = Some (switched (hd0 (ready s ps)) s)"
  using find_node_chain [OF assms(1), of "\<lambda>a. state_of s a = SLEEPING"] assms(2)
  by (simp add: schedule_eq pick_next_def find_ready_def ready_def)

section \<open>Completion\<close>

lemma zombie_loop_chain:
  assumes "chain (pnext s) p (ys @ c # zs) 0" "\<And>a. a \<in> set ys \<Longrightarrow> state_of s a \<noteq> RUNNING"
    and "state_of s c = RUNNING" "ys = [] \<longrightarrow> nx = p_next (pcbs s c)"
  shows "zombie_loop p nx s = Some (c, p_next (pcbs s c), upd c (\<lambda>q. q\<lparr>p_state := ZOMBIE\<rparr>) s)"
  using assms
proof (induction ys arbitrary: p nx)
  case Nil
  then show ?case by (simp add: zombie_loop.simps)
next
  case (Cons a ys)
  have p: "p = a" "a \<noteq> 0" "state_of s a \<noteq> RUNNING" using Cons.prems(1) Cons.prems(2) [of a] by auto
  let ?q = "p_next (pcbs s a)"
  have q: "chain (pnext s) ?q (ys @ c # zs) 0" using Cons.prems(1) by simp
  then have "?q \<noteq> 0" using chain_null_iff [of "pnext s" "ys @ c # zs" 0] by auto
  then have "zombie_loop p nx s = zombie_loop ?q (p_next (pcbs s ?q)) s"
    using p by (simp add: zombie_loop.simps [of a] Let_def)
  also have "\<dots> = Some (c, p_next (pcbs s c), upd c (\<lambda>q. q\<lparr>p_state := ZOMBIE\<rparr>) s)"
    by (rule Cons.IH [OF q]) (use Cons.prems q in auto)
  finally show ?case .
qed

text \<open>Nothing but time slices differs.\<close>

definition same_but_slice :: "sys \<Rightarrow> sys \<Rightarrow> bool" where
  "same_but_slice s s' \<longleftrightarrow> threadlist s' = threadlist s \<and> currentthread s' = currentthread s
     \<and> blockedlist s' = blockedlist s \<and> mainthread s' = mainthread s
     \<and> (\<forall>a. \<exists>n. pcbs s' a = (pcbs s a)\<lparr>p_totalslice := n\<rparr>)"

lemma same_but_slice_simps:
  assumes "same_but_slice s s'"
  shows "threadlist s' = threadlist s" "currentthread s' = currentthread s"
    "blockedlist s' = blockedlist s" "mainthread s' = mainthread s"
    "p_next (pcbs s' a) = p_next (pcbs s a)" "p_pid (pcbs s' a) = p_pid (pcbs s a)"
    "p_ppid (pcbs s' a) = p_ppid (pcbs s a)" "p_state (pcbs s' a) = p_state (pcbs s a)"
    "p_is_wait (pcbs s' a) = p_is_wait (pcbs s a)"
proof -
  from assms obtain n where "pcbs s' a = (pcbs s a)\<lparr>p_totalslice := n\<rparr>"
    unfolding same_but_slice_def by blast
  then show "p_next (pcbs s' a) = p_next (pcbs s a)" "p_pid (pcbs s' a) = p_pid (pcbs s a)"
    "p_ppid (pcbs s' a) = p_ppid (pcbs s a)" "p_state (pcbs s' a) = p_state (pcbs s a)"
    "p_is_wait (pcbs s' a) = p_is_wait (pcbs s a)" by simp_all
qed (use assms in \<open>simp_all add: same_but_slice_def\<close>)

lemma same_but_slice_refl: "same_but_slice s s"
proof -
  have "pcbs s a = (pcbs s a)\<lparr>p_totalslice := p_totalslice (pcbs s a)\<rparr>" for a by simp
  then show ?thesis unfolding same_but_slice_def by blast
qed

lemma give_slice_chain:
  assumes "chain (pnext s) p ps 0" "distinct ps" "p_pid (pcbs s (currentthread s)) \<noteq> p_ppid (pcbs s (currentthread s))"
  shows "\<exists>s'. give_slice p s = Some s' \<and> same_but_slice s s'
    \<and> (\<forall>a. p_totalslice (pcbs s' a) = p_totalslice (pcbs s a)
         + (if a \<in> set ps \<and> p_pid (pcbs s a) = p_ppid (pcbs s (currentthread s))
            then p_totalslice (pcbs s (currentthread s)) else 0))"
  using assms
proof (induction ps arbitrary: p s)
  case Nil
  then show ?case by (simp add: give_slice.simps same_but_slice_refl)
next
  case (Cons b ps)
  let ?me = "currentthread s"
  define s1 where "s1 = (if p_ppid (pcbs s ?me) = p_pid (pcbs s b)
      then upd b (\<lambda>q. q\<lparr>p_totalslice := p_totalslice q + p_totalslice (pcbs s ?me)\<rparr>) s else s)"
  have nb: "p_ppid (pcbs s ?me) = p_pid (pcbs s b) \<Longrightarrow> b \<noteq> ?me" using Cons.prems(3) by auto
  have f: "p_next (pcbs s1 a) = p_next (pcbs s a)" "p_pid (pcbs s1 a) = p_pid (pcbs s a)"
    "p_ppid (pcbs s1 a) = p_ppid (pcbs s a)" for a
    by (simp_all add: s1_def)
  have g: "currentthread s1 = ?me" "p_totalslice (pcbs s1 ?me) = p_totalslice (pcbs s ?me)"
    using nb by (auto simp: s1_def)
  have ts: "p_totalslice (pcbs s1 a) = p_totalslice (pcbs s a)
      + (if a = b \<and> p_pid (pcbs s a) = p_ppid (pcbs s ?me) then p_totalslice (pcbs s ?me) else 0)" for a
    by (auto simp: s1_def)
  have sb: "same_but_slice s s1"
  proof -
    have "\<exists>n. pcbs s1 a = (pcbs s a)\<lparr>p_totalslice := n\<rparr>" for a
      by (cases "a = b") (auto simp: s1_def intro: exI [of _ "p_totalslice (pcbs s a)"])
    then show ?thesis by (simp add: same_but_slice_def s1_def)
  qed
  have b: "p = b" "b \<noteq> 0" and ch: "chain (pnext s1) (p_next (pcbs s1 b)) ps 0"
    using Cons.prems(1) by (simp_all add: f)
  have step: "give_slice p s = give_slice (p_next (pcbs s1 b)) s1"
    using b by (simp add: give_slice.simps [of b] s1_def [symmetric] Let_def f)
  from Cons.IH [OF ch] Cons.prems(2, 3) obtain s' where
    s': "give_slice (p_next (pcbs s1 b)) s1 = Some s'" "same_but_slice s1 s'"
    "\<And>a. p_totalslice (pcbs s' a) = p_totalslice (pcbs s1 a)
       + (if a \<in> set ps \<and> p_pid (pcbs s1 a) = p_ppid (pcbs s1 ?me) then p_totalslice (pcbs s1 ?me) else 0)"
    by (auto simp: f g(1))
  have "same_but_slice s s'"
  proof -
    have "\<exists>n. pcbs s' a = (pcbs s a)\<lparr>p_totalslice := n\<rparr>" for a
    proof -
      from sb obtain n1 where "pcbs s1 a = (pcbs s a)\<lparr>p_totalslice := n1\<rparr>"
        unfolding same_but_slice_def by blast
      moreover from s'(2) obtain n2 where "pcbs s' a = (pcbs s1 a)\<lparr>p_totalslice := n2\<rparr>"
        unfolding same_but_slice_def by blast
      ultimately show ?thesis by auto
    qed
    then show ?thesis using sb s'(2) by (simp add: same_but_slice_def)
  qed
  moreover have "b \<notin> set ps" using Cons.prems(2) by simp
  ultimately show ?case using s'(1) Cons.prems(3) by (auto simp: step s'(3) ts f g(2))
qed

section \<open>Steps of the system\<close>

text \<open>The events that move the processor between threads, in any order.\<close>

inductive sched_step :: "sys \<Rightarrow> sys \<Rightarrow> bool" where
  yield: "schedule s = Some s' \<Longrightarrow> sched_step s s'"
| tick: "timer_preempt s = Some s' \<Longrightarrow> sched_step s s'"
| create: "create_thread th rf pm fa s = Some s' \<Longrightarrow> sched_step s s'"
| wait: "sys_waitpid pid s = Some (r, s') \<Longrightarrow> sched_step s s'"
| complete: "thread_on_completion s = Some s' \<Longrightarrow> sched_step s s'"

inductive_cases sched_stepE: "sched_step s s'"

definition single_running :: "sys \<Rightarrow> bool" where
  "single_running s \<longleftrightarrow> (\<forall>a. a \<noteq> 0 \<longrightarrow> state_of s a = RUNNING \<longrightarrow> a = currentthread s)"

text \<open>The list operations of the handlers change neither a state nor the current thread.\<close>

definition same_run :: "sys \<Rightarrow> sys \<Rightarrow> bool" where
  "same_run s s' \<longleftrightarrow> currentthread s' = currentthread s \<and> mainthread s' = mainthread s
     \<and> (\<forall>a. state_of s' a = state_of s a)"

lemma same_run_refl [simp]: "same_run s s"
  by (simp add: same_run_def)

lemma same_run_trans: "same_run s t \<Longrightarrow> same_run t u \<Longrightarrow> same_run s u"
  by (simp add: same_run_def)

lemma same_run_upd: "(\<And>p. p_state (f p) = p_state p) \<Longrightarrow> same_run s (upd a f s)"
  by (simp add: same_run_def)

lemma same_run_single: "same_run s s' \<Longrightarrow> single_running s' = single_running s"
  by (simp add: same_run_def single_running_def)

lemma mark_child_run: "mark_child par pid p bs = Some bs' \<Longrightarrow> same_run (snd bs) (snd bs')"
proof (induction par pid p bs bs' rule: mark_child.raw_induct [rotated 1, consumes 1])
  case (1 f par pid p bs y)
  obtain b s where bs: "bs = (b, s)" by (cases bs)
  show ?case
  proof (cases "p = 0")
    case False
    define hit where "hit = (p_ppid (pcbs s p) = par \<and> par \<noteq> 0 \<and> p_pid (pcbs s p) = pid)"
    have "f par pid (p_next (pcbs s p)) (if hit then (True, upd p (\<lambda>q. q\<lparr>p_is_wait := 1\<rparr>) s) else bs) = Some y"
      using 1(2) False by (simp add: bs hit_def Let_def cong: if_cong)
    from 1(1) [OF this] have "same_run (if hit then upd p (\<lambda>q. q\<lparr>p_is_wait := 1\<rparr>) s else s) (snd y)"
      by (auto simp: bs split: if_splits)
    moreover have "same_run s (if hit then upd p (\<lambda>q. q\<lparr>p_is_wait := 1\<rparr>) s else s)"
      by (simp add: same_run_upd)
    ultimately have "same_run s (snd y)" by (rule same_run_trans [rotated])
    then show ?thesis by (simp add: bs)
  qed (use 1 in simp)
qed

lemma unlink_loop_run: "unlink_loop pid prev p s = Some (q, s') \<Longrightarrow> same_run s s'"
proof (induction pid prev p s "(q, s')" rule: unlink_loop.raw_induct [rotated 1, consumes 1])
  case (1 f pid prev p s)
  then show ?case by (auto simp: same_run_upd Let_def split: if_splits)
qed

lemma give_slice_run: "give_slice p s = Some s' \<Longrightarrow> same_run s s'"
proof (induction p s s' rule: give_slice.raw_induct [rotated 1, consumes 1])
  case (1 f p s y)
  show ?case
  proof (cases "p = 0")
    case False
    define t where "t = (if p_ppid (pcbs s (currentthread s)) = p_pid (pcbs s p)
        then upd p (\<lambda>q. q\<lparr>p_totalslice := p_totalslice q + p_totalslice (pcbs s (currentthread s))\<rparr>) s else s)"
    have "same_run s t" by (simp add: t_def same_run_upd)
    moreover have "same_run t y" using 1(2) False by (intro 1(1)) (simp add: t_def Let_def)
    ultimately show ?thesis by (rule same_run_trans)
  qed (use 1 in simp)
qed

lemma wake_parent_run: "wake_parent pp an nx p s = Some s' \<Longrightarrow> same_run s s'"
proof (induction pp an nx p s s' rule: wake_parent.raw_induct [rotated 1, consumes 1])
  case (1 f pp an nx p s y)
  then show ?case by (auto simp: same_run_def Let_def split: if_splits)
qed

lemma schedule_single: "schedule s = Some s' \<Longrightarrow> single_running s \<Longrightarrow> single_running s'"
  by (auto simp: single_running_def schedule_eq state_switched current_switched Let_def split: if_splits)

lemma zombie_loop_single:
  "zombie_loop p nx s = Some (q, n, s') \<Longrightarrow> single_running s \<Longrightarrow> single_running s'"
proof (induction p nx s "(q, n, s')" rule: zombie_loop.raw_induct [rotated 1, consumes 1])
  case (1 f p nx s)
  then show ?case by (auto simp: single_running_def Let_def split: if_splits)
qed

lemma create_thread_single:
  assumes "create_thread th rf pm fa s = Some s'" "single_running s"
  shows "single_running s'"
  using assms by (auto simp: create_thread_def bind_eq_Some_conv single_running_def Let_def split: if_splits)

lemma sys_waitpid_single:
  assumes "sys_waitpid pid s = Some (r, s')" "single_running s"
  shows "single_running s'"
proof -
  let ?me = "currentthread s"
  let ?s1 = "upd ?me (\<lambda>p. p\<lparr>p_state := SLEEPING\<rparr>) s"
  obtain w s2 where m: "mark_child (p_pid (pcbs s ?me)) pid (threadlist s) (False, ?s1) = Some (w, s2)"
    and rest: "\<exists>s3. (if w
               then do { (_, s) \<leftarrow> unlink_loop (p_pid (pcbs s ?me)) 0 (threadlist s2) s2;
                         Some (if blockedlist s = 0
                               then upd ?me (\<lambda>p. p\<lparr>p_next := 0\<rparr>) (s\<lparr>blockedlist := ?me\<rparr>)
                               else (upd ?me (\<lambda>p. p\<lparr>p_next := blockedlist s\<rparr>) s)\<lparr>blockedlist := ?me\<rparr>) }
               else Some s2) = Some s3 \<and> schedule (upd ?me (\<lambda>p. p\<lparr>p_state := BLOCKED\<rparr>) s3) = Some s'"
    using assms(1) by (auto simp: sys_waitpid_def Let_def bind_eq_Some_conv)
  then obtain s3 where bl: "(if w
               then do { (_, s) \<leftarrow> unlink_loop (p_pid (pcbs s ?me)) 0 (threadlist s2) s2;
                         Some (if blockedlist s = 0
                               then upd ?me (\<lambda>p. p\<lparr>p_next := 0\<rparr>) (s\<lparr>blockedlist := ?me\<rparr>)
                               else (upd ?me (\<lambda>p. p\<lparr>p_next := blockedlist s\<rparr>) s)\<lparr>blockedlist := ?me\<rparr>) }
               else Some s2) = Some s3"
      and sc: "schedule (upd ?me (\<lambda>p. p\<lparr>p_state := BLOCKED\<rparr>) s3) = Some s'" by blast
  have s3: "same_run s2 s3"
    using bl by (auto simp: bind_eq_Some_conv same_run_def dest!: unlink_loop_run split: if_splits)
  have "single_running ?s1" using assms(2) by (simp add: single_running_def)
  then have "single_running s3"
    using mark_child_run [OF m] s3 by (simp add: same_run_single)
  then have "single_running (upd ?me (\<lambda>p. p\<lparr>p_state := BLOCKED\<rparr>) s3)" by (simp add: single_running_def)
  with sc show ?thesis by (rule schedule_single)
qed

lemma thread_on_completion_single:
  assumes "thread_on_completion s = Some s'" "single_running s"
  shows "single_running s'"
proof -
  obtain t n s1 s2 s3 where z: "zombie_loop (threadlist s) 0 s = Some (t, n, s1)"
    and g: "give_slice (threadlist s1) s1 = Some s2" "give_slice (blockedlist s2) s2 = Some s3"
    and r: "same_run s3 s'"
    using assms(1)
    by (auto simp: thread_on_completion_def Let_def bind_eq_Some_conv dest: wake_parent_run split: if_splits)
  have "single_running s1" using z assms(2) by (rule zombie_loop_single)
  then show ?thesis
    using give_slice_run [OF g(1)] give_slice_run [OF g(2)] r by (simp add: same_run_single)
qed

lemma timer_preempt_single:
  assumes "timer_preempt s = Some s'" "single_running s"
  shows "single_running s'"
proof -
  have e: "same_run s (upd a (\<lambda>p. p\<lparr>p_elapsed := g p\<rparr>) s)" for a g s by (simp add: same_run_upd)
  show ?thesis
    using assms schedule_single e
    by (auto simp: timer_preempt_def Let_def same_run_single [OF e] split: if_splits)
qed

lemma sched_step_single_running: "sched_step s s' \<Longrightarrow> single_running s \<Longrightarrow> single_running s'"
  by (elim sched_stepE) (auto intro: schedule_single timer_preempt_single create_thread_single
      sys_waitpid_single thread_on_completion_single)

section \<open>Properties\<close>

text \<open>C7: scheduling is round robin and no thread starves: in a system whose \<open>n\<close> live
  threads are one that runs and ready ones, \<open>k\<close> calls of \<^verbatim>\<open>schedule\<close> return, keep the list and exactly one
  thread running, and pass the processor to the thread \<open>k\<close> places further in list order, so that each thread
  runs again within \<open>n\<close> calls.\<close>

theorem schedule_round_robin:
  assumes "running_system xs as i s" and "2 \<le> length as"
  shows "(\<exists>s'. run_schedules k s = Some s' \<and> running_system xs as ((i + k) mod length as) s'
            \<and> currentthread s' = as ! ((i + k) mod length as))
     \<and> (\<forall>a \<in> set as. \<exists>m < length as. \<exists>s'. run_schedules m s = Some s' \<and> currentthread s' = a)"
proof (intro conjI ballI)
  have run: "\<exists>s'. run_schedules m s = Some s' \<and> running_system xs as ((i + m) mod length as) s'
      \<and> currentthread s' = as ! ((i + m) mod length as)" for m
    using run_schedules_rotates [OF assms, of m] by (auto simp: running_system_def)
  then show "\<exists>s'. run_schedules k s = Some s' \<and> running_system xs as ((i + k) mod length as) s'
      \<and> currentthread s' = as ! ((i + k) mod length as)" .
  fix a assume "a \<in> set as"
  then obtain j where j: "j < length as" "a = as ! j" by (auto simp: in_set_conv_nth)
  have i: "i < length as" using assms(1) by (simp add: running_system_def)
  define m where "m = (j + length as - i) mod length as"
  have "(i + m) mod length as = (i + (j + length as - i)) mod length as"
    by (simp add: m_def mod_add_right_eq)
  also have "\<dots> = j" using i j by simp
  finally have "(i + m) mod length as = j" .
  moreover have "m < length as" using i unfolding m_def by (intro mod_less_divisor) auto
  ultimately show "\<exists>m < length as. \<exists>s'. run_schedules m s = Some s' \<and> currentthread s' = a"
    using run [of m] j by auto
qed

text \<open>The boot thread at 8, ended, and two threads at 16 and 24.\<close>

definition blank_pcb :: pcb where
  "blank_pcb = \<lparr>p_kstack = [], p_mm = 0, p_pid = 0, p_ppid = 0, p_is_wait = 0, p_rsp = 0,
     p_heap_ptr = 0, p_ursp = 0, p_state = SLEEPING, p_child_process = 0, p_next = 0,
     p_elapsed = 0, p_totalslice = 1, p_gotoaddr = 0, p_page_table = 0, p_cwd = [], p_name = []\<rparr>"

definition demo_sys :: sys where
  "demo_sys = \<lparr>pcbs = (\<lambda>_. blank_pcb)
      (8 := blank_pcb\<lparr>p_state := ZOMBIE, p_next := 16\<rparr>,
       16 := blank_pcb\<lparr>p_state := SLEEPING, p_next := 24, p_pid := 1\<rparr>,
       24 := blank_pcb\<lparr>p_state := RUNNING, p_pid := 2, p_ppid := 1\<rparr>),
     threadlist = 8, currentthread = 24, mainthread = 8, blockedlist = 0, processcount = 2\<rparr>"

theorem schedule_round_robin_witness:
  "\<exists>s'. run_schedules 3 demo_sys = Some s' \<and> currentthread s' = 16"
proof -
  have "running_system [8, 16, 24] [16, 24] 1 demo_sys"
    by (simp add: running_system_def alive_def demo_sys_def blank_pcb_def)
  from schedule_round_robin [OF this, of 3] show ?thesis
    by (auto simp del: run_schedules.simps simp: numeral_2_eq_2 [symmetric])
qed

text \<open>C40: the system only leaves the processor to one thread: whatever sequence of timer interrupts, waits,
  completions and thread creations happens, at most the current thread is in the state \<^const>\<open>RUNNING\<close>.\<close>

theorem at_most_one_running:
  assumes "sched_step\<^sup>*\<^sup>* s s'" and "single_running s"
  shows "single_running s'"
  using assms by (induction rule: rtranclp_induct) (auto dest: sched_step_single_running)

theorem at_most_one_running_witness:
  "\<exists>s'. sched_step demo_sys s' \<and> single_running s' \<and> currentthread s' = 16"
proof -
  have c: "chain (pnext demo_sys) (threadlist demo_sys) ([8, 16] @ 24 # []) 0" "currentthread demo_sys = 24"
    "state_of demo_sys 24 \<noteq> BLOCKED"
    by (simp_all add: demo_sys_def blank_pcb_def)
  have n: "pick_next demo_sys = Some 16"
    using pick_next_spec [OF c] by (simp add: ready_def demo_sys_def blank_pcb_def)
  have st: "sched_step demo_sys (switched 16 demo_sys)"
    by (rule sched_step.yield) (simp add: schedule_eq n)
  have "single_running demo_sys" by (auto simp: single_running_def demo_sys_def blank_pcb_def split: if_splits)
  with at_most_one_running [OF r_into_rtranclp [of sched_step, OF st]] show ?thesis
    using st by (intro exI [of _ "switched 16 demo_sys"]) (simp add: current_switched)
qed

text \<open>The thread that \<^verbatim>\<open>create_thread\<close> prepares, before it is linked to the list.\<close>

definition fresh_thread :: "u64 \<Rightarrow> u64 \<Rightarrow> u64 \<Rightarrow> u64 \<Rightarrow> pcb \<Rightarrow> pcb" where
  "fresh_thread thread retfun pml4 faddr = (\<lambda>p. p\<lparr>p_kstack := replicate (KSTACKLEN - 2) 0 @ [faddr, retfun],
     p_gotoaddr := faddr, p_next := 0, p_totalslice := 1, p_state := SLEEPING,
     p_rsp := thread + of_nat (8 * (KSTACKLEN - 10)), p_page_table := pml4\<rparr>)"

lemma create_thread_eq:
  assumes "length (p_kstack (pcbs s thread)) = KSTACKLEN"
  shows "create_thread thread retfun pml4 faddr s =
    (let t = upd thread (fresh_thread thread retfun pml4 faddr) s in
     do { y \<leftarrow> last_node t (threadlist s); Some (upd y (\<lambda>p. p\<lparr>p_next := thread\<rparr>) t) })"
proof -
  have "map (\<lambda>_. 0) [0..<KSTACKLEN] = (replicate KSTACKLEN 0 :: u64 list)"
    by (simp add: map_replicate_const)
  then have z: "for_n 0 KSTACKLEN (\<lambda>i st. aput st i 0) (p_kstack (pcbs s thread)) = Some (replicate KSTACKLEN 0)"
    using for_n_fill [of KSTACKLEN "\<lambda>_. 0" "p_kstack (pcbs s thread)"] assms by simp
  have "KSTACKLEN = Suc (Suc (KSTACKLEN - 2))" by (simp add: KSTACKLEN_def)
  then have rep: "replicate KSTACKLEN (0 :: u64) = replicate (KSTACKLEN - 2) 0 @ [0, 0]"
    by (metis replicate_Suc replicate_append_same append_assoc append_Cons append_Nil)
  have stack: "((replicate KSTACKLEN 0)[KSTACKLEN - 1 := retfun])[KSTACKLEN - 2 := faddr]
      = replicate (KSTACKLEN - 2) 0 @ [faddr, retfun]"
    unfolding rep by (simp add: list_update_append KSTACKLEN_def)
  have "KSTACKLEN - 1 < KSTACKLEN" "KSTACKLEN - 2 < KSTACKLEN" by (simp_all add: KSTACKLEN_def)
  then show ?thesis using stack by (simp add: create_thread_def z Let_def fresh_thread_def)
qed

text \<open>\<^verbatim>\<open>create_thread\<close> appends a ready thread to the thread list, whose first switch returns to
  the thread's function and from there to \<^verbatim>\<open>thread_on_completion\<close>.\<close>

theorem create_thread_appends:
  assumes "chain (pnext s) (threadlist s) xs 0" and "xs \<noteq> []" and "thread \<notin> set xs" and "thread \<noteq> 0"
    and "distinct xs" and "length (p_kstack (pcbs s thread)) = KSTACKLEN"
  shows "\<exists>s'. create_thread thread retfun pml4 faddr s = Some s'
     \<and> chain (pnext s') (threadlist s') (xs @ [thread]) 0
     \<and> state_of s' thread = SLEEPING
     \<and> p_kstack (pcbs s' thread) = replicate (KSTACKLEN - 2) 0 @ [faddr, retfun]
     \<and> (\<forall>a \<in> set xs. state_of s' a = state_of s a)"
proof -
  obtain ys y where xs: "xs = ys @ [y]" using assms(2) by (cases xs rule: rev_cases) auto
  let ?t = "upd thread (fresh_thread thread retfun pml4 faddr) s"
  have nt: "pnext ?t = (pnext s)(thread := 0)" by (auto simp: fresh_thread_def)
  have ch: "chain (pnext ?t) (threadlist s) xs 0"
    unfolding nt using assms(1, 3) by simp
  then have "last_node ?t (threadlist s) = Some y" by (intro last_node_chain) (simp add: xs)
  then have r: "create_thread thread retfun pml4 faddr s = Some (upd y (\<lambda>p. p\<lparr>p_next := thread\<rparr>) ?t)"
    by (simp add: create_thread_eq [OF assms(6)])
  have "pnext (upd y (\<lambda>p. p\<lparr>p_next := thread\<rparr>) ?t) = ((pnext s)(thread := 0))(y := thread)"
    by (auto simp: fun_eq_iff fresh_thread_def)
  moreover have "chain (((pnext s)(thread := 0))(y := thread)) (threadlist s) (xs @ [thread]) 0"
    using ch assms(3-5) xs unfolding nt by (auto simp: chain_append)
  ultimately show ?thesis using r assms(3) xs by (auto simp: fresh_thread_def)
qed

theorem create_thread_appends_witness:
  "\<exists>s'. create_thread 32 0x1234 0x1000 0x5678
      (upd 32 (\<lambda>p. p\<lparr>p_kstack := replicate KSTACKLEN 7\<rparr>) demo_sys) = Some s'
     \<and> chain (pnext s') 8 [8, 16, 24, 32] 0"
  using create_thread_appends
    [of "upd 32 (\<lambda>p. p\<lparr>p_kstack := replicate KSTACKLEN 7\<rparr>) demo_sys" "[8, 16, 24]" 32 "0x1234" "0x1000" "0x5678"]
  by (auto simp: demo_sys_def blank_pcb_def)

lemma waitpid_links:
  assumes ch: "chain (pnext s) (threadlist s) xs 0" and me: "currentthread s = me" "p_pid (pcbs s me) \<noteq> 0"
    and child: "\<exists>c \<in> set xs. p_ppid (pcbs s c) = p_pid (pcbs s me) \<and> p_pid (pcbs s c) = pid"
  shows "\<exists>t. (\<forall>a. p_next (pcbs t a) = p_next (pcbs s a) \<and> p_pid (pcbs t a) = p_pid (pcbs s a))
     \<and> threadlist t = threadlist s \<and> currentthread t = me \<and> mainthread t = mainthread s
     \<and> blockedlist t = blockedlist s
     \<and> (\<forall>x u. unlink_loop (p_pid (pcbs s me)) 0 (threadlist s) t = Some (x, u) \<longrightarrow>
          sys_waitpid pid s = map_option (Pair pid) (schedule (upd me (\<lambda>p. p\<lparr>p_state := BLOCKED\<rparr>)
                 ((upd me (\<lambda>p. p\<lparr>p_next := blockedlist u\<rparr>) u)\<lparr>blockedlist := me\<rparr>))))"
proof -
  let ?s1 = "upd me (\<lambda>p. p\<lparr>p_state := SLEEPING\<rparr>) s"
  have e: "pnext ?s1 = pnext s" by auto
  have "chain (pnext ?s1) (threadlist s) xs 0" unfolding e by (rule ch)
  moreover have "\<exists>a\<in>set xs. p_ppid (pcbs ?s1 a) = p_pid (pcbs s me) \<and> p_pid (pcbs s me) \<noteq> 0
      \<and> p_pid (pcbs ?s1 a) = pid"
    using child me(2) by auto
  ultimately have "\<exists>t. mark_child (p_pid (pcbs s me)) pid (threadlist s) (False, ?s1) = Some (True, t)
    \<and> (\<forall>a. p_next (pcbs t a) = p_next (pcbs ?s1 a) \<and> p_pid (pcbs t a) = p_pid (pcbs ?s1 a))
    \<and> threadlist t = threadlist ?s1 \<and> currentthread t = currentthread ?s1
    \<and> mainthread t = mainthread ?s1 \<and> blockedlist t = blockedlist ?s1"
    by (rule mark_child_hit)
  moreover have "\<forall>a. p_next (pcbs ?s1 a) = p_next (pcbs s a) \<and> p_pid (pcbs ?s1 a) = p_pid (pcbs s a)"
    by simp
  moreover have "threadlist ?s1 = threadlist s" "currentthread ?s1 = me"
    "mainthread ?s1 = mainthread s" "blockedlist ?s1 = blockedlist s" using me(1) by simp_all
  ultimately obtain t where
    t: "mark_child (p_pid (pcbs s me)) pid (threadlist s) (False, ?s1) = Some (True, t)"
    "\<And>a. p_next (pcbs t a) = p_next (pcbs s a)" "\<And>a. p_pid (pcbs t a) = p_pid (pcbs s a)"
    "threadlist t = threadlist s" "currentthread t = me" "mainthread t = mainthread s"
    "blockedlist t = blockedlist s" by metis
  have up: "upd a f (s\<lparr>blockedlist := b\<rparr>) = (upd a f s)\<lparr>blockedlist := b\<rparr>" for a f s b
    by (simp add: upd_def)
  have w: "sys_waitpid pid s = map_option (Pair pid) (schedule (upd me (\<lambda>p. p\<lparr>p_state := BLOCKED\<rparr>)
      ((upd me (\<lambda>p. p\<lparr>p_next := blockedlist u\<rparr>) u)\<lparr>blockedlist := me\<rparr>)))"
    if "unlink_loop (p_pid (pcbs s me)) 0 (threadlist s) t = Some (x, u)" for x u
  proof (cases "blockedlist u = 0")
    case True
    with that t me show ?thesis
      by (simp add: sys_waitpid_def Let_def up map_option_case) (auto split: option.splits)
  next
    case False
    with that t me show ?thesis
      by (simp add: sys_waitpid_def Let_def up map_option_case) (auto split: option.splits)
  qed
  show ?thesis using t w by blast
qed

text \<open>\<^verbatim>\<open>sys_waitpid\<close> for a child in the thread list moves the calling process, when it is not
  the head of that list, from the thread list to the front of the blocked list, and switches away.\<close>

theorem waitpid_blocks_parent:
  assumes "chain (pnext s) (threadlist s) (ys @ b # me # zs) 0" and "distinct (ys @ b # me # zs)"
    and "chain (pnext s) (blockedlist s) bs 0" and "set bs \<inter> set (ys @ b # me # zs) = {}"
    and "currentthread s = me" and "p_pid (pcbs s me) \<noteq> 0"
    and "\<And>a. a \<in> set (ys @ [b]) \<Longrightarrow> p_pid (pcbs s a) \<noteq> p_pid (pcbs s me)"
    and "\<exists>c \<in> set (ys @ b # me # zs). p_ppid (pcbs s c) = p_pid (pcbs s me) \<and> p_pid (pcbs s c) = pid"
  shows "\<exists>s'. sys_waitpid pid s = Some (pid, s') \<and> chain (pnext s') (threadlist s') (ys @ b # zs) 0
     \<and> chain (pnext s') (blockedlist s') (me # bs) 0"
proof -
  from waitpid_links [OF assms(1, 5, 6, 8)] obtain t where
    t: "\<And>a. p_next (pcbs t a) = p_next (pcbs s a)" "\<And>a. p_pid (pcbs t a) = p_pid (pcbs s a)"
    "threadlist t = threadlist s" "currentthread t = me" "blockedlist t = blockedlist s"
    and w: "\<And>x u. unlink_loop (p_pid (pcbs s me)) 0 (threadlist s) t = Some (x, u) \<Longrightarrow>
          sys_waitpid pid s = map_option (Pair pid) (schedule (upd me (\<lambda>p. p\<lparr>p_state := BLOCKED\<rparr>)
                 ((upd me (\<lambda>p. p\<lparr>p_next := blockedlist u\<rparr>) u)\<lparr>blockedlist := me\<rparr>)))"
    by blast
  have nt: "pnext t = pnext s" using t(1) by auto
  let ?u = "upd b (\<lambda>q. q\<lparr>p_next := p_next (pcbs t me)\<rparr>) t"
  have u: "unlink_loop (p_pid (pcbs s me)) 0 (threadlist s) t = Some (me, ?u)"
    and chu: "chain (pnext ?u) (threadlist s) (ys @ b # zs) 0"
    using unlink_loop_inner [of t "threadlist s" ys b me zs "p_pid (pcbs s me)"] assms(1, 2, 7)
    unfolding nt t(2) by blast+
  let ?v = "upd me (\<lambda>p. p\<lparr>p_state := BLOCKED\<rparr>)
     ((upd me (\<lambda>p. p\<lparr>p_next := blockedlist ?u\<rparr>) ?u)\<lparr>blockedlist := me\<rparr>)"
  have nv: "pnext ?v = (pnext ?u)(me := blockedlist s)" using t(5) by auto
  have nu: "pnext ?u = (pnext s)(b := p_next (pcbs s me))" using t(1) by auto
  have cv: "chain (pnext ?v) (threadlist s) (ys @ b # zs) 0"
  proof -
    have "me \<notin> set (ys @ b # zs)" using assms(2) by auto
    from chain_upd [OF this, of "pnext ?u"] show ?thesis unfolding nv using chu by (simp only:)
  qed
  have "me \<noteq> 0" using chain_nonnull [OF assms(1)] by simp
  then have bv: "chain (pnext ?v) me (me # bs) 0"
    unfolding nv nu using assms(3, 4) by auto
  have fv: "threadlist ?v = threadlist s" "blockedlist ?v = me" "currentthread ?v = me"
    "state_of ?v me = BLOCKED"
    using t by simp_all
  from schedule_blocked [of ?v "ys @ b # zs"] cv fv
  have "schedule ?v = Some (switched (hd0 (ready ?v (ys @ b # zs))) ?v)" by simp
  then have "sys_waitpid pid s = Some (pid, switched (hd0 (ready ?v (ys @ b # zs))) ?v)"
    using w [OF u] by simp
  moreover have "pnext (switched nx ?v) = pnext ?v" for nx by (rule ext) (rule switched_simps)
  ultimately show ?thesis using cv bv fv
    by (intro exI [of _ "switched (hd0 (ready ?v (ys @ b # zs))) ?v"])
      (simp only: switched_simps simp_thms)
qed

text \<open>A parent at 16 with its child at 24.\<close>

definition demo_family :: sys where
  "demo_family = \<lparr>pcbs = (\<lambda>_. blank_pcb)
      (8 := blank_pcb\<lparr>p_state := ZOMBIE, p_next := 16\<rparr>,
       16 := blank_pcb\<lparr>p_state := RUNNING, p_next := 24, p_pid := 1\<rparr>,
       24 := blank_pcb\<lparr>p_state := SLEEPING, p_pid := 2, p_ppid := 1\<rparr>),
     threadlist = 8, currentthread = 16, mainthread = 8, blockedlist = 0, processcount = 2\<rparr>"

theorem waitpid_blocks_parent_witness:
  "\<exists>s'. sys_waitpid 2 demo_family = Some (2, s') \<and> chain (pnext s') (threadlist s') [8, 24] 0
     \<and> chain (pnext s') (blockedlist s') [16] 0"
  using waitpid_blocks_parent [of demo_family "[]" 8 16 "[24]" "[]" 2]
  by (simp add: demo_family_def blank_pcb_def)

text \<open>when the caller is the head of the thread list, \<^verbatim>\<open>sys_waitpid\<close> overwrites its
  successor without moving the head: every other thread drops out of the thread list.\<close>

theorem waitpid_at_head_loses_threads:
  assumes "chain (pnext s) (threadlist s) (me # zs) 0" and "blockedlist s = 0"
    and "currentthread s = me" and "p_pid (pcbs s me) \<noteq> 0"
    and "\<exists>c \<in> set (me # zs). p_ppid (pcbs s c) = p_pid (pcbs s me) \<and> p_pid (pcbs s c) = pid"
  shows "\<exists>s'. sys_waitpid pid s = Some (pid, s') \<and> chain (pnext s') (threadlist s') [me] 0"
proof -
  from waitpid_links [OF assms(1, 3, 4, 5)] obtain t where
    t: "\<And>a. p_next (pcbs t a) = p_next (pcbs s a)" "\<And>a. p_pid (pcbs t a) = p_pid (pcbs s a)"
    "threadlist t = threadlist s" "currentthread t = me" "blockedlist t = blockedlist s"
    and w: "\<And>x u. unlink_loop (p_pid (pcbs s me)) 0 (threadlist s) t = Some (x, u) \<Longrightarrow>
          sys_waitpid pid s = map_option (Pair pid) (schedule (upd me (\<lambda>p. p\<lparr>p_state := BLOCKED\<rparr>)
                 ((upd me (\<lambda>p. p\<lparr>p_next := blockedlist u\<rparr>) u)\<lparr>blockedlist := me\<rparr>)))"
    by blast
  have hd: "threadlist s = me" "me \<noteq> 0" using assms(1) by auto
  then have u: "unlink_loop (p_pid (pcbs s me)) 0 (threadlist s) t = Some (me, t)"
    using t by (simp add: unlink_loop.simps)
  let ?v = "upd me (\<lambda>p. p\<lparr>p_state := BLOCKED\<rparr>)
     ((upd me (\<lambda>p. p\<lparr>p_next := blockedlist t\<rparr>) t)\<lparr>blockedlist := me\<rparr>)"
  have cv: "chain (pnext ?v) (threadlist ?v) [me] 0" using hd t assms(2) by simp
  have "currentthread ?v = me" "state_of ?v me = BLOCKED" using t by simp_all
  with schedule_blocked [OF cv]
  have "schedule ?v = Some (switched (hd0 (ready ?v [me])) ?v)" by simp
  then have "sys_waitpid pid s = Some (pid, switched (hd0 (ready ?v [me])) ?v)"
    using w [OF u] by simp
  moreover have "pnext (switched nx ?v) = pnext ?v" for nx by (rule ext) (rule switched_simps)
  ultimately show ?thesis using cv
    by (intro exI [of _ "switched (hd0 (ready ?v [me])) ?v"]) (simp only: switched_simps simp_thms)
qed

theorem waitpid_at_head_loses_threads_witness:
  "\<exists>s'. sys_waitpid 2 (demo_family\<lparr>threadlist := 16\<rparr>) = Some (2, s')
     \<and> chain (pnext s') (threadlist s') [16] 0"
  using waitpid_at_head_loses_threads [of "demo_family\<lparr>threadlist := 16\<rparr>" 16 "[24]" 2]
  by (simp add: demo_family_def blank_pcb_def)

lemma same_but_slice_trans: "same_but_slice s t \<Longrightarrow> same_but_slice t u \<Longrightarrow> same_but_slice s u"
proof -
  assume st: "same_but_slice s t" and tu: "same_but_slice t u"
  have "\<exists>n. pcbs u a = (pcbs s a)\<lparr>p_totalslice := n\<rparr>" for a
  proof -
    obtain n m where "pcbs t a = (pcbs s a)\<lparr>p_totalslice := n\<rparr>" "pcbs u a = (pcbs t a)\<lparr>p_totalslice := m\<rparr>"
      using st tu unfolding same_but_slice_def by blast
    then show ?thesis by (intro exI [of _ m]) simp
  qed
  with st tu show ?thesis by (simp add: same_but_slice_def)
qed

text \<open>The loops of \<^verbatim>\<open>thread_on_completion\<close> up to the search for a sibling, when the process \<open>c\<close> ends.\<close>

lemma completion_slices:
  assumes ts: "chain (pnext s) (threadlist s) (ys @ c # zs) 0" "distinct (ys @ c # zs)" "ys \<noteq> []"
    and bl: "chain (pnext s) (blockedlist s) (p # bs) 0" "distinct (p # bs)" "p \<notin> set (ys @ c # zs)"
    and run: "currentthread s = c" "state_of s c = RUNNING" "\<And>a. a \<in> set ys \<Longrightarrow> state_of s a \<noteq> RUNNING"
    and pp: "p_ppid (pcbs s c) = p_pid (pcbs s p)" "p_pid (pcbs s c) \<noteq> p_pid (pcbs s p)"
  defines "s1 \<equiv> upd c (\<lambda>q. q\<lparr>p_state := ZOMBIE\<rparr>) s"
  obtains s2 s3 where "zombie_loop (threadlist s) 0 s = Some (c, p_next (pcbs s c), s1)"
    "give_slice (threadlist s1) s1 = Some s2" "give_slice (blockedlist s2) s2 = Some s3" "same_but_slice s1 s3"
    "p_totalslice (pcbs s3 p) = p_totalslice (pcbs s p) + p_totalslice (pcbs s c)"
proof -
  have z: "zombie_loop (threadlist s) 0 s = Some (c, p_next (pcbs s c), s1)"
    unfolding s1_def by (rule zombie_loop_chain [OF ts(1)]) (use run(2,3) ts(3) in auto)
  have n1: "pnext s1 = pnext s" and f1: "p_pid (pcbs s1 a) = p_pid (pcbs s a)" "p_ppid (pcbs s1 a) = p_ppid (pcbs s a)"
    "p_totalslice (pcbs s1 a) = p_totalslice (pcbs s a)" "threadlist s1 = threadlist s" "blockedlist s1 = blockedlist s"
    "currentthread s1 = c" for a
    using run(1) by (auto simp: s1_def)
  from give_slice_chain [of s1 "threadlist s" "ys @ c # zs"] pp(2) ts(1,2) obtain s2 where
    s2: "give_slice (threadlist s) s1 = Some s2" "same_but_slice s1 s2"
    "\<And>a. p_totalslice (pcbs s2 a) = p_totalslice (pcbs s a)
       + (if a \<in> set (ys @ c # zs) \<and> p_pid (pcbs s a) = p_pid (pcbs s p) then p_totalslice (pcbs s c) else 0)"
    unfolding n1 f1 pp(1) by blast
  note g2 = same_but_slice_simps [OF s2(2), unfolded f1]
  have n2: "pnext s2 = pnext s" using g2(5) n1 by auto
  have "p_totalslice (pcbs s2 p) = p_totalslice (pcbs s p)" "p_totalslice (pcbs s2 c) = p_totalslice (pcbs s c)"
    using s2(3) bl(3) pp(2) by auto
  moreover have pre3: "chain (pnext s2) (blockedlist s) (p # bs) 0" "distinct (p # bs)"
    "p_pid (pcbs s2 (currentthread s2)) \<noteq> p_ppid (pcbs s2 (currentthread s2))"
    unfolding n2 g2(2) g2(6) g2(7) pp(1) using bl(1,2) pp(2) by simp_all
  ultimately obtain s3 where s3: "give_slice (blockedlist s) s2 = Some s3" "same_but_slice s2 s3"
    "p_totalslice (pcbs s3 p) = p_totalslice (pcbs s p) + p_totalslice (pcbs s c)"
    using give_slice_chain [OF pre3] unfolding g2(2) g2(6) g2(7) pp(1) by auto
  have "give_slice (threadlist s1) s1 = Some s2" "give_slice (blockedlist s2) s2 = Some s3"
    using s2(1) s3(1) g2(3) f1(4) by simp_all
  from that [OF z this same_but_slice_trans [OF s2(2) s3(2)] s3(3)] show ?thesis .
qed

text \<open>The node behind which the parent of \<open>c\<close> comes back, if it is woken: \<open>c\<close> itself, or the first living sibling in the
  thread list \<open>xs\<close>, as long as the parent does not wait for that one too.\<close>

definition wakes_behind :: "sys \<Rightarrow> u64 \<Rightarrow> u64 list \<Rightarrow> u64 option" where
  "wakes_behind s c xs =
     (if p_is_wait (pcbs s c) \<noteq> 1 then None
      else case filter (\<lambda>a. state_of s a \<noteq> ZOMBIE \<and> a \<noteq> c \<and> p_ppid (pcbs s a) = p_ppid (pcbs s c)) xs of
             [] \<Rightarrow> Some c
           | b # _ \<Rightarrow> if p_is_wait (pcbs s b) = 1 then None else Some b)"

text \<open>C38: A process that ends, with another thread in front of it in the thread list, while its parent is at the front of the
  blocked list and no other thread has the parent's number: it becomes a zombie, and its time slice is added to the
  parent's.  When the parent waits for it and no sibling is alive, the parent moves from the blocked list into the
  thread list right behind it.  When a sibling is alive that the parent does not wait for, the parent moves behind the
  first such sibling instead; when the first living sibling is waited for, or the process itself is not, nobody moves.\<close>

theorem completion_wakes_parent:
  assumes "chain (pnext s) (threadlist s) (ys @ c # zs) 0" and "distinct (ys @ c # zs)"
    and "chain (pnext s) (blockedlist s) (p # bs) 0" and "distinct (p # bs)"
    and "set (p # bs) \<inter> set (ys @ c # zs) = {}" and "ys \<noteq> []"
    and "currentthread s = c" and "state_of s c = RUNNING"
    and "\<And>a. a \<in> set ys \<Longrightarrow> state_of s a \<noteq> RUNNING"
    and "p_ppid (pcbs s c) = p_pid (pcbs s p)" and "0 < p_pid (pcbs s p)"
    and "\<And>a. a \<in> set (ys @ c # zs @ bs) \<Longrightarrow> p_pid (pcbs s a) \<noteq> p_pid (pcbs s p)"
  shows "\<exists>s'. thread_on_completion s = Some s' \<and> state_of s' c = ZOMBIE
     \<and> p_totalslice (pcbs s' p) = p_totalslice (pcbs s p) + p_totalslice (pcbs s c)
     \<and> (case wakes_behind s c (ys @ c # zs) of
          None \<Rightarrow> chain (pnext s') (threadlist s') (ys @ c # zs) 0 \<and> chain (pnext s') (blockedlist s') (p # bs) 0
        | Some b \<Rightarrow> \<exists>us vs. ys @ c # zs = us @ b # vs
            \<and> chain (pnext s') (threadlist s') (us @ b # p # vs) 0 \<and> chain (pnext s') (blockedlist s') bs 0)"
proof -
  let ?s1 = "upd c (\<lambda>q. q\<lparr>p_state := ZOMBIE\<rparr>) s" and ?n = "p_next (pcbs s c)"
  let ?xs = "ys @ c # zs"
  have out: "p \<notin> set ?xs" "p_pid (pcbs s c) \<noteq> p_pid (pcbs s p)" using assms(5,12) by auto
  obtain s2 s3 where z: "zombie_loop (threadlist s) 0 s = Some (c, ?n, ?s1)"
    and a: "give_slice (threadlist ?s1) ?s1 = Some s2" "give_slice (blockedlist s2) s2 = Some s3"
    and s3: "same_but_slice ?s1 s3" "p_totalslice (pcbs s3 p) = p_totalslice (pcbs s p) + p_totalslice (pcbs s c)"
    using completion_slices [OF assms(1,2,6,3,4) out(1) assms(7-10) out(2)] by blast
  note g3 = same_but_slice_simps [OF s3(1)]
  have f3: "threadlist s3 = threadlist s" "blockedlist s3 = blockedlist s" "pnext s3 = pnext s"
    "p_ppid (pcbs s3 a) = p_ppid (pcbs s a)" "p_pid (pcbs s3 a) = p_pid (pcbs s a)" "p_is_wait (pcbs s3 a) = p_is_wait (pcbs s a)"
    "state_of s3 a = (if a = c then ZOMBIE else state_of s a)" for a
    using g3 by auto
  let ?sibs = "filter (\<lambda>a. state_of s a \<noteq> ZOMBIE \<and> a \<noteq> c \<and> p_ppid (pcbs s a) = p_ppid (pcbs s c)) ?xs"
  have "(\<lambda>a. state_of s3 a \<noteq> ZOMBIE \<and> c \<noteq> a \<and> p_ppid (pcbs s3 c) = p_ppid (pcbs s3 a))
      = (\<lambda>a. state_of s a \<noteq> ZOMBIE \<and> a \<noteq> c \<and> p_ppid (pcbs s a) = p_ppid (pcbs s c))" unfolding f3 by auto
  moreover have "chain (pnext s3) (threadlist s3) ?xs 0" unfolding f3 by (rule assms(1))
  ultimately have sib: "find_node (\<lambda>a. state_of s3 a \<noteq> ZOMBIE \<and> c \<noteq> a \<and> p_ppid (pcbs s3 c) = p_ppid (pcbs s3 a))
      s3 (threadlist s3) = Some (hd0 ?sibs)" by (simp only: find_node_chain)
  have bp: "blockedlist s = p" "p \<noteq> 0" "c \<noteq> 0" "p_next (pcbs s p) = hd0 bs"
    using assms(1, 3) by (auto simp: chain_append hd0_def split: list.splits)
  let ?wait = "p_is_wait (pcbs s c) = 1"
  define b0 where "b0 = hd0 ?sibs"
  have cond: "(c \<noteq> 0 \<and> 0 < p_ppid (pcbs s3 c) \<and> p_is_wait (pcbs s3 c) = 1) = ?wait"
    using assms(10,11) bp by (simp add: f3)
  have "thread_on_completion s =
     (if ?wait then if b0 = 0 then wake_parent (p_ppid (pcbs s3 c)) c ?n (blockedlist s) s3
                    else if p_is_wait (pcbs s3 b0) \<noteq> 1
                    then wake_parent (p_ppid (pcbs s3 b0)) b0 (p_next (pcbs s3 b0)) (blockedlist s) s3 else Some s3
      else Some s3)"
    by (simp only: thread_on_completion_def Let_def z Option.bind.simps prod.case a cond sib [folded b0_def])
  then have run: "thread_on_completion s =
     (if ?wait then if b0 = 0 then wake_parent (p_pid (pcbs s p)) c ?n p s3
                    else if p_is_wait (pcbs s b0) \<noteq> 1
                    then wake_parent (p_ppid (pcbs s b0)) b0 (p_next (pcbs s b0)) p s3 else Some s3
      else Some s3)"
    unfolding f3(4,6) assms(10) bp(1) using fun_cong [OF f3(3), of b0] by (simp only:)
  have woken: "\<exists>s'. wake_parent (p_pid (pcbs s p)) b (p_next (pcbs s b)) p s3 = Some s' \<and> state_of s' c = ZOMBIE
      \<and> p_totalslice (pcbs s' p) = p_totalslice (pcbs s p) + p_totalslice (pcbs s c)
      \<and> chain (pnext s') (threadlist s') (us @ b # p # vs) 0 \<and> chain (pnext s') (blockedlist s') bs 0"
    if b: "?xs = us @ b # vs" for b us vs
  proof -
    let ?s4 = "upd p (\<lambda>q. q\<lparr>p_next := p_next (pcbs s b)\<rparr>) (upd b (\<lambda>q. q\<lparr>p_next := p\<rparr>) (s3\<lparr>blockedlist := p_next (pcbs s3 p)\<rparr>))"
    have "b \<in> set ?xs" unfolding b by simp
    then have pb: "p \<noteq> b" using out(1) by auto
    have "wake_parent (p_pid (pcbs s p)) b (p_next (pcbs s b)) p s3 = Some ?s4"
      using bp by (simp add: wake_parent.simps f3 Let_def)
    moreover have n4: "pnext ?s4 = ((pnext s)(b := p))(p := p_next (pcbs s b))" "threadlist ?s4 = threadlist s"
      "blockedlist ?s4 = p_next (pcbs s p)"
      using f3(1) fun_cong [OF f3(3)] by (auto simp: fun_eq_iff)
    have "p \<notin> set (us @ b # vs)" "distinct (us @ b # vs)" "chain (pnext s) (threadlist s) (us @ b # vs) 0"
      using out(1) assms(1,2) unfolding b by simp_all
    then have "chain (pnext ?s4) (threadlist ?s4) (us @ b # p # vs) 0"
      unfolding n4 using bp pb by (auto simp: chain_append)
    moreover have "b \<notin> set bs" using \<open>b \<in> set ?xs\<close> assms(5) by auto
    then have "chain (pnext ?s4) (blockedlist ?s4) bs 0" unfolding n4 using assms(3,4) bp by auto
    moreover have "state_of ?s4 c = ZOMBIE" using f3(7) [of c] by auto
    moreover have "p_totalslice (pcbs ?s4 p) = p_totalslice (pcbs s p) + p_totalslice (pcbs s c)" using s3(2) pb by auto
    ultimately show ?thesis by blast
  qed
  have still: "state_of s3 c = ZOMBIE" "chain (pnext s3) (threadlist s3) ?xs 0" "chain (pnext s3) (blockedlist s3) (p # bs) 0"
    using f3(7) [of c] assms(1,3) unfolding f3(1-3) by simp_all
  show ?thesis
  proof (cases ?wait)
    case False
    then show ?thesis using run still s3(2) by (simp add: wakes_behind_def)
  next
    case True
    show ?thesis
    proof (cases ?sibs)
      case Nil
      then have "b0 = 0" "wakes_behind s c ?xs = Some c" using True by (simp_all add: b0_def wakes_behind_def)
      then show ?thesis using run True woken [OF refl] by auto
    next
      case (Cons b bs')
      then have "b \<in> set ?sibs" by simp
      then have b: "b \<in> set ?xs" "p_ppid (pcbs s b) = p_pid (pcbs s p)" using assms(10) by auto
      obtain us vs where uv: "?xs = us @ b # vs" using split_list [OF b(1)] by blast
      have nz: "b \<noteq> 0" using chain_nonnull [OF assms(1) b(1)] .
      have b0: "b0 = b" "wakes_behind s c ?xs = (if p_is_wait (pcbs s b) = 1 then None else Some b)"
        using True Cons by (simp_all only: b0_def wakes_behind_def hd0_simps list.case if_False not_not simp_thms)
      show ?thesis
      proof (cases "p_is_wait (pcbs s b) = 1")
        case True
        then show ?thesis using run b0 nz still s3(2) by simp
      next
        case False
        then show ?thesis using run \<open>?wait\<close> b0 nz woken [OF uv] uv b(2) by auto
      qed
    qed
  qed
qed

text \<open>The family with the parent at 16 blocked and the child at 24 running.\<close>

definition demo_waiting :: sys where
  "demo_waiting = \<lparr>pcbs = (\<lambda>_. blank_pcb)
      (8 := blank_pcb\<lparr>p_state := ZOMBIE, p_next := 24\<rparr>,
       16 := blank_pcb\<lparr>p_state := SLEEPING, p_pid := 1, p_totalslice := 4\<rparr>,
       24 := blank_pcb\<lparr>p_state := RUNNING, p_pid := 2, p_ppid := 1, p_is_wait := 1, p_totalslice := 4\<rparr>),
     threadlist = 8, currentthread = 24, mainthread = 8, blockedlist = 16, processcount = 2\<rparr>"

theorem completion_wakes_parent_witness:
  "\<exists>s'. thread_on_completion demo_waiting = Some s' \<and> chain (pnext s') (threadlist s') [8, 24, 16] 0
     \<and> p_totalslice (pcbs s' 16) = 8"
proof -
  have w: "wakes_behind demo_waiting 24 ([8] @ [24]) = Some 24"
    by (simp add: wakes_behind_def demo_waiting_def blank_pcb_def)
  have l: "[8, 24] = us @ 24 # vs \<longleftrightarrow> us = [8] \<and> vs = []" for us vs :: "u64 list"
    by (auto simp: Cons_eq_append_conv)
  have n: "p_totalslice (pcbs demo_waiting 16) + p_totalslice (pcbs demo_waiting 24) = 8"
    by (simp add: demo_waiting_def blank_pcb_def)
  have h: "chain (pnext demo_waiting) (threadlist demo_waiting) ([8] @ [24]) 0"
    "chain (pnext demo_waiting) (blockedlist demo_waiting) [16] 0" "currentthread demo_waiting = 24"
    "state_of demo_waiting 24 = RUNNING" "state_of demo_waiting 8 \<noteq> RUNNING"
    "p_ppid (pcbs demo_waiting 24) = p_pid (pcbs demo_waiting 16)" "0 < p_pid (pcbs demo_waiting 16)"
    "\<And>a. a \<in> set ([8] @ [24] @ []) \<Longrightarrow> p_pid (pcbs demo_waiting a) \<noteq> p_pid (pcbs demo_waiting 16)"
    by (auto simp: demo_waiting_def blank_pcb_def)
  show ?thesis
    using completion_wakes_parent [OF h(1) _ h(2) _ _ _ h(3,4) _ h(6,7)] h(5,8) unfolding w n by (simp add: l) blast
qed

text \<open>When the waiting parent is not at the front of the blocked list, waking it drops
  every process in front of it from the blocked list.\<close>

theorem waking_drops_other_waiters:
  assumes "chain (pnext s) (blockedlist s) (ys @ p # bs) 0" and "distinct (ys @ p # bs)"
    and "anchor \<notin> set (ys @ p # bs)" and "p_pid (pcbs s p) = ppid"
    and "\<And>a. a \<in> set ys \<Longrightarrow> p_pid (pcbs s a) \<noteq> ppid"
  shows "\<exists>s'. wake_parent ppid anchor nx (blockedlist s) s = Some s'
     \<and> chain (pnext s') (blockedlist s') bs 0 \<and> pnext s' anchor = p \<and> pnext s' p = nx"
proof -
  have skip: "wake_parent ppid anchor nx q s = wake_parent ppid anchor nx p s"
    if "chain (pnext s) q (zs @ p # bs) 0" "\<And>a. a \<in> set zs \<Longrightarrow> p_pid (pcbs s a) \<noteq> ppid" for q zs
    using that
  proof (induction zs arbitrary: q)
    case (Cons z zs)
    then show ?case by (simp add: wake_parent.simps [of _ _ _ z])
  qed simp
  let ?s = "upd p (\<lambda>q. q\<lparr>p_next := nx\<rparr>) (upd anchor (\<lambda>q. q\<lparr>p_next := p\<rparr>)
     (s\<lparr>blockedlist := p_next (pcbs s p)\<rparr>))"
  have p0: "p \<noteq> 0" using chain_nonnull [OF assms(1)] by simp
  then have "wake_parent ppid anchor nx (blockedlist s) s = Some ?s"
    using skip [OF assms(1, 5)] assms(4) by (simp add: wake_parent.simps [of _ _ _ p] Let_def)
  moreover have nx: "pnext ?s = ((pnext s)(anchor := p))(p := nx)" by (auto simp: fun_eq_iff)
  moreover have "chain (((pnext s)(anchor := p))(p := nx)) (p_next (pcbs s p)) bs 0"
    using assms(1-3) by (auto simp: chain_append)
  moreover have "blockedlist ?s = p_next (pcbs s p)" by simp
  ultimately show ?thesis using assms(3) by (intro exI [of _ ?s]) auto
qed

theorem waking_drops_other_waiters_witness:
  "\<exists>s'. wake_parent 1 24 0 40 (upd 40 (\<lambda>p. p\<lparr>p_pid := 7, p_next := 16\<rparr>) (demo_waiting\<lparr>blockedlist := 40\<rparr>))
       = Some s' \<and> blockedlist s' = 0"
  using waking_drops_other_waiters
    [of "upd 40 (\<lambda>p. p\<lparr>p_pid := 7, p_next := 16\<rparr>) (demo_waiting\<lparr>blockedlist := 40\<rparr>)" "[40]" 16 "[]" 24 1 0]
  by (auto simp: demo_waiting_def blank_pcb_def)

end
