(* ===== verification/Umalloc.thy ===== *)
theory Umalloc
  imports Kernel_Prelude
begin

text \<open>
  The user heap of \<^verbatim>\<open>sys/process.c\<close>: \<^verbatim>\<open>do_malloc\<close> and \<^verbatim>\<open>do_free\<close> on a list of blocks that
  start with a \<^verbatim>\<open>malloc_header\<close> of 16 bytes.  The headers are a map from addresses; an access
  through the null pointer is \<^const>\<open>None\<close>.
\<close>

section \<open>State\<close>

record malloc_header =
  mh_next :: u64
  mh_size :: u64

record uheap =
  hdr :: "u64 \<Rightarrow> malloc_header"
  freelist :: u64

definition put_size :: "u64 \<Rightarrow> u64 \<Rightarrow> uheap \<Rightarrow> uheap" where
  "put_size a n s = s\<lparr>hdr := (hdr s)(a := (hdr s a)\<lparr>mh_size := n\<rparr>)\<rparr>"

definition put_next :: "u64 \<Rightarrow> u64 \<Rightarrow> uheap \<Rightarrow> uheap" where
  "put_next a n s = s\<lparr>hdr := (hdr s)(a := (hdr s a)\<lparr>mh_next := n\<rparr>)\<rparr>"

abbreviation mnext :: "uheap \<Rightarrow> u64 \<Rightarrow> u64" where
  "mnext s \<equiv> (\<lambda>a. mh_next (hdr s a))"

abbreviation msize :: "uheap \<Rightarrow> u64 \<Rightarrow> u64" where
  "msize s \<equiv> (\<lambda>a. mh_size (hdr s a))"

text \<open>The heap that \<^verbatim>\<open>createheap\<close> sets up: one block, in the first page.\<close>

definition init_freelist :: "u64 \<Rightarrow> uheap \<Rightarrow> uheap" where
  "init_freelist vma_start s =
     (if freelist s = 0
      then put_next vma_start 0 (put_size vma_start ((4096 + 16 - 1) div 16 - 1)
             (s\<lparr>freelist := vma_start\<rparr>))
      else s)"

section \<open>Operations\<close>

definition num_units :: "u64 \<Rightarrow> u64" where
  "num_units sz = (sz + 16 - 1) div 16 + 1"

partial_function (option) malloc_loop :: "u64 \<Rightarrow> u64 \<Rightarrow> u64 \<Rightarrow> uheap \<Rightarrow> (u64 \<times> uheap) option" where
  "malloc_loop n prev current s =
     (if current = 0 then None
      else if n \<le> msize s current
      then (if msize s current = n
            then Some (current + 16, (put_next prev (mnext s current) s)\<lparr>freelist := prev\<rparr>)
            else let s = put_size current (msize s current - n) s;
                     block = current + 16 * msize s current;
                     s = put_size block n s
                 in Some (block + 16, s\<lparr>freelist := prev\<rparr>))
      else malloc_loop n current (mnext s current) s)"

definition do_malloc :: "u64 \<Rightarrow> uheap \<Rightarrow> (u64 \<times> uheap) option" where
  "do_malloc sz s = malloc_loop (num_units sz) (freelist s) (freelist s) s"

text \<open>The body of the loop of \<^verbatim>\<open>do_free\<close>: \<^const>\<open>None\<close> goes on, \<^const>\<open>Some\<close> breaks.\<close>

definition free_at :: "u64 \<Rightarrow> u64 \<Rightarrow> uheap \<Rightarrow> uheap option" where
  "free_at block current s =
     (if current < block \<and> mnext s current = 0
      then Some (if current + 16 * msize s current = block
                 then put_size current (msize s current + msize s block) s
                 else put_next block 0 (put_next current block s))
      else if block < current \<and> mnext s current = 0
      then Some (if block + 16 * msize s block = current
                 then put_next block 0 (put_size block (msize s block + msize s current) s)
                 else put_next block current s)
      else if current < block \<and> block < mnext s current
      then Some (let s = (if block + 16 * msize s block = mnext s current
                          then let nx = mnext s current;
                                   s = put_size block (msize s block + msize s nx) s
                               in put_next block (mnext s nx) s
                          else put_next block (mnext s current) s)
                 in if current + 16 * msize s current = block
                    then put_size current (msize s current + msize s block) s
                    else put_next current block s)
      else None)"

partial_function (option) free_loop :: "u64 \<Rightarrow> u64 \<Rightarrow> uheap \<Rightarrow> uheap option" where
  "free_loop block current s =
     (if current = 0 then Some s
      else case free_at block current s of
             Some s' \<Rightarrow> Some s'
           | None \<Rightarrow> free_loop block (mnext s current) s)"

definition do_free :: "u64 \<Rightarrow> uheap \<Rightarrow> uheap option" where
  "do_free ptr s =
     (let block = ptr - 16 in
      if freelist s = 0 then Some (s\<lparr>freelist := block\<rparr>)
      else free_loop block (freelist s) s)"

declare malloc_loop.simps [simp del] free_loop.simps [simp del]

section \<open>Blocks\<close>

lemma put_fields [simp]:
  "mnext (put_size a n s) b = mnext s b"
  "msize (put_next a n s) b = msize s b"
  "msize (put_size a n s) b = (if b = a then n else msize s b)"
  "mnext (put_next a n s) b = (if b = a then n else mnext s b)"
  "freelist (put_size a n s) = freelist s" "freelist (put_next a n s) = freelist s"
  by (simp_all add: put_size_def put_next_def)

text \<open>The free list as the blocks reachable from \<^verbatim>\<open>freelist\<close>.\<close>

definition free_blocks :: "uheap \<Rightarrow> u64 list \<Rightarrow> bool" where
  "free_blocks s bs \<longleftrightarrow> chain (mnext s) (freelist s) bs 0 \<and> distinct bs"

text \<open>The bytes from the header of a block to its end.\<close>

definition extent :: "u64 \<Rightarrow> u64 \<Rightarrow> nat set" where
  "extent a n = {unat a ..< unat a + 16 * unat n}"

text \<open>A block that does not wrap around the end of the address space.\<close>

definition fits :: "u64 \<Rightarrow> u64 \<Rightarrow> bool" where
  "fits a n \<longleftrightarrow> unat a + 16 * unat n < 2 ^ 64"

lemma unat_add_units:
  fixes a n :: u64
  assumes "unat a + 16 * unat n < 2 ^ 64"
  shows "unat (a + 16 * n) = unat a + 16 * unat n"
  using unat_add_mult64 [of a 16 "unat n"] assms by simp

section \<open>The search\<close>

definition last_or :: "u64 list \<Rightarrow> u64 \<Rightarrow> u64" where
  "last_or pre d = (if pre = [] then d else last pre)"

text \<open>The search skips the blocks that are too small and remembers the last one it skipped.\<close>

lemma malloc_loop_skip:
  assumes "chain (mnext s) p (pre @ rest) 0" "\<And>a. a \<in> set pre \<Longrightarrow> msize s a < n" "rest \<noteq> []"
  shows "malloc_loop n prev p s = malloc_loop n (last_or pre prev) (hd rest) s"
  using assms
proof (induction pre arbitrary: p prev)
  case Nil
  then show ?case by (cases rest) (auto simp: last_or_def)
next
  case (Cons a pre)
  have "p = a" "a \<noteq> 0" "\<not> n \<le> msize s a"
    using Cons.prems(1) Cons.prems(2) [of a] by (auto simp: not_le)
  then have "malloc_loop n prev p s = malloc_loop n a (mnext s a) s"
    by (simp add: malloc_loop.simps [of n prev a])
  also have "\<dots> = malloc_loop n (last_or pre a) (hd rest) s"
    by (rule Cons.IH) (use Cons.prems in auto)
  finally show ?case by (simp add: last_or_def)
qed

lemma malloc_loop_exhausted:
  assumes "chain (mnext s) p bs 0" "\<And>a. a \<in> set bs \<Longrightarrow> msize s a < n"
  shows "malloc_loop n prev p s = None"
  using assms
proof (induction bs arbitrary: p prev)
  case Nil
  then show ?case by (simp add: malloc_loop.simps)
next
  case (Cons a bs)
  have "p = a" "\<not> n \<le> msize s a" using Cons.prems(1) Cons.prems(2) [of a] by (auto simp: not_le)
  then show ?case using Cons by (simp add: malloc_loop.simps [of n prev a])
qed

text \<open>The blocks that stay on the list after a search: the last one skipped, and those behind it.\<close>

definition kept_blocks :: "u64 list \<Rightarrow> u64 list \<Rightarrow> u64 list" where
  "kept_blocks pre post = (if pre = [] then [] else [last pre]) @ post"

lemma num_units_pos: "unat sz + 15 < 2 ^ 64 \<Longrightarrow> unat (num_units sz) = (unat sz + 15) div 16 + 1"
proof -
  assume a: "unat sz + 15 < 2 ^ 64"
  have e: "sz + 16 - 1 = sz + 15" by simp
  have u: "unat (sz + 15) = unat sz + 15" using a by (simp add: unat_word_ariths)
  have "(unat sz + 15) div 16 < 2 ^ 60" using a by simp
  then show ?thesis unfolding num_units_def e by (simp add: unat_word_ariths unat_div u)
qed

lemma malloc_split:
  assumes fb: "free_blocks s (pre @ b # post)" and small: "\<And>a. a \<in> set pre \<Longrightarrow> msize s a < num_units sz"
    and big: "num_units sz < msize s b" and f: "fits b (msize s b)"
    and out: "\<And>a. a \<in> set (pre @ post) \<Longrightarrow> a \<noteq> b + 16 * (msize s b - num_units sz)"
  defines "blk \<equiv> b + 16 * (msize s b - num_units sz)"
  shows "\<exists>s'. do_malloc sz s = Some (blk + 16, s')
    \<and> free_blocks s' (kept_blocks pre (b # post))
    \<and> msize s' b = msize s b - num_units sz \<and> msize s' blk = num_units sz
    \<and> (\<forall>a. a \<noteq> b \<longrightarrow> a \<noteq> blk \<longrightarrow> hdr s' a = hdr s a)"
proof -
  let ?n = "num_units sz" and ?d = "last_or pre (freelist s)"
  have d: "unat (msize s b - ?n) = unat (msize s b) - unat ?n" "unat ?n < unat (msize s b)"
    using big unat_sub [OF order.strict_implies_order [OF big]] by (simp_all add: word_less_nat_alt)
  have ub: "unat blk = unat b + 16 * (unat (msize s b) - unat ?n)"
  proof -
    have "unat b + 16 * unat (msize s b - ?n) < 2 ^ 64" using f d by (simp add: fits_def)
    from unat_add_units [OF this] show ?thesis by (simp only: blk_def d)
  qed
  then have ne: "blk \<noteq> b" using d(2) by (auto simp: word_unat_eq_iff)
  let ?s' = "(put_size blk ?n (put_size b (msize s b - ?n) s))\<lparr>freelist := ?d\<rparr>"
  have hd: "chain (mnext s) (freelist s) (pre @ b # post) 0" and ds: "distinct (pre @ b # post)"
    using fb by (simp_all add: free_blocks_def)
  then have b0: "b \<noteq> 0" using chain_nonnull by fastforce
  have "do_malloc sz s = malloc_loop ?n ?d b s"
    unfolding do_malloc_def using malloc_loop_skip [OF hd small] by simp
  also have "\<dots> = Some (blk + 16, ?s')"
    using b0 big order.strict_implies_order [OF big]
    by (auto simp: malloc_loop.simps [of ?n ?d b] blk_def Let_def)
  finally have m: "do_malloc sz s = Some (blk + 16, ?s')" .
  have nx: "mnext ?s' = mnext s" by (rule ext) (simp add: put_size_def)
  have "chain (mnext s) ?d (kept_blocks pre (b # post)) 0"
  proof (cases pre rule: rev_cases)
    case Nil
    then show ?thesis using hd by (simp add: last_or_def kept_blocks_def)
  next
    case (snoc ys y)
    then show ?thesis using hd by (auto simp: last_or_def kept_blocks_def chain_append)
  qed
  moreover have "distinct (kept_blocks pre (b # post))"
    using ds by (cases pre rule: rev_cases) (auto simp: kept_blocks_def)
  ultimately have "free_blocks ?s' (kept_blocks pre (b # post))"
    by (simp add: free_blocks_def nx [simplified])
  with m ne show ?thesis by (intro exI [of _ ?s']) (auto simp: put_size_def)
qed

section \<open>Properties\<close>

text \<open>The heap of one page at 0x1000 that \<^verbatim>\<open>createheap\<close> makes: one block of 255 units.\<close>

definition demo_heap :: uheap where
  "demo_heap = init_freelist 0x1000 \<lparr>hdr = (\<lambda>_. \<lparr>mh_next = 0, mh_size = 0\<rparr>), freelist = 0\<rparr>"

lemma demo_heap_eq:
  "demo_heap = \<lparr>hdr = (\<lambda>_. \<lparr>mh_next = 0, mh_size = 0\<rparr>)(0x1000 := \<lparr>mh_next = 0, mh_size = 255\<rparr>),
     freelist = 0x1000\<rparr>"
  by (simp add: demo_heap_def init_freelist_def put_next_def put_size_def)

lemma demo_heap_blocks: "free_blocks demo_heap ([] @ 0x1000 # [])"
  by (simp add: free_blocks_def demo_heap_eq)

text \<open>C37: the first block that is larger than a request is split: \<^verbatim>\<open>do_malloc\<close> returns the
  tail of the block, which lies inside the old block, holds the requested bytes and is disjoint from what stays
  free; no other header changes, and the blocks in front of the last one skipped are no
  longer on the list.\<close>

theorem do_malloc_splits_block:
  assumes "free_blocks s (pre @ b # post)" and "\<And>a. a \<in> set pre \<Longrightarrow> msize s a < num_units sz"
    and "num_units sz < msize s b" and "fits b (msize s b)" and "unat sz + 15 < 2 ^ 64"
    and "\<And>a. a \<in> set (pre @ post) \<Longrightarrow> a \<noteq> b + 16 * (msize s b - num_units sz)"
  shows "\<exists>p s'. do_malloc sz s = Some (p, s')
     \<and> free_blocks s' (kept_blocks pre (b # post))
     \<and> {unat p ..< unat p + unat sz} \<subseteq> extent b (msize s b)
     \<and> {unat p ..< unat p + unat sz} \<inter> extent b (msize s' b) = {}
     \<and> extent (p - 16) (msize s' (p - 16)) \<union> extent b (msize s' b) = extent b (msize s b)
     \<and> (\<forall>a. a \<noteq> b \<longrightarrow> a \<noteq> p - 16 \<longrightarrow> hdr s' a = hdr s a)"
proof -
  let ?n = "num_units sz"
  define blk where "blk = b + 16 * (msize s b - ?n)"
  from malloc_split [OF assms(1-4), folded blk_def] assms(6) obtain s' where
    m: "do_malloc sz s = Some (blk + 16, s')" "free_blocks s' (kept_blocks pre (b # post))"
    "msize s' b = msize s b - ?n" "msize s' blk = ?n" "\<And>a. a \<noteq> b \<Longrightarrow> a \<noteq> blk \<Longrightarrow> hdr s' a = hdr s a"
    by (auto simp: blk_def)
  have d: "unat (msize s b - ?n) = unat (msize s b) - unat ?n" "unat ?n < unat (msize s b)"
    using assms(3) unat_sub [OF order.strict_implies_order [OF assms(3)]]
    by (simp_all add: word_less_nat_alt)
  have f: "unat b + 16 * unat (msize s b) < 2 ^ 64" using assms(4) by (simp add: fits_def)
  have ub: "unat blk = unat b + 16 * (unat (msize s b) - unat ?n)"
  proof -
    have "unat b + 16 * unat (msize s b - ?n) < 2 ^ 64" using f d by simp
    from unat_add_units [OF this] show ?thesis by (simp only: blk_def d)
  qed
  have un: "unat ?n = (unat sz + 15) div 16 + 1" by (rule num_units_pos [OF assms(5)])
  then have sz: "16 + unat sz \<le> 16 * unat ?n" by simp
  have e: "unat blk + 16 * unat ?n = unat b + 16 * unat (msize s b)"
    using ub d(2) by (simp add: algebra_simps diff_mult_distrib)
  have up: "unat (blk + 16) = unat blk + 16" using e f sz by (simp add: unat_word_ariths)
  have "blk + 16 - 16 = blk" by simp
  moreover have "{unat (blk + 16) ..< unat (blk + 16) + unat sz} \<subseteq> extent b (msize s b)"
    using up e sz ub by (auto simp: extent_def)
  moreover have "{unat (blk + 16) ..< unat (blk + 16) + unat sz} \<inter> extent b (msize s' b) = {}"
    using up ub d by (auto simp: extent_def m(3))
  moreover have "extent blk (msize s' blk) \<union> extent b (msize s' b) = extent b (msize s b)"
    using ub d e by (auto simp: extent_def m(3, 4))
  ultimately show ?thesis using m(1, 2, 5)
    by (intro exI [of _ "blk + 16"] exI [of _ s']) simp
qed

theorem do_malloc_splits_block_witness:
  "\<exists>p s'. do_malloc 100 demo_heap = Some (p, s') \<and> free_blocks s' [0x1000]"
  using do_malloc_splits_block [OF demo_heap_blocks, of 100]
  by (auto simp: demo_heap_eq num_units_def fits_def kept_blocks_def)

text \<open>when the first block has exactly the requested size, \<^verbatim>\<open>do_malloc\<close> returns it and leaves
  the heap as it was, so the same memory is returned by the next call.\<close>

theorem exact_first_block_returned_twice:
  assumes "free_blocks s (b # bs)" and "msize s b = num_units sz"
  shows "do_malloc sz s = Some (b + 16, s)"
  using assms
  by (auto simp: free_blocks_def do_malloc_def malloc_loop.simps [of _ b b] put_next_def)

theorem exact_first_block_returned_twice_witness:
  "do_malloc 4064 demo_heap = Some (0x1010, demo_heap)"
  using exact_first_block_returned_twice [of demo_heap "0x1000" "[]" 4064] demo_heap_blocks
  by (simp add: demo_heap_eq num_units_def)

text \<open>when no block is large enough, \<^verbatim>\<open>do_malloc\<close> does not return null: it follows the null
  pointer at the end of the list.\<close>

theorem do_malloc_faults_when_exhausted:
  assumes "free_blocks s bs" and "\<And>a. a \<in> set bs \<Longrightarrow> msize s a < num_units sz"
  shows "do_malloc sz s = None"
  using malloc_loop_exhausted [of s "freelist s" bs "num_units sz"] assms
  by (auto simp: free_blocks_def do_malloc_def)

theorem do_malloc_faults_when_exhausted_witness: "do_malloc 4096 demo_heap = None"
  by (rule do_malloc_faults_when_exhausted [of _ "[0x1000]"])
    (use demo_heap_blocks in \<open>auto simp: demo_heap_eq num_units_def\<close>)

text \<open>freeing the block that was split from the only free block restores the heap's free
  list and the size of that block.\<close>

theorem malloc_free_roundtrip:
  assumes "free_blocks s [b]" and "num_units sz < msize s b" and "fits b (msize s b)"
  shows "\<exists>p s' s''. do_malloc sz s = Some (p, s') \<and> do_free p s' = Some s''
     \<and> free_blocks s'' [b] \<and> msize s'' b = msize s b"
proof -
  let ?n = "num_units sz"
  define blk where "blk = b + 16 * (msize s b - ?n)"
  have d: "unat (msize s b - ?n) = unat (msize s b) - unat ?n" "unat ?n < unat (msize s b)"
    using assms(2) unat_sub [OF order.strict_implies_order [OF assms(2)]]
    by (simp_all add: word_less_nat_alt)
  have "unat b + 16 * unat (msize s b - ?n) < 2 ^ 64" using assms(3) d by (simp add: fits_def)
  from unat_add_units [OF this] have ub: "unat blk = unat b + 16 * (unat (msize s b) - unat ?n)"
    by (simp only: blk_def d)
  have lt: "b < blk" using ub d by (simp add: word_less_nat_alt)
  have "free_blocks s ([] @ b # [])" using assms(1) by simp
  from malloc_split [OF this _ assms(2, 3)] obtain s' where
    m: "do_malloc sz s = Some (blk + 16, s')" "free_blocks s' [b]"
    "msize s' b = msize s b - ?n" "msize s' blk = ?n"
    by (auto simp: kept_blocks_def blk_def)
  have l: "freelist s' = b" "b \<noteq> 0" "mnext s' b = 0" using m(2) by (auto simp: free_blocks_def)
  let ?s'' = "put_size b (msize s' b + msize s' blk) s'"
  have "free_at blk b s' = Some ?s''" using lt l by (simp add: free_at_def m(3) blk_def)
  then have "do_free (blk + 16) s' = Some ?s''"
    using l by (simp add: do_free_def free_loop.simps [of blk b])
  moreover have "free_blocks ?s'' [b]" "msize ?s'' b = msize s b"
    using l m by (simp_all add: free_blocks_def)
  ultimately show ?thesis using m(1) by blast
qed

theorem malloc_free_roundtrip_witness:
  "\<exists>p s' s''. do_malloc 100 demo_heap = Some (p, s') \<and> do_free p s' = Some s'' \<and> free_blocks s'' [0x1000]"
  using malloc_free_roundtrip [of demo_heap "0x1000" 100] demo_heap_blocks
  by (auto simp: demo_heap_eq num_units_def fits_def)

text \<open>Freeing a block that touches the free blocks on both sides merges all three into the
  lower one but leaves the upper one on the list, so the list holds the same memory twice.\<close>

theorem double_merge_keeps_upper_block:
  assumes "freelist s = c" and "c \<noteq> 0" and "mnext s c = nx" and "c < block" and "block < nx"
    and "c + 16 * msize s c = block" and "block + 16 * msize s block = nx"
    and "unat c + 16 * (unat (msize s c) + unat (msize s block) + unat (msize s nx)) < 2 ^ 64"
  shows "\<exists>s'. do_free (block + 16) s = Some s' \<and> mnext s' c = nx
     \<and> extent nx (msize s' nx) \<subseteq> extent c (msize s' c)"
proof -
  let ?s1 = "put_next block (mnext s nx) (put_size block (msize s block + msize s nx) s)"
  let ?s2 = "put_size c (msize s c + (msize s block + msize s nx)) ?s1"
  have ne: "c \<noteq> block" "nx \<noteq> block" "c \<noteq> nx" "nx \<noteq> 0" using assms(4, 5) by auto
  have "free_at block c s = Some ?s2"
    using assms(3-7) ne by (simp add: free_at_def Let_def not_less_iff_gr_or_eq)
  then have f: "do_free (block + 16) s = Some ?s2"
    using assms(1, 2) by (simp add: do_free_def free_loop.simps [of block c])
  have n: "mnext ?s2 c = nx" "msize ?s2 nx = msize s nx"
    "msize ?s2 c = msize s c + (msize s block + msize s nx)"
    using ne assms(3) by simp_all
  have ub: "unat block = unat c + 16 * unat (msize s c)"
    using unat_add_units [of c "msize s c"] assms(6, 8) by simp
  have un: "unat nx = unat block + 16 * unat (msize s block)"
    using unat_add_units [of block "msize s block"] assms(7, 8) ub by simp
  have us: "unat (msize s c + (msize s block + msize s nx))
      = unat (msize s c) + unat (msize s block) + unat (msize s nx)"
    using assms(8) by (simp add: unat_word_ariths)
  have "extent nx (msize ?s2 nx) \<subseteq> extent c (msize ?s2 c)"
    unfolding extent_def n us using ub un by (simp add: subset_iff)
  with f n show ?thesis by blast
qed

text \<open>Three neighbouring blocks of 16 units at 0x1000, 0x1100 (in use) and 0x1200.\<close>

definition demo_three :: uheap where
  "demo_three = \<lparr>hdr = (\<lambda>_. \<lparr>mh_next = 0, mh_size = 0\<rparr>)(0x1000 := \<lparr>mh_next = 0x1200, mh_size = 16\<rparr>,
     0x1100 := \<lparr>mh_next = 0, mh_size = 16\<rparr>, 0x1200 := \<lparr>mh_next = 0, mh_size = 16\<rparr>), freelist = 0x1000\<rparr>"

theorem double_merge_keeps_upper_block_witness:
  "\<exists>s'. do_free 0x1110 demo_three = Some s' \<and> mnext s' 0x1000 = 0x1200"
  using double_merge_keeps_upper_block [of demo_three "0x1000" "0x1200" "0x1100"]
  by (auto simp: demo_three_def)

text \<open>A block below every free block is lost when it is freed: the call returns and the free
  list is the same as before.\<close>

theorem block_below_list_is_lost:
  assumes "free_blocks s bs" and "bs \<noteq> []" and "\<And>a. a \<in> set bs \<Longrightarrow> block < a"
  shows "\<exists>s'. do_free (block + 16) s = Some s' \<and> free_blocks s' bs"
proof -
  have loop: "\<exists>s'. free_loop block p s = Some s' \<and> freelist s' = freelist s
      \<and> (\<forall>a. a \<noteq> block \<longrightarrow> mnext s' a = mnext s a)"
    if "chain (mnext s) p cs 0" "\<And>a. a \<in> set cs \<Longrightarrow> block < a" for p cs
    using that
  proof (induction cs arbitrary: p)
    case Nil
    then show ?case by (simp add: free_loop.simps)
  next
    case (Cons c cs)
    have c: "p = c" "c \<noteq> 0" "block < c" "\<not> c < block"
      using Cons.prems(1) Cons.prems(2) [of c] by auto
    show ?case
    proof (cases "mnext s c = 0")
      case True
      then show ?thesis using c by (auto simp: free_loop.simps [of block c] free_at_def)
    next
      case False
      then have "free_at block c s = None" using c by (simp add: free_at_def)
      then show ?thesis using Cons c by (simp add: free_loop.simps [of block c])
    qed
  qed
  have ch: "chain (mnext s) (freelist s) bs 0" "distinct bs" "freelist s \<noteq> 0"
    using assms(1, 2) by (cases bs; auto simp: free_blocks_def)+
  from loop [OF ch(1) assms(3)] obtain s' where
    s': "free_loop block (freelist s) s = Some s'" "freelist s' = freelist s"
    "\<And>a. a \<noteq> block \<Longrightarrow> mnext s' a = mnext s a" by auto
  have "chain (mnext s') (freelist s) bs 0 = chain (mnext s) (freelist s) bs 0"
    by (rule chain_cong) (use s'(3) assms(3) in fastforce)
  then show ?thesis using s' ch by (auto simp: do_free_def free_blocks_def)
qed

theorem block_below_list_is_lost_witness:
  "\<exists>s'. do_free 0x910 demo_three = Some s' \<and> free_blocks s' [0x1000, 0x1200]"
proof -
  have "free_blocks demo_three [0x1000, 0x1200]" by (simp add: demo_three_def free_blocks_def)
  from block_below_list_is_lost [OF this, of "0x900"] show ?thesis by fastforce
qed

end
