(* ===== verification/Fs.thy ===== *)
theory Fs
  imports Klibc
begin

text \<open>
  The virtual file system of \<^verbatim>\<open>sys/fs.c\<close>: a tree of \<^verbatim>\<open>filesys_tnode\<close> structures with their
  \<^verbatim>\<open>filesys_node\<close> inodes, the table of file descriptors and the directory streams.  Both kinds
  of structures are maps from addresses; an array of tnodes at \<open>a\<close> has its \<open>i\<close>-th element at
  \<open>a + 32 * i\<close>.  A fresh structure is a page from \<^verbatim>\<open>bump\<close>, whose address is an argument and whose old
  contents are what the page held before.  An access outside of a fixed array is \<^const>\<open>None\<close>.
\<close>

section \<open>State\<close>

definition FS_FILE :: u32 where
  "FS_FILE = 1"

definition FS_DIRECTORY :: u32 where
  "FS_DIRECTORY = 2"

definition FS_MOUNTPOINT :: u32 where
  "FS_MOUNTPOINT = 8"

text \<open>The functions that an inode's function pointers can hold.\<close>

datatype file_fn = NoFn | Do_fread | Check_for_ip | Do_write | Do_write_err

record filesys_node =
  i_flags :: u32
  i_start :: u64
  i_offset :: u64
  sub_directory_list :: u64
  sub_files_list :: u64
  link_to_process :: u64
  num_sub_directory :: int
  num_sub_files :: int
  i_read :: file_fn
  i_write :: file_fn
  i_open :: file_fn

record filesys_tnode =
  t_name :: string
  t_size :: u64
  link_to_inode :: u64

record fsys =
  tnodes :: "u64 \<Rightarrow> filesys_tnode"
  inodes :: "u64 \<Rightarrow> filesys_node"
  file_descriptors :: "u64 list"
  filefs_root :: u64
  proc_directory :: u64

definition tnode_at :: "u64 \<Rightarrow> nat \<Rightarrow> u64" where
  "tnode_at a i = a + 32 * of_nat i"

definition set_tnode :: "u64 \<Rightarrow> (filesys_tnode \<Rightarrow> filesys_tnode) \<Rightarrow> fsys \<Rightarrow> fsys" where
  "set_tnode a f s = s\<lparr>tnodes := (tnodes s)(a := f (tnodes s a))\<rparr>"

definition set_inode :: "u64 \<Rightarrow> (filesys_node \<Rightarrow> filesys_node) \<Rightarrow> fsys \<Rightarrow> fsys" where
  "set_inode a f s = s\<lparr>inodes := (inodes s)(a := f (inodes s a))\<rparr>"

definition inode_of :: "fsys \<Rightarrow> u64 \<Rightarrow> filesys_node" where
  "inode_of s t = inodes s (link_to_inode (tnodes s t))"

section \<open>Splitting a path\<close>

text \<open>\<^verbatim>\<open>char sub_name[6][10]\<close> as six rows; writing outside of a row is a fault.\<close>

definition put2 :: "nat \<Rightarrow> nat \<Rightarrow> char \<Rightarrow> string list \<Rightarrow> string list option" where
  "put2 k j c rows = do { row \<leftarrow> aget rows k; row \<leftarrow> aput row j c; aput rows k row }"

definition clear_row :: "nat \<Rightarrow> string list \<Rightarrow> string list option" where
  "clear_row k rows = do { row \<leftarrow> aget rows k; row \<leftarrow> memset row 0 10; aput rows k row }"

text \<open>The loop of \<^verbatim>\<open>find_file\<close> over the characters that are left, and the write behind it.\<close>

fun split_loop :: "string \<Rightarrow> nat \<Rightarrow> nat \<Rightarrow> string list \<Rightarrow> (nat \<times> string list) option" where
  "split_loop [] j k rows = do { rows \<leftarrow> put2 k (j + 1) NUL rows; Some (k, rows) }"
| "split_loop (c # cs) j k rows =
     do { rows \<leftarrow> put2 k j c rows;
          if c = CHR ''/''
          then do { rows \<leftarrow> put2 k (j + 1) NUL rows;
                    if cs \<noteq> [] then do { rows \<leftarrow> clear_row (k + 1) rows; split_loop cs 0 (k + 1) rows }
                    else split_loop cs (j + 1) k rows }
          else split_loop cs (j + 1) k rows }"

definition split_path :: "string \<Rightarrow> string list \<Rightarrow> (nat \<times> string list) option" where
  "split_path file_name rows =
     do { len \<leftarrow> kstrlength file_name; split_loop (take len file_name) 0 0 rows }"

section \<open>Looking up a file\<close>

text \<open>\<^verbatim>\<open>for (i = 0; i < n; i++) { ret = f(i); if (ret != NULL) return ret; }\<close>\<close>

fun first_hit :: "nat \<Rightarrow> nat \<Rightarrow> (nat \<Rightarrow> u64 option) \<Rightarrow> u64 option" where
  "first_hit i 0 f = Some 0"
| "first_hit i (Suc n) f = do { ret \<leftarrow> f i; if ret \<noteq> 0 then Some ret else first_hit (Suc i) n f }"

text \<open>\<^verbatim>\<open>find_file_from_root\<close> with \<open>n = total_depth - depth\<close>.\<close>

primrec find_from :: "nat \<Rightarrow> fsys \<Rightarrow> string list \<Rightarrow> nat \<Rightarrow> u64 \<Rightarrow> u64 option" where
  "find_from 0 s names depth node =
     do { nm \<leftarrow> aget names depth;
          c \<leftarrow> kstrcmp (t_name (tnodes s node)) nm;
          Some (if c = 0 then node else 0) }"
| "find_from (Suc n) s names depth node =
     do { nm \<leftarrow> aget names depth;
          c \<leftarrow> kstrcmp (t_name (tnodes s node)) nm;
          let ino = inode_of s node;
          if c = 0 \<and> (i_flags ino = FS_DIRECTORY \<or> i_flags ino = FS_MOUNTPOINT)
          then do { ret \<leftarrow> first_hit 0 (nat (num_sub_directory ino))
                       (\<lambda>i. find_from n s names (depth + 1) (tnode_at (sub_directory_list ino) i));
                    if ret \<noteq> 0 then Some ret
                    else first_hit 0 (nat (num_sub_files ino))
                       (\<lambda>i. find_from n s names (depth + 1) (tnode_at (sub_files_list ino) i)) }
          else Some 0 }"

text \<open>\<open>rows\<close> is what the stack buffer holds on entry.\<close>

definition find_file :: "string list \<Rightarrow> string \<Rightarrow> fsys \<Rightarrow> u64 option" where
  "find_file rows file_name s =
     do { c \<leftarrow> aget file_name 0;
          if c = CHR ''/''
          then do { (k, rows) \<leftarrow> split_path file_name rows;
                    find_from k s rows 0 (filefs_root s) }
          else Some 0 }"

definition do_findfile :: "string list \<Rightarrow> string \<Rightarrow> fsys \<Rightarrow> int option" where
  "do_findfile rows filename s =
     do { item \<leftarrow> find_file rows filename s; Some (if item = 0 then - 1 else 0) }"

section \<open>File descriptors\<close>

text \<open>The first empty slot of the table from slot \<open>i\<close> on.\<close>

definition first_free :: "nat \<Rightarrow> u64 list \<Rightarrow> nat option" where
  "first_free lo fds = find (\<lambda>i. fds ! i = 0) [lo..<25]"

definition do_dopen :: "string list \<Rightarrow> string \<Rightarrow> fsys \<Rightarrow> (int \<times> fsys) option" where
  "do_dopen rows file_name s =
     do { item \<leftarrow> find_file rows file_name s;
          if item = 0 then Some (- 1, s)
          else case first_free 0 (file_descriptors s) of
                 None \<Rightarrow> Some (- 1, s)
               | Some i \<Rightarrow> Some (int i, s\<lparr>file_descriptors := (file_descriptors s)[i := item]\<rparr>) }"

text \<open>\<^verbatim>\<open>copytnode\<close>: \<open>tn\<close> and \<open>no\<close> are the two pages from \<^verbatim>\<open>bump\<close>.\<close>

definition copytnode :: "u64 \<Rightarrow> u64 \<Rightarrow> u64 \<Rightarrow> fsys \<Rightarrow> fsys option" where
  "copytnode tn no item s =
     do { name \<leftarrow> kstrcopy (t_name (tnodes s tn)) (t_name (tnodes s item));
          let s = set_tnode tn (\<lambda>t. t\<lparr>t_name := name, t_size := t_size (tnodes s item)\<rparr>) s;
          let ino = inode_of s item;
          let s = set_inode no (\<lambda>n. n\<lparr>i_offset := i_offset ino, i_start := i_start ino,
                    i_write := i_write ino, i_flags := i_flags ino, num_sub_directory := 0,
                    num_sub_files := 0, sub_directory_list := 0, sub_files_list := 0,
                    i_open := i_open ino, i_read := i_read ino\<rparr>) s;
          Some (set_tnode tn (\<lambda>t. t\<lparr>link_to_inode := no\<rparr>) s) }"

definition do_fopen :: "string list \<Rightarrow> u64 \<Rightarrow> u64 \<Rightarrow> string \<Rightarrow> fsys \<Rightarrow> (int \<times> fsys) option" where
  "do_fopen rows tn no file_name s =
     do { item \<leftarrow> find_file rows file_name s;
          if item = 0 then Some (- 1, s)
          else do { s \<leftarrow> copytnode tn no item s;
                    case first_free 3 (file_descriptors s) of
                      None \<Rightarrow> Some (- 1, s)
                    | Some i \<Rightarrow> Some (int i, s\<lparr>file_descriptors := (file_descriptors s)[i := tn]\<rparr>) } }"

definition do_close :: "int \<Rightarrow> fsys \<Rightarrow> int \<times> fsys" where
  "do_close fd s =
     (if 0 \<le> fd \<and> fd < 25 then (0, s\<lparr>file_descriptors := (file_descriptors s)[nat fd := 0]\<rparr>)
      else (- 1, s))"

text \<open>
  Reading: \<open>file\<close> is the file system image by address.  \<^verbatim>\<open>do_fread\<close> copies \<open>size\<close> bytes from
  \<open>position\<close>; \<^verbatim>\<open>read_vfs\<close> cuts the size when it exceeds the size of the whole file.
\<close>

definition do_fread :: "(u64 \<Rightarrow> char) \<Rightarrow> int \<Rightarrow> u64 \<Rightarrow> string" where
  "do_fread mem sz position = map (\<lambda>i. mem (position + of_nat i)) [0..<nat sz]"

definition read_vfs :: "(u64 \<Rightarrow> char) \<Rightarrow> u64 \<Rightarrow> int \<Rightarrow> fsys \<Rightarrow> (int \<times> string \<times> fsys) option" where
  "read_vfs mem node sz s =
     (let t = tnodes s node; ino = inode_of s node in
      case i_read ino of
        Do_fread \<Rightarrow>
          let position = i_start ino + i_offset ino;
              limit = i_start ino + t_size t
          in if limit \<le> position then Some (- 1, [], s)
             else let sz = (if t_size t < word_of_int sz then to_int (word_of_int (to_int limit) - position)
                            else sz);
                      s = set_inode (link_to_inode t) (\<lambda>n. n\<lparr>i_offset := i_offset n + word_of_int sz\<rparr>) s
                  in Some (sz, do_fread mem sz position, s)
      | NoFn \<Rightarrow> Some (0, [], s)
      | _ \<Rightarrow> None)"

section \<open>Directory streams\<close>

record dirent =
  d_name :: string
  d_no :: int
  d_fd :: int
  d_state :: int
  d_pid :: u32
  d_ppid :: u32

text \<open>What \<^verbatim>\<open>do_opendir\<close> reads of a process: its name, state, pid and ppid.\<close>

type_synonym proc_view = "u64 \<Rightarrow> string \<times> int \<times> u32 \<times> u32"

text \<open>An entry as \<^verbatim>\<open>memset\<close> leaves it.\<close>

definition zero_dirent :: dirent where
  "zero_dirent = \<lparr>d_name = replicate 26 NUL, d_no = 0, d_fd = 0, d_state = 0, d_pid = 0, d_ppid = 0\<rparr>"

definition dir_entry :: "int \<Rightarrow> string \<Rightarrow> dirent \<Rightarrow> dirent option" where
  "dir_entry fd name d = do { nm \<leftarrow> kstrcopy (d_name d) name; Some (d\<lparr>d_name := nm, d_no := 0, d_fd := fd\<rparr>) }"

definition file_entry :: "proc_view \<Rightarrow> fsys \<Rightarrow> int \<Rightarrow> u64 \<Rightarrow> dirent \<Rightarrow> dirent option" where
  "file_entry procs s fd node d =
     do { d \<leftarrow> dir_entry fd (t_name (tnodes s node)) d;
          let p = link_to_process (inode_of s node);
          if p = 0 then Some d
          else do { let (name, state, pid, ppid) = procs p;
                    nm \<leftarrow> kstrcopy (d_name d) name;
                    let d = d\<lparr>d_name := nm\<rparr>;
                    let d = (if state = 0 \<or> state = 1 \<or> state = 2 then d\<lparr>d_state := state\<rparr> else d);
                    Some (d\<lparr>d_pid := pid, d_ppid := ppid\<rparr>) } }"

text \<open>\<^verbatim>\<open>do_opendir\<close>.  \<open>alloc\<close> stands for the calls of \<^verbatim>\<open>sys_malloc\<close> and \<^verbatim>\<open>map_user_address\<close> with the memory \<open>h\<close> that they change;
  \<^const>\<open>None\<close> means that they do not return.  The result is the array of entries.  A name that is not found gives descriptor -1,
  which the code uses as an index.\<close>

definition DIR_SIZE :: u64 where
  "DIR_SIZE = 48"

definition do_opendir :: "(u64 \<Rightarrow> 'h \<Rightarrow> 'h option) \<Rightarrow> proc_view \<Rightarrow> string list \<Rightarrow> string \<Rightarrow> fsys \<Rightarrow> 'h
    \<Rightarrow> (dirent list \<times> fsys \<times> 'h) option" where
  "do_opendir alloc procs rows dirname s h =
     do { (fd, s) \<leftarrow> do_dopen rows dirname s;
          node \<leftarrow> (if fd < 0 then None else aget (file_descriptors s) (nat fd));
          let ino = inode_of s node;
          h \<leftarrow> alloc (word_of_int (num_sub_files ino + num_sub_directory ino) * DIR_SIZE) h;
          let nd = nat (num_sub_directory ino);
          let nf = nat (num_sub_files ino);
          let ds = replicate (nat (num_sub_files ino + num_sub_directory ino)) zero_dirent;
          ds \<leftarrow> for_n 0 nd (\<lambda>i ds. do { d \<leftarrow> aget ds i;
                    d \<leftarrow> dir_entry fd (t_name (tnodes s (tnode_at (sub_directory_list ino) i))) d;
                    aput ds i d }) ds;
          ds \<leftarrow> for_n 0 nf (\<lambda>j ds. do { d \<leftarrow> aget ds (nd + j);
                    d \<leftarrow> file_entry procs s fd (tnode_at (sub_files_list ino) j) d;
                    aput ds (nd + j) d }) ds;
          Some (ds, s, h) }"

text \<open>The first entry that was not read yet; the search has no bound.\<close>

fun unread :: "nat \<Rightarrow> dirent list \<Rightarrow> nat option" where
  "unread i [] = None"
| "unread i (d # ds) = (if d_no d = 1 then unread (Suc i) ds else Some i)"

text \<open>\<^verbatim>\<open>do_readdir\<close>: the index of the entry it returns, if any, and the changed array.\<close>

definition do_readdir :: "dirent list \<Rightarrow> fsys \<Rightarrow> (nat option \<times> dirent list) option" where
  "do_readdir dir s =
     do { d0 \<leftarrow> aget dir 0;
          node \<leftarrow> (if d_fd d0 < 0 then None else aget (file_descriptors s) (nat (d_fd d0)));
          let ino = inode_of s node;
          i \<leftarrow> unread 0 dir;
          if int i < num_sub_files ino + num_sub_directory ino
          then do { len \<leftarrow> kstrlength (d_name (dir ! i));
                    if 0 < len then Some (Some i, dir[i := (dir ! i)\<lparr>d_no := 1\<rparr>]) else Some (None, dir) }
          else Some (None, dir) }"

text \<open>The loop of \<^verbatim>\<open>do_closedir\<close> that clears the entries up to one with an empty name.\<close>

fun clear_dir :: "dirent list \<Rightarrow> dirent list option" where
  "clear_dir [] = None"
| "clear_dir (d # ds) =
     do { len \<leftarrow> kstrlength (d_name d);
          if len = 0 then Some (d # ds)
          else do { nm \<leftarrow> memset (d_name d) 0 26;
                    ds \<leftarrow> clear_dir ds;
                    Some (d\<lparr>d_name := nm, d_no := - 1, d_fd := - 1\<rparr> # ds) } }"

definition do_closedir :: "dirent list \<Rightarrow> fsys \<Rightarrow> (int \<times> dirent list \<times> fsys) option" where
  "do_closedir dirp s =
     do { d0 \<leftarrow> aget dirp 0;
          if 0 \<le> d_fd d0 \<and> d_fd d0 < 25
          then do { dirp' \<leftarrow> clear_dir dirp;
                    Some (0, dirp', s\<lparr>file_descriptors := (file_descriptors s)[nat (d_fd d0) := 0]\<rparr>) }
          else Some (- 1, dirp, s) }"

section \<open>Building the tree\<close>

text \<open>\<^verbatim>\<open>create_sys_node\<close> sets the fields that it sets; all others keep what the page held.\<close>

definition create_sys_node :: "u64 \<Rightarrow> fsys \<Rightarrow> fsys" where
  "create_sys_node no s =
     set_inode no (\<lambda>n. n\<lparr>i_write := Do_write, sub_directory_list := 0, num_sub_directory := 0,
       sub_files_list := 0, num_sub_files := 0\<rparr>) s"

definition create_t_node :: "u64 \<Rightarrow> u64 \<Rightarrow> string \<Rightarrow> fsys \<Rightarrow> fsys option" where
  "create_t_node tn no name s =
     do { len \<leftarrow> kstrlength name;
          nm \<leftarrow> for_n 0 len (\<lambda>i d. do { x \<leftarrow> aget name i; aput d i x }) (t_name (tnodes s tn));
          nm \<leftarrow> aput nm len NUL;
          let s = set_tnode tn (\<lambda>t. t\<lparr>t_name := nm\<rparr>) s;
          let s = create_sys_node no s;
          Some (set_tnode tn (\<lambda>t. t\<lparr>link_to_inode := no\<rparr>) s) }"

definition file_exist :: "fsys \<Rightarrow> u64 \<Rightarrow> int \<Rightarrow> u64 \<Rightarrow> u64" where
  "file_exist s ino file_num file_name =
     (case find (\<lambda>i. tnode_at (sub_files_list (inodes s ino)) i = file_name) [0..<nat file_num] of
        None \<Rightarrow> 0 | Some i \<Rightarrow> tnode_at (sub_files_list (inodes s ino)) i)"

definition folder_exist :: "fsys \<Rightarrow> u64 \<Rightarrow> int \<Rightarrow> string \<Rightarrow> u64 option" where
  "folder_exist s ino folder_num folder_name =
     first_hit 0 (nat folder_num) (\<lambda>i.
       let sub_folder = tnode_at (sub_directory_list (inodes s ino)) i
       in do { c \<leftarrow> kstrcmp (t_name (tnodes s sub_folder)) folder_name;
               Some (if c = 0 then sub_folder else 0) })"

text \<open>Adding a node to the directory, or to the files, of \<open>parent\<close>: the first one becomes the array, the
  others are copied into it.\<close>

definition add_directory :: "u64 \<Rightarrow> u64 \<Rightarrow> fsys \<Rightarrow> fsys" where
  "add_directory parent new_node s =
     (let ino = link_to_inode (tnodes s parent); n = num_sub_directory (inodes s ino);
          s = (if n = 0 then set_inode ino (\<lambda>i. i\<lparr>sub_directory_list := new_node\<rparr>) s
               else set_tnode (tnode_at (sub_directory_list (inodes s ino)) (nat n)) (\<lambda>_. tnodes s new_node) s)
      in set_inode ino (\<lambda>i. i\<lparr>num_sub_directory := n + 1\<rparr>) s)"

definition add_file :: "u64 \<Rightarrow> u64 \<Rightarrow> fsys \<Rightarrow> fsys" where
  "add_file parent new_node s =
     (let ino = link_to_inode (tnodes s parent); n = num_sub_files (inodes s ino);
          s = (if n = 0 then set_inode ino (\<lambda>i. i\<lparr>sub_files_list := new_node\<rparr>) s
               else set_tnode (tnode_at (sub_files_list (inodes s ino)) (nat n)) (\<lambda>_. tnodes s new_node) s)
      in set_inode ino (\<lambda>i. i\<lparr>num_sub_files := n + 1\<rparr>) s)"

text \<open>The search and removal that \<^verbatim>\<open>sys_unlink\<close> and \<^verbatim>\<open>sys_kill\<close> share: entry \<open>name\<close> of the files of \<open>ino\<close> is
  overwritten by moving the later ones down, the last slot is cleared and the count
  goes down, also when no entry has the name.\<close>

fun find_name :: "fsys \<Rightarrow> u64 \<Rightarrow> string \<Rightarrow> nat \<Rightarrow> nat \<Rightarrow> nat option" where
  "find_name s ino name i 0 = Some i"
| "find_name s ino name i (Suc n) =
     do { c \<leftarrow> kstrcmp (t_name (tnodes s (tnode_at (sub_files_list (inodes s ino)) i))) name;
          if c = 0 then Some i else find_name s ino name (Suc i) n }"

fun shift_files :: "u64 \<Rightarrow> nat \<Rightarrow> nat \<Rightarrow> fsys \<Rightarrow> fsys" where
  "shift_files a i 0 s = s"
| "shift_files a i (Suc n) s =
     shift_files a (Suc i) n (set_tnode (tnode_at a i) (\<lambda>_. tnodes s (tnode_at a (Suc i))) s)"

definition zero_tnode :: filesys_tnode where
  "zero_tnode = \<lparr>t_name = replicate 10 NUL, t_size = 0, link_to_inode = 0\<rparr>"

text \<open>The result is the inode that the code frees afterwards, null when no entry was found.\<close>

definition remove_entry :: "u64 \<Rightarrow> string \<Rightarrow> fsys \<Rightarrow> (u64 \<times> fsys) option" where
  "remove_entry ino name s =
     do { let a = sub_files_list (inodes s ino);
          let n = num_sub_files (inodes s ino);
          i \<leftarrow> find_name s ino name 0 (nat n);
          let victim = (if i < nat n then link_to_inode (tnodes s (tnode_at a i)) else 0);
          let s = shift_files a i (nat (n - 1) - i) s;
          let s = set_tnode (tnode_at a (max i (nat (n - 1)))) (\<lambda>_. zero_tnode) s;
          Some (victim, set_inode ino (\<lambda>k. k\<lparr>num_sub_files := n - 1\<rparr>) s) }"


section \<open>Path splitting\<close>

text \<open>The components of a path: every one but the last ends with its slash.\<close>

fun pieces :: "string \<Rightarrow> string \<Rightarrow> string list" where
  "pieces u [] = [u]"
| "pieces u (c # cs) =
     (if c = CHR ''/'' \<and> cs \<noteq> [] then (u @ [c]) # pieces [] cs else pieces (u @ [c]) cs)"

text \<open>What the six rows of ten characters can hold.\<close>

definition path_fits :: "nat \<Rightarrow> string list \<Rightarrow> bool" where
  "path_fits k ps \<longleftrightarrow> k + length ps \<le> 6 \<and> (\<forall>p \<in> set (butlast ps). length p \<le> 9) \<and> length (last ps) \<le> 8"

definition path_buffer :: "string list \<Rightarrow> bool" where
  "path_buffer rows \<longleftrightarrow> length rows = 6 \<and> (\<forall>r \<in> set rows. length r = 10)"

lemma pieces_not_Nil [simp]: "pieces u cs \<noteq> []"
  by (induction u cs rule: pieces.induct) auto

lemma concat_pieces: "concat (pieces u cs) = u @ cs"
  by (induction u cs rule: pieces.induct) auto

lemma pieces_grow: "length u + (if cs = [] then 0 else 1) \<le> length (hd (pieces u cs))"
  by (induction u cs rule: pieces.induct) (auto split: if_splits)

lemma path_fits_first:
  "path_fits k ps \<Longrightarrow> ps \<noteq> [] \<Longrightarrow> length (hd ps) \<le> 9"
  by (cases ps) (auto simp: path_fits_def split: if_splits)

lemma path_fits_Cons [simp]:
  "ps \<noteq> [] \<Longrightarrow> path_fits k (p # ps) \<longleftrightarrow> length p \<le> 9 \<and> path_fits (Suc k) ps"
  by (auto simp: path_fits_def)

lemma path_buffer_nth: "path_buffer rows \<Longrightarrow> k < 6 \<Longrightarrow> length (rows ! k) = 10"
  by (simp add: path_buffer_def)

lemma path_buffer_update [simp]:
  "path_buffer rows \<Longrightarrow> length r = 10 \<Longrightarrow> path_buffer (rows[k := r])"
  using set_update_subset_insert [of rows k r] by (auto simp: path_buffer_def)

lemma put2_eq:
  assumes "path_buffer rows"
  shows "put2 k j c rows = (if k < 6 \<and> j < 10 then Some (rows[k := (rows ! k)[j := c]]) else None)"
  using assms path_buffer_nth [OF assms]
  by (auto simp: put2_def path_buffer_def aget_def aput_def)

lemma clear_row_eq:
  assumes "path_buffer rows"
  shows "clear_row k rows = (if k < 6 then Some (rows[k := replicate 10 NUL]) else None)"
  using assms path_buffer_nth [OF assms]
  by (auto simp: clear_row_def memset_eq path_buffer_def aget_def aput_def NUL_def char_of_def)

lemma put_next_char:
  "length u < 10 \<Longrightarrow> (u @ replicate (10 - length u) x)[length u := c]
     = (u @ [c]) @ replicate (10 - length (u @ [c])) x"
  by (simp add: list_update_append Suc_diff_Suc [symmetric] del: replicate_Suc)
     (simp add: Suc_diff_Suc)

lemma put_same:
  "(u @ replicate m x)[length u + i := x] = u @ replicate m x"
  by (simp add: list_update_append list_update_same_conv nth_replicate)
     (metis length_replicate list_update_beyond list_update_id not_le nth_replicate)

text \<open>Row \<open>k\<close> holds \<open>u\<close> and zeros behind it: the state of the loop inside a component.\<close>

definition row_holds :: "nat \<Rightarrow> string \<Rightarrow> string list \<Rightarrow> bool" where
  "row_holds k u rows \<longleftrightarrow> path_buffer rows \<and> k < 6 \<and> rows ! k = u @ replicate (10 - length u) NUL"

lemma row_holds_length: "row_holds k u rows \<Longrightarrow> length u \<le> 10"
  using path_buffer_nth [of rows k] by (auto simp: row_holds_def)

lemma row_holds_put:
  assumes "row_holds k u rows" "length u < 10"
  shows "put2 k (length u) c rows = Some (rows[k := (u @ [c]) @ replicate (10 - length (u @ [c])) NUL])
     \<and> row_holds k (u @ [c]) (rows[k := (u @ [c]) @ replicate (10 - length (u @ [c])) NUL])"
proof -
  have k: "k < length rows" using assms(1) by (auto simp: row_holds_def path_buffer_def)
  show ?thesis
    using assms k put_next_char [OF assms(2), of NUL c] by (auto simp: row_holds_def put2_eq)
qed

lemma row_holds_terminate:
  assumes "row_holds k u rows"
  shows "put2 k (length u + i) NUL rows = (if length u + i < 10 then Some rows else None)"
  using assms put_same [of u "10 - length u" NUL i] list_update_id [of rows k]
  by (auto simp: row_holds_def put2_eq)

lemma row_holds_next:
  assumes "row_holds k u rows" "Suc k < 6"
  shows "clear_row (Suc k) rows = Some (rows[Suc k := replicate 10 NUL])
     \<and> row_holds (Suc k) [] (rows[Suc k := replicate 10 NUL])"
proof -
  have "length rows = 6" using assms(1) by (simp add: row_holds_def path_buffer_def)
  then show ?thesis using assms by (auto simp: row_holds_def clear_row_eq)
qed

text \<open>The loop from inside component \<open>k\<close>: it fails exactly when a component does not fit, and otherwise
  leaves the components in the rows from \<open>k\<close> on and does not touch the rows before.\<close>

definition split_result :: "nat \<Rightarrow> string list \<Rightarrow> string list \<Rightarrow> (nat \<times> string list) option \<Rightarrow> bool" where
  "split_result k ps rows r \<longleftrightarrow>
     (case r of None \<Rightarrow> \<not> path_fits k ps
      | Some (k', rows') \<Rightarrow> path_fits k ps \<and> Suc k' = k + length ps \<and> length rows' = 6
          \<and> take k rows' = take k rows
          \<and> (\<forall>i < length ps. rows' ! (k + i) = ps ! i @ replicate (10 - length (ps ! i)) NUL))"

lemma split_result_Cons:
  assumes r: "split_result (Suc k) ps rows r" and h: "row_holds k p rows" and p: "length p \<le> 9" "ps \<noteq> []"
  shows "split_result k (p # ps) rows r"
proof (cases r)
  case None
  then show ?thesis using r p by (simp add: split_result_def)
next
  case (Some x)
  obtain k' rows' where x: "x = (k', rows')" by (cases x)
  have f: "path_fits (Suc k) ps" "Suc k' = Suc k + length ps" "length rows' = 6"
    and tk: "take (Suc k) rows' = take (Suc k) rows"
    and nx: "\<And>i. i < length ps \<Longrightarrow> rows' ! (Suc k + i) = ps ! i @ replicate (10 - length (ps ! i)) NUL"
    using r unfolding Some x split_result_def by auto
  have "rows' ! k = rows ! k" using tk by (metis lessI nth_take)
  then have k0: "rows' ! k = p @ replicate (10 - length p) NUL" using h by (simp add: row_holds_def)
  have "take k rows' = take k rows" using tk by (metis le_less lessI min.absorb3 min.commute take_take)
  moreover have "rows' ! (k + i) = (p # ps) ! i @ replicate (10 - length ((p # ps) ! i)) NUL"
    if "i < length (p # ps)" for i
    using that k0 nx [of "i - 1"] by (cases i) auto
  ultimately show ?thesis using f p unfolding Some x split_result_def by simp
qed

lemma split_loop_eq:
  "row_holds k u rows \<Longrightarrow> split_result k (pieces u cs) rows (split_loop cs (length u) k rows)"
proof (induction u cs arbitrary: k rows rule: pieces.induct)
  case (1 u)
  note h = row_holds_terminate [OF 1, of 1]
  show ?case
    using 1 h by (auto simp: split_result_def path_fits_def row_holds_def path_buffer_def)
next
  case (2 u c cs)
  have stuck: "\<not> path_fits k (pieces u (c # cs))" if "9 < length u + 1"
    using path_fits_first [of k "pieces u (c # cs)"] pieces_grow [of u "c # cs"] that by auto
  show ?case
  proof (cases "length u < 10")
    case False
    then have "put2 k (length u) c rows = None"
      using "2.prems" by (simp add: row_holds_def put2_eq)
    then show ?thesis using stuck False by (auto simp: split_result_def)
  next
    case True
    define w where "w = u @ [c]"
    obtain rows1 where r1: "put2 k (length u) c rows = Some rows1" and h1: "row_holds k w rows1"
      and tk: "take k rows1 = take k rows"
      using row_holds_put [OF "2.prems" True, of c] by (auto simp: w_def)
    have keep: "split_result k ps rows r" if "split_result k ps rows1 r" for ps r
      using that tk by (auto simp: split_result_def split: option.splits)
    have lw: "length w = Suc (length u)" by (simp add: w_def)
    have t: "put2 k (Suc (length u)) NUL rows1 = (if length w < 10 then Some rows1 else None)"
      using row_holds_terminate [OF h1, of 0] lw by simp
    show ?thesis
    proof (cases "c = CHR ''/'' \<and> cs \<noteq> []")
      case inner: True
      then have ps: "pieces u (c # cs) = w # pieces [] cs" by (simp add: w_def)
      show ?thesis
      proof (cases "length w < 10 \<and> Suc k < 6")
        case False
        have "split_loop (c # cs) (length u) k rows = None"
          using inner r1 t False h1 by (auto simp: clear_row_eq row_holds_def)
        moreover have "\<not> path_fits k (w # pieces [] cs)"
        proof -
          have "1 \<le> length (pieces [] cs)" by (metis Suc_leI One_nat_def length_greater_0_conv pieces_not_Nil)
          then show ?thesis using False by (auto simp: path_fits_def)
        qed
        ultimately show ?thesis unfolding ps by (simp add: split_result_def)
      next
        case ok: True
        define rows2 where "rows2 = rows1[Suc k := replicate 10 NUL]"
        note nx = row_holds_next [OF h1 conjunct2 [OF ok], folded rows2_def]
        have e: "split_loop (c # cs) (length u) k rows = split_loop cs 0 (Suc k) rows2"
          using inner r1 t ok nx by simp
        have "split_result (Suc k) (pieces [] cs) rows2 (split_loop cs 0 (Suc k) rows2)"
          using "2.IH"(1) [OF inner, of "Suc k" rows2] nx by simp
        then have "split_result k (w # pieces [] cs) rows2 (split_loop cs 0 (Suc k) rows2)"
        proof (rule split_result_Cons)
          show "row_holds k w rows2" using h1 by (auto simp: row_holds_def rows2_def)
          show "length w \<le> 9" "pieces [] cs \<noteq> []" using ok by auto
        qed
        moreover have "take k rows2 = take k rows1" by (simp add: rows2_def)
        ultimately show ?thesis unfolding e ps
          by (intro keep) (auto simp: split_result_def split: option.splits)
      qed
    next
      case rest: False
      have ps: "pieces u (c # cs) = pieces w cs" using rest by (auto simp: w_def)
      have ih: "split_result k (pieces w cs) rows1 (split_loop cs (Suc (length u)) k rows1)"
        using "2.IH"(2) [OF rest, of k rows1] h1 lw unfolding w_def by simp
      show ?thesis
      proof (cases "c = CHR ''/'' \<and> \<not> length w < 10")
        case True
        then have "split_loop (c # cs) (length u) k rows = None" using r1 t by simp
        moreover have "\<not> path_fits k (pieces w cs)" using stuck True lw ps by auto
        ultimately show ?thesis unfolding ps by (simp add: split_result_def)
      next
        case False
        then have "split_loop (c # cs) (length u) k rows = split_loop cs (Suc (length u)) k rows1"
          using rest r1 t by auto
        with ih show ?thesis unfolding ps by (intro keep) simp
      qed
    qed
  qed
qed

definition names_are :: "string list \<Rightarrow> string list \<Rightarrow> bool" where
  "names_are rows ps \<longleftrightarrow> length ps \<le> length rows
     \<and> (\<forall>i < length ps. terminated (rows ! i) \<and> cstr (rows ! i) = ps ! i)"

lemma cstr_pad: "NUL \<notin> set u \<Longrightarrow> 0 < m \<Longrightarrow> cstr (u @ replicate m NUL) = u"
  by (cases m) auto

lemma pieces_NUL_free:
  "NUL \<notin> set u \<Longrightarrow> NUL \<notin> set cs \<Longrightarrow> p \<in> set (pieces u cs) \<Longrightarrow> NUL \<notin> set p"
  using concat_pieces [of u cs] by (metis UN_I Un_iff set_append set_concat)

lemma path_fits_lengths: "path_fits k ps \<Longrightarrow> p \<in> set ps \<Longrightarrow> length p \<le> 9"
  by (cases ps rule: rev_cases) (auto simp: path_fits_def)

lemma names_are_Cons:
  assumes "terminated (rows ! 0)" "cstr (rows ! 0) = p" "Suc (length ps) \<le> length rows"
    and "\<And>i. i < length ps \<Longrightarrow> rows ! Suc i = ps ! i @ replicate (10 - length (ps ! i)) NUL"
    and "\<And>q. q \<in> set ps \<Longrightarrow> NUL \<notin> set q \<and> length q \<le> 9"
  shows "names_are rows (p # ps)"
  unfolding names_are_def
proof (intro conjI allI impI)
  fix i assume i: "i < length (p # ps)"
  show "terminated (rows ! i)" "cstr (rows ! i) = (p # ps) ! i"
  proof -
    show "terminated (rows ! i)"
    proof (cases i)
      case (Suc j)
      then have j: "j < length ps" using i by simp
      have "length (ps ! j) \<le> 9" using assms(5) j by simp
      then show ?thesis using assms(4) [OF j] Suc by (simp add: terminated_def)
    qed (use assms in simp)
    show "cstr (rows ! i) = (p # ps) ! i"
    proof (cases i)
      case (Suc j)
      then have j: "j < length ps" using i by simp
      have "length (ps ! j) \<le> 9" "NUL \<notin> set (ps ! j)" using assms(5) j by simp_all
      then show ?thesis using assms(4) [OF j] Suc by (simp add: cstr_pad)
    qed (use assms in simp)
  qed
qed (use assms in simp)

definition split_spec :: "string list \<Rightarrow> (nat \<times> string list) option \<Rightarrow> bool" where
  "split_spec ps r \<longleftrightarrow>
     (case r of None \<Rightarrow> \<not> path_fits 0 ps
      | Some (k, rows') \<Rightarrow> path_fits 0 ps \<and> Suc k = length ps \<and> names_are rows' ps)"

lemma split_path_eq:
  assumes pb: "path_buffer rows" and fn: "terminated file_name" "file_name ! 0 = CHR ''/''"
  shows "split_spec (pieces [] (cstr file_name)) (split_path file_name rows)"
proof -
  obtain c rest where f: "file_name = c # rest" using fn(1) by (cases file_name) auto
  have c: "c = CHR ''/''" "c \<noteq> NUL" using fn(2) f by (auto simp: NUL_def)
  define cs where "cs = cstr rest"
  have cf: "cstr file_name = CHR ''/'' # cs" using f c by (simp add: cstr_Cons cs_def)
  define row where "row = (rows ! 0)[0 := CHR ''/'', 1 := NUL]"
  have lr: "length (rows ! 0) = 10" using pb path_buffer_nth [of rows 0] by simp
  then have row: "terminated row" "cstr row = ''/''" "length row = 10"
    by (cases "rows ! 0"; cases "tl (rows ! 0)"; simp add: row_def NUL_def cstr_Cons)+
  have r0: "length rows = 6" using pb by (simp add: path_buffer_def)
  have first: "split_path file_name rows =
      (if cs \<noteq> [] then do { rows \<leftarrow> clear_row 1 (rows[0 := row]); split_loop cs 0 1 rows }
       else split_loop [] 1 0 (rows[0 := row]))"
  proof -
    have "take (Suc (length cs)) file_name = CHR ''/'' # cs"
      using take_length_cstr [of file_name] cf by simp
    then show ?thesis
      using pb lr r0 fn(1) cf by (simp add: split_path_def put2_eq row_def)
  qed
  show ?thesis
  proof (cases "cs = []")
    case True
    have "split_path file_name rows = Some (0, (rows[0 := row[Suc (Suc 0) := NUL]]))"
      using first True pb row r0 by (simp add: put2_eq)
    moreover have "terminated (row[Suc (Suc 0) := NUL])" "cstr (row[Suc (Suc 0) := NUL]) = ''/''"
      using lr by (cases "rows ! 0"; cases "tl (rows ! 0)"; simp add: row_def NUL_def cstr_Cons)+
    ultimately show ?thesis using True cf r0
      by (simp add: split_spec_def names_are_def path_fits_def)
  next
    case False
    define rows1 where "rows1 = rows[0 := row, Suc 0 := replicate 10 NUL]"
    have h: "row_holds 1 [] rows1" using pb row r0 by (simp add: row_holds_def rows1_def)
    have e: "split_path file_name rows = split_loop cs 0 1 rows1"
      using first False pb row by (simp add: clear_row_eq rows1_def)
    have ps: "pieces [] (cstr file_name) = ''/'' # pieces [] cs" using cf False by simp
    have res: "split_result 1 (pieces [] cs) rows1 (split_path file_name rows)"
      using split_loop_eq [OF h, of cs] e by simp
    show ?thesis
    proof (cases "split_path file_name rows")
      case None
      then show ?thesis using res unfolding ps by (simp add: split_result_def split_spec_def)
    next
      case (Some x)
      obtain k' rows' where x: "x = (k', rows')" by (cases x)
      have f: "path_fits 1 (pieces [] cs)" "Suc k' = 1 + length (pieces [] cs)" "length rows' = 6"
        and tk: "take 1 rows' = take 1 rows1"
        and nx: "\<And>i. i < length (pieces [] cs) \<Longrightarrow>
          rows' ! (1 + i) = pieces [] cs ! i @ replicate (10 - length (pieces [] cs ! i)) NUL"
        using res unfolding Some x split_result_def by auto
      have "rows' ! 0 = rows1 ! 0" using tk by (metis nth_take zero_less_one)
      then have "rows' ! 0 = row" using r0 by (simp add: rows1_def)
      then have "names_are rows' (''/'' # pieces [] cs)"
        using row f nx pieces_NUL_free [of "[]" cs] path_fits_lengths [OF f(1)]
        by (intro names_are_Cons) (auto simp: path_fits_def cs_def)
      then show ?thesis using f unfolding ps Some x split_spec_def by simp
    qed
  qed
qed

section \<open>The tree\<close>

text \<open>
  The file tree that the structures represent.  \<open>repr s t\<close>: the tnode at the address of \<open>t\<close>, its inode
  and its arrays hold \<open>t\<close>.
\<close>

datatype ftree = Entry (ename: string) (eaddr: u64) (isdir: bool) (dirs: "ftree list") (files: "ftree list")

definition is_folder :: "u32 \<Rightarrow> bool" where
  "is_folder f \<longleftrightarrow> f = FS_DIRECTORY \<or> f = FS_MOUNTPOINT"

definition stored_at :: "u64 \<Rightarrow> ftree list \<Rightarrow> bool" where
  "stored_at a ts \<longleftrightarrow> (\<forall>i < length ts. eaddr (ts ! i) = tnode_at a i)"

fun repr :: "fsys \<Rightarrow> ftree \<Rightarrow> bool" where
  "repr s (Entry nm a d ds fs) \<longleftrightarrow>
     a \<noteq> 0 \<and> terminated (t_name (tnodes s a)) \<and> cstr (t_name (tnodes s a)) = nm
     \<and> is_folder (i_flags (inode_of s a)) = d
     \<and> (d \<longrightarrow> num_sub_directory (inode_of s a) = int (length ds)
          \<and> num_sub_files (inode_of s a) = int (length fs)
          \<and> stored_at (sub_directory_list (inode_of s a)) ds
          \<and> stored_at (sub_files_list (inode_of s a)) fs)
     \<and> (\<forall>t \<in> set ds. repr s t) \<and> (\<forall>t \<in> set fs. repr s t)"

text \<open>The specification of the search: the first entry, directories before files, that matches the names.\<close>

fun first_of :: "('a \<Rightarrow> 'b option) \<Rightarrow> 'a list \<Rightarrow> 'b option" where
  "first_of f [] = None"
| "first_of f (t # ts) = (case f t of None \<Rightarrow> first_of f ts | Some b \<Rightarrow> Some b)"

fun tree_find :: "string list \<Rightarrow> ftree \<Rightarrow> u64 option" where
  "tree_find [] t = None"
| "tree_find [nm] t = (if ename t = nm then Some (eaddr t) else None)"
| "tree_find (nm # nm' # nms) t =
     (if ename t = nm \<and> isdir t then first_of (tree_find (nm' # nms)) (dirs t @ files t) else None)"

definition found :: "u64 option \<Rightarrow> u64" where
  "found r = (case r of None \<Rightarrow> 0 | Some a \<Rightarrow> a)"

lemma first_of_append:
  "first_of f (xs @ ys) = (case first_of f xs of None \<Rightarrow> first_of f ys | Some b \<Rightarrow> Some b)"
  by (induction xs) (auto split: option.splits)

lemma first_of_SomeD: "first_of f xs = Some b \<Longrightarrow> \<exists>x \<in> set xs. f x = Some b"
  by (induction xs) (auto split: option.splits)

lemma tree_find_nonnull:
  "repr s t \<Longrightarrow> tree_find nms t = Some a \<Longrightarrow> a \<noteq> 0"
proof (induction nms t rule: tree_find.induct)
  case (3 nm nm' nms t)
  obtain n b d ds fs where t: "t = Entry n b d ds fs" by (cases t)
  have "first_of (tree_find (nm' # nms)) (ds @ fs) = Some a" using 3 t by (auto split: if_splits)
  then obtain u where "u \<in> set (ds @ fs)" "tree_find (nm' # nms) u = Some a"
    by (blast dest: first_of_SomeD)
  then show ?case using 3 t by (auto split: if_splits)
next
  case (2 nm t)
  then show ?case by (cases t) (auto split: if_splits)
qed simp

lemma first_hit_first_of:
  assumes "\<And>j. j < length ts \<Longrightarrow> f (i + j) = Some (found (g (ts ! j)))"
    and "\<And>t a. t \<in> set ts \<Longrightarrow> g t = Some a \<Longrightarrow> a \<noteq> 0"
  shows "first_hit i (length ts) f = Some (found (first_of g ts))"
  using assms
proof (induction ts arbitrary: i)
  case Nil
  then show ?case by (simp add: found_def)
next
  case (Cons t ts)
  have h: "f i = Some (found (g t))" using Cons.prems(1) [of 0] by simp
  have r: "first_hit (Suc i) (length ts) f = Some (found (first_of g ts))"
  proof (rule Cons.IH)
    show "f (Suc i + j) = Some (found (g (ts ! j)))" if "j < length ts" for j
      using Cons.prems(1) [of "Suc j"] that by simp
  qed (use Cons.prems(2) in auto)
  show ?case using h r Cons.prems(2) [of t] by (auto simp: found_def split: option.splits)
qed

text \<open>The search of the code is the search of the tree.\<close>

lemma find_from_refines:
  assumes "repr s t" "depth + n < length names"
    and "\<And>i. i \<le> n \<Longrightarrow> terminated (names ! (depth + i))"
  shows "find_from n s names depth (eaddr t)
     = Some (found (tree_find (map (\<lambda>i. cstr (names ! i)) [depth..<Suc (depth + n)]) t))"
  using assms
proof (induction n arbitrary: depth t)
  case 0
  obtain nm a d ds fs where t: "t = Entry nm a d ds fs" by (cases t)
  show ?case using 0 "0.prems"(3) [of 0] by (auto simp: t found_def)
next
  case (Suc n)
  obtain nm a d ds fs where t: "t = Entry nm a d ds fs" by (cases t)
  define nms where "nms = map (\<lambda>i. cstr (names ! i)) [Suc depth..<Suc (Suc depth + n)]"
  have up: "map (\<lambda>i. cstr (names ! i)) [depth..<Suc (depth + Suc n)] = cstr (names ! depth) # nms"
    by (simp add: nms_def upt_conv_Cons del: upt_Suc)
  have ne: "nms \<noteq> []" by (simp add: nms_def)
  note r = Suc.prems(1) [unfolded t]
  have sub: "find_from n s names (depth + 1) (eaddr u) = Some (found (tree_find nms u))"
    if "u \<in> set ds \<union> set fs" for u
  proof -
    have ru: "repr s u" using r that by auto
    have "find_from n s names (Suc depth) (eaddr u) = Some (found (tree_find nms u))"
      unfolding nms_def using Suc.prems(2) Suc.prems(3) [of "Suc i" for i]
      by (intro Suc.IH [OF ru]) auto
    then show ?thesis by simp
  qed
  have nn: "b \<noteq> 0" if "u \<in> set ds \<union> set fs" "tree_find nms u = Some b" for u b
    using r that tree_find_nonnull [of s u nms b] by auto
  show ?case
  proof (cases "cstr (names ! depth) = nm \<and> d")
    case False
    have "tree_find (cstr (names ! depth) # nms) t = None"
      using False ne by (cases nms) (auto simp: t)
    then show ?thesis
      using r False Suc.prems(2) Suc.prems(3) [of 0] unfolding up
      by (auto simp: t found_def is_folder_def Let_def)
  next
    case True
    have sd: "stored_at (sub_directory_list (inode_of s a)) ds"
      "stored_at (sub_files_list (inode_of s a)) fs" using r True by auto
    have D: "first_hit 0 (length ds) (\<lambda>i. find_from n s names (depth + 1)
        (tnode_at (sub_directory_list (inode_of s a)) i)) = Some (found (first_of (tree_find nms) ds))"
      using sd(1) sub nn by (intro first_hit_first_of) (auto simp: stored_at_def, metis Un_iff nth_mem)
    have F: "first_hit 0 (length fs) (\<lambda>i. find_from n s names (depth + 1)
        (tnode_at (sub_files_list (inode_of s a)) i)) = Some (found (first_of (tree_find nms) fs))"
      using sd(2) sub nn by (intro first_hit_first_of) (auto simp: stored_at_def, metis Un_iff nth_mem)
    have T: "tree_find (cstr (names ! depth) # nms) t = first_of (tree_find nms) (ds @ fs)"
      using True ne by (cases nms) (auto simp: t)
    have nz: "first_of (tree_find nms) ds = Some b \<Longrightarrow> b \<noteq> 0" for b
      using nn by (blast dest: first_of_SomeD)
    have f: "is_folder (i_flags (inode_of s a))" "num_sub_directory (inode_of s a) = int (length ds)"
      "num_sub_files (inode_of s a) = int (length fs)" "terminated (t_name (tnodes s a))"
      "cstr (t_name (tnodes s a)) = nm" using r True by auto
    have "find_from (Suc n) s names depth (eaddr t)
        = (let ret = found (first_of (tree_find nms) ds)
           in if ret \<noteq> 0 then Some ret else Some (found (first_of (tree_find nms) fs)))"
      using True f D F Suc.prems(2) Suc.prems(3) [of 0]
      by (simp add: t is_folder_def Let_def del: first_hit.simps)
    then show ?thesis unfolding up T using nz
      by (auto simp: found_def first_of_append split: option.splits)
  qed
qed

lemma cstr_replicate_NUL [simp]: "cstr (replicate n (CHR 0x00)) = []" "cstr (replicate n NUL) = []"
  by (cases n; simp add: cstr_Cons NUL_def)+

lemma names_are_map:
  "names_are rows ps \<Longrightarrow> map (\<lambda>i. cstr (rows ! i)) [0..<length ps] = ps"
  by (auto simp: names_are_def intro: nth_equalityI)

lemma find_file_eq:
  assumes pb: "path_buffer rows" and fn: "terminated file_name" "file_name ! 0 = CHR ''/''"
    and root: "repr s root" "eaddr root = filefs_root s"
  shows "find_file rows file_name s =
    (if path_fits 0 (pieces [] (cstr file_name))
     then Some (found (tree_find (pieces [] (cstr file_name)) root)) else None)"
proof -
  define ps where "ps = pieces [] (cstr file_name)"
  have sp: "split_spec ps (split_path file_name rows)"
    unfolding ps_def by (rule split_path_eq [OF pb fn])
  have c: "aget file_name 0 = Some (CHR ''/'')" using fn by (cases file_name) auto
  show ?thesis
  proof (cases "split_path file_name rows")
    case None
    then show ?thesis using sp c unfolding ps_def [symmetric] by (simp add: find_file_def split_spec_def)
  next
    case (Some x)
    obtain k rows' where x: "x = (k, rows')" by (cases x)
    have f: "path_fits 0 ps" "Suc k = length ps" "names_are rows' ps"
      using sp unfolding Some x split_spec_def by auto
    have "find_from k s rows' 0 (eaddr root)
        = Some (found (tree_find (map (\<lambda>i. cstr (rows' ! i)) [0..<Suc (0 + k)]) root))"
      using f by (intro find_from_refines [OF root(1)]) (auto simp: names_are_def)
    then show ?thesis
      using c f root(2) names_are_map [OF f(3)] unfolding ps_def [symmetric]
      by (simp add: find_file_def Some x del: upt_Suc)
  qed
qed

section \<open>Descriptors\<close>

lemma first_free_Some:
  "first_free lo fds = Some i \<longleftrightarrow> lo \<le> i \<and> i < 25 \<and> fds ! i = 0 \<and> (\<forall>j. lo \<le> j \<and> j < i \<longrightarrow> fds ! j \<noteq> 0)"
proof -
  have "lo \<le> i \<and> i < 25 \<and> fds ! i = 0 \<and> (\<forall>j. lo \<le> j \<and> j < i \<longrightarrow> fds ! j \<noteq> 0)"
    if ff: "first_free lo fds = Some i"
  proof -
    obtain k where u: "k < length [lo..<25]" "fds ! ([lo..<25] ! k) = 0" "i = [lo..<25] ! k"
        "\<forall>j < k. fds ! ([lo..<25] ! j) \<noteq> 0"
      using ff unfolding first_free_def find_Some_iff by blast
    then have k: "k < 25 - lo" "fds ! (lo + k) = 0" "i = lo + k" "\<forall>j < k. fds ! (lo + j) \<noteq> 0"
      by auto
    have "fds ! j \<noteq> 0" if "lo \<le> j" "j < i" for j
      using k(4) k(3) that by (metis add_diff_inverse_nat nat_add_left_cancel_less not_less)
    then show ?thesis using k by auto
  qed
  moreover have "first_free lo fds = Some i"
    if "lo \<le> i" "i < 25" "fds ! i = 0" "\<forall>j. lo \<le> j \<and> j < i \<longrightarrow> fds ! j \<noteq> 0"
    unfolding first_free_def find_Some_iff
    by (rule exI [of _ "i - lo"]) (use that in auto)
  ultimately show ?thesis by blast
qed

lemma first_free_None: "first_free lo fds = None \<longleftrightarrow> (\<forall>j. lo \<le> j \<and> j < 25 \<longrightarrow> fds ! j \<noteq> 0)"
  by (auto simp: first_free_def find_None_iff)

text \<open>What an opened copy shares with the file it was opened from.\<close>

definition copy_of :: "fsys \<Rightarrow> u64 \<Rightarrow> fsys \<Rightarrow> u64 \<Rightarrow> bool" where
  "copy_of s item s' tn \<longleftrightarrow>
     cstr (t_name (tnodes s' tn)) = cstr (t_name (tnodes s item)) \<and> t_size (tnodes s' tn) = t_size (tnodes s item)
     \<and> i_start (inode_of s' tn) = i_start (inode_of s item) \<and> i_offset (inode_of s' tn) = i_offset (inode_of s item)
     \<and> i_flags (inode_of s' tn) = i_flags (inode_of s item) \<and> i_read (inode_of s' tn) = i_read (inode_of s item)
     \<and> i_write (inode_of s' tn) = i_write (inode_of s item)
     \<and> num_sub_directory (inode_of s' tn) = 0 \<and> num_sub_files (inode_of s' tn) = 0"

lemma copytnode_eq:
  assumes "terminated (t_name (tnodes s item))"
    and "length (cstr (t_name (tnodes s item))) < length (t_name (tnodes s tn))"
    and "tn \<noteq> item"
  obtains s' where "copytnode tn no item s = Some s'" "copy_of s item s' tn"
    "file_descriptors s' = file_descriptors s"
    "\<And>a. a \<noteq> tn \<Longrightarrow> tnodes s' a = tnodes s a" "\<And>a. a \<noteq> no \<Longrightarrow> inodes s' a = inodes s a"
    "link_to_inode (tnodes s' tn) = no"
  using assms
  by (auto simp: copytnode_def copy_of_def set_tnode_def set_inode_def inode_of_def Let_def)

section \<open>Reading a file\<close>

text \<open>\<open>open_at s node n off\<close>: a regular file of \<open>n\<close> bytes, read up to \<open>off\<close>.\<close>

definition open_at :: "fsys \<Rightarrow> u64 \<Rightarrow> nat \<Rightarrow> nat \<Rightarrow> bool" where
  "open_at s node n off \<longleftrightarrow> i_read (inode_of s node) = Do_fread
     \<and> t_size (tnodes s node) = of_nat n \<and> i_offset (inode_of s node) = of_nat off
     \<and> n < 2 ^ 31 \<and> unat (i_start (inode_of s node)) + n < 2 ^ 64
     \<and> unat (i_start (inode_of s node)) + off < 2 ^ 64"

lemma unat_add_of_nat64:
  fixes a :: u64
  assumes "unat a + n < 2 ^ 64"
  shows "unat (a + of_nat n) = unat a + n"
  using unat_add_mult64 [of a 1 n] assms by simp

lemma read_vfs_eq:
  assumes "open_at s node n off" and sz: "0 \<le> sz" "sz < 2 ^ 31"
  defines "position \<equiv> i_start (inode_of s node) + of_nat off"
    and "r \<equiv> if int n < sz then int n - int off else sz"
  shows "read_vfs mem node sz s =
    (if n \<le> off then Some (- 1, [], s)
     else Some (r, do_fread mem r position,
       set_inode (link_to_inode (tnodes s node)) (\<lambda>i. i\<lparr>i_offset := of_nat off + word_of_int r\<rparr>) s))"
proof -
  note o = assms(1) [unfolded open_at_def]
  define start where "start = i_start (inode_of s node)"
  have n64: "n < 2 ^ 64" using o by simp
  have u: "unat position = unat start + off" "unat (start + of_nat n) = unat start + n"
    using o by (simp_all add: position_def start_def unat_add_of_nat64)
  have le: "start + of_nat n \<le> position \<longleftrightarrow> n \<le> off" by (simp add: word_le_nat_alt u)
  have szw: "unat (word_of_int sz :: u64) = nat sz"
    using sz by (simp add: unat_eq_nat_uint uint_word_of_int take_bit_int_eq_self_iff)
  have lt: "(of_nat n :: u64) < word_of_int sz \<longleftrightarrow> int n < sz"
    using sz n64 szw by (auto simp: word_less_nat_alt unat_of_nat64)
  have d: "to_int (start + of_nat n - position) = int n - int off" if "\<not> n \<le> off"
  proof -
    have e: "start + of_nat n - position = of_nat (n - off)"
      using that by (simp add: position_def start_def of_nat_diff)
    have b: "n - off < 2 ^ 31" "n - off < 2 ^ 64" using o by auto
    show ?thesis unfolding e using that b(1) to_int_small [of "of_nat (n - off)"]
      unfolding unat_of_nat64 [OF b(2)] by simp
  qed
  show ?thesis
    using o le lt d u
    by (auto simp: read_vfs_def Let_def inode_of_def set_inode_def to_int_sub_low r_def start_def position_def)
qed

section \<open>Directory streams\<close>

lemma for_n_fill_from:
  assumes "lo + n \<le> length ds" "\<And>i. i < n \<Longrightarrow> g i (ds ! (lo + i)) = Some (h i)"
  shows "for_n 0 n (\<lambda>i ds. do { d \<leftarrow> aget ds (lo + i); d \<leftarrow> g i d; aput ds (lo + i) d }) ds
     = Some (take lo ds @ map h [0..<n] @ drop (lo + n) ds)"
  using assms
proof (induction n)
  case 0
  then show ?case by simp
next
  case (Suc n)
  have "for_n 0 n (\<lambda>i ds. do { d \<leftarrow> aget ds (lo + i); d \<leftarrow> g i d; aput ds (lo + i) d }) ds
     = Some (take lo ds @ map h [0..<n] @ drop (lo + n) ds)"
    using Suc by simp
  moreover have "(take lo ds @ map h [0..<n] @ drop (lo + n) ds) ! (lo + n) = ds ! (lo + n)"
    using Suc.prems(1) by (simp add: nth_append)
  moreover have "drop (lo + n) ds = ds ! (lo + n) # drop (Suc (lo + n)) ds"
    using Suc.prems(1) by (simp add: Cons_nth_drop_Suc)
  ultimately show ?case unfolding for_n_Suc_right
    using Suc.prems by (simp add: list_update_append)
qed

text \<open>The name that an entry of a directory is listed with.\<close>

definition listed_name :: "proc_view \<Rightarrow> fsys \<Rightarrow> u64 \<Rightarrow> string" where
  "listed_name procs s node =
     (let p = link_to_process (inode_of s node)
      in cstr (if p = 0 then t_name (tnodes s node) else fst (procs p)))"

definition short_name :: "string \<Rightarrow> bool" where
  "short_name nm \<longleftrightarrow> terminated nm \<and> length (cstr nm) < 26"

lemma dir_entry_eq:
  "length (d_name d) = 26 \<Longrightarrow> short_name nm \<Longrightarrow>
   \<exists>d'. dir_entry fd nm d = Some d' \<and> cstr (d_name d') = cstr nm \<and> length (d_name d') = 26
     \<and> terminated (d_name d') \<and> d_no d' = 0 \<and> d_fd d' = fd"
  by (auto simp: dir_entry_def short_name_def terminated_def)

lemma file_entry_eq:
  assumes d: "length (d_name d) = 26"
    and nm: "short_name (t_name (tnodes s node))"
    and p: "link_to_process (inode_of s node) \<noteq> 0 \<Longrightarrow> short_name (fst (procs (link_to_process (inode_of s node))))"
  shows "\<exists>d'. file_entry procs s fd node d = Some d' \<and> cstr (d_name d') = listed_name procs s node
     \<and> length (d_name d') = 26 \<and> terminated (d_name d') \<and> d_no d' = 0 \<and> d_fd d' = fd"
proof -
  obtain d1 where d1: "dir_entry fd (t_name (tnodes s node)) d = Some d1"
    "cstr (d_name d1) = cstr (t_name (tnodes s node))" "length (d_name d1) = 26" "terminated (d_name d1)"
    "d_no d1 = 0" "d_fd d1 = fd"
    using dir_entry_eq [OF d nm] by blast
  obtain pn st pid ppid where pv: "procs (link_to_process (inode_of s node)) = (pn, st, pid, ppid)"
    by (metis prod.exhaust)
  show ?thesis
  proof (cases "link_to_process (inode_of s node) = 0")
    case True
    then show ?thesis using d1 by (simp add: file_entry_def listed_name_def)
  next
    case False
    then have "terminated pn" "length (cstr pn) < 26" using p pv by (simp_all add: short_name_def)
    then show ?thesis using d1 pv False
      by (auto simp: file_entry_def listed_name_def Let_def terminated_def)
  qed
qed

text \<open>A stream of which \<open>k\<close> entries were read.\<close>

definition stream :: "fsys \<Rightarrow> nat \<Rightarrow> dirent list \<Rightarrow> bool" where
  "stream s k ds \<longleftrightarrow> k \<le> length ds \<and> (\<forall>i < length ds. d_no (ds ! i) = (if i < k then 1 else 0)
       \<and> terminated (d_name (ds ! i)) \<and> 26 \<le> length (d_name (ds ! i)) \<and> cstr (d_name (ds ! i)) \<noteq> [])
     \<and> (ds \<noteq> [] \<longrightarrow> 0 \<le> d_fd (ds ! 0) \<and> d_fd (ds ! 0) < 25 \<and> length (file_descriptors s) = 25
       \<and> (let ino = inode_of s (file_descriptors s ! nat (d_fd (ds ! 0)))
          in num_sub_files ino + num_sub_directory ino = int (length ds)))"

lemma unread_eq:
  assumes "k \<le> length ds" "\<And>i. i < length ds \<Longrightarrow> d_no (ds ! i) = (if i < k then 1 else 0)"
  shows "unread j ds = (if k < length ds then Some (j + k) else None)"
  using assms
proof (induction ds arbitrary: j k)
  case Nil
  then show ?case by simp
next
  case (Cons d ds)
  show ?case
  proof (cases k)
    case 0
    then show ?thesis using Cons.prems(2) [of 0] by simp
  next
    case (Suc m)
    have "unread (Suc j) ds = (if m < length ds then Some (Suc j + m) else None)"
    proof (rule Cons.IH)
      show "d_no (ds ! i) = (if i < m then 1 else 0)" if "i < length ds" for i
        using Cons.prems(2) [of "Suc i"] that Suc by simp
    qed (use Cons.prems Suc in simp)
    then show ?thesis using Cons.prems(2) [of 0] Suc by simp
  qed
qed

lemma clear_dir_overruns:
  "(\<And>d. d \<in> set ds \<Longrightarrow> terminated (d_name d) \<and> 26 \<le> length (d_name d) \<and> cstr (d_name d) \<noteq> []) \<Longrightarrow> clear_dir ds = None"
proof (induction ds)
  case (Cons d ds)
  have "clear_dir ds = None" using Cons by simp
  then show ?case using Cons.prems [of d] by (auto simp: memset_eq bind_eq_None_conv)
qed simp

section \<open>Removing an entry\<close>

definition file_entries :: "fsys \<Rightarrow> u64 \<Rightarrow> nat \<Rightarrow> filesys_tnode list" where
  "file_entries s a n = map (\<lambda>i. tnodes s (tnode_at a i)) [0..<n]"

lemma tnode_at_inj:
  assumes "i < 2 ^ 58" "j < 2 ^ 58"
  shows "tnode_at a i = tnode_at a j \<longleftrightarrow> i = j"
proof
  assume "tnode_at a i = tnode_at a j"
  then have "(of_nat (32 * i) :: u64) = of_nat (32 * j)" by (simp add: tnode_at_def)
  moreover have "32 * i < 2 ^ 64" "32 * j < 2 ^ 64" using assms by simp_all
  ultimately show "i = j" using unat_of_nat64 by (metis mult_cancel1 zero_neq_numeral)
qed simp

lemma file_entries_set_tnode:
  "n \<le> 2 ^ 58 \<Longrightarrow> i < n \<Longrightarrow>
   file_entries (set_tnode (tnode_at a i) f s) a n = (file_entries s a n)[i := f (file_entries s a n ! i)]"
  by (rule nth_equalityI) (auto simp: file_entries_def set_tnode_def nth_list_update tnode_at_inj)

lemma length_file_entries [simp]: "length (file_entries s a n) = n"
  by (simp add: file_entries_def)

lemma nth_file_entries [simp]: "i < n \<Longrightarrow> file_entries s a n ! i = tnodes s (tnode_at a i)"
  by (simp add: file_entries_def)

lemma file_entries_less: "m \<le> n \<Longrightarrow> file_entries s a m = take m (file_entries s a n)"
  by (rule nth_equalityI) auto

lemma find_name_eq:
  assumes "terminated name" "\<And>t. t \<in> set (file_entries s (sub_files_list (inodes s ino)) (i + n)) \<Longrightarrow> terminated (t_name t)"
  shows "find_name s ino name i n = Some (i + length (takeWhile (\<lambda>t. cstr (t_name t) \<noteq> cstr name)
      (drop i (file_entries s (sub_files_list (inodes s ino)) (i + n)))))"
  using assms(2)
proof (induction n arbitrary: i)
  case 0
  then show ?case by simp
next
  case (Suc n)
  define fs where "fs = file_entries s (sub_files_list (inodes s ino)) (i + Suc n)"
  have d: "drop i fs = tnodes s (tnode_at (sub_files_list (inodes s ino)) i) # drop (Suc i) fs"
    using Cons_nth_drop_Suc [of i fs] by (simp add: fs_def)
  have t: "terminated (t_name (tnodes s (tnode_at (sub_files_list (inodes s ino)) i)))"
    using Suc.prems d unfolding fs_def [symmetric] by (metis in_set_dropD list.set_intros(1))
  have "find_name s ino name (Suc i) n = Some (Suc i + length (takeWhile (\<lambda>t. cstr (t_name t) \<noteq> cstr name) (drop (Suc i) fs)))"
    using Suc.IH [of "Suc i"] Suc.prems by (simp add: fs_def)
  then show ?case using t assms(1) unfolding fs_def [symmetric] d by simp
qed

lemma shift_files_frame:
  "inodes (shift_files a i m s) = inodes s \<and> file_descriptors (shift_files a i m s) = file_descriptors s"
  by (induction a i m s rule: shift_files.induct) (auto simp: set_tnode_def)

lemma shift_files_eq:
  assumes "n \<le> 2 ^ 58" "i + m < n"
  shows "file_entries (shift_files a i m s) a n =
    take i (file_entries s a n) @ take m (drop (Suc i) (file_entries s a n)) @ drop (i + m) (file_entries s a n)"
  using assms(2)
proof (induction m arbitrary: i s)
  case 0
  then show ?case by simp
next
  case (Suc m)
  define fs where "fs = file_entries s a n"
  have l: "length fs = n" by (simp add: fs_def)
  have e: "file_entries (set_tnode (tnode_at a i) (\<lambda>_. tnodes s (tnode_at a (Suc i))) s) a n = fs[i := fs ! Suc i]"
    using file_entries_set_tnode [OF assms(1), of i a _ s] Suc.prems by (simp add: fs_def)
  have "take (Suc i) (fs[i := fs ! Suc i]) = take i fs @ [fs ! Suc i]"
    using Suc.prems l by (simp add: take_Suc_conv_app_nth)
  moreover have "drop (Suc i) fs = fs ! Suc i # drop (Suc (Suc i)) fs"
    using Suc.prems l by (simp add: Cons_nth_drop_Suc)
  moreover have "file_entries (shift_files a i (Suc m) s) a n
      = take (Suc i) (fs[i := fs ! Suc i]) @ take m (drop (Suc (Suc i)) (fs[i := fs ! Suc i]))
        @ drop (Suc i + m) (fs[i := fs ! Suc i])"
    using Suc.IH [of "Suc i" "set_tnode (tnode_at a i) (\<lambda>_. tnodes s (tnode_at a (Suc i))) s"] Suc.prems e by simp
  ultimately show ?case unfolding fs_def [symmetric] by simp
qed

text \<open>What is left of the files when the first entry \<open>name\<close> goes, or the last one when there is none.\<close>

definition without_entry :: "string \<Rightarrow> filesys_tnode list \<Rightarrow> filesys_tnode list" where
  "without_entry name fs =
     (let i = length (takeWhile (\<lambda>t. cstr (t_name t) \<noteq> cstr name) fs)
      in if i < length fs then take i fs @ drop (Suc i) fs else butlast fs)"

lemma file_entries_cong: "tnodes s = tnodes s' \<Longrightarrow> file_entries s a n = file_entries s' a n"
  by (simp add: file_entries_def)

lemma remove_entry_eq:
  assumes name: "terminated name" and n: "num_sub_files (inodes s ino) = int n" "0 < n" "n \<le> 2 ^ 57"
    and fs: "fs = file_entries s (sub_files_list (inodes s ino)) n" "\<And>t. t \<in> set fs \<Longrightarrow> terminated (t_name t)"
  shows "\<exists>victim s'. remove_entry ino name s = Some (victim, s')
     \<and> num_sub_files (inodes s' ino) = int (n - 1)
     \<and> file_entries s' (sub_files_list (inodes s' ino)) (n - 1) = without_entry name fs
     \<and> victim = (case find (\<lambda>t. cstr (t_name t) = cstr name) fs of None \<Rightarrow> 0 | Some t \<Rightarrow> link_to_inode t)"
proof -
  define a where "a = sub_files_list (inodes s ino)"
  define i where "i = length (takeWhile (\<lambda>t. cstr (t_name t) \<noteq> cstr name) fs)"
  define m where "m = n - 1 - i"
  define s1 where "s1 = shift_files a i m s"
  define s2 where "s2 = set_tnode (tnode_at a (max i (n - 1))) (\<lambda>_. zero_tnode) s1"
  define s3 where "s3 = set_inode ino (\<lambda>k. k\<lparr>num_sub_files := int n - 1\<rparr>) s2"
  have l: "length fs = n" by (simp add: fs)
  have il: "i \<le> n" using length_takeWhile_le [of _ fs] l by (simp add: i_def)
  have fn: "find_name s ino name 0 n = Some i"
    using find_name_eq [OF name, of s ino 0 n] fs by (simp add: i_def)
  define victim where "victim = (if i < n then link_to_inode (tnodes s (tnode_at a i)) else 0)"
  have e: "remove_entry ino name s = Some (victim, s3)"
    using n fn by (simp add: remove_entry_def Let_def a_def [symmetric] s1_def s2_def s3_def m_def victim_def)
      (simp add: nat_diff_distrib)
  have v: "victim = (case find (\<lambda>t. cstr (t_name t) = cstr name) fs of None \<Rightarrow> 0 | Some t \<Rightarrow> link_to_inode t)"
  proof (cases "i < n")
    case True
    then have "cstr (t_name (fs ! i)) = cstr name"
      using l nth_length_takeWhile [of "\<lambda>t. cstr (t_name t) \<noteq> cstr name" fs] by (simp add: i_def)
    moreover have "cstr (t_name (fs ! j)) \<noteq> cstr name" if "j < i" for j
      using that nth_mem [of j "takeWhile (\<lambda>t. cstr (t_name t) \<noteq> cstr name) fs"]
      by (auto simp: i_def takeWhile_nth dest: set_takeWhileD)
    ultimately have "find (\<lambda>t. cstr (t_name t) = cstr name) fs = Some (fs ! i)"
      unfolding find_Some_iff l using True by blast
    then show ?thesis using True by (simp add: victim_def fs a_def)
  next
    case False
    then have "length (takeWhile (\<lambda>t. cstr (t_name t) \<noteq> cstr name) fs) = length fs" using il l by (simp add: i_def)
    then have "takeWhile (\<lambda>t. cstr (t_name t) \<noteq> cstr name) fs = fs"
      by (metis takeWhile_eq_take take_all_iff order_refl)
    then have "find (\<lambda>t. cstr (t_name t) = cstr name) fs = None"
      unfolding find_None_iff takeWhile_eq_all_conv by blast
    then show ?thesis using False by (simp add: victim_def)
  qed
  have n58: "n + 1 \<le> 2 ^ 58" using n(3) by simp
  have in2: "inodes s2 = inodes s" using shift_files_frame [of a i m s] by (simp add: s2_def s1_def set_tnode_def)
  have in3: "num_sub_files (inodes s3 ino) = int (n - 1)" "sub_files_list (inodes s3 ino) = a"
    using n(2) by (simp_all add: s3_def set_inode_def in2 a_def of_nat_diff)
  have F: "file_entries s3 a (n - 1) = take (n - 1) (file_entries s1 a (n + 1))"
  proof -
    have "file_entries s3 a (n - 1) = take (n - 1) (file_entries s2 a (n + 1))"
      using file_entries_less [of "n - 1" "n + 1" s3 a]
      by (simp add: s3_def set_inode_def file_entries_def)
    moreover have "max i (n - 1) < n + 1" using il by simp
    ultimately show ?thesis
      using file_entries_set_tnode [OF n58, of "max i (n - 1)" a "\<lambda>_. zero_tnode" s1]
      by (simp add: s2_def)
  qed
  have G: "take (n - 1) (file_entries s1 a (n + 1)) = without_entry name fs"
  proof -
    define gs where "gs = file_entries s a (n + 1)"
    have lg: "length gs = n + 1" by (simp add: gs_def)
    have tg: "take n gs = fs" using file_entries_less [of n "n + 1" s a] by (simp add: gs_def fs a_def)
    have "i + m < n + 1" using il n(2) by (simp add: m_def)
    then have S: "file_entries s1 a (n + 1) = take i gs @ take m (drop (Suc i) gs) @ drop (i + m) gs"
      unfolding s1_def gs_def by (rule shift_files_eq [OF n58])
    show ?thesis
    proof (cases "i < n")
      case True
      then have im: "i + m = n - 1" by (simp add: m_def)
      have "take (n - 1) (file_entries s1 a (n + 1)) = take i gs @ take m (drop (Suc i) gs)"
      proof -
        have "n - Suc i = m" using im True by simp
        then show ?thesis unfolding S using True lg by simp
      qed
      also have "\<dots> = take i fs @ drop (Suc i) fs"
      proof -
        have "take i gs = take i fs" using True tg by (metis less_imp_le min_def take_take)
        moreover have "take m (drop (Suc i) gs) = drop (Suc i) fs"
        proof -
          have "n - Suc i = m" using True im by simp
          then show ?thesis by (simp add: tg [symmetric] drop_take)
        qed
        ultimately show ?thesis by simp
      qed
      finally show ?thesis using True l by (simp add: without_entry_def Let_def i_def)
    next
      case False
      then have "i = n" "m = 0" using il by (simp_all add: m_def)
      then have "take (n - 1) (file_entries s1 a (n + 1)) = butlast fs"
        unfolding S tg [symmetric] using lg by (simp add: butlast_take)
      then show ?thesis using False l by (simp add: without_entry_def Let_def i_def)
    qed
  qed
  show ?thesis
  proof (intro exI conjI)
    show "remove_entry ino name s = Some (victim, s3)" by (rule e)
    show "num_sub_files (inodes s3 ino) = int (n - 1)" by (rule in3)
    show "file_entries s3 (sub_files_list (inodes s3 ino)) (n - 1) = without_entry name fs"
      using F G in3 by simp
    show "victim = (case find (\<lambda>t. cstr (t_name t) = cstr name) fs of None \<Rightarrow> 0 | Some t \<Rightarrow> link_to_inode t)"
      by (rule v)
  qed
qed

section \<open>Properties\<close>

text \<open>C36: \<^verbatim>\<open>find_file\<close> on an absolute path is the search of the file tree for the components of the path: it
  returns the address of the first entry (directories before files at each level) whose chain of names is the
  path, and null when there is none.  It stays inside of its path buffer exactly when the path has at most six
  components, the inner ones have at most nine characters with their slash and the last at most eight.\<close>

theorem find_file_searches_tree:
  assumes "path_buffer rows" and "terminated file_name" "file_name ! 0 = CHR ''/''"
    and "repr s root" "eaddr root = filefs_root s"
  shows "find_file rows file_name s =
    (if path_fits 0 (pieces [] (cstr file_name))
     then Some (found (tree_find (pieces [] (cstr file_name)) root)) else None)"
  using assms by (rule find_file_eq)

definition blank_node :: filesys_node where
  "blank_node = \<lparr>i_flags = FS_FILE, i_start = 0, i_offset = 0, sub_directory_list = 0, sub_files_list = 0,
     link_to_process = 0, num_sub_directory = 0, num_sub_files = 0, i_read = Do_fread, i_write = Do_write,
     i_open = NoFn\<rparr>"

definition demo_fs :: fsys where
  "demo_fs = \<lparr>
     tnodes = (\<lambda>a. zero_tnode)(100 := \<lparr>t_name = ''/'' @ replicate 9 NUL, t_size = 0, link_to_inode = 1\<rparr>,
       200 := \<lparr>t_name = ''bin/'' @ replicate 6 NUL, t_size = 0, link_to_inode = 2\<rparr>,
       300 := \<lparr>t_name = ''ls'' @ replicate 8 NUL, t_size = 8, link_to_inode = 3\<rparr>),
     inodes = (\<lambda>a. blank_node)(1 := blank_node\<lparr>i_flags := FS_MOUNTPOINT, num_sub_directory := 1,
         sub_directory_list := 200\<rparr>,
       2 := blank_node\<lparr>i_flags := FS_DIRECTORY, num_sub_files := 1, sub_files_list := 300\<rparr>,
       3 := blank_node\<lparr>i_start := 4096\<rparr>),
     file_descriptors = replicate 25 0, filefs_root = 100, proc_directory = 0\<rparr>"

definition demo_tree :: ftree where
  "demo_tree = Entry ''/'' 100 True [Entry ''bin/'' 200 True [] [Entry ''ls'' 300 False [] []]] []"

lemma demo_repr: "repr demo_fs demo_tree \<and> eaddr demo_tree = filefs_root demo_fs"
  by (simp add: demo_fs_def demo_tree_def terminated_def cstr_Cons NUL_def is_folder_def inode_of_def
      FS_FILE_def FS_MOUNTPOINT_def FS_DIRECTORY_def blank_node_def stored_at_def tnode_at_def)

lemma demo_file_path:
  "terminated (''/bin/ls'' @ [NUL])" "(''/bin/ls'' @ [NUL]) ! 0 = CHR ''/''"
  "pieces [] (cstr (''/bin/ls'' @ [NUL])) = [''/'', ''bin/'', ''ls'']"
  by (simp_all add: terminated_def cstr_Cons NUL_def)

definition demo_rows :: "string list" where
  "demo_rows = replicate 6 (replicate 10 (CHR ''x''))"

lemma demo_rows_buffer: "path_buffer demo_rows"
  by (simp add: path_buffer_def demo_rows_def)

lemma demo_find: "path_fits 0 [''/'', ''bin/'', ''ls''] \<and> tree_find [''/'', ''bin/'', ''ls''] demo_tree = Some 300"
  by (simp add: path_fits_def demo_tree_def)

theorem find_file_searches_tree_witness:
  "path_buffer demo_rows \<and> repr demo_fs demo_tree \<and> find_file demo_rows (''/bin/ls'' @ [NUL]) demo_fs = Some 300"
  using find_file_searches_tree [OF demo_rows_buffer demo_file_path(1,2) conjunct1 [OF demo_repr] conjunct2 [OF demo_repr]]
    demo_rows_buffer demo_repr demo_find
  unfolding demo_file_path(3) by (simp add: found_def)

text \<open>C39: Opening a file makes a copy of its tnode and inode, with the name, the size, the position in the image
  and the operations of the file, and stores it in the lowest free descriptor from 3 on; no other descriptor
  changes and closing the descriptor gives the old table back.  When all are taken the result is -1.\<close>

theorem fopen_lowest_descriptor_roundtrip:
  assumes item: "find_file rows file_name s = Some item" "item \<noteq> 0" "tn \<noteq> item"
    and name: "terminated (t_name (tnodes s item))"
      "length (cstr (t_name (tnodes s item))) < length (t_name (tnodes s tn))"
    and fds: "length (file_descriptors s) = 25"
  shows "\<exists>fd s'. do_fopen rows tn no file_name s = Some (fd, s') \<and> copy_of s item s' tn
    \<and> (if \<forall>j. 3 \<le> j \<and> j < 25 \<longrightarrow> file_descriptors s ! j \<noteq> 0
       then fd = - 1 \<and> file_descriptors s' = file_descriptors s
       else 3 \<le> fd \<and> fd < 25 \<and> file_descriptors s ! nat fd = 0
         \<and> (\<forall>j. 3 \<le> j \<and> j < nat fd \<longrightarrow> file_descriptors s ! j \<noteq> 0)
         \<and> file_descriptors s' = (file_descriptors s)[nat fd := tn]
         \<and> fst (do_close fd s') = 0 \<and> file_descriptors (snd (do_close fd s')) = file_descriptors s)"
proof -
  obtain s1 where s1: "copytnode tn no item s = Some s1" "copy_of s item s1 tn"
    "file_descriptors s1 = file_descriptors s"
    using copytnode_eq [OF name item(3)] by metis
  show ?thesis
  proof (cases "first_free 3 (file_descriptors s)")
    case None
    then have "do_fopen rows tn no file_name s = Some (- 1, s1)"
      using item s1 by (simp add: do_fopen_def)
    then show ?thesis using None s1 by (auto simp: first_free_None)
  next
    case (Some i)
    define s2 where "s2 = s1\<lparr>file_descriptors := (file_descriptors s)[i := tn]\<rparr>"
    have "do_fopen rows tn no file_name s = Some (int i, s2)"
      using item s1 Some by (simp add: do_fopen_def s2_def)
    moreover have "copy_of s item s2 tn" using s1(2) by (simp add: copy_of_def inode_of_def s2_def)
    moreover have "\<not> (\<forall>j. 3 \<le> j \<and> j < 25 \<longrightarrow> file_descriptors s ! j \<noteq> 0)"
      using Some unfolding first_free_Some by auto
    moreover have "3 \<le> i" "i < 25" "file_descriptors s ! i = 0" "\<forall>j. 3 \<le> j \<and> j < i \<longrightarrow> file_descriptors s ! j \<noteq> 0"
      using Some unfolding first_free_Some by auto
    moreover have "(file_descriptors s)[i := 0] = file_descriptors s"
      using calculation(6) by (metis list_update_id)
    ultimately show ?thesis by (intro exI [of _ "int i"] exI [of _ s2]) (simp add: do_close_def s2_def)
  qed
qed

lemma demo_find_file: "find_file demo_rows (''/bin/ls'' @ [NUL]) demo_fs = Some 300"
  using find_file_eq [OF demo_rows_buffer demo_file_path(1,2) conjunct1 [OF demo_repr] conjunct2 [OF demo_repr]] demo_find
  unfolding demo_file_path(3) by (simp add: found_def)

theorem fopen_lowest_descriptor_roundtrip_witness:
  "\<exists>fd s'. do_fopen demo_rows 500 5 (''/bin/ls'' @ [NUL]) demo_fs = Some (fd, s') \<and> copy_of demo_fs 300 s' 500 \<and> 3 \<le> fd
     \<and> file_descriptors (snd (do_close fd s')) = file_descriptors demo_fs"
proof -
  have n: "terminated (t_name (tnodes demo_fs 300))"
    "length (cstr (t_name (tnodes demo_fs 300))) < length (t_name (tnodes demo_fs 500))"
    "length (file_descriptors demo_fs) = 25" "file_descriptors demo_fs ! 3 = 0"
    by (simp_all add: demo_fs_def terminated_def cstr_Cons NUL_def zero_tnode_def)
  have free: "\<not> (\<forall>j. 3 \<le> j \<and> j < 25 \<longrightarrow> file_descriptors demo_fs ! j \<noteq> 0)"
    using n(4) by (intro notI) (drule spec [of _ 3], simp)
  have "(300::u64) \<noteq> 0" "(500::u64) \<noteq> 300" by simp_all
  from fopen_lowest_descriptor_roundtrip [OF demo_find_file this n(1,2,3), of 5] show ?thesis
    unfolding if_not_P [OF free] by blast
qed

text \<open>\<^verbatim>\<open>read_vfs\<close> compares the number of bytes asked for with the size of the whole file, not with what is left.
  A request of more than the file size returns what is left and moves the offset to the end; every other request
  that starts inside of the file returns exactly as many bytes as asked, also those behind the end of the file
  (\<open>n < off + sz\<close>).  At the end of the file the result is -1.\<close>

theorem read_compares_with_whole_size:
  assumes "open_at s node n off" and "0 \<le> sz" "sz < 2 ^ 31"
  shows "read_vfs mem node sz s =
    (if n \<le> off then Some (- 1, [], s)
     else let r = if int n < sz then n - off else nat sz
          in Some (int r, map (\<lambda>i. mem (i_start (inode_of s node) + of_nat off + of_nat i)) [0..<r],
               set_inode (link_to_inode (tnodes s node)) (\<lambda>i. i\<lparr>i_offset := of_nat (off + r)\<rparr>) s))"
proof (cases "int n < sz \<and> off < n")
  case True
  then have "int n - int off = int (n - off)" by auto
  then show ?thesis using read_vfs_eq [OF assms, of mem] True
    by (simp add: do_fread_def Let_def of_nat_diff del: of_nat_diff)
next
  case False
  then show ?thesis using read_vfs_eq [OF assms, of mem] assms(2)
    by (auto simp: do_fread_def Let_def)
qed

definition demo_open :: fsys where
  "demo_open = set_inode 3 (\<lambda>i. i\<lparr>i_offset := 4\<rparr>) demo_fs"

lemma demo_open_at: "open_at demo_open 300 8 4"
  by (simp add: open_at_def demo_open_def demo_fs_def inode_of_def set_inode_def blank_node_def)

theorem read_compares_with_whole_size_witness:
  "\<exists>s'. read_vfs (\<lambda>a. if a < 4104 then CHR ''x'' else CHR ''!'') 300 6 demo_open = Some (6, ''xxxx!!'', s')"
proof -
  have st: "i_start (inode_of demo_open 300) = 4096"
    by (simp add: demo_open_def demo_fs_def inode_of_def set_inode_def blank_node_def)
  have u: "[0..<6] = [0, 1, 2, 3, 4, 5 :: nat]" by (simp add: upt_rec)
  have "(0::int) \<le> 6" "(6::int) < 2 ^ 31" by simp_all
  from read_compares_with_whole_size [OF demo_open_at this, of "\<lambda>a. if a < 4104 then CHR ''x'' else CHR ''!''"]
  show ?thesis by (simp add: st u Let_def)
qed

text \<open>\<^verbatim>\<open>do_readdir\<close> on a stream of which \<open>k\<close> entries were read returns entry \<open>k\<close> and marks it, so that repeated calls
  return every entry once, in order.  After the last entry its search runs past the end of the array, and so
  does the clearing loop of \<^verbatim>\<open>do_closedir\<close>, at any time: both only stop at memory behind the array.\<close>

theorem readdir_enumerates_then_overruns:
  assumes "stream s k ds"
  shows "(case do_readdir ds s of
            None \<Rightarrow> k = length ds
          | Some (r, ds') \<Rightarrow> k < length ds \<and> r = Some k \<and> stream s (Suc k) ds' \<and> map d_name ds' = map d_name ds)
    \<and> do_closedir ds s = None"
proof -
  note st = assms [unfolded stream_def]
  have un: "unread 0 ds = (if k < length ds then Some k else None)"
    using unread_eq [of k ds 0] st by simp
  have close: "do_closedir ds s = None"
  proof (cases "ds = []")
    case False
    have "clear_dir ds = None"
      using st by (intro clear_dir_overruns) (metis in_set_conv_nth)
    then show ?thesis using False st by (simp add: do_closedir_def)
  qed (simp add: do_closedir_def)
  show ?thesis
  proof (cases "k < length ds")
    case False
    then have "do_readdir ds s = None" using un by (auto simp: do_readdir_def Let_def bind_eq_None_conv)
    then show ?thesis using False st close by simp
  next
    case True
    define ds' where "ds' = ds[k := (ds ! k)\<lparr>d_no := 1\<rparr>]"
    have ne: "ds \<noteq> []" using True by auto
    have f0: "d_fd (ds' ! 0) = d_fd (ds ! 0)" by (cases "k = 0") (use True in \<open>auto simp: ds'_def\<close>)
    have nm: "map d_name ds' = map d_name ds"
      using True by (auto simp: ds'_def map_update intro: list_update_same_conv [THEN iffD2])
    have idx: "terminated (d_name (ds ! k))" "cstr (d_name (ds ! k)) \<noteq> []" "0 \<le> d_fd (ds ! 0)"
      "nat (d_fd (ds ! 0)) < length (file_descriptors s)"
      "num_sub_files (inode_of s (file_descriptors s ! nat (d_fd (ds ! 0))))
        + num_sub_directory (inode_of s (file_descriptors s ! nat (d_fd (ds ! 0)))) = int (length ds)"
      using st True ne by (auto simp: Let_def)
    have "do_readdir ds s = Some (Some k, ds')"
      using idx un True ne by (simp add: do_readdir_def Let_def ds'_def)
    moreover have "stream s (Suc k) ds'"
      using st True ne f0 by (auto simp: stream_def ds'_def nth_list_update Let_def)
    ultimately show ?thesis using True nm close by simp
  qed
qed

definition demo_stream :: "dirent list" where
  "demo_stream = [zero_dirent\<lparr>d_name := ''ls'' @ replicate 24 NUL, d_fd := 3\<rparr>]"

definition demo_dir :: fsys where
  "demo_dir = demo_fs\<lparr>file_descriptors := (replicate 25 0)[3 := 200]\<rparr>"

lemma demo_stream_ok: "stream demo_dir 0 demo_stream"
  by (simp add: stream_def demo_stream_def demo_dir_def demo_fs_def zero_dirent_def terminated_def cstr_Cons
      inode_of_def blank_node_def NUL_def)

theorem readdir_enumerates_then_overruns_witness:
  "stream demo_dir 0 demo_stream \<and> do_readdir demo_stream demo_dir \<noteq> None \<and> do_closedir demo_stream demo_dir = None"
  using readdir_enumerates_then_overruns [OF demo_stream_ok] demo_stream_ok
  by (auto simp: demo_stream_def split: option.splits)

lemma do_opendir_lists:
  assumes find: "find_file rows dirname s = Some node" "node \<noteq> 0"
    and fd: "first_free 0 (file_descriptors s) = Some fd" "length (file_descriptors s) = 25"
    and ino: "inode_of s node = ino" "num_sub_directory ino = int nd" "num_sub_files ino = int nf"
    and dn: "\<And>i. i < nd \<Longrightarrow> short_name (t_name (tnodes s (tnode_at (sub_directory_list ino) i)))"
    and fn: "\<And>i. i < nf \<Longrightarrow> short_name (t_name (tnodes s (tnode_at (sub_files_list ino) i)))"
    and pn: "\<And>p. p \<noteq> 0 \<Longrightarrow> short_name (fst (procs p))"
    and mem: "alloc (of_nat (nd + nf) * DIR_SIZE) m = Some m'"
  shows "\<exists>ds. do_opendir alloc procs rows dirname s m
       = Some (ds, s\<lparr>file_descriptors := (file_descriptors s)[fd := node]\<rparr>, m')
     \<and> map (cstr \<circ> d_name) ds
        = map (\<lambda>i. cstr (t_name (tnodes s (tnode_at (sub_directory_list ino) i)))) [0..<nd]
          @ map (\<lambda>i. listed_name procs s (tnode_at (sub_files_list ino) i)) [0..<nf]
     \<and> (\<forall>d \<in> set ds. d_no d = 0 \<and> d_fd d = int fd \<and> terminated (d_name d) \<and> length (d_name d) = 26)"
proof -
  define s' where "s' = s\<lparr>file_descriptors := (file_descriptors s)[fd := node]\<rparr>"
  have same: "inode_of s' = inode_of s" "tnodes s' = tnodes s" by (auto simp: s'_def inode_of_def)
  have listed: "listed_name procs s' x = listed_name procs s x" for x
    unfolding listed_name_def same ..
  have zl: "length (d_name zero_dirent) = 26" by (simp add: zero_dirent_def)
  define h where "h i = the (dir_entry (int fd) (t_name (tnodes s (tnode_at (sub_directory_list ino) i))) zero_dirent)" for i
  have h: "dir_entry (int fd) (t_name (tnodes s (tnode_at (sub_directory_list ino) i))) zero_dirent = Some (h i)
      \<and> cstr (d_name (h i)) = cstr (t_name (tnodes s (tnode_at (sub_directory_list ino) i))) \<and> d_no (h i) = 0 \<and> d_fd (h i) = int fd
      \<and> terminated (d_name (h i)) \<and> length (d_name (h i)) = 26"
    if "i < nd" for i
    using dir_entry_eq [OF zl dn [OF that], of "int fd"] by (auto simp: h_def)
  have nf': "short_name (t_name (tnodes s' (tnode_at (sub_files_list ino) i)))" if "i < nf" for i
    using fn that by (simp add: same)
  define g where "g i = the (file_entry procs s' (int fd) (tnode_at (sub_files_list ino) i) zero_dirent)" for i
  have g: "file_entry procs s' (int fd) (tnode_at (sub_files_list ino) i) zero_dirent = Some (g i)
      \<and> cstr (d_name (g i)) = listed_name procs s (tnode_at (sub_files_list ino) i) \<and> d_no (g i) = 0 \<and> d_fd (g i) = int fd
      \<and> terminated (d_name (g i)) \<and> length (d_name (g i)) = 26"
    if "i < nf" for i
    using file_entry_eq [where procs = procs and fd = "int fd", OF zl nf' [OF that] pn] unfolding listed by (auto simp: g_def)
  define z where "z = replicate (nd + nf) zero_dirent"
  have A: "for_n 0 nd (\<lambda>i ds. do { d \<leftarrow> aget ds i;
        d \<leftarrow> dir_entry (int fd) (t_name (tnodes s (tnode_at (sub_directory_list ino) i))) d; aput ds i d }) z
      = Some (map h [0..<nd] @ replicate nf zero_dirent)"
    using for_n_fill_from [of 0 nd z "\<lambda>i. dir_entry (int fd) (t_name (tnodes s (tnode_at (sub_directory_list ino) i)))" h] h
    by (simp add: z_def)
  have B: "for_n 0 nf (\<lambda>j ds. do { d \<leftarrow> aget ds (nd + j);
        d \<leftarrow> file_entry procs s' (int fd) (tnode_at (sub_files_list ino) j) d; aput ds (nd + j) d })
        (map h [0..<nd] @ replicate nf zero_dirent)
      = Some (map h [0..<nd] @ map g [0..<nf])"
    using for_n_fill_from [of nd nf "map h [0..<nd] @ replicate nf zero_dirent"
        "\<lambda>j. file_entry procs s' (int fd) (tnode_at (sub_files_list ino) j)" g] g
    by (simp add: nth_append)
  have fdn: "fd < 25" using fd(1) by (simp add: first_free_Some)
  have ln: "nat (int nf + int nd) = nd + nf" "(of_nat nf + of_nat nd :: u64) = of_nat (nd + nf)" by simp_all
  have "do_dopen rows dirname s = Some (int fd, s')"
    using find fd by (simp add: do_dopen_def s'_def)
  moreover have "aget (file_descriptors s') fd = Some node" using fd fdn by (simp add: s'_def)
  ultimately have "do_opendir alloc procs rows dirname s m = Some (map h [0..<nd] @ map g [0..<nf], s', m')"
    using A B ino same ln mem unfolding do_opendir_def z_def by (simp add: Let_def del: of_nat_add)
  then show ?thesis unfolding s'_def using h g
    by (intro exI [of _ "map h [0..<nd] @ map g [0..<nf]"]) auto
qed

lemma do_opendir_no_memory:
  assumes find: "find_file rows dirname s = Some node" "node \<noteq> 0"
    and fd: "first_free 0 (file_descriptors s) = Some fd" "length (file_descriptors s) = 25"
    and ino: "inode_of s node = ino" "num_sub_directory ino = int nd" "num_sub_files ino = int nf"
    and mem: "alloc (of_nat (nd + nf) * DIR_SIZE) m = None"
  shows "do_opendir alloc procs rows dirname s m = None"
proof -
  have "fd < 25" using fd(1) by (simp add: first_free_Some)
  moreover have "inode_of (s\<lparr>file_descriptors := (file_descriptors s)[fd := node]\<rparr>) node = ino" using ino(1) by (simp add: inode_of_def)
  moreover have "(of_nat nf + of_nat nd :: u64) = of_nat (nd + nf)" by simp
  ultimately show ?thesis using find fd ino(2,3) mem by (simp add: do_opendir_def do_dopen_def Let_def del: of_nat_add)
qed

text \<open>\<^verbatim>\<open>do_opendir\<close> lists the directory: one entry for each sub-directory and each file, in order, a file that
  belongs to a process under the name of the process, none of them marked as read and all of them with the
  lowest free descriptor, which now holds the directory.  The memory for them has to be there.\<close>

theorem opendir_lists_directory:
  assumes find: "find_file rows dirname s = Some node" "node \<noteq> 0"
    and fd: "first_free 0 (file_descriptors s) = Some fd" "length (file_descriptors s) = 25"
    and ino: "inode_of s node = ino" "num_sub_directory ino = int nd" "num_sub_files ino = int nf"
    and dn: "\<And>i. i < nd \<Longrightarrow> short_name (t_name (tnodes s (tnode_at (sub_directory_list ino) i)))"
    and fn: "\<And>i. i < nf \<Longrightarrow> short_name (t_name (tnodes s (tnode_at (sub_files_list ino) i)))"
    and pn: "\<And>p. p \<noteq> 0 \<Longrightarrow> short_name (fst (procs p))"
    and mem: "alloc (of_nat (nd + nf) * DIR_SIZE) h = Some h'"
  shows "\<exists>ds. do_opendir alloc procs rows dirname s h
       = Some (ds, s\<lparr>file_descriptors := (file_descriptors s)[fd := node]\<rparr>, h')
     \<and> map (cstr \<circ> d_name) ds
        = map (\<lambda>i. cstr (t_name (tnodes s (tnode_at (sub_directory_list ino) i)))) [0..<nd]
          @ map (\<lambda>i. listed_name procs s (tnode_at (sub_files_list ino) i)) [0..<nf]
     \<and> (\<forall>d \<in> set ds. d_no d = 0 \<and> d_fd d = int fd)"
  using do_opendir_lists [where procs = procs and alloc = alloc, OF find fd ino dn fn pn mem] by blast

lemma demo_find_bin: "find_file demo_rows (''/bin/'' @ [NUL]) demo_fs = Some 200"
proof -
  have "terminated (''/bin/'' @ [NUL])" "(''/bin/'' @ [NUL]) ! 0 = CHR ''/''"
    "pieces [] (cstr (''/bin/'' @ [NUL])) = [''/'', ''bin/'']"
    by (simp_all add: terminated_def cstr_Cons NUL_def)
  then show ?thesis
    using find_file_eq [OF demo_rows_buffer _ _ conjunct1 [OF demo_repr] conjunct2 [OF demo_repr], of "''/bin/'' @ [NUL]"]
    by (simp add: path_fits_def demo_tree_def found_def)
qed

definition demo_procs :: proc_view where
  "demo_procs p = (''x'' @ [NUL], 0, 0, 0)"

theorem opendir_lists_directory_witness:
  "\<exists>ds s'. do_opendir (\<lambda>n room. if n \<le> room then Some (room - n) else None) demo_procs demo_rows (''/bin/'' @ [NUL]) demo_fs 4064
       = Some (ds, s', 4016)
     \<and> map (cstr \<circ> d_name) ds = [''ls'']"
proof -
  have free: "first_free 0 (file_descriptors demo_fs) = Some 0"
    by (simp add: first_free_Some demo_fs_def)
  have n: "(200::u64) \<noteq> 0" "length (file_descriptors demo_fs) = 25"
    "num_sub_directory (inode_of demo_fs 200) = int 0" "num_sub_files (inode_of demo_fs 200) = int 1"
    by (simp_all add: demo_fs_def inode_of_def blank_node_def)
  have nm: "\<And>i. i < 1 \<Longrightarrow> short_name (t_name (tnodes demo_fs (tnode_at (sub_files_list (inode_of demo_fs 200)) i)))"
    "listed_name demo_procs demo_fs (tnode_at (sub_files_list (inode_of demo_fs 200)) 0) = ''ls''"
    by (simp_all add: demo_fs_def inode_of_def blank_node_def short_name_def terminated_def cstr_Cons NUL_def
        tnode_at_def listed_name_def)
  have pn: "\<And>p. p \<noteq> 0 \<Longrightarrow> short_name (fst (demo_procs p))"
    by (simp add: short_name_def terminated_def cstr_Cons demo_procs_def)
  show ?thesis
    using opendir_lists_directory [where procs = demo_procs, OF demo_find_bin n(1) free n(2) refl n(3,4) _ nm(1) pn,
        of "\<lambda>n room. if n \<le> room then Some (room - n) else None" 4064 4016] nm(2) by (auto simp: DIR_SIZE_def)
qed

text \<open>Removing a file from a directory (\<^verbatim>\<open>unlink\<close> and \<^verbatim>\<open>kill\<close>): the first entry with the name goes, the ones
  behind it move down, the count drops by one and the inode of the entry is the one that is freed.  When no
  entry has the name the last one is dropped all the same.\<close>

theorem remove_entry_drops_one:
  assumes "terminated name" and "num_sub_files (inodes s ino) = int n" "0 < n" "n \<le> 2 ^ 57"
    and "fs = file_entries s (sub_files_list (inodes s ino)) n" "\<And>t. t \<in> set fs \<Longrightarrow> terminated (t_name t)"
  shows "\<exists>victim s'. remove_entry ino name s = Some (victim, s')
     \<and> num_sub_files (inodes s' ino) = int (n - 1)
     \<and> file_entries s' (sub_files_list (inodes s' ino)) (n - 1) = without_entry name fs
     \<and> victim = (case find (\<lambda>t. cstr (t_name t) = cstr name) fs of None \<Rightarrow> 0 | Some t \<Rightarrow> link_to_inode t)"
  using assms by (rule remove_entry_eq)

theorem remove_entry_drops_one_witness:
  "\<exists>s'. remove_entry 2 (''cat'' @ [NUL]) demo_fs = Some (0, s') \<and> num_sub_files (inodes s' 2) = 0"
proof -
  have h: "terminated (''cat'' @ [NUL])" "num_sub_files (inodes demo_fs 2) = int 1" "(0::nat) < 1" "1 \<le> (2::nat) ^ 57"
    "file_entries demo_fs 300 1 = file_entries demo_fs (sub_files_list (inodes demo_fs 2)) 1"
    "\<And>t. t \<in> set (file_entries demo_fs 300 1) \<Longrightarrow> terminated (t_name t)"
    by (auto simp: terminated_def NUL_def demo_fs_def file_entries_def tnode_at_def)
  have "find (\<lambda>t. cstr (t_name t) = cstr (''cat'' @ [NUL])) (file_entries demo_fs 300 1) = None"
    by (simp add: demo_fs_def file_entries_def tnode_at_def cstr_Cons NUL_def)
  with remove_entry_drops_one [OF h] show ?thesis by auto
qed

end
