(* ===== verification/Tarfs.thy ===== *)
theory Tarfs
  imports Fs
begin

text \<open>
  The archive of the root file system: reading sizes and looking up a file by its path in
  \<^verbatim>\<open>sys/tarfs.c\<close>, and building the tree of \<^verbatim>\<open>sys/fs.c\<close> from it.  The archive is memory
  by address, a parameter of the definitions; a header is a block of 512 bytes with the name at offset 0
  and the size, eleven octal digits, at offset 124.
\<close>

type_synonym memory = "u64 \<Rightarrow> char"

definition field :: "memory \<Rightarrow> u64 \<Rightarrow> nat \<Rightarrow> nat \<Rightarrow> string" where
  "field mem a off len = map (\<lambda>i. mem (a + of_nat (off + i))) [0..<len]"

abbreviation tar_name :: "memory \<Rightarrow> u64 \<Rightarrow> string" where
  "tar_name mem a \<equiv> field mem a 0 100"

abbreviation tar_size :: "memory \<Rightarrow> u64 \<Rightarrow> string" where
  "tar_size mem a \<equiv> field mem a 124 12"

section \<open>Sizes\<close>

text \<open>\<^verbatim>\<open>(in[j - 1] - '0') * count\<close>: the digit is an \<^verbatim>\<open>int\<close>, the count an \<^verbatim>\<open>unsigned int\<close>, so the product is computed
  in 32 bits.\<close>

definition digit_term :: "char \<Rightarrow> u32 \<Rightarrow> u64" where
  "digit_term c count = ucast ((scast (of_char c :: u8) - 48) * count :: u32)"

fun size_loop :: "string \<Rightarrow> nat \<Rightarrow> u32 \<Rightarrow> u64 \<Rightarrow> u64 option" where
  "size_loop inp 0 count sz = Some sz"
| "size_loop inp (Suc j) count sz =
     do { c \<leftarrow> aget inp j; size_loop inp j (count * 8) (sz + digit_term c count) }"

definition getsize :: "string \<Rightarrow> u64 option" where
  "getsize inp = size_loop inp 11 1 0"

definition get_size :: "string \<Rightarrow> u64 option" where
  "get_size inp = size_loop inp 11 1 0"

section \<open>Looking up a file\<close>

text \<open>The header behind a file of \<open>sz\<close> bytes.\<close>

definition next_header :: "u64 \<Rightarrow> u64 \<Rightarrow> u64" where
  "next_header a sz =
     (let a = a + (sz div 512 + 1) * 512 in if sz mod 512 \<noteq> 0 then a + 512 else a)"

partial_function (option) find_header :: "memory \<Rightarrow> string \<Rightarrow> u64 \<Rightarrow> u64 option" where
  "find_header mem filename a =
     (if mem a = NUL then Some 0
      else do { sz \<leftarrow> getsize (tar_size mem a);
                c \<leftarrow> kstrcmp (tar_name mem a) filename;
                if c = 0 then Some a else find_header mem filename (next_header a sz) })"

definition findfile :: "memory \<Rightarrow> u64 \<Rightarrow> string \<Rightarrow> u64 option" where
  "findfile mem tarfs_start filename = find_header mem filename tarfs_start"

section \<open>Building the tree\<close>

text \<open>The splitting loop of \<^verbatim>\<open>load_tarfs\<close>: unlike \<^verbatim>\<open>find_file\<close> it opens a new row behind every slash.\<close>

fun tar_split_loop :: "string \<Rightarrow> nat \<Rightarrow> nat \<Rightarrow> string list \<Rightarrow> (nat \<times> string list) option" where
  "tar_split_loop [] j k rows = do { rows \<leftarrow> put2 k (j + 1) NUL rows; Some (k, rows) }"
| "tar_split_loop (c # cs) j k rows =
     do { rows \<leftarrow> put2 k j c rows;
          if c = CHR ''/''
          then do { rows \<leftarrow> put2 k (j + 1) NUL rows;
                    rows \<leftarrow> clear_row (k + 1) rows;
                    tar_split_loop cs 0 (k + 1) rows }
          else tar_split_loop cs (j + 1) k rows }"

text \<open>The state of the loader: the file system and the pages that \<^verbatim>\<open>bump\<close> returns next.\<close>

type_synonym loader = "fsys \<times> u64 list"

definition fresh_node :: "string \<Rightarrow> loader \<Rightarrow> (u64 \<times> loader) option" where
  "fresh_node name st =
     (case st of (s, tn # no # pages) \<Rightarrow> do { s \<leftarrow> create_t_node tn no name s; Some (tn, s, pages) }
      | _ \<Rightarrow> None)"

text \<open>One component of a path, stored at \<open>buf\<close>: the directory it names is looked up, or created; a file is
  created, as its search compares pointers.\<close>

definition load_component :: "u64 \<Rightarrow> u64 \<Rightarrow> u64 \<Rightarrow> string \<Rightarrow> u64 \<Rightarrow> loader \<Rightarrow> (u64 \<times> loader) option" where
  "load_component header sz buf name active st =
     do { len \<leftarrow> kstrlength name;
          c \<leftarrow> aget name (len - 1);
          let ino = link_to_inode (tnodes (fst st) active);
          let nd = num_sub_directory (inodes (fst st) ino);
          if c = CHR ''/''
          then do { exist \<leftarrow> folder_exist (fst st) ino nd name;
                    if exist \<noteq> 0 then Some (exist, st)
                    else do { (node, s, pages) \<leftarrow> fresh_node name st;
                              let s = set_inode (link_to_inode (tnodes s node)) (\<lambda>i. i\<lparr>i_flags := FS_DIRECTORY\<rparr>) s;
                              let s = set_tnode node (\<lambda>t. t\<lparr>t_size := sz\<rparr>) s;
                              Some (node, add_directory active node s, pages) } }
          else (let exist = file_exist (fst st) ino nd buf in
                if exist \<noteq> 0 then Some (exist, st)
                else do { (node, s, pages) \<leftarrow> fresh_node name st;
                          let s = set_inode (link_to_inode (tnodes s node)) (\<lambda>i. i\<lparr>i_flags := FS_FILE, i_read := Do_fread\<rparr>) s;
                          let s = set_tnode node (\<lambda>t. t\<lparr>t_size := sz\<rparr>) s;
                          let s = set_inode (link_to_inode (tnodes s node)) (\<lambda>i. i\<lparr>i_start := header + 512, i_offset := 0\<rparr>) s;
                          Some (node, add_file active node s, pages) }) }"

fun load_components :: "u64 \<Rightarrow> u64 \<Rightarrow> u64 \<Rightarrow> string list \<Rightarrow> nat \<Rightarrow> nat \<Rightarrow> u64 \<Rightarrow> loader \<Rightarrow> loader option" where
  "load_components header sz buf rows l 0 active st = Some st"
| "load_components header sz buf rows l (Suc n) active st =
     do { name \<leftarrow> aget rows l;
          c \<leftarrow> aget name 0;
          if c = NUL then Some st
          else do { (active, st) \<leftarrow> load_component header sz (buf + 10 * of_nat l) name active st;
                    load_components header sz buf rows (Suc l) n active st } }"

text \<open>One header; \<open>rows\<close> is what the local buffer, at address \<open>buf\<close>, holds before.\<close>

definition load_entry :: "memory \<Rightarrow> u64 \<Rightarrow> string list \<Rightarrow> u64 \<Rightarrow> u64 \<Rightarrow> u64 \<Rightarrow> loader \<Rightarrow> loader option" where
  "load_entry mem buf rows header sz root st =
     do { len \<leftarrow> kstrlength (tar_name mem header);
          (k, rows) \<leftarrow> tar_split_loop (take len (tar_name mem header)) 0 0 rows;
          load_components header sz buf rows 0 (Suc k) root st }"

partial_function (option) load_tarfs ::
  "memory \<Rightarrow> u64 \<Rightarrow> string list \<Rightarrow> u64 \<Rightarrow> u64 \<Rightarrow> loader \<Rightarrow> loader option" where
  "load_tarfs mem buf rows header root st =
     (if mem header = NUL then Some st
      else do { sz \<leftarrow> get_size (tar_size mem header);
                st \<leftarrow> load_entry mem buf rows header sz root st;
                load_tarfs mem buf rows (next_header header sz) root st })"

definition initialise_tarfs :: "memory \<Rightarrow> u64 \<Rightarrow> u64 \<Rightarrow> string list \<Rightarrow> loader \<Rightarrow> loader option" where
  "initialise_tarfs mem tarfs_start buf rows st =
     do { (rootfs_directory, s, pages) \<leftarrow> fresh_node (''rootfs/'' @ [NUL]) st;
          let ino = link_to_inode (tnodes s (filefs_root s));
          let n = num_sub_directory (inodes s ino);
          let s = set_tnode (tnode_at (sub_directory_list (inodes s ino)) (nat n)) (\<lambda>_. tnodes s rootfs_directory) s;
          let s = set_inode ino (\<lambda>i. i\<lparr>num_sub_directory := n + 1\<rparr>) s;
          let s = set_inode (link_to_inode (tnodes s rootfs_directory)) (\<lambda>i. i\<lparr>i_flags := FS_MOUNTPOINT\<rparr>) s;
          load_tarfs mem buf rows tarfs_start rootfs_directory (s, pages) }"

text \<open>\<^verbatim>\<open>initialise_file_system\<close> up to the call of \<^verbatim>\<open>initialise_tarfs\<close>: the root with \<^verbatim>\<open>dev/\<close> and \<^verbatim>\<open>proc/\<close>, the
  terminal with the standard streams, and the first three descriptors.\<close>

definition upd_node :: "u64 \<Rightarrow> (filesys_node \<Rightarrow> filesys_node) \<Rightarrow> fsys \<Rightarrow> fsys" where
  "upd_node t f s = set_inode (link_to_inode (tnodes s t)) f s"

definition system_files :: "loader \<Rightarrow> loader option" where
  "system_files st =
     do { (root, s, pages) \<leftarrow> fresh_node (''/'' @ [NUL]) st;
          let s = s\<lparr>filefs_root := root\<rparr>;
          (dev, s, pages) \<leftarrow> fresh_node (''dev/'' @ [NUL]) (s, pages);
          (proc, s, pages) \<leftarrow> fresh_node (''proc/'' @ [NUL]) (s, pages);
          let s = s\<lparr>proc_directory := proc\<rparr>;
          (terminal, s, pages) \<leftarrow> fresh_node (''ttyl'' @ [NUL]) (s, pages);
          let s = upd_node terminal (\<lambda>i. i\<lparr>i_flags := FS_DIRECTORY\<rparr>) s;
          let s = upd_node root (\<lambda>i. i\<lparr>sub_directory_list := dev, num_sub_directory := num_sub_directory i + 1,
                    i_flags := FS_MOUNTPOINT\<rparr>) s;
          let ino = inode_of s root;
          let s = set_tnode (tnode_at (sub_directory_list ino) (nat (num_sub_directory ino))) (\<lambda>_. tnodes s proc) s;
          let s = upd_node root (\<lambda>i. i\<lparr>num_sub_directory := num_sub_directory i + 1\<rparr>) s;
          let s = upd_node dev (\<lambda>i. i\<lparr>sub_files_list := terminal, num_sub_files := num_sub_files i + 1,
                    i_flags := FS_MOUNTPOINT\<rparr>) s;
          (std_out, s, pages) \<leftarrow> fresh_node (''stdout'' @ [NUL]) (s, pages);
          let s = upd_node std_out (\<lambda>i. i\<lparr>i_flags := FS_FILE, i_write := Do_write\<rparr>) s;
          (std_in, s, pages) \<leftarrow> fresh_node (''stdin'' @ [NUL]) (s, pages);
          let s = upd_node std_in (\<lambda>i. i\<lparr>i_flags := FS_FILE\<rparr>) s;
          let s = upd_node std_out (\<lambda>i. i\<lparr>i_read := Check_for_ip, i_write := NoFn\<rparr>) s;
          (std_err, s, pages) \<leftarrow> fresh_node (''stderr'' @ [NUL]) (s, pages);
          let s = upd_node std_err (\<lambda>i. i\<lparr>i_flags := FS_FILE, i_write := Do_write_err\<rparr>) s;
          let s = upd_node terminal (\<lambda>i. i\<lparr>sub_files_list := std_in, num_sub_files := num_sub_files i + 1\<rparr>) s;
          let s = set_tnode (tnode_at (sub_files_list (inode_of s terminal)) 1) (\<lambda>_. tnodes s std_out) s;
          let s = upd_node terminal (\<lambda>i. i\<lparr>num_sub_files := num_sub_files i + 1\<rparr>) s;
          let s = set_tnode (tnode_at (sub_files_list (inode_of s terminal)) 2) (\<lambda>_. tnodes s std_err) s;
          let s = upd_node terminal (\<lambda>i. i\<lparr>num_sub_files := num_sub_files i + 1\<rparr>) s;
          Some (s\<lparr>file_descriptors := (file_descriptors s)[0 := std_in, 1 := std_err, 2 := std_err]\<rparr>, pages) }"

definition initialise_file_system :: "memory \<Rightarrow> u64 \<Rightarrow> u64 \<Rightarrow> string list \<Rightarrow> loader \<Rightarrow> loader option" where
  "initialise_file_system mem tarfs_start buf rows st =
     do { st \<leftarrow> system_files st;
          (s, pages) \<leftarrow> initialise_tarfs mem tarfs_start buf rows st;
          Some (upd_node (proc_directory s) (\<lambda>i. i\<lparr>i_flags := FS_MOUNTPOINT\<rparr>) s, pages) }"

section \<open>Sizes are octal, below 4 GB\<close>

definition octal :: "string \<Rightarrow> nat" where
  "octal inp = (\<Sum>i < 11. (of_char (inp ! i) - 48) * 8 ^ (10 - i))"

definition octal_field :: "string \<Rightarrow> bool" where
  "octal_field inp \<longleftrightarrow> 11 \<le> length inp \<and> (\<forall>i < 11. 48 \<le> (of_char (inp ! i) :: nat) \<and> (of_char (inp ! i) :: nat) < 56)"

lemma less_8_cases: "(d::nat) < 8 \<Longrightarrow> d = 0 \<or> d = 1 \<or> d = 2 \<or> d = 3 \<or> d = 4 \<or> d = 5 \<or> d = 6 \<or> d = 7"
  by linarith

lemma digit_term_eq:
  assumes "48 \<le> (of_char c :: nat)" "(of_char c :: nat) < 56"
  shows "digit_term c (of_nat n) = of_nat ((of_char c - 48) * n mod 2 ^ 32)"
proof -
  obtain d where d: "(of_char c :: nat) = 48 + d" using le_Suc_ex [OF assms(1)] by blast
  then have d8: "d < 8" using assms by simp
  have "(of_char c :: u8) = of_nat (48 + d)" using d by (metis of_nat_of_char)
  moreover have "(scast (of_nat (48 + d) :: u8) :: u32) = of_nat (48 + d)"
    using less_8_cases [OF d8] by auto
  ultimately have "scast (of_char c :: u8) - 48 = (of_nat d :: u32)" by simp
  then have "digit_term c (of_nat n) = ucast (of_nat (d * n) :: u32)" by (simp add: digit_term_def)
  then show ?thesis using d by (simp add: unsigned_of_nat take_bit_eq_mod del: of_nat_mult)
qed

lemma size_loop_eq:
  assumes "octal_field inp"
  shows "j \<le> 11 \<Longrightarrow> size_loop inp j (of_nat (8 ^ (11 - j))) sz
    = Some (sz + of_nat (\<Sum>i < j. (of_char (inp ! i) - 48) * 8 ^ (10 - i) mod 2 ^ 32))"
proof (induction j arbitrary: sz)
  case 0
  then show ?case by simp
next
  case (Suc j)
  have l: "j < length inp" and d: "48 \<le> (of_char (inp ! j) :: nat)" "(of_char (inp ! j) :: nat) < 56"
    using assms Suc.prems by (auto simp: octal_field_def)
  have e: "11 - j = Suc (11 - Suc j)" "11 - Suc j = 10 - j" using Suc.prems by simp_all
  have c: "(of_nat (8 ^ (11 - Suc j)) :: u32) * 8 = of_nat (8 ^ (11 - j))" unfolding e(1) by simp
  have "size_loop inp (Suc j) (of_nat (8 ^ (11 - Suc j))) sz
      = size_loop inp j (of_nat (8 ^ (11 - j))) (sz + digit_term (inp ! j) (of_nat (8 ^ (11 - Suc j))))"
    using l by (simp only: size_loop.simps aget_Some Option.bind.simps c)
  also have "\<dots> = Some (sz + of_nat ((of_char (inp ! j) - 48) * 8 ^ (10 - j) mod 2 ^ 32)
      + of_nat (\<Sum>i < j. (of_char (inp ! i) - 48) * 8 ^ (10 - i) mod 2 ^ 32))"
    unfolding digit_term_eq [OF d] e(2) using Suc by simp
  finally show ?case by (simp add: ac_simps)
qed

lemma octal_split: "octal inp = (of_char (inp ! 0) - 48) * 8 ^ 10 + (\<Sum>i < 10. (of_char (inp ! Suc i) - 48) * 8 ^ (9 - i))"
proof -
  have "{..<11} = {..<Suc (10::nat)}" by simp
  then show ?thesis unfolding octal_def by (simp only: sum.lessThan_Suc_shift) simp
qed

lemma octal_digits_less: "(\<Sum>i < n. 7 * 8 ^ (n - Suc i)) < (8 :: nat) ^ n"
proof (induction n)
  case (Suc n)
  then show ?case by (simp only: sum.lessThan_Suc_shift) simp
qed simp

lemma getsize_eq:
  assumes "octal_field inp"
  shows "getsize inp = Some (of_nat (octal inp mod 2 ^ 32))"
proof -
  define d where "d i = of_char (inp ! i) - (48::nat)" for i
  have d7: "d i \<le> 7" if "i < 11" for i using assms that by (force simp: octal_field_def d_def)
  have small: "d (Suc i) * 8 ^ (9 - i) \<le> 7 * 8 ^ (9 - i)" if "i < 10" for i
    using d7 [of "Suc i"] that by simp
  define low where "low = (\<Sum>i < 10. d (Suc i) * 8 ^ (9 - i))"
  have low: "low < 2 ^ 30"
  proof -
    have "low \<le> (\<Sum>i < 10. 7 * 8 ^ (9 - i))" unfolding low_def using small by (intro sum_mono) auto
    also have "\<dots> < 8 ^ 10" using octal_digits_less [of 10] by simp
    also have "\<dots> = (2::nat) ^ 30" by simp
    finally show ?thesis .
  qed
  have nowrap: "d (Suc i) * 8 ^ (9 - i) mod 2 ^ 32 = d (Suc i) * 8 ^ (9 - i)" if "i < 10" for i
  proof -
    have "(8::nat) ^ (9 - i) \<le> 8 ^ 9" by (rule power_increasing) auto
    then have "7 * 8 ^ (9 - i) < (2::nat) ^ 32" by simp
    then show ?thesis by (intro mod_less le_less_trans [OF small [OF that]])
  qed
  have "(\<Sum>i < 11. d i * 8 ^ (10 - i) mod 2 ^ 32) = d 0 * 8 ^ 10 mod 2 ^ 32 + low"
  proof -
    have "{..<11} = {..<Suc (10::nat)}" by simp
    then show ?thesis unfolding low_def using nowrap by (simp only: sum.lessThan_Suc_shift) simp
  qed
  also have "\<dots> = (d 0 * 8 ^ 10 + low) mod 2 ^ 32"
  proof -
    have m: "d 0 * 8 ^ 10 mod 2 ^ 32 = (d 0 mod 4) * 2 ^ 30" by (simp add: mult_mod_left)
    have "d 0 mod 4 \<le> 3" using mod_less_divisor [of 4 "d 0"] by simp
    then have "(d 0 mod 4) * 2 ^ 30 \<le> 3 * 2 ^ 30" by (rule mult_le_mono1)
    then have "(d 0 mod 4) * 2 ^ 30 + low < 2 ^ 32" using low by simp
    then show ?thesis using m mod_add_left_eq [of "d 0 * 8 ^ 10" "2 ^ 32" low] by simp
  qed
  also have "d 0 * 8 ^ 10 + low = octal inp" unfolding octal_split low_def d_def ..
  finally have s: "(\<Sum>i < 11. d i * 8 ^ (10 - i) mod 2 ^ 32) = octal inp mod 2 ^ 32" .
  have "getsize inp = Some (0 + of_nat (\<Sum>i < 11. d i * 8 ^ (10 - i) mod 2 ^ 32))"
    using size_loop_eq [OF assms, of 11 0] unfolding getsize_def d_def by simp
  then show ?thesis unfolding s by simp
qed

section \<open>The archive\<close>

text \<open>\<open>archive mem a es\<close>: from \<open>a\<close> on the archive holds the files \<open>es\<close>, names with sizes, each header followed by the
  data in blocks of 512 bytes.\<close>

fun archive :: "memory \<Rightarrow> u64 \<Rightarrow> (string \<times> nat) list \<Rightarrow> bool" where
  "archive mem a [] \<longleftrightarrow> mem a = NUL"
| "archive mem a ((nm, n) # es) \<longleftrightarrow> nm \<noteq> [] \<and> terminated (tar_name mem a) \<and> cstr (tar_name mem a) = nm
     \<and> octal_field (tar_size mem a) \<and> octal (tar_size mem a) = n \<and> n < 2 ^ 32
     \<and> archive mem (a + of_nat (512 + (n + 511) div 512 * 512)) es"

text \<open>The address of the header of the first file with the name, null when there is none.\<close>

fun header_of :: "u64 \<Rightarrow> (string \<times> nat) list \<Rightarrow> string \<Rightarrow> u64" where
  "header_of a [] filename = 0"
| "header_of a ((nm, n) # es) filename =
     (if nm = filename then a else header_of (a + of_nat (512 + (n + 511) div 512 * 512)) es filename)"

lemma blocks_eq: "(n div 512 + 1) * 512 + (if n mod 512 \<noteq> 0 then 512 else 0) = 512 + (n + 511) div 512 * (512::nat)"
proof (cases "n mod 512 = 0")
  case True
  then obtain k where "n = 512 * k" by (auto simp: mod_eq_0_iff_dvd)
  then show ?thesis by simp
next
  case False
  define q r where "q = n div 512" and "r = n mod 512"
  have n: "n = 512 * q + r" "r < 512" "0 < r" using False by (simp_all add: q_def r_def)
  then have "(n + 511) div 512 = q + 1" by (simp add: div_nat_eqI)
  then show ?thesis using False by (simp add: q_def)
qed

lemma next_header_eq:
  assumes "n < 2 ^ 32"
  shows "next_header a (of_nat n) = a + of_nat (512 + (n + 511) div 512 * 512)"
proof -
  have n64: "n < 2 ^ 64" using assms by simp
  have d: "(of_nat n :: u64) div 512 = of_nat (n div 512)"
    by (rule word_unat_eq_iff [THEN iffD2]) (use n64 in \<open>simp add: unat_div unat_of_nat64 del: of_nat_numeral\<close>)
  have m: "(of_nat n :: u64) mod 512 = 0 \<longleftrightarrow> n mod 512 = 0"
    unfolding word_unat_eq_iff using n64 by (simp add: unat_mod unat_of_nat64)
  show ?thesis unfolding next_header_def Let_def d m blocks_eq [symmetric]
    by (simp add: algebra_simps)
qed

lemma tar_name_head: "terminated (tar_name mem a) \<Longrightarrow> cstr (tar_name mem a) \<noteq> [] \<Longrightarrow> mem a \<noteq> NUL"
  by (auto simp: field_def cstr_Cons upt_rec)

lemma find_header_eq:
  "archive mem a es \<Longrightarrow> terminated filename \<Longrightarrow>
   find_header mem filename a = Some (header_of a es (cstr filename))"
proof (induction es arbitrary: a)
  case Nil
  then show ?case by (subst find_header.simps) simp
next
  case (Cons e es)
  obtain nm n where e: "e = (nm, n)" by (cases e)
  note ar = Cons.prems(1) [unfolded e]
  have sz: "getsize (tar_size mem a) = Some (of_nat n)"
    using ar getsize_eq [of "tar_size mem a"] by simp
  have nx: "next_header a (of_nat n) = a + of_nat (512 + (n + 511) div 512 * 512)"
    using ar next_header_eq by simp
  have ne: "mem a \<noteq> NUL" using ar tar_name_head by auto
  have ih: "find_header mem filename (next_header a (of_nat n))
      = Some (header_of (next_header a (of_nat n)) es (cstr filename))"
    using ar Cons.prems(2) unfolding nx by (intro Cons.IH) simp_all
  show ?case
    using ar Cons.prems(2) ne sz ih unfolding e
    by (subst find_header.simps) (simp add: nx del: of_nat_add of_nat_mult)
qed

section \<open>The files of the system\<close>

text \<open>Pages as \<^verbatim>\<open>bump\<close> returns them: distinct, not null, aligned.\<close>

definition page_supply :: "u64 list \<Rightarrow> bool" where
  "page_supply ps \<longleftrightarrow> distinct ps \<and> (\<forall>p \<in> set ps. p \<noteq> 0 \<and> unat p mod 4096 = 0)"

lemma unat_tnode_at:
  assumes "unat p mod 4096 = 0" "i < 128"
  shows "unat (tnode_at p i) = unat p + 32 * i"
proof -
  obtain k where k: "unat p = 4096 * k" using assms(1) by (auto simp: mod_eq_0_iff_dvd)
  have "unat p < 2 ^ 64" using unsigned_less [of p] by simp
  then have "unat p + 32 * i < 2 ^ 64" using k assms(2) by simp
  then show ?thesis using unat_add_mult64 [of p 32 i] by (simp add: tnode_at_def)
qed

lemma tnode_at_eq_iff:
  assumes "unat p mod 4096 = 0" "unat q mod 4096 = 0" "i < 128" "j < 128"
  shows "tnode_at p i = tnode_at q j \<longleftrightarrow> p = q \<and> i = j"
proof
  assume "tnode_at p i = tnode_at q j"
  then have e: "unat p + 32 * i = unat q + 32 * j" using unat_tnode_at assms by metis
  then have "(unat p + 32 * i) mod 4096 = (unat q + 32 * j) mod 4096" by simp
  moreover have "(unat p + 32 * i) mod 4096 = 32 * i" "(unat q + 32 * j) mod 4096 = 32 * j"
    using assms by (simp_all add: mod_add_eq [symmetric, of "unat _"])
  ultimately have "i = j" by simp
  then show "p = q \<and> i = j" using e by (simp add: word_unat_eq_iff)
qed simp

lemma tnode_at_0 [simp]: "tnode_at a 0 = a"
  by (simp add: tnode_at_def)

lemma tnode_at_eq_base:
  assumes "unat p mod 4096 = 0" "unat q mod 4096 = 0" "i < 128"
  shows "tnode_at p i = q \<longleftrightarrow> p = q \<and> i = 0"
  using tnode_at_eq_iff [OF assms(1,2,3), of 0] by simp

lemma tnode_at_nonnull:
  assumes "unat p mod 4096 = 0" "p \<noteq> 0" "i < 128"
  shows "tnode_at p i \<noteq> 0"
  using unat_tnode_at [OF assms(1,3)] assms(2) by (metis add_eq_0_iff_both_eq_0 unat_eq_zero unsigned_0)

lemma create_t_node_eq:
  assumes "length (t_name (tnodes s tn)) = 10" "NUL \<notin> set nm" "length nm < 10"
  shows "create_t_node tn no (nm @ [NUL]) s = Some
    (set_tnode tn (\<lambda>t. t\<lparr>t_name := nm @ NUL # drop (Suc (length nm)) (t_name (tnodes s tn)), link_to_inode := no\<rparr>)
       (create_sys_node no s))"
  using assms
  by (simp add: create_t_node_def for_n_copy list_update_append Let_def set_tnode_def create_sys_node_def set_inode_def
      Cons_nth_drop_Suc [symmetric] terminated_def)

definition clean_names :: "fsys \<Rightarrow> bool" where
  "clean_names s \<longleftrightarrow> (\<forall>a. length (t_name (tnodes s a)) = 10)"

lemma fresh_node_eq:
  assumes "clean_names s" "NUL \<notin> set nm" "length nm < 10"
  shows "fresh_node (nm @ [NUL]) (s, tn # no # pages) = Some (tn,
    set_tnode tn (\<lambda>t. t\<lparr>t_name := nm @ NUL # drop (Suc (length nm)) (t_name (tnodes s tn)), link_to_inode := no\<rparr>)
       (create_sys_node no s), pages)"
  using assms by (simp add: fresh_node_def create_t_node_eq clean_names_def)

section \<open>Properties\<close>

text \<open>C35: \<^verbatim>\<open>findfile\<close> ends on every well-formed archive and returns the header of the first file whose path is the
  name asked for, and null when there is none: it steps over the data of each file in blocks of 512 bytes.\<close>

theorem findfile_first_header:
  assumes "archive mem start es" and "terminated filename"
  shows "findfile mem start filename = Some (header_of start es (cstr filename))"
  unfolding findfile_def using assms by (rule find_header_eq)

text \<open>An archive with an empty file \<open>a\<close> at 0 and a file \<open>b\<close> of one byte at 512.\<close>

definition demo_bytes :: "nat \<Rightarrow> char" where
  "demo_bytes n =
     (if n = 0 then CHR ''a'' else if n = 512 then CHR ''b'' else if n = 646 then CHR ''1''
      else if (124 \<le> n \<and> n < 135) \<or> (636 \<le> n \<and> n < 646) then CHR ''0'' else NUL)"

definition demo_archive :: memory where
  "demo_archive a = demo_bytes (unat a)"

lemma demo_field:
  "k + off + len < 2 ^ 64 \<Longrightarrow> field demo_archive (of_nat k) off len = map demo_bytes [k + off..<k + off + len]"
  unfolding field_def demo_archive_def of_nat_add [symmetric]
  by (rule nth_equalityI) (auto simp: unat_of_nat64 add.assoc simp del: of_nat_add)

lemma demo_archive_names:
  "terminated (tar_name demo_archive 0) \<and> cstr (tar_name demo_archive 0) = ''a''"
  "terminated (tar_name demo_archive 512) \<and> cstr (tar_name demo_archive 512) = ''b''"
  using demo_field [of 0 0 100] demo_field [of 512 0 100]
  by (simp_all add: upt_conv_Cons demo_bytes_def cstr_Cons NUL_def)

lemma demo_archive_sizes:
  "tar_size demo_archive 0 = replicate 10 (CHR ''0'') @ [CHR ''0'', NUL]"
  "tar_size demo_archive 512 = replicate 10 (CHR ''0'') @ [CHR ''1'', NUL]"
  using demo_field [of 0 124 12] demo_field [of 512 124 12]
  by (auto intro!: nth_equalityI simp: nth_append nth_Cons' demo_bytes_def simp del: append.simps upt_rec_numeral)

lemma octal_one_digit:
  assumes "48 \<le> (of_char c :: nat)" "(of_char c :: nat) < 56"
  shows "octal_field (replicate 10 (CHR ''0'') @ [c, NUL])"
    and "octal (replicate 10 (CHR ''0'') @ [c, NUL]) = of_char c - 48"
proof -
  let ?s = "replicate 10 (CHR ''0'') @ [c, NUL]"
  have n: "?s ! i = (if i < 10 then CHR ''0'' else c)" if "i < 11" for i
    using that by (auto simp: nth_append)
  show "octal_field ?s" using assms by (auto simp: octal_field_def n simp del: append.simps)
  have "{..<11} = insert 10 {..<(10 :: nat)}" by auto
  then show "octal ?s = of_char c - 48" using n by (simp add: octal_def nth_append)
qed

lemma demo_archive_ok: "archive demo_archive 0 [(''a'', 0), (''b'', 1)]"
  using demo_archive_names octal_one_digit [of "CHR ''0''"] octal_one_digit [of "CHR ''1''"]
  by (simp add: demo_archive_sizes demo_archive_def demo_bytes_def NUL_def del: replicate.simps append_replicate_commute)

theorem findfile_first_header_witness: "findfile demo_archive 0 (''b'' @ [NUL]) = Some 512"
  using findfile_first_header [OF demo_archive_ok, of "''b'' @ [NUL]"]
  by (simp add: cstr_Cons NUL_def)

text \<open>The size of a file is the value of its eleven octal digits modulo \<open>2 ^ 32\<close>: the weight of a digit is a 32-bit
  number, so that sizes of 4 GB and more are cut, although the result has 64 bits.\<close>

theorem getsize_octal_mod_32:
  assumes "octal_field inp"
  shows "getsize inp = Some (of_nat (octal inp mod 2 ^ 32)) \<and> get_size inp = getsize inp"
  using getsize_eq [OF assms] by (simp add: get_size_def getsize_def)

theorem getsize_octal_mod_32_witness: "getsize (replicate 10 (CHR ''0'') @ [CHR ''1'', NUL]) = Some 1"
  using getsize_octal_mod_32 [of "replicate 10 (CHR ''0'') @ [CHR ''1'', NUL]"] octal_one_digit [of "CHR ''1''"]
  by simp

end
