(* ===== verification/Process.thy ===== *)
theory Process
  imports Cow Objects Sched Umalloc Tarfs
begin

text \<open>
  Processes, \<^verbatim>\<open>sys/process.c\<close> and \<^verbatim>\<open>sys_fork\<close> of \<^verbatim>\<open>sys/syscall.c\<close>: the lists of memory areas, copying
  a process, its heap, the entries of \<^verbatim>\<open>/proc\<close>, and \<^verbatim>\<open>fork\<close>.  The state of the kernel extends the memory
  of the paging theory, so that every \<^verbatim>\<open>bump\<close> and \<^verbatim>\<open>kfree\<close> is the modelled one; the allocator of kernel structures is the argument
  \<open>alloc\<close> of the definitions, which the operations instantiate with \<^const>\<open>bump\<close>.
\<close>

section \<open>State\<close>

record vm_file =
  file_start :: u64
  vm_pgoff :: u64
  vm_sz :: u64
  bss_size :: u64

record vm_area_struct =
  vma_start :: u64
  vma_end :: u64
  vma_flags :: u32
  vma_type :: u32
  vma_next :: u64
  vma_prev :: u64
  vma_file :: u64

record mm_struct =
  list_of_vmas :: u64
  num_of_vmas :: int
  mm_freelist :: u64

definition STACK :: u32 where
  "STACK = 1"

definition HEAP :: u32 where
  "HEAP = 2"

definition OTHER :: u32 where
  "OTHER = 3"

text \<open>\<open>umem\<close> is the user memory of the current address space by bytes, \<open>heap_headers\<close> the block headers in it.\<close>

record kernel = kmem +
  procs :: sys
  areas :: "u64 \<Rightarrow> vm_area_struct"
  vfiles :: "u64 \<Rightarrow> vm_file"
  mms :: "u64 \<Rightarrow> mm_struct"
  heap_headers :: "u64 \<Rightarrow> malloc_header"
  umem :: "u64 \<Rightarrow> char"
  fs :: fsys

type_synonym 'r action = "kernel \<Rightarrow> ('r \<times> kernel) option"
type_synonym allocator = "u64 \<Rightarrow> u64 action"

definition set_area :: "u64 \<Rightarrow> (vm_area_struct \<Rightarrow> vm_area_struct) \<Rightarrow> kernel \<Rightarrow> kernel" where
  "set_area a f k = k\<lparr>areas := (areas k)(a := f (areas k a))\<rparr>"

definition set_vfile :: "u64 \<Rightarrow> (vm_file \<Rightarrow> vm_file) \<Rightarrow> kernel \<Rightarrow> kernel" where
  "set_vfile a f k = k\<lparr>vfiles := (vfiles k)(a := f (vfiles k a))\<rparr>"

definition set_mm :: "u64 \<Rightarrow> (mm_struct \<Rightarrow> mm_struct) \<Rightarrow> kernel \<Rightarrow> kernel" where
  "set_mm a f k = k\<lparr>mms := (mms k)(a := f (mms k a))\<rparr>"

definition set_pcb :: "u64 \<Rightarrow> (pcb \<Rightarrow> pcb) \<Rightarrow> kernel \<Rightarrow> kernel" where
  "set_pcb a f k = k\<lparr>procs := upd a f (procs k)\<rparr>"

abbreviation pcb_at :: "kernel \<Rightarrow> u64 \<Rightarrow> pcb" where
  "pcb_at k a \<equiv> pcbs (procs k) a"

abbreviation this_thread :: "kernel \<Rightarrow> u64" where
  "this_thread k \<equiv> currentthread (procs k)"

text \<open>The sizes of the structures, for \<^verbatim>\<open>sizeof\<close>.\<close>

definition PCB_SIZE :: u64 where "PCB_SIZE = 3416"
definition MM_SIZE :: u64 where "MM_SIZE = 24"
definition VMA_SIZE :: u64 where "VMA_SIZE = 48"
definition FILE_SIZE :: u64 where "FILE_SIZE = 32"
definition TNODE_SIZE :: u64 where "TNODE_SIZE = 32"
definition NODE_SIZE :: u64 where "NODE_SIZE = 280"

section \<open>Lists of memory areas\<close>

text \<open>\<^verbatim>\<open>while (tempvma->next != NULL) tempvma = tempvma->next;\<close>\<close>

partial_function (option) last_area :: "(u64 \<Rightarrow> vm_area_struct) \<Rightarrow> u64 \<Rightarrow> u64 option" where
  "last_area m p =
     (if p = 0 then None else if vma_next (m p) = 0 then Some p else last_area m (vma_next (m p)))"

declare last_area.simps [simp del]

text \<open>The four lines that append the area \<open>vma\<close> to the list of \<open>mm\<close>; the result is the former last area.\<close>

definition append_area :: "u64 \<Rightarrow> u64 \<Rightarrow> u64 action" where
  "append_area mm vma k =
     do { tempvma \<leftarrow> last_area (areas k) (list_of_vmas (mms k mm));
          let k = set_area vma (\<lambda>v. v\<lparr>vma_prev := tempvma\<rparr>) k;
          let k = set_area tempvma (\<lambda>v. v\<lparr>vma_next := vma\<rparr>) k;
          Some (tempvma, set_area vma (\<lambda>v. v\<lparr>vma_next := 0\<rparr>) k) }"

definition count_area :: "u64 \<Rightarrow> kernel \<Rightarrow> kernel" where
  "count_area mm = set_mm mm (\<lambda>m. m\<lparr>num_of_vmas := num_of_vmas m + 1\<rparr>)"

section \<open>Copying a process\<close>

text \<open>One turn of the loop over the areas of the parent, with the pointer \<open>tempvma\<close>.\<close>

definition copy_area :: "allocator \<Rightarrow> u64 \<Rightarrow> u64 \<Rightarrow> u64 \<Rightarrow> u64 \<Rightarrow> u64 action" where
  "copy_area alloc current_process new_process t tempvma k =
     (let mm = p_mm (pcb_at k new_process) in
      if vma_type (areas k t) = HEAP
      then do { (vma, k) \<leftarrow> alloc VMA_SIZE k;
                let k = set_area vma (\<lambda>v. v\<lparr>vma_type := HEAP, vma_file := 0,
                          vma_start := vma_start (areas k t), vma_end := vma_end (areas k t)\<rparr>) k;
                (tempvma, k) \<leftarrow> append_area mm vma k;
                let k = count_area mm k;
                let k = set_pcb new_process (\<lambda>p. p\<lparr>p_heap_ptr := p_heap_ptr (pcb_at k current_process)\<rparr>) k;
                let k = set_mm mm (\<lambda>m. m\<lparr>mm_freelist := mm_freelist (mms k (p_mm (pcb_at k current_process)))\<rparr>) k;
                Some (tempvma, k) }
      else if vma_type (areas k t) = STACK
      then do { (vma, k) \<leftarrow> alloc VMA_SIZE k;
                let k = set_area vma (\<lambda>v. v\<lparr>vma_type := STACK, vma_file := 0,
                          vma_start := vma_start (areas k t), vma_end := vma_end (areas k t)\<rparr>) k;
                (tempvma, k) \<leftarrow> append_area mm vma k;
                Some (tempvma, set_pcb new_process (\<lambda>p. p\<lparr>p_ursp := p_ursp (pcb_at k (this_thread k))\<rparr>) k) }
      else do { (vma, k) \<leftarrow> alloc VMA_SIZE k;
                let k = set_area vma (\<lambda>v. v\<lparr>vma_start := vma_start (areas k t),
                          vma_end := vma_end (areas k t), vma_flags := vma_flags (areas k t)\<rparr>) k;
                k \<leftarrow> (if vma_file (areas k t) \<noteq> 0
                     then do { (file, k) \<leftarrow> alloc FILE_SIZE k;
                               let old = vfiles k (vma_file (areas k t));
                               let k = set_area vma (\<lambda>v. v\<lparr>vma_file := file\<rparr>) k;
                               Some (set_vfile file (\<lambda>f. f\<lparr>bss_size := bss_size old, file_start := bss_size old,
                                       vm_pgoff := vm_pgoff old, vm_sz := vm_sz old\<rparr>) k) }
                     else Some k);
                let k = set_area vma (\<lambda>v. v\<lparr>vma_next := 0\<rparr>) k;
                let k = (if tempvma = 0
                         then set_area vma (\<lambda>v. v\<lparr>vma_prev := 0\<rparr>) (set_mm mm (\<lambda>m. m\<lparr>list_of_vmas := vma\<rparr>) k)
                         else set_area vma (\<lambda>v. v\<lparr>vma_prev := tempvma\<rparr>) k);
                Some (vma, count_area mm k) })"

partial_function (option) copy_areas :: "allocator \<Rightarrow> u64 \<Rightarrow> u64 \<Rightarrow> u64 \<Rightarrow> u64 \<Rightarrow> kernel \<Rightarrow> kernel option" where
  "copy_areas alloc current_process new_process t tempvma k =
     (if t = 0 then Some k
      else do { (tempvma, k) \<leftarrow> copy_area alloc current_process new_process t tempvma k;
                copy_areas alloc current_process new_process (vma_next (areas k t)) tempvma k })"

declare copy_areas.simps [simp del]

definition copy_process :: "allocator \<Rightarrow> u64 \<Rightarrow> u64 \<Rightarrow> u64 action" where
  "copy_process alloc current_process new_process k =
     do { stack \<leftarrow> for_n 0 KSTACKLEN (\<lambda>i st. do { x \<leftarrow> aget (p_kstack (pcb_at k current_process)) i; aput st i x })
             (p_kstack (pcb_at k new_process));
          cwd \<leftarrow> kstrcopy (p_cwd (pcb_at k new_process)) (p_cwd (pcb_at k current_process));
          let slice = p_totalslice (pcb_at k current_process) sdiv 2;
          let k = set_pcb new_process (\<lambda>p. p\<lparr>p_kstack := stack, p_cwd := cwd, p_state := SLEEPING, p_totalslice := slice\<rparr>) k;
          let k = set_pcb current_process (\<lambda>p. p\<lparr>p_totalslice := p_totalslice p sdiv 2\<rparr>) k;
          (mm, k) \<leftarrow> alloc MM_SIZE k;
          let k = set_pcb new_process (\<lambda>p. p\<lparr>p_mm := mm\<rparr>) k;
          let k = k\<lparr>procs := (procs k)\<lparr>processcount := processcount (procs k) + 1\<rparr>\<rparr>;
          let k = set_pcb new_process (\<lambda>p. p\<lparr>p_pid := processcount (procs k), p_ppid := p_pid (pcb_at k current_process)\<rparr>) k;
          let cmm = p_mm (pcb_at k current_process);
          let k = set_mm mm (\<lambda>m. m\<lparr>num_of_vmas := num_of_vmas (mms k cmm)\<rparr>) k;
          (vma, k) \<leftarrow> alloc VMA_SIZE k;
          let k = set_mm mm (\<lambda>m. m\<lparr>list_of_vmas := vma\<rparr>) k;
          k \<leftarrow> copy_areas alloc current_process new_process (list_of_vmas (mms k cmm)) 0 k;
          Some (new_process, k) }"

section \<open>The heap of a process\<close>

definition createheap :: "allocator \<Rightarrow> u64 \<Rightarrow> u64 \<Rightarrow> u64 action" where
  "createheap alloc sz process k =
     do { let (heap, k) = bump_user sz k;
          (vma, k) \<leftarrow> alloc VMA_SIZE k;
          let k = set_area vma (\<lambda>v. v\<lparr>vma_type := HEAP, vma_file := 0, vma_start := heap,
                    vma_end := heap + sz - 1\<rparr>) k;
          let cmm = p_mm (pcb_at k (this_thread k));
          let h = init_freelist heap \<lparr>hdr = heap_headers k, freelist = mm_freelist (mms k cmm)\<rparr>;
          let k = set_mm cmm (\<lambda>m. m\<lparr>mm_freelist := freelist h\<rparr>) (k\<lparr>heap_headers := hdr h\<rparr>);
          (_, k) \<leftarrow> append_area (p_mm (pcb_at k process)) vma k;
          let k = count_area (p_mm (pcb_at k process)) k;
          Some (vma, set_pcb process (\<lambda>p. p\<lparr>p_heap_ptr := heap\<rparr>) k) }"

section \<open>The entries of /proc\<close>

text \<open>\<^verbatim>\<open>temp[i++] = intvalue % 10 + '0'\<close> until nothing is left; the result is \<open>i\<close> and the buffer.\<close>

function pid_digits :: "int \<Rightarrow> string \<Rightarrow> nat \<Rightarrow> (nat \<times> string) option" where
  "pid_digits intvalue temp i =
     (if intvalue \<noteq> 0
      then do { temp \<leftarrow> aput temp i (char_of (intvalue smod 10 + 48));
                pid_digits (intvalue sdiv 10) temp (Suc i) }
      else Some (i, temp))"
  by pat_completeness auto
termination
  by (relation "measure (\<lambda>(v, t, i). length t - i)") (auto simp: aput_def split: if_splits)

declare pid_digits.simps [simp del]

text \<open>The name of the entry: the digits turned round; \<open>buf\<close> and \<open>temp\<close> are the two local arrays of three
  characters.\<close>

definition proc_name :: "string \<Rightarrow> string \<Rightarrow> u32 \<Rightarrow> string option" where
  "proc_name buf temp pid =
     do { (i, temp) \<leftarrow> pid_digits (sint pid) temp 0;
          buf \<leftarrow> for_n 0 i (\<lambda>n b. do { x \<leftarrow> aget temp (i - 1 - n); aput b n x }) buf;
          aput buf i NUL }"

text \<open>\<^verbatim>\<open>create_t_node\<close> with its two pages from the allocator.\<close>

definition new_t_node :: "allocator \<Rightarrow> string \<Rightarrow> u64 action" where
  "new_t_node alloc name k =
     do { (tn, k) \<leftarrow> alloc TNODE_SIZE k;
          (no, k) \<leftarrow> alloc NODE_SIZE k;
          s \<leftarrow> create_t_node tn no name (fs k);
          Some (tn, k\<lparr>fs := s\<rparr>) }"

definition add_to_proc_list :: "allocator \<Rightarrow> string \<Rightarrow> string \<Rightarrow> u64 \<Rightarrow> kernel \<Rightarrow> kernel option" where
  "add_to_proc_list alloc buf temp process k =
     do { name \<leftarrow> proc_name buf temp (p_pid (pcb_at k process));
          (process_node, k) \<leftarrow> new_t_node alloc name k;
          let s = set_inode (link_to_inode (tnodes (fs k) process_node)) (\<lambda>n. n\<lparr>link_to_process := process\<rparr>) (fs k);
          Some (k\<lparr>fs := add_file (proc_directory s) process_node s\<rparr>) }"

section \<open>Fork\<close>

text \<open>The index of the kernel stack slot \<open>j\<close> below the saved stack pointer, as the code computes it: the
  stack is the first member of the control block.\<close>

definition stack_slot :: "u64 \<Rightarrow> u64 \<Rightarrow> u64 \<Rightarrow> u64" where
  "stack_slot thread rsp j = of_nat (KSTACKLEN - 1) - (thread + 8 * of_nat (KSTACKLEN - 1) - rsp) div 8 - j"

definition put_stack :: "u64 \<Rightarrow> u64 \<Rightarrow> u64 list \<Rightarrow> u64 list option" where
  "put_stack i v st = aput st (unat i) v"

text \<open>The eight words below the slot of the stack pointer, from which the first switch to the new process loads the registers.\<close>

definition fork_stack :: "(u64 \<Rightarrow> u64) \<Rightarrow> u64 \<Rightarrow> u64 list \<Rightarrow> u64 list option" where
  "fork_stack slot r12 st =
     do { st \<leftarrow> for_n 0 7 (\<lambda>j st. put_stack (slot (of_nat j + 1)) 0 st) st;
          put_stack (slot 8) r12 st }"

text \<open>\<open>rsp\<close> and \<open>r12\<close> are the registers on entry; \<open>dup\<close> is \<^verbatim>\<open>duplicate_page_table\<close>.\<close>

definition sys_fork_with :: "allocator \<Rightarrow> (u64 \<Rightarrow> u64 action) \<Rightarrow> string \<Rightarrow> string \<Rightarrow> u64 \<Rightarrow> u64 \<Rightarrow> u32 action" where
  "sys_fork_with alloc dup buf temp rsp r12 k =
     do { (new_process, k) \<leftarrow> alloc PCB_SIZE k;
          let me = this_thread k;
          (new_process, k) \<leftarrow> copy_process alloc me new_process k;
          k \<leftarrow> add_to_proc_list alloc buf temp new_process k;
          (forked_table, k) \<leftarrow> dup (p_page_table (pcb_at k me) + KERNBASE) k;
          let k = set_pcb new_process (\<lambda>p. p\<lparr>p_page_table := forked_table - KERNBASE\<rparr>) k;
          let k = set_pcb me (\<lambda>p. p\<lparr>p_rsp := rsp + 24\<rparr>) k;
          let slot = stack_slot me (rsp + 24);
          st \<leftarrow> fork_stack slot r12 (p_kstack (pcb_at k new_process));
          let k = set_pcb new_process (\<lambda>p. p\<lparr>p_kstack := st, p_rsp := new_process + 8 * slot 8\<rparr>) k;
          let next_one = p_next (pcb_at k me);
          let k = set_pcb me (\<lambda>p. p\<lparr>p_next := new_process\<rparr>) k;
          let k = set_pcb new_process (\<lambda>p. p\<lparr>p_next := next_one\<rparr>) k;
          let k = set_pcb me (\<lambda>p. if p_child_process p = 0 then p\<lparr>p_child_process := new_process\<rparr> else p) k;
          Some (p_pid (pcb_at k new_process), k) }"

definition sys_fork :: "nat \<Rightarrow> string \<Rightarrow> string \<Rightarrow> u64 \<Rightarrow> u64 \<Rightarrow> u32 action" where
  "sys_fork depth = sys_fork_with (bump depth) (duplicate_page_table depth)"

section \<open>Lists of areas\<close>

abbreviation nx :: "kernel \<Rightarrow> u64 \<Rightarrow> u64" where
  "nx k \<equiv> (\<lambda>a. vma_next (areas k a))"

text \<open>What an area covers, and what for.\<close>

definition span :: "kernel \<Rightarrow> u64 \<Rightarrow> u64 \<times> u64 \<times> u32" where
  "span k a = (vma_start (areas k a), vma_end (areas k a), vma_type (areas k a))"

lemma last_area_chain:
  "chain (\<lambda>a. vma_next (m a)) p (ps @ [a]) 0 \<Longrightarrow> last_area m p = Some a"
proof (induction ps arbitrary: p)
  case Nil
  then show ?case by (simp add: last_area.simps)
next
  case (Cons b ps)
  have "vma_next (m b) \<noteq> 0" using Cons.prems by (cases ps) auto
  then show ?case using Cons by (simp add: last_area.simps [of m b])
qed

lemma set_area_simps [simp]:
  "areas (set_area a f k) = (areas k)(a := f (areas k a))" "vfiles (set_area a f k) = vfiles k"
  "mms (set_area a f k) = mms k" "procs (set_area a f k) = procs k" "fs (set_area a f k) = fs k"
  "kmem.truncate (set_area a f k) = kmem.truncate k"
  by (simp_all add: set_area_def kmem.truncate_def)

lemma set_vfile_simps [simp]:
  "areas (set_vfile a f k) = areas k" "vfiles (set_vfile a f k) = (vfiles k)(a := f (vfiles k a))"
  "mms (set_vfile a f k) = mms k" "procs (set_vfile a f k) = procs k" "fs (set_vfile a f k) = fs k"
  "kmem.truncate (set_vfile a f k) = kmem.truncate k"
  by (simp_all add: set_vfile_def kmem.truncate_def)

lemma set_mm_simps [simp]:
  "areas (set_mm a g k) = areas k" "vfiles (set_mm a g k) = vfiles k"
  "mms (set_mm a g k) = (mms k)(a := g (mms k a))" "procs (set_mm a g k) = procs k" "fs (set_mm a g k) = fs k"
  "kmem.truncate (set_mm a g k) = kmem.truncate k"
  by (simp_all add: set_mm_def kmem.truncate_def)

lemma set_pcb_simps [simp]:
  "areas (set_pcb a h k) = areas k" "vfiles (set_pcb a h k) = vfiles k"
  "mms (set_pcb a h k) = mms k" "procs (set_pcb a h k) = upd a h (procs k)" "fs (set_pcb a h k) = fs k"
  "kmem.truncate (set_pcb a h k) = kmem.truncate k"
  by (simp_all add: set_pcb_def kmem.truncate_def)

lemma more_kernel:
  assumes "kmem.more k' = kmem.more (k :: kernel)"
  shows "procs k' = procs k" "areas k' = areas k" "vfiles k' = vfiles k" "mms k' = mms k"
    "heap_headers k' = heap_headers k" "umem k' = umem k" "fs k' = fs k"
  using assms by (cases k; cases k'; simp)+

lemma append_area_eq:
  assumes "chain (nx k) (list_of_vmas (mms k mm)) (bs @ [l]) 0" and "v \<noteq> l"
  shows "append_area mm v k = Some (l, k\<lparr>areas := (areas k)
      (v := (areas k v)\<lparr>vma_prev := l, vma_next := 0\<rparr>, l := (areas k l)\<lparr>vma_next := v\<rparr>)\<rparr>)"
  using last_area_chain [OF assms(1)] assms(2)
  by (simp add: append_area_def Let_def set_area_def fun_upd_twist)

lemma append_chain:
  assumes "chain n p (bs @ [l]) 0" and "v \<notin> set (bs @ [l])" "v \<noteq> 0" "l \<notin> set bs"
    and "\<And>a. a \<in> set bs \<Longrightarrow> n' a = n a" "n' l = v" "n' v = 0"
  shows "chain n' p (bs @ [l, v]) 0"
proof -
  obtain r where r: "chain n p bs r" "chain n r [l] 0" using assms(1) by (auto simp: chain_append)
  have "chain n' p bs r" using r(1) chain_cong [of bs n' n p r] assms(5) by simp
  moreover have "chain n' r [l, v] 0" using r(2) assms by auto
  ultimately show ?thesis by (auto simp: chain_append)
qed

section \<open>An allocator of kernel structures\<close>

text \<open>
  \<open>ok n T k\<close>: \<open>n\<close> more structures can be allocated, at addresses outside of \<open>T\<close>, and the allocator changes
  nothing but the memory of the paging theory.
\<close>

definition same_objects :: "kernel \<Rightarrow> kernel \<Rightarrow> bool" where
  "same_objects k k' \<longleftrightarrow> procs k' = procs k \<and> areas k' = areas k \<and> vfiles k' = vfiles k \<and> mms k' = mms k
     \<and> heap_headers k' = heap_headers k \<and> umem k' = umem k \<and> fs k' = fs k"

definition small_object :: "u64 \<Rightarrow> bool" where
  "small_object sz \<longleftrightarrow> 0 < sz \<and> sz \<le> 4096"

lemma small_objects [simp]:
  "small_object PCB_SIZE" "small_object MM_SIZE" "small_object VMA_SIZE" "small_object FILE_SIZE"
  "small_object TNODE_SIZE" "small_object NODE_SIZE"
  by (simp_all add: small_object_def PCB_SIZE_def MM_SIZE_def VMA_SIZE_def FILE_SIZE_def TNODE_SIZE_def NODE_SIZE_def)

locale object_source =
  fixes alloc :: allocator and ok :: "nat \<Rightarrow> u64 set \<Rightarrow> kernel \<Rightarrow> bool"
  assumes object_law: "ok (Suc n) T k \<Longrightarrow> small_object sz \<Longrightarrow>
      \<exists>p k'. alloc sz k = Some (p, k') \<and> p \<notin> T \<and> ok n (insert p T) k' \<and> same_objects k k'"
    and frame_law: "ok n T k \<Longrightarrow> kmem.truncate k' = kmem.truncate k \<Longrightarrow> ok n T k'"
    and fewer_law: "ok (Suc n) T k \<Longrightarrow> ok n T k"
begin

lemma take_object:
  assumes "ok (Suc n) T k" "small_object sz"
  obtains p k' where "alloc sz k = Some (p, k')" "p \<notin> T" "ok n (insert p T) k'" "same_objects k k'"
  using object_law [OF assms] by blast

end

text \<open>A copy of the areas does not touch the objects of \<open>T\<close>, except for the links of the areas \<open>bs\<close> and the heap
  and stack pointers of the new process.\<close>

definition copied :: "u64 set \<Rightarrow> u64 \<Rightarrow> u64 list \<Rightarrow> kernel \<Rightarrow> kernel \<Rightarrow> bool" where
  "copied T new bs k k' \<longleftrightarrow> (\<forall>a\<in>T. span k' a = span k a) \<and> (\<forall>a\<in>T. a \<notin> set bs \<longrightarrow> nx k' a = nx k a)
     \<and> (\<exists>h u. procs k' = upd new (\<lambda>p. p\<lparr>p_heap_ptr := h, p_ursp := u\<rparr>) (procs k))
     \<and> (\<forall>m. m \<noteq> p_mm (pcb_at k new) \<longrightarrow> mms k' m = mms k m)"

lemma copied_trans:
  assumes "copied T new bs k k1" "copied T' new bs' k1 k2" "T \<subseteq> T'" "set bs' \<inter> T \<subseteq> set bs"
  shows "copied T new bs k k2"
proof -
  obtain h u where p1: "procs k1 = upd new (\<lambda>p. p\<lparr>p_heap_ptr := h, p_ursp := u\<rparr>) (procs k)"
    using assms(1) by (auto simp: copied_def)
  obtain h' u' where p2: "procs k2 = upd new (\<lambda>p. p\<lparr>p_heap_ptr := h', p_ursp := u'\<rparr>) (procs k1)"
    using assms(2) by (auto simp: copied_def)
  have "procs k2 = upd new (\<lambda>p. p\<lparr>p_heap_ptr := h', p_ursp := u'\<rparr>) (procs k)"
    unfolding p2 p1 by (simp add: upd_def)
  moreover have "p_mm (pcb_at k1 new) = p_mm (pcb_at k new)" by (simp add: p1)
  ultimately show ?thesis
    using assms by (auto simp: copied_def subset_iff)
qed

context object_source
begin

lemma copy_linked_area:
  assumes "ok (Suc (Suc n)) T k" and ty: "vma_type (areas k t) \<in> {HEAP, STACK}"
    and T: "t \<in> T" "set (bs @ [l]) \<subseteq> T" "0 \<in> T" "t \<notin> set (bs @ [l])" and d: "distinct (bs @ [l])"
    and ch: "chain (nx k) (list_of_vmas (mms k (p_mm (pcb_at k new)))) (bs @ [l]) 0"
  shows "\<exists>v k'. copy_area alloc cur new t tv k = Some (l, k') \<and> ok n (insert v T) k' \<and> v \<notin> T \<and> v \<noteq> 0
    \<and> chain (nx k') (list_of_vmas (mms k' (p_mm (pcb_at k' new)))) (bs @ [l, v]) 0
    \<and> copied T new (bs @ [l]) k k' \<and> span k' v = span k t
    \<and> num_of_vmas (mms k' (p_mm (pcb_at k new))) = num_of_vmas (mms k (p_mm (pcb_at k new))) + (if vma_type (areas k t) = STACK then 0 else 1)"
proof -
  obtain v k1 where a: "alloc VMA_SIZE k = Some (v, k1)" "v \<notin> T" "ok (Suc n) (insert v T) k1" "same_objects k k1"
    using take_object [OF assms(1) small_objects(3)] by blast
  note so = a(4) [unfolded same_objects_def]
  have vl: "v \<noteq> l" "v \<notin> set (bs @ [l])" "v \<noteq> 0" "v \<noteq> t" using a(2) T by auto
  define ar where "ar = (areas k1)(v := (areas k1 v)\<lparr>vma_type := vma_type (areas k t), vma_file := 0,
      vma_start := vma_start (areas k t), vma_end := vma_end (areas k t)\<rparr>)"
  define k2 where "k2 = k1\<lparr>areas := ar\<rparr>"
  let ?mm = "p_mm (pcb_at k new)"
  have nx2: "nx k2 = (nx k)(v := vma_next (areas k v))" using so by (auto simp: k2_def ar_def)
  have ch2: "chain (nx k2) (list_of_vmas (mms k2 ?mm)) (bs @ [l]) 0"
    using ch vl(2) so unfolding nx2 by (simp add: k2_def)
  define k3 where "k3 = k2\<lparr>areas := (areas k2)
      (v := (areas k2 v)\<lparr>vma_prev := l, vma_next := 0\<rparr>, l := (areas k2 l)\<lparr>vma_next := v\<rparr>)\<rparr>"
  have ap: "append_area ?mm v k2 = Some (l, k3)" unfolding k3_def by (rule append_area_eq [OF ch2 vl(1)])
  have k3: "procs k3 = procs k" "mms k3 = mms k" "kmem.truncate k3 = kmem.truncate k1"
    "areas k3 = (areas k2)(v := (areas k2 v)\<lparr>vma_prev := l, vma_next := 0\<rparr>, l := (areas k2 l)\<lparr>vma_next := v\<rparr>)"
    using so by (simp_all add: k3_def k2_def kmem.truncate_def)
  have "\<exists>kf h u. copy_area alloc cur new t tv k = Some (l, kf) \<and> areas kf = areas k3
      \<and> procs kf = upd new (\<lambda>p. p\<lparr>p_heap_ptr := h, p_ursp := u\<rparr>) (procs k)
      \<and> (\<forall>m. m \<noteq> ?mm \<longrightarrow> mms kf m = mms k m) \<and> list_of_vmas (mms kf ?mm) = list_of_vmas (mms k ?mm)
      \<and> num_of_vmas (mms kf ?mm) = num_of_vmas (mms k ?mm) + (if vma_type (areas k t) = STACK then 0 else 1)
      \<and> kmem.truncate kf = kmem.truncate k1"
  proof (cases "vma_type (areas k t) = HEAP")
    case True
    have k2: "set_area v (\<lambda>v. v\<lparr>vma_type := HEAP, vma_file := 0, vma_start := vma_start (areas k t),
        vma_end := vma_end (areas k t)\<rparr>) k1 = k2"
      using True so by (simp add: k2_def ar_def set_area_def)
    define h where "h = p_heap_ptr (pcb_at k cur)"
    have "\<exists>fr. copy_area alloc cur new t tv k = Some (l, set_mm ?mm (\<lambda>m. m\<lparr>mm_freelist := fr\<rparr>)
        (set_pcb new (\<lambda>p. p\<lparr>p_heap_ptr := h\<rparr>) (count_area ?mm k3)))"
      using True so ap by (intro exI) (simp add: copy_area_def a(1) Let_def k2 h_def k3(1) count_area_def)
    then obtain fr where "copy_area alloc cur new t tv k = Some (l, set_mm ?mm (\<lambda>m. m\<lparr>mm_freelist := fr\<rparr>)
        (set_pcb new (\<lambda>p. p\<lparr>p_heap_ptr := h\<rparr>) (count_area ?mm k3)))" ..
    moreover define kf where "kf = set_mm ?mm (\<lambda>m. m\<lparr>mm_freelist := fr\<rparr>)
        (set_pcb new (\<lambda>p. p\<lparr>p_heap_ptr := h\<rparr>) (count_area ?mm k3))"
    ultimately have "copy_area alloc cur new t tv k = Some (l, kf)" by simp
    moreover have "procs kf = upd new (\<lambda>p. p\<lparr>p_heap_ptr := h, p_ursp := p_ursp (pcb_at k new)\<rparr>) (procs k)"
      by (simp add: kf_def count_area_def k3(1) upd_def)
    moreover have "areas kf = areas k3" "\<forall>m. m \<noteq> ?mm \<longrightarrow> mms kf m = mms k m"
      "list_of_vmas (mms kf ?mm) = list_of_vmas (mms k ?mm)" "kmem.truncate kf = kmem.truncate k1"
      "num_of_vmas (mms kf ?mm) = num_of_vmas (mms k ?mm) + (if vma_type (areas k t) = STACK then 0 else 1)"
      using True by (simp_all add: kf_def count_area_def k3(2,3) HEAP_def STACK_def)
    ultimately show ?thesis by blast
  next
    case False
    then have st: "vma_type (areas k t) = STACK" using ty by simp
    have k2: "set_area v (\<lambda>v. v\<lparr>vma_type := STACK, vma_file := 0, vma_start := vma_start (areas k t),
        vma_end := vma_end (areas k t)\<rparr>) k1 = k2"
      using st so by (simp add: k2_def ar_def set_area_def)
    define u where "u = p_ursp (pcb_at k (this_thread k))"
    define kf where "kf = set_pcb new (\<lambda>p. p\<lparr>p_ursp := u\<rparr>) k3"
    have "copy_area alloc cur new t tv k = Some (l, kf)"
      using st False so ap by (simp add: copy_area_def a(1) Let_def k2 kf_def u_def k3(1))
    moreover have "procs kf = upd new (\<lambda>p. p\<lparr>p_heap_ptr := p_heap_ptr (pcb_at k new), p_ursp := u\<rparr>) (procs k)"
      by (simp add: kf_def k3(1) upd_def)
    moreover have "areas kf = areas k3" "\<forall>m. m \<noteq> ?mm \<longrightarrow> mms kf m = mms k m"
      "list_of_vmas (mms kf ?mm) = list_of_vmas (mms k ?mm)" "kmem.truncate kf = kmem.truncate k1"
      "num_of_vmas (mms kf ?mm) = num_of_vmas (mms k ?mm) + (if vma_type (areas k t) = STACK then 0 else 1)"
      using st by (simp_all add: kf_def k3(2,3))
    ultimately show ?thesis by blast
  qed
  then obtain kf h u where kf: "copy_area alloc cur new t tv k = Some (l, kf)" "areas kf = areas k3"
    "procs kf = upd new (\<lambda>p. p\<lparr>p_heap_ptr := h, p_ursp := u\<rparr>) (procs k)"
    "\<forall>m. m \<noteq> ?mm \<longrightarrow> mms kf m = mms k m" "list_of_vmas (mms kf ?mm) = list_of_vmas (mms k ?mm)"
    "kmem.truncate kf = kmem.truncate k1"
    "num_of_vmas (mms kf ?mm) = num_of_vmas (mms k ?mm) + (if vma_type (areas k t) = STACK then 0 else 1)" by blast
  have nf: "nx kf a = (if a = l then v else if a = v then 0 else nx k a)" for a
    using vl(1) nx2 by (simp add: kf(2) k3(4) fun_eq_iff)
  have "chain (nx kf) (list_of_vmas (mms k ?mm)) (bs @ [l, v]) 0"
    by (rule append_chain [OF ch]) (use vl d nf in auto)
  moreover have "span kf a = (if a = v then span k t else span k a)" for a
    using vl so by (simp add: span_def kf(2) k3(4)) (auto simp: k2_def ar_def)
  ultimately show ?thesis
    using kf a vl nf fewer_law [OF frame_law [OF a(3) kf(6)]] by (intro exI [of _ v] exI [of _ kf]) (auto simp: copied_def)
qed

lemma copy_other_area:
  assumes "ok (Suc (Suc n)) T k" and ty: "vma_type (areas k t) \<notin> {HEAP, STACK}" and T: "t \<in> T" "0 \<in> T"
  shows "\<exists>v k' T'. copy_area alloc cur new t tv k = Some (v, k') \<and> ok n T' k' \<and> insert v T \<subseteq> T' \<and> v \<notin> T \<and> v \<noteq> 0
    \<and> (\<forall>a\<in>T. areas k' a = areas k a) \<and> procs k' = procs k
    \<and> (\<forall>m. m \<noteq> p_mm (pcb_at k new) \<longrightarrow> mms k' m = mms k m)
    \<and> list_of_vmas (mms k' (p_mm (pcb_at k new))) = (if tv = 0 then v else list_of_vmas (mms k (p_mm (pcb_at k new))))
    \<and> vma_start (areas k' v) = vma_start (areas k t) \<and> vma_end (areas k' v) = vma_end (areas k t)
    \<and> vma_type (areas k' v) = vma_type (areas k v) \<and> vma_next (areas k' v) = 0
    \<and> num_of_vmas (mms k' (p_mm (pcb_at k new))) = num_of_vmas (mms k (p_mm (pcb_at k new))) + 1"
proof -
  let ?mm = "p_mm (pcb_at k new)"
  obtain v k1 where a: "alloc VMA_SIZE k = Some (v, k1)" "v \<notin> T" "ok (Suc n) (insert v T) k1" "same_objects k k1"
    using take_object [OF assms(1) small_objects(3)] by blast
  note so = a(4) [unfolded same_objects_def]
  have v: "v \<noteq> 0" "v \<noteq> t" using a(2) T by auto
  define k2 where "k2 = set_area v (\<lambda>v. v\<lparr>vma_start := vma_start (areas k t),
      vma_end := vma_end (areas k t), vma_flags := vma_flags (areas k t)\<rparr>) k1"
  have o2: "ok (Suc n) (insert v T) k2" by (rule frame_law [OF a(3)]) (simp add: k2_def)
  define fin where "fin k3 = count_area ?mm (let k = set_area v (\<lambda>v. v\<lparr>vma_next := 0\<rparr>) k3
      in if tv = 0 then set_area v (\<lambda>v. v\<lparr>vma_prev := 0\<rparr>) (set_mm ?mm (\<lambda>m. m\<lparr>list_of_vmas := v\<rparr>) k)
         else set_area v (\<lambda>v. v\<lparr>vma_prev := tv\<rparr>) k)" for k3
  have "\<exists>k3 T'. copy_area alloc cur new t tv k = Some (v, fin k3) \<and> ok n T' k3 \<and> insert v T \<subseteq> T'
      \<and> procs k3 = procs k \<and> mms k3 = mms k \<and> (\<forall>x. x \<noteq> v \<longrightarrow> areas k3 x = areas k2 x)
      \<and> vma_start (areas k3 v) = vma_start (areas k2 v) \<and> vma_end (areas k3 v) = vma_end (areas k2 v)
      \<and> vma_type (areas k3 v) = vma_type (areas k2 v)"
  proof (cases "vma_file (areas k t) = 0")
    case True
    have "copy_area alloc cur new t tv k = Some (v, fin k2)"
      using ty True v so by (simp add: copy_area_def a(1) Let_def k2_def fin_def)
    then show ?thesis using o2 fewer_law so by (intro exI [of _ k2] exI [of _ "insert v T"]) (simp add: k2_def)
  next
    case False
    obtain f k4 where f: "alloc FILE_SIZE k2 = Some (f, k4)" "f \<notin> insert v T" "ok n (insert f (insert v T)) k4"
      "same_objects k2 k4" using take_object [OF o2 small_objects(4)] by blast
    note so4 = f(4) [unfolded same_objects_def]
    define old where "old = vfiles k4 (vma_file (areas k4 t))"
    define k5 where "k5 = set_vfile f (\<lambda>f. f\<lparr>bss_size := bss_size old, file_start := bss_size old,
        vm_pgoff := vm_pgoff old, vm_sz := vm_sz old\<rparr>) (set_area v (\<lambda>v. v\<lparr>vma_file := f\<rparr>) k4)"
    have "areas k2 t = areas k t" using v so by (simp add: k2_def)
    then have "copy_area alloc cur new t tv k = Some (v, fin k5)"
      using ty False v so f(1)
      by (simp add: copy_area_def a(1) Let_def k2_def [symmetric] k5_def old_def fin_def)
    moreover have "ok n (insert f (insert v T)) k5" by (rule frame_law [OF f(3)]) (simp add: k5_def)
    ultimately show ?thesis using so so4
      by (intro exI [of _ k5] exI [of _ "insert f (insert v T)"]) (auto simp: k5_def k2_def)
  qed
  then obtain k3 T' where k3: "copy_area alloc cur new t tv k = Some (v, fin k3)" "ok n T' k3" "insert v T \<subseteq> T'"
    "procs k3 = procs k" "mms k3 = mms k" "\<forall>x. x \<noteq> v \<longrightarrow> areas k3 x = areas k2 x"
    "vma_start (areas k3 v) = vma_start (areas k2 v)" "vma_end (areas k3 v) = vma_end (areas k2 v)"
    "vma_type (areas k3 v) = vma_type (areas k2 v)" by blast
  have "ok n T' (fin k3)" by (rule frame_law [OF k3(2)]) (simp add: fin_def count_area_def Let_def)
  moreover have "\<forall>x\<in>T. x \<noteq> v" using a(2) by auto
  ultimately show ?thesis using k3 a(2) v so
    by (intro exI [of _ v] exI [of _ "fin k3"] exI [of _ T'])
      (auto simp: fin_def count_area_def Let_def k2_def)
qed

lemma copy_rest:
  assumes "ok (2 * length ts) T k" and "chain (nx k) t ts 0" and "set ts \<subseteq> T" "set bs \<subseteq> T" "0 \<in> T"
    and "set ts \<inter> set bs = {}" "distinct ts" "distinct bs" "bs \<noteq> []" "tv \<noteq> 0"
    and "chain (nx k) (list_of_vmas (mms k (p_mm (pcb_at k new)))) bs 0"
  shows "\<exists>k' cs. copy_areas alloc cur new t tv k = Some k'
    \<and> chain (nx k') (list_of_vmas (mms k' (p_mm (pcb_at k new)))) (bs @ cs) 0
    \<and> map (span k') cs = map (span k) (filter (\<lambda>a. vma_type (areas k a) \<in> {HEAP, STACK}) ts)
    \<and> copied T new bs k k'
    \<and> num_of_vmas (mms k' (p_mm (pcb_at k new)))
      = num_of_vmas (mms k (p_mm (pcb_at k new))) + of_nat (length (filter (\<lambda>a. vma_type (areas k a) \<noteq> STACK) ts))"
  using assms
proof (induction ts arbitrary: T k t bs tv)
  case Nil
  have "p_heap_ptr_update (\<lambda>_. p_heap_ptr (pcb_at k new)) (p_ursp_update (\<lambda>_. p_ursp (pcb_at k new)) (pcb_at k new)) = pcb_at k new"
    by simp
  then have "procs k = upd new (\<lambda>p. p\<lparr>p_heap_ptr := p_heap_ptr (pcb_at k new), p_ursp := p_ursp (pcb_at k new)\<rparr>) (procs k)"
    by (simp add: upd_def)
  then have "copied T new bs k k" unfolding copied_def by blast
  then show ?case using Nil by (intro exI [of _ k] exI [of _ "[]"]) (simp add: copy_areas.simps)
next
  case (Cons x ts)
  have t: "t = x" "x \<noteq> 0" "chain (nx k) (nx k x) ts 0" using Cons.prems(2) by auto
  have ok: "ok (Suc (Suc (2 * length ts))) T k" using Cons.prems(1) by simp
  have xT: "x \<in> T" "x \<notin> set bs" "set ts \<subseteq> T" using Cons.prems by auto
  let ?mm = "p_mm (pcb_at k new)"
  let ?P = "\<lambda>k a. vma_type (areas k a) \<in> {HEAP, STACK}"
  let ?Q = "\<lambda>k a. vma_type (areas k a) \<noteq> STACK"
  have same_type: "?P k' a = ?P k a" "?Q k' a = ?Q k a" if "\<forall>a\<in>T. span k' a = span k a" "a \<in> T" for k' a
    using that by (auto simp: span_def)
  show ?case
  proof (cases "?P k x")
    case True
    obtain bs' l where bs: "bs = bs' @ [l]" using Cons.prems(9) by (cases bs rule: rev_cases) auto
    obtain v k1 where c: "copy_area alloc cur new t tv k = Some (l, k1)" "ok (2 * length ts) (insert v T) k1"
      "v \<notin> T" "v \<noteq> 0" "chain (nx k1) (list_of_vmas (mms k1 (p_mm (pcb_at k1 new)))) (bs' @ [l, v]) 0"
      "copied T new bs k k1" "span k1 v = span k x"
      "num_of_vmas (mms k1 ?mm) = num_of_vmas (mms k ?mm) + (if vma_type (areas k x) = STACK then 0 else 1)"
      using copy_linked_area [of "2 * length ts" T k x bs' l new cur tv] ok True xT Cons.prems t unfolding bs
      by auto
    have mm1: "p_mm (pcb_at k1 new) = ?mm" using c(6) by (auto simp: copied_def)
    have nxT: "nx k1 a = nx k a" if "a \<in> T" "a \<notin> set bs" for a using c(6) that by (simp add: copied_def)
    have ch1: "chain (nx k1) (nx k1 x) ts 0"
    proof -
      have "chain (nx k1) (nx k x) ts 0 = chain (nx k) (nx k x) ts 0"
        by (rule chain_cong, rule nxT) (use xT Cons.prems(6) in auto)
      then show ?thesis using t(3) nxT [OF xT(1,2)] by simp
    qed
    obtain k' cs where r: "copy_areas alloc cur new (nx k1 x) l k1 = Some k'"
      "chain (nx k') (list_of_vmas (mms k' ?mm)) ((bs @ [v]) @ cs) 0"
      "map (span k') cs = map (span k1) (filter (?P k1) ts)" "copied (insert v T) new (bs @ [v]) k1 k'"
      "num_of_vmas (mms k' ?mm) = num_of_vmas (mms k1 ?mm) + of_nat (length (filter (?Q k1) ts))"
    proof -
      have "set ts \<subseteq> insert v T" "set (bs @ [v]) \<subseteq> insert v T" "0 \<in> insert v T"
        "set ts \<inter> set (bs @ [v]) = {}" "distinct ts" "distinct (bs @ [v])" "bs @ [v] \<noteq> []" "l \<noteq> 0"
        using Cons.prems(3-8) chain_nonnull [OF Cons.prems(11)] c(3) xT bs by auto
      moreover have "chain (nx k1) (list_of_vmas (mms k1 (p_mm (pcb_at k1 new)))) (bs @ [v]) 0"
        using c(5) bs by simp
      ultimately have "\<exists>k' cs. copy_areas alloc cur new (nx k1 x) l k1 = Some k'
          \<and> chain (nx k') (list_of_vmas (mms k' (p_mm (pcb_at k1 new)))) ((bs @ [v]) @ cs) 0
          \<and> map (span k') cs = map (span k1) (filter (?P k1) ts) \<and> copied (insert v T) new (bs @ [v]) k1 k'
          \<and> num_of_vmas (mms k' (p_mm (pcb_at k1 new))) = num_of_vmas (mms k1 (p_mm (pcb_at k1 new))) + of_nat (length (filter (?Q k1) ts))"
        by (rule Cons.IH [OF c(2) ch1])
      then show thesis using that mm1 by auto
    qed
    have sp: "\<forall>a\<in>T. span k1 a = span k a" using c(6) by (simp add: copied_def)
    have Q: "filter (?Q k1) ts = filter (?Q k) ts" using same_type(2) [OF sp] xT by (intro filter_cong) auto
    have "filter (?P k1) ts = filter (?P k) ts" using same_type(1) [OF sp] xT by (intro filter_cong) auto
    moreover have "map (span k1) (filter (?P k) ts) = map (span k) (filter (?P k) ts)" using sp xT by auto
    moreover have "span k' v = span k x" using r(4) c(7) by (simp add: copied_def)
    ultimately have "map (span k') (v # cs) = map (span k) (filter (?P k) (x # ts))" using r(3) True by simp
    moreover have "copied T new bs k k'"
      using copied_trans [OF c(6) r(4)] c(3) by auto
    moreover have "copy_areas alloc cur new t tv k = Some k'"
      using r(1) c(1) t by (subst copy_areas.simps) simp
    ultimately show ?thesis using r(2,5) c(8) Q by (intro exI [of _ k'] exI [of _ "v # cs"]) (simp add: t(1))
  next
    case False
    obtain v k1 T1 where c: "copy_area alloc cur new t tv k = Some (v, k1)" "ok (2 * length ts) T1 k1"
      "insert v T \<subseteq> T1" "v \<noteq> 0" "\<forall>a\<in>T. areas k1 a = areas k a" "procs k1 = procs k"
      "\<forall>m. m \<noteq> ?mm \<longrightarrow> mms k1 m = mms k m" "list_of_vmas (mms k1 ?mm) = list_of_vmas (mms k ?mm)"
      "num_of_vmas (mms k1 ?mm) = num_of_vmas (mms k ?mm) + 1"
      using copy_other_area [OF ok False xT(1) Cons.prems(5), of cur new tv] Cons.prems(10) t by auto
    have nxT: "nx k1 a = nx k a" if "a \<in> T" for a using c(5) that by simp
    have ch1: "chain (nx k1) (nx k1 x) ts 0"
    proof -
      have "chain (nx k1) (nx k x) ts 0 = chain (nx k) (nx k x) ts 0"
        by (rule chain_cong, rule nxT) (use xT in auto)
      then show ?thesis using t(3) nxT [OF xT(1)] by simp
    qed
    have chb: "chain (nx k1) (list_of_vmas (mms k1 (p_mm (pcb_at k1 new)))) bs 0"
    proof -
      have "chain (nx k1) (list_of_vmas (mms k ?mm)) bs 0 = chain (nx k) (list_of_vmas (mms k ?mm)) bs 0"
        by (rule chain_cong, rule nxT) (use Cons.prems(4) in auto)
      then show ?thesis using Cons.prems(11) c(6,8) by simp
    qed
    obtain k' cs where r: "copy_areas alloc cur new (nx k1 x) v k1 = Some k'"
      "chain (nx k') (list_of_vmas (mms k' ?mm)) (bs @ cs) 0"
      "map (span k') cs = map (span k1) (filter (?P k1) ts)" "copied T1 new bs k1 k'"
      "num_of_vmas (mms k' ?mm) = num_of_vmas (mms k1 ?mm) + of_nat (length (filter (?Q k1) ts))"
    proof -
      have "set ts \<subseteq> T1" "set bs \<subseteq> T1" "0 \<in> T1" "set ts \<inter> set bs = {}" "distinct ts" "distinct bs" "bs \<noteq> []" "v \<noteq> 0"
        using Cons.prems c(3,4) xT by auto
      then have "\<exists>k' cs. copy_areas alloc cur new (nx k1 x) v k1 = Some k'
          \<and> chain (nx k') (list_of_vmas (mms k' (p_mm (pcb_at k1 new)))) (bs @ cs) 0
          \<and> map (span k') cs = map (span k1) (filter (?P k1) ts) \<and> copied T1 new bs k1 k'
          \<and> num_of_vmas (mms k' (p_mm (pcb_at k1 new))) = num_of_vmas (mms k1 (p_mm (pcb_at k1 new))) + of_nat (length (filter (?Q k1) ts))"
        by (rule Cons.IH [OF c(2) ch1 _ _ _ _ _ _ _ _ chb])
      then show thesis using that c(6) by auto
    qed
    have sp: "\<forall>a\<in>T. span k1 a = span k a" using c(5) by (simp add: span_def)
    have Q: "filter (?Q k1) ts = filter (?Q k) ts" using same_type(2) [OF sp] xT by (intro filter_cong) auto
    have "filter (?P k1) ts = filter (?P k) ts" using same_type(1) [OF sp] xT by (intro filter_cong) auto
    moreover have "map (span k1) (filter (?P k) ts) = map (span k) (filter (?P k) ts)" using sp xT by auto
    ultimately have "map (span k') cs = map (span k) (filter (?P k) (x # ts))" using r(3) False by simp
    moreover have "copied T new bs k k'"
    proof -
      have "procs k = upd new (\<lambda>p. p\<lparr>p_heap_ptr := p_heap_ptr (pcb_at k new), p_ursp := p_ursp (pcb_at k new)\<rparr>) (procs k)"
        by (simp add: upd_def)
      then have "copied T new bs k k1" using c sp nxT unfolding copied_def c(6) by blast
      then show ?thesis using copied_trans [OF _ r(4)] c(3) by auto
    qed
    moreover have "copy_areas alloc cur new t tv k = Some k'"
      using r(1) c(1) t by (subst copy_areas.simps) simp
    moreover have "?Q k x" using False by simp
    ultimately show ?thesis using r(2,5) c(9) Q by (intro exI [of _ k'] exI [of _ cs]) simp
  qed
qed

lemma copy_process_areas:
  assumes ok: "ok (2 * Suc (length rest) + 2) T k" and T: "set (first # rest) \<subseteq> T" "0 \<in> T" "p_mm (pcb_at k cur) \<in> T"
    and ne: "cur \<noteq> new" and d: "distinct (first # rest)"
    and ch: "chain (nx k) (list_of_vmas (mms k (p_mm (pcb_at k cur)))) (first # rest) 0"
    and ty: "vma_type (areas k first) \<notin> {HEAP, STACK}"
    and st: "length (p_kstack (pcb_at k cur)) = KSTACKLEN" "length (p_kstack (pcb_at k new)) = KSTACKLEN"
    and cwd: "terminated (p_cwd (pcb_at k cur))" "length (cstr (p_cwd (pcb_at k cur))) < length (p_cwd (pcb_at k new))"
  shows "\<exists>k' v cs. copy_process alloc cur new k = Some (new, k')
    \<and> chain (nx k') (list_of_vmas (mms k' (p_mm (pcb_at k' new)))) (v # cs) 0
    \<and> vma_start (areas k' v) = vma_start (areas k first) \<and> vma_end (areas k' v) = vma_end (areas k first)
    \<and> map (span k') cs = map (span k) (filter (\<lambda>a. vma_type (areas k a) \<in> {HEAP, STACK}) rest)
    \<and> (\<forall>a\<in>set (first # rest). span k' a = span k a \<and> nx k' a = nx k a)
    \<and> p_kstack (pcb_at k' new) = p_kstack (pcb_at k cur) \<and> p_state (pcb_at k' new) = SLEEPING
    \<and> p_pid (pcb_at k' new) = processcount (procs k) + 1 \<and> p_ppid (pcb_at k' new) = p_pid (pcb_at k cur)
    \<and> p_totalslice (pcb_at k' new) = p_totalslice (pcb_at k cur) sdiv 2
    \<and> p_totalslice (pcb_at k' cur) = p_totalslice (pcb_at k cur) sdiv 2
    \<and> cstr (p_cwd (pcb_at k' new)) = cstr (p_cwd (pcb_at k cur))
    \<and> (\<forall>a. p_next (pcb_at k' a) = p_next (pcb_at k a)) \<and> threadlist (procs k') = threadlist (procs k)
    \<and> currentthread (procs k') = currentthread (procs k) \<and> processcount (procs k') = processcount (procs k) + 1
    \<and> p_mm (pcb_at k' new) \<notin> T \<and> p_mm (pcb_at k' cur) = p_mm (pcb_at k cur)
    \<and> mms k' (p_mm (pcb_at k cur)) = mms k (p_mm (pcb_at k cur))
    \<and> num_of_vmas (mms k' (p_mm (pcb_at k' new)))
      = num_of_vmas (mms k (p_mm (pcb_at k cur))) + of_nat (length (filter (\<lambda>a. vma_type (areas k a) \<noteq> STACK) (first # rest)))"
proof -
  let ?n = "2 * Suc (length rest)"
  define k1 where "k1 = set_pcb cur (\<lambda>p. p\<lparr>p_totalslice := p_totalslice p sdiv 2\<rparr>)
    (set_pcb new (\<lambda>p. p\<lparr>p_kstack := p_kstack (pcb_at k cur),
       p_cwd := cstr (p_cwd (pcb_at k cur)) @ NUL # drop (Suc (length (cstr (p_cwd (pcb_at k cur))))) (p_cwd (pcb_at k new)),
       p_state := SLEEPING, p_totalslice := p_totalslice (pcb_at k cur) sdiv 2\<rparr>) k)"
  have o1: "ok (Suc (Suc ?n)) T k1" by (rule frame_law [of _ _ k]) (use ok in \<open>simp_all add: k1_def\<close>)
  obtain mm k2 where a2: "alloc MM_SIZE k1 = Some (mm, k2)" "mm \<notin> T" "ok (Suc ?n) (insert mm T) k2" "same_objects k1 k2"
    using take_object [OF o1 small_objects(2)] by blast
  note so2 = a2(4) [unfolded same_objects_def]
  define cmm where "cmm = p_mm (pcb_at k cur)"
  define k3 where "k3 = set_mm mm (\<lambda>m. m\<lparr>num_of_vmas := num_of_vmas (mms k cmm)\<rparr>)
     (set_pcb new (\<lambda>p. p\<lparr>p_pid := processcount (procs k) + 1, p_ppid := p_pid (pcb_at k cur)\<rparr>)
       ((set_pcb new (\<lambda>p. p\<lparr>p_mm := mm\<rparr>) k2)\<lparr>procs := (procs (set_pcb new (\<lambda>p. p\<lparr>p_mm := mm\<rparr>) k2))
           \<lparr>processcount := processcount (procs k) + 1\<rparr>\<rparr>))"
  have "kmem.truncate k3 = kmem.truncate k2" by (simp add: k3_def kmem.truncate_def set_mm_def set_pcb_def)
  then have o3: "ok (Suc ?n) (insert mm T) k3" by (rule frame_law [OF a2(3)])
  obtain v0 k4 where a4: "alloc VMA_SIZE k3 = Some (v0, k4)" "v0 \<notin> insert mm T" "ok ?n (insert v0 (insert mm T)) k4"
    "same_objects k3 k4" using take_object [OF o3 small_objects(3)] by blast
  note so4 = a4(4) [unfolded same_objects_def]
  define k5 where "k5 = set_mm mm (\<lambda>m. m\<lparr>list_of_vmas := v0\<rparr>) k4"
  have o5: "ok ?n (insert v0 (insert mm T)) k5" by (rule frame_law [OF a4(3)]) (simp add: k5_def)
  have mmc: "mm \<noteq> cmm" using a2(2) T by (auto simp: cmm_def)
  have f5: "areas k5 = areas k" "mms k5 cmm = mms k cmm" "p_mm (pcb_at k5 new) = mm" "fs k5 = fs k"
    "p_mm (pcb_at k5 cur) = cmm"
    using so2 so4 mmc ne by (simp_all add: k5_def k3_def k1_def cmm_def)
  have ok5: "ok (Suc (Suc (2 * length rest))) (insert v0 (insert mm T)) k5" using o5 by simp
  have fT: "first \<in> insert v0 (insert mm T)" "0 \<in> insert v0 (insert mm T)" using T by auto
  obtain v k6 T6 where c: "copy_area alloc cur new first 0 k5 = Some (v, k6)" "ok (2 * length rest) T6 k6"
      "insert v (insert v0 (insert mm T)) \<subseteq> T6" "v \<notin> insert v0 (insert mm T)" "v \<noteq> 0"
      "\<forall>a\<in>insert v0 (insert mm T). areas k6 a = areas k5 a" "procs k6 = procs k5"
      "\<forall>m. m \<noteq> mm \<longrightarrow> mms k6 m = mms k5 m" "list_of_vmas (mms k6 mm) = v"
      "vma_start (areas k6 v) = vma_start (areas k first)" "vma_end (areas k6 v) = vma_end (areas k first)"
      "vma_next (areas k6 v) = 0" "num_of_vmas (mms k6 mm) = num_of_vmas (mms k5 mm) + 1"
    using copy_other_area [OF ok5 _ fT, of cur new 0] ty f5 by auto
  have ar6: "areas k6 a = areas k a" if "a \<in> T" for a using c(6) f5 that by simp
  have "chain (nx k) (nx k first) rest 0" "first \<noteq> 0" using ch by auto
  then have ch6: "chain (nx k6) (nx k6 first) rest 0" "first \<noteq> 0"
    using chain_cong [of rest "nx k6" "nx k"] ar6 T by (simp_all add: subset_iff)
  have chv: "chain (nx k6) (list_of_vmas (mms k6 (p_mm (pcb_at k6 new)))) [v] 0"
    using c f5 by simp
  have vT: "v \<notin> T" "v \<in> T6" "T \<subseteq> T6" using c(3,4) by auto
  obtain k7 cs where r: "copy_areas alloc cur new (nx k6 first) v k6 = Some k7"
      "chain (nx k7) (list_of_vmas (mms k7 mm)) ([v] @ cs) 0"
      "map (span k7) cs = map (span k6) (filter (\<lambda>a. vma_type (areas k6 a) \<in> {HEAP, STACK}) rest)"
      "copied T6 new [v] k6 k7"
      "num_of_vmas (mms k7 mm) = num_of_vmas (mms k6 mm) + of_nat (length (filter (\<lambda>a. vma_type (areas k6 a) \<noteq> STACK) rest))"
    using copy_rest [OF c(2) ch6(1), of "[v]" v new cur] vT T c(5) d chv f5 c(7) by auto
  have all: "copy_areas alloc cur new first 0 k5 = Some k7"
    using r(1) c(1) ch6(2) by (subst copy_areas.simps) simp
  have lst: "list_of_vmas (mms k5 cmm) = first" using f5 ch by (simp add: cmm_def)
  have stk: "for_n 0 KSTACKLEN (\<lambda>i st. do { x \<leftarrow> aget (p_kstack (pcb_at k cur)) i; aput st i x })
      (p_kstack (pcb_at k new)) = Some (p_kstack (pcb_at k cur))"
    using st by (simp add: for_n_copy)
  have e1: "kstrcopy (p_cwd (pcb_at k new)) (p_cwd (pcb_at k cur)) =
      Some (cstr (p_cwd (pcb_at k cur)) @ NUL # drop (Suc (length (cstr (p_cwd (pcb_at k cur))))) (p_cwd (pcb_at k new)))"
    using cwd by simp
  have pc: "processcount (procs k2) = processcount (procs k)" "p_pid (pcb_at k2 cur) = p_pid (pcb_at k cur)"
      "p_mm (pcb_at k2 cur) = cmm" "mms k2 = mms k"
    using so2 ne by (simp_all add: k1_def cmm_def)
  have m4: "list_of_vmas (mms k4 cmm) = first" using lst mmc by (simp add: k5_def)
  have cp: "copy_process alloc cur new k = Some (new, k7)"
    unfolding copy_process_def stk e1 Let_def bind.bind_lunit k1_def [symmetric] a2(1)
    using a4(1) [unfolded k3_def] m4 all mmc
    by (simp add: pc ne ne [symmetric] k5_def [symmetric])
  obtain h u where p7: "procs k7 = upd new (\<lambda>p. p\<lparr>p_heap_ptr := h, p_ursp := u\<rparr>) (procs k6)"
    using r(4) by (auto simp: copied_def)
  have p5: "pcbs (procs k5) = (pcbs (procs k1))(new := (pcb_at k1 new)\<lparr>p_mm := mm,
        p_pid := processcount (procs k) + 1, p_ppid := p_pid (pcb_at k cur)\<rparr>)"
      "threadlist (procs k5) = threadlist (procs k1)" "currentthread (procs k5) = currentthread (procs k1)"
      "processcount (procs k5) = processcount (procs k) + 1"
    using so2 so4 by (simp_all add: k5_def k3_def upd_def)
  have pcbs: "pcb_at k7 new = (pcb_at k1 new)\<lparr>p_mm := mm, p_pid := processcount (procs k) + 1,
      p_ppid := p_pid (pcb_at k cur), p_heap_ptr := h, p_ursp := u\<rparr>" "\<And>a. a \<noteq> new \<Longrightarrow> pcb_at k7 a = pcb_at k1 a"
    "threadlist (procs k7) = threadlist (procs k1)" "currentthread (procs k7) = currentthread (procs k1)"
    "processcount (procs k7) = processcount (procs k) + 1"
    by (simp_all add: p7 c(7) p5)
  have sp7: "span k7 a = span k6 a" "a \<noteq> v \<Longrightarrow> nx k7 a = nx k6 a" if "a \<in> T6" for a
    using r(4) that by (auto simp: copied_def)
  have "span k6 a = span k a" if "a \<in> T" for a using ar6 [OF that] by (simp add: span_def)
  then have sp: "span k7 a = span k a" "nx k7 a = nx k a" if "a \<in> T" for a
    using sp7 [of a] ar6 [OF that] that vT by auto
  have fl: "filter (\<lambda>a. vma_type (areas k6 a) \<in> {HEAP, STACK}) rest = filter (\<lambda>a. vma_type (areas k a) \<in> {HEAP, STACK}) rest"
    using ar6 T by (intro filter_cong) auto
  have "filter (\<lambda>a. vma_type (areas k6 a) \<noteq> STACK) rest = filter (\<lambda>a. vma_type (areas k a) \<noteq> STACK) rest"
    using ar6 T by (intro filter_cong) auto
  moreover have "num_of_vmas (mms k5 mm) = num_of_vmas (mms k cmm)" using so4 by (simp add: k5_def k3_def)
  ultimately have cnt: "num_of_vmas (mms k7 mm) = num_of_vmas (mms k cmm) + of_nat (length (filter (\<lambda>a. vma_type (areas k a) \<noteq> STACK) (first # rest)))"
    using r(5) c(13) ty by simp
  have "p_mm (pcb_at k6 new) = mm" using c(7) f5 by simp
  then have keep: "mms k7 cmm = mms k cmm" using r(4) c(8) f5(2) mmc by (simp add: copied_def)
  have own: "mm \<notin> T" "p_mm (pcb_at k7 cur) = cmm" using a2(2) pcbs(2) [OF ne] ne by (simp_all add: k1_def cmm_def)
  have "map (span k6) (filter (\<lambda>a. vma_type (areas k a) \<in> {HEAP, STACK}) rest) =
      map (span k) (filter (\<lambda>a. vma_type (areas k a) \<in> {HEAP, STACK}) rest)"
    using ar6 T by (auto simp: span_def)
  moreover have "vma_start (areas k7 v) = vma_start (areas k first)" "vma_end (areas k7 v) = vma_end (areas k first)"
    using sp7(1) [OF vT(2)] c(10,11) by (simp_all add: span_def)
  moreover have "p_next (pcb_at k7 a) = p_next (pcb_at k a)" for a
    using pcbs(1) pcbs(2) [of a] by (cases "a = new") (auto simp: k1_def upd_def)
  moreover have "p_totalslice (pcb_at k7 cur) = p_totalslice (pcb_at k cur) sdiv 2"
    using pcbs(2) [OF ne] ne by (simp add: k1_def)
  moreover have "threadlist (procs k7) = threadlist (procs k)" "currentthread (procs k7) = currentthread (procs k)"
    using pcbs(3,4) by (simp_all add: k1_def)
  ultimately show ?thesis
    using cp r(2,3) fl sp T pcbs(1,5) ne cnt keep own [unfolded cmm_def]
    by (intro exI [of _ k7] exI [of _ v] exI [of _ cs]) (auto simp: k1_def cmm_def)
qed

end

text \<open>\<^const>\<open>bump\<close> is such an allocator.\<close>

interpretation bump_objects: object_source "bump (Suc depth)" "bump_left U L" for depth U L
proof
  fix n :: nat and T :: "u64 set" and k :: kernel and sz :: u64
  assume b: "bump_left U L (Suc n) T k" and sz: "small_object sz"
  have eq: "bump (Suc depth) sz k = bump (Suc depth) 4096 k"
    using sz unfolding small_object_def by (metis bump_small)
  obtain p k' where r: "bump (Suc depth) 4096 k = Some (p, k')" "p \<notin> T" "bump_left U L n (insert p T) k'"
    using bump_left_take [OF b, of depth] by blast
  have "kmem.more k' = kmem.more k" by (rule keeps_moreD [OF keeps_more_bump r(1)])
  then have "same_objects k k'" unfolding same_objects_def by (intro conjI more_kernel)
  with r show "\<exists>p k'. bump (Suc depth) sz k = Some (p, k') \<and> p \<notin> T \<and> bump_left U L n (insert p T) k'
      \<and> same_objects k k'" unfolding eq by blast
next
  fix n :: nat and T :: "u64 set" and k k' :: kernel
  assume b: "bump_left U L n T k" and e: "kmem.truncate k' = kmem.truncate k"
  from b show "bump_left U L n T k'" by (subst bump_left_truncate [OF e])
next
  fix n :: nat and T :: "u64 set" and k :: kernel
  assume "bump_left U L (Suc n) T k"
  then show "bump_left U L n T k" unfolding bump_left_def using Suc_lessD by blast
qed

section \<open>What a copied process has\<close>

text \<open>C11: \<^verbatim>\<open>copy_process\<close>, with enough free frames and a parent whose first area is of the program file: it
  returns the new process with the parent's kernel stack and working directory, its own process number,
  a memory descriptor of its own, and half of the time slice, the parent keeping the other half.  The list of
  areas of the copy holds the parent's first area, and of the others exactly the heap and stack areas,
  in their order and with their bounds: every further area of the program file is counted, but never linked to the list.
  The count starts with the parent's number and is one higher for every area that is not a stack, so the areas of the
  program file and the heap are counted twice.  The parent's descriptor with its list and its count, the areas on that list and the ready
  list stay as they were.
\<close>

theorem copy_process_loses_file_areas:
  assumes "bump_left U L (2 * Suc (length rest) + 2) T k"
    and "set (first # rest) \<subseteq> T" "0 \<in> T" "p_mm (pcb_at k cur) \<in> T"
    and "cur \<noteq> new" and "distinct (first # rest)"
    and "chain (\<lambda>a. vma_next (areas k a)) (list_of_vmas (mms k (p_mm (pcb_at k cur)))) (first # rest) 0"
    and "vma_type (areas k first) \<notin> {HEAP, STACK}"
    and "length (p_kstack (pcb_at k cur)) = KSTACKLEN" "length (p_kstack (pcb_at k new)) = KSTACKLEN"
    and "terminated (p_cwd (pcb_at k cur))" "length (cstr (p_cwd (pcb_at k cur))) < length (p_cwd (pcb_at k new))"
  shows "\<exists>k' v cs. copy_process (bump (Suc depth)) cur new k = Some (new, k')
    \<and> chain (\<lambda>a. vma_next (areas k' a)) (list_of_vmas (mms k' (p_mm (pcb_at k' new)))) (v # cs) 0
    \<and> vma_start (areas k' v) = vma_start (areas k first) \<and> vma_end (areas k' v) = vma_end (areas k first)
    \<and> map (span k') cs = map (span k) (filter (\<lambda>a. vma_type (areas k a) \<in> {HEAP, STACK}) rest)
    \<and> (\<forall>a\<in>set (first # rest). span k' a = span k a \<and> vma_next (areas k' a) = vma_next (areas k a))
    \<and> p_kstack (pcb_at k' new) = p_kstack (pcb_at k cur) \<and> p_state (pcb_at k' new) = SLEEPING
    \<and> p_pid (pcb_at k' new) = processcount (procs k) + 1 \<and> p_ppid (pcb_at k' new) = p_pid (pcb_at k cur)
    \<and> p_totalslice (pcb_at k' new) = p_totalslice (pcb_at k cur) sdiv 2
    \<and> p_totalslice (pcb_at k' cur) = p_totalslice (pcb_at k cur) sdiv 2
    \<and> cstr (p_cwd (pcb_at k' new)) = cstr (p_cwd (pcb_at k cur))
    \<and> (\<forall>a. p_next (pcb_at k' a) = p_next (pcb_at k a)) \<and> threadlist (procs k') = threadlist (procs k)
    \<and> currentthread (procs k') = currentthread (procs k) \<and> processcount (procs k') = processcount (procs k) + 1
    \<and> p_mm (pcb_at k' new) \<notin> T \<and> p_mm (pcb_at k' cur) = p_mm (pcb_at k cur)
    \<and> mms k' (p_mm (pcb_at k cur)) = mms k (p_mm (pcb_at k cur))
    \<and> num_of_vmas (mms k' (p_mm (pcb_at k' new)))
      = num_of_vmas (mms k (p_mm (pcb_at k cur))) + of_nat (length (filter (\<lambda>a. vma_type (areas k a) \<noteq> STACK) (first # rest)))"
  by (rule bump_objects.copy_process_areas [OF assms])

text \<open>A parent at 0x...20000 with two areas of its program file and a stack, and a new control block.\<close>

definition demo_kernel :: kernel where
  "demo_kernel = \<lparr>fl = (\<lambda>_. \<lparr>fl_current = 0, fl_next = 0\<rparr>)
       (16 := \<lparr>fl_current = 0x5000, fl_next = 32\<rparr>, 32 := \<lparr>fl_current = 0x6000, fl_next = 48\<rparr>,
        48 := \<lparr>fl_current = 0x7000, fl_next = 64\<rparr>, 64 := \<lparr>fl_current = 0x8000, fl_next = 80\<rparr>,
        80 := \<lparr>fl_current = 0x9000, fl_next = 96\<rparr>, 96 := \<lparr>fl_current = 0xa000, fl_next = 112\<rparr>,
        112 := \<lparr>fl_current = 0xb000, fl_next = 128\<rparr>, 128 := \<lparr>fl_current = 0xc000, fl_next = 144\<rparr>,
        144 := \<lparr>fl_current = 0xd000, fl_next = 160\<rparr>),
     head_free = 16, head_end = 160, head_unalloc = 144, unallocated = 0, pool_end = 0,
     number_of_free_pages = 9, num_of_pages = 0, pml4t_t = 0xffffffff80001000, ptmem = demo_memory,
     procs = \<lparr>pcbs = (\<lambda>_. blank_pcb\<lparr>p_kstack := replicate KSTACKLEN 0, p_cwd := replicate 50 NUL\<rparr>)
        (0xffffffff80020000 := blank_pcb\<lparr>p_kstack := replicate KSTACKLEN 7, p_mm := 0xffffffff80021000,
           p_pid := 3, p_totalslice := 8, p_cwd := ''/rootfs/'' @ [NUL], p_state := RUNNING\<rparr>),
       threadlist = 0xffffffff80020000, currentthread = 0xffffffff80020000, mainthread = 0, blockedlist = 0,
       processcount = 3\<rparr>,
     areas = (\<lambda>_. \<lparr>vma_start = 0, vma_end = 0, vma_flags = 0, vma_type = 0, vma_next = 0, vma_prev = 0, vma_file = 0\<rparr>)
        (0xffffffff80022000 := \<lparr>vma_start = 0x400000, vma_end = 0x402000, vma_flags = 5, vma_type = OTHER,
           vma_next = 0xffffffff80023000, vma_prev = 0, vma_file = 0\<rparr>,
         0xffffffff80023000 := \<lparr>vma_start = 0x600000, vma_end = 0x601000, vma_flags = 6, vma_type = OTHER,
           vma_next = 0xffffffff80024000, vma_prev = 0, vma_file = 0\<rparr>,
         0xffffffff80024000 := \<lparr>vma_start = 0x800000, vma_end = 0x801000, vma_flags = 6, vma_type = STACK,
           vma_next = 0, vma_prev = 0, vma_file = 0\<rparr>),
     vfiles = (\<lambda>_. \<lparr>file_start = 0, vm_pgoff = 0, vm_sz = 0, bss_size = 0\<rparr>),
     mms = (\<lambda>_. \<lparr>list_of_vmas = 0, num_of_vmas = 0, mm_freelist = 0\<rparr>)
        (0xffffffff80021000 := \<lparr>list_of_vmas = 0xffffffff80022000, num_of_vmas = 3, mm_freelist = 0\<rparr>),
     heap_headers = (\<lambda>_. \<lparr>mh_next = 0, mh_size = 0\<rparr>), umem = (\<lambda>_. NUL), fs = demo_fs\<rparr>"

abbreviation demo_frees :: "u64 list" where
  "demo_frees \<equiv> [16, 32, 48, 64, 80, 96, 112, 128, 144]"

abbreviation demo_objects :: "u64 set" where
  "demo_objects \<equiv> {0, 0xffffffff80000000, 0xffffffff80021000, 0xffffffff80022000, 0xffffffff80023000, 0xffffffff80024000}"

lemma demo_kernel_frames: "frames demo_kernel demo_frees =
    [0x5000, 0x6000, 0x7000, 0x8000, 0x9000, 0xa000, 0xb000, 0xc000, 0xd000]"
  by (simp add: demo_kernel_def)

lemma demo_kernel_inv: "fl_inv demo_kernel demo_frees [160]"
  by (simp add: fl_inv_def ring_def demo_kernel_def)

lemma demo_kernel_mapped_frames:
  assumes "p \<in> set (frames demo_kernel demo_frees)"
  shows "kernel_mapped {0xffffffff80001000, 0xffffffff80002000, 0xffffffff80003000} {0xffffffff80004000} demo_kernel p"
proof -
  have "pml4t_index (p + KERNBASE) = 511" "pdpt_index (p + KERNBASE) = 510" "pdt_index (p + KERNBASE) = 0"
    using assms unfolding demo_kernel_frames
    by (auto simp: pml4t_index_def pdpt_index_def pdt_index_def KERNBASE_def drop_bit_eq_div)
  then have "table_path (pml4t_t demo_kernel) (p + KERNBASE) demo_kernel
      = Some (0xffffffff80002000, 0xffffffff80003000, 0xffffffff80004000)"
    by (simp add: table_path_def sub_table_def rd_def demo_kernel_def demo_memory_def table_of_def
      KERNBASE_def PAGE_MASK_def)
  then show ?thesis unfolding kernel_mapped_def by (simp add: demo_kernel_def)
qed

lemma demo_kernel_left:
  "bump_left {0xffffffff80001000, 0xffffffff80002000, 0xffffffff80003000} {0xffffffff80004000} 8 demo_objects demo_kernel"
proof -
  have "frames_ok (frames demo_kernel demo_frees) demo_objects"
    unfolding demo_kernel_frames by (simp add: frames_ok_def page_aligned_def PAGE_MASK_def KERNBASE_def)
  moreover have "frames_ok (frames demo_kernel demo_frees)
      ({0xffffffff80001000, 0xffffffff80002000, 0xffffffff80003000} \<union> {0xffffffff80004000})"
    unfolding demo_kernel_frames by (simp add: frames_ok_def page_aligned_def PAGE_MASK_def KERNBASE_def)
  moreover have "successively (\<lambda>p q. q = p + 4096) (frames demo_kernel demo_frees)"
    unfolding demo_kernel_frames by simp
  moreover have "8 < length demo_frees" by simp
  ultimately have ex: "\<exists>fs us. fl_inv demo_kernel fs us \<and> 8 < length fs \<and> frames_ok (frames demo_kernel fs) demo_objects
      \<and> frames_ok (frames demo_kernel fs) ({0xffffffff80001000, 0xffffffff80002000, 0xffffffff80003000} \<union> {0xffffffff80004000})
      \<and> successively (\<lambda>p q. q = p + 4096) (frames demo_kernel fs)
      \<and> (\<forall>p\<in>set (frames demo_kernel fs). kernel_mapped {0xffffffff80001000, 0xffffffff80002000, 0xffffffff80003000}
            {0xffffffff80004000} demo_kernel p)"
    using demo_kernel_inv demo_kernel_mapped_frames by blast
  show ?thesis unfolding bump_left_def
    by (intro conjI ex) (simp_all add: page_aligned_def PAGE_MASK_def)
qed

theorem copy_process_loses_file_areas_witness:
  "\<exists>k' v c. copy_process (bump 1) 0xffffffff80020000 0xffffffff80025000 demo_kernel = Some (0xffffffff80025000, k')
     \<and> chain (\<lambda>a. vma_next (areas k' a)) (list_of_vmas (mms k' (p_mm (pcb_at k' 0xffffffff80025000)))) [v, c] 0
     \<and> vma_start (areas k' v) = 0x400000 \<and> vma_start (areas k' c) = 0x800000
     \<and> p_pid (pcb_at k' 0xffffffff80025000) = 4 \<and> p_totalslice (pcb_at k' 0xffffffff80020000) = 4"
proof -
  let ?f = "0xffffffff80022000 :: u64" and ?r = "[0xffffffff80023000, 0xffffffff80024000 :: u64]"
  let ?c = "0xffffffff80020000 :: u64" and ?n = "0xffffffff80025000 :: u64"
  have f: "p_mm (pcb_at demo_kernel ?c) = 0xffffffff80021000"
    "chain (\<lambda>a. vma_next (areas demo_kernel a)) (list_of_vmas (mms demo_kernel 0xffffffff80021000)) (?f # ?r) 0"
    "p_kstack (pcb_at demo_kernel ?c) = replicate KSTACKLEN 7" "p_kstack (pcb_at demo_kernel ?n) = replicate KSTACKLEN 0"
    "p_cwd (pcb_at demo_kernel ?c) = ''/rootfs/'' @ [NUL]" "p_cwd (pcb_at demo_kernel ?n) = replicate 50 NUL"
    "p_totalslice (pcb_at demo_kernel ?c) = 8" "processcount (procs demo_kernel) = 3"
    by (simp_all add: demo_kernel_def)
  have ty: "vma_type (areas demo_kernel ?f) \<notin> {HEAP, STACK}"
    "filter (\<lambda>a. vma_type (areas demo_kernel a) \<in> {HEAP, STACK}) ?r = [0xffffffff80024000]"
    "vma_start (areas demo_kernel ?f) = 0x400000" "span demo_kernel 0xffffffff80024000 = (0x800000, 0x801000, STACK)"
    by (simp_all add: demo_kernel_def OTHER_def HEAP_def STACK_def span_def)
  have cw: "terminated (''/rootfs/'' @ [NUL])" "length (cstr (''/rootfs/'' @ [NUL])) < length (replicate 50 NUL)"
    by (simp_all add: terminated_def cstr_Cons NUL_def)
  have left: "bump_left {0xffffffff80001000, 0xffffffff80002000, 0xffffffff80003000} {0xffffffff80004000}
      (2 * Suc (length ?r) + 2) demo_objects demo_kernel" using demo_kernel_left by simp
  have ch: "chain (\<lambda>a. vma_next (areas demo_kernel a)) (list_of_vmas (mms demo_kernel (p_mm (pcb_at demo_kernel ?c)))) (?f # ?r) 0"
    using f(1,2) by simp
  have st: "length (p_kstack (pcb_at demo_kernel ?c)) = KSTACKLEN" "length (p_kstack (pcb_at demo_kernel ?n)) = KSTACKLEN"
    by (simp_all only: f length_replicate)
  have cwd: "terminated (p_cwd (pcb_at demo_kernel ?c))"
    "length (cstr (p_cwd (pcb_at demo_kernel ?c))) < length (p_cwd (pcb_at demo_kernel ?n))" unfolding f by (rule cw)+
  obtain k' v cs where r: "copy_process (bump (Suc 0)) ?c ?n demo_kernel = Some (?n, k')"
      "chain (\<lambda>a. vma_next (areas k' a)) (list_of_vmas (mms k' (p_mm (pcb_at k' ?n)))) (v # cs) 0"
      "vma_start (areas k' v) = vma_start (areas demo_kernel ?f)"
      "map (span k') cs = map (span demo_kernel) (filter (\<lambda>a. vma_type (areas demo_kernel a) \<in> {HEAP, STACK}) ?r)"
      "p_pid (pcb_at k' ?n) = processcount (procs demo_kernel) + 1"
      "p_totalslice (pcb_at k' ?c) = p_totalslice (pcb_at demo_kernel ?c) sdiv 2"
    using copy_process_loses_file_areas [OF left _ _ _ _ _ ch ty(1) st cwd, of 0] f(1) by auto
  obtain c where c: "cs = [c]" "span k' c = (0x800000, 0x801000, STACK)" using r(4) ty by auto
  then show ?thesis using r f ty by (intro exI [of _ k'] exI [of _ v] exI [of _ c]) (auto simp: span_def)
qed

end
