(* ===== verification/Syscalls.thy ===== *)
theory Syscalls
  imports Process
begin

text \<open>
  The system calls of \<^verbatim>\<open>sys/syscall.c\<close> on processes and the working directory: \<^verbatim>\<open>kill\<close>, \<^verbatim>\<open>chdir\<close>,
  \<^verbatim>\<open>getcwd\<close>, \<^verbatim>\<open>access\<close>, and \<^verbatim>\<open>unlink\<close> of \<^verbatim>\<open>sys/process.c\<close>.  Path lookup and the removal of a directory
  entry are those of the file system theory, the lists of processes those of the scheduler.
\<close>

section \<open>Kill\<close>

text \<open>The loop over the blocked list, which also unlinks the head.\<close>

partial_function (option) unlink_blocked :: "u32 \<Rightarrow> u64 \<Rightarrow> u64 \<Rightarrow> sys \<Rightarrow> (u64 \<times> sys) option" where
  "unlink_blocked pid prev p s =
     (if p = 0 then Some (0, s)
      else if p_pid (pcbs s p) = pid
      then Some (p, if prev \<noteq> 0 then upd prev (\<lambda>q. q\<lparr>p_next := p_next (pcbs s p)\<rparr>) s
                    else s\<lparr>blockedlist := p_next (pcbs s p)\<rparr>)
      else unlink_blocked pid p (p_next (pcbs s p)) s)"

declare unlink_blocked.simps [simp del]

text \<open>\<open>answer\<close> is the character typed at the question about process 2; \<open>buf\<close> the local array for the name.\<close>

definition sys_kill :: "string \<Rightarrow> char \<Rightarrow> u32 \<Rightarrow> int \<Rightarrow> int action" where
  "sys_kill buf answer pid sig k =
     (if sig \<noteq> 9 then Some (0, k)
      else if pid = 2 \<and> answer \<noteq> CHR ''Y'' \<and> answer \<noteq> CHR ''y'' then Some (- 1, k)
      else if pid = p_pid (pcb_at k (this_thread k))
      then do { s \<leftarrow> thread_on_completion (procs k); Some (0, k\<lparr>procs := s\<rparr>) }
      else do { (current, s) \<leftarrow> unlink_loop pid 0 (threadlist (procs k)) (procs k);
                (current, s) \<leftarrow> (if current = 0 then unlink_blocked pid 0 (blockedlist s) s else Some (current, s));
                let k = k\<lparr>procs := s\<rparr>;
                if current = 0 then Some (0, k)
                else do { name \<leftarrow> itoa_loop (sint pid) buf 0;
                          let dir = link_to_inode (tnodes (fs k) (proc_directory (fs k)));
                          (killproci, f) \<leftarrow> remove_entry dir name (fs k);
                          Some (0, kfree (p_page_table (pcb_at k (this_thread k))) killproci (k\<lparr>fs := f\<rparr>)) } })"

section \<open>The working directory\<close>

definition set_cwd :: "string \<Rightarrow> u64 \<Rightarrow> sys \<Rightarrow> sys option" where
  "set_cwd path a s =
     do { len \<leftarrow> kstrlength (p_cwd (pcbs s a));
          c \<leftarrow> memset (p_cwd (pcbs s a)) 0 (int len);
          c \<leftarrow> kstrcopy c path;
          Some (upd a (\<lambda>p. p\<lparr>p_cwd := c\<rparr>) s) }"

partial_function (option) parents_cwd :: "string \<Rightarrow> u32 \<Rightarrow> u64 \<Rightarrow> sys \<Rightarrow> sys option" where
  "parents_cwd path ppid p s =
     (if p = 0 then Some s
      else do { s \<leftarrow> (if p_pid (pcbs s p) = ppid then set_cwd path p s else Some s);
                parents_cwd path ppid (p_next (pcbs s p)) s })"

declare parents_cwd.simps [simp del]

definition sys_chdir :: "string list \<Rightarrow> string \<Rightarrow> int action" where
  "sys_chdir rows path k =
     do { item \<leftarrow> find_file rows path (fs k);
          if item = 0 then Some (- 1, k)
          else if i_flags (inode_of (fs k) item) = FS_DIRECTORY
          then do { let me = this_thread k;
                    s \<leftarrow> set_cwd path me (procs k);
                    s \<leftarrow> (if p_ppid (pcbs s me) \<noteq> 0
                         then do { s \<leftarrow> parents_cwd path (p_ppid (pcbs s me)) (threadlist s) s;
                                   parents_cwd path (p_ppid (pcbs s me)) (blockedlist s) s }
                         else Some s);
                    Some (0, k\<lparr>procs := s\<rparr>) }
          else Some (- 1, k) }"

text \<open>The result is the new content of the buffer, if the call does not return null.\<close>

definition sys_getcwd :: "string \<Rightarrow> u64 \<Rightarrow> kernel \<Rightarrow> string option option" where
  "sys_getcwd buf sz k =
     do { len \<leftarrow> kstrlength (p_cwd (pcb_at k (this_thread k)));
          if sz < of_nat len then Some None
          else do { b \<leftarrow> kstrcopy buf (p_cwd (pcb_at k (this_thread k))); Some (Some b) } }"

definition sys_access :: "string list \<Rightarrow> string \<Rightarrow> string \<Rightarrow> int \<Rightarrow> kernel \<Rightarrow> int option" where
  "sys_access rows concatstr pathname mode k =
     do { fullpath \<leftarrow> kstrcat (''/rootfs/'' @ [NUL]) pathname concatstr;
          if mode = 1 then do_findfile rows fullpath (fs k) else Some (- 1) }"

text \<open>\<^verbatim>\<open>sys_unlink\<close>: the loop that cuts the path at its last slash, from index \<open>j\<close> down.\<close>

fun cut_path :: "nat \<Rightarrow> string \<Rightarrow> (nat \<times> string) option" where
  "cut_path 0 p = do { c \<leftarrow> aget p 0; if c = CHR ''/'' then Some (0, p) else None }"
| "cut_path (Suc j) p =
     do { c \<leftarrow> aget p (Suc j);
          if c = CHR ''/'' then Some (Suc j, p) else do { p \<leftarrow> aput p (Suc j) NUL; cut_path j p } }"

definition sys_unlink :: "string list \<Rightarrow> string \<Rightarrow> string \<Rightarrow> string \<Rightarrow> int action" where
  "sys_unlink rows parent_path node_to_unlink pathname k =
     do { parent_path \<leftarrow> kstrcopy parent_path pathname;
          len \<leftarrow> kstrlength pathname;
          (j, parent_path) \<leftarrow> cut_path len parent_path;
          node \<leftarrow> for_n 0 (len - (j + 1)) (\<lambda>n b. do { x \<leftarrow> aget pathname (j + 1 + n); aput b n x }) node_to_unlink;
          node \<leftarrow> aput node (len - (j + 1)) NUL;
          parent_node \<leftarrow> find_file rows parent_path (fs k);
          if parent_node = 0 then Some (- 1, k)
          else do { (killproci, f) \<leftarrow> remove_entry (link_to_inode (tnodes (fs k) parent_node)) node (fs k);
                    Some (0, kfree (p_page_table (pcb_at k (this_thread k))) killproci (k\<lparr>fs := f\<rparr>)) } }"

section \<open>The names under /proc\<close>

lemma pid_digits_eq:
  "i \<le> length temp \<Longrightarrow> pid_digits v temp i =
     (if i + length (lsd_digits v) \<le> length temp
      then Some (i + length (lsd_digits v), take i temp @ lsd_digits v @ drop (i + length (lsd_digits v)) temp)
      else None)"
proof (induction v temp i rule: pid_digits.induct)
  case (1 v temp i)
  show ?case
  proof (cases "v = 0")
    case False
    then have l: "lsd_digits v = char_of (v smod 10 + 48) # lsd_digits (v sdiv 10)"
      by (subst lsd_digits.simps) simp
    show ?thesis
    proof (cases "i < length temp")
      case True
      with False 1 l show ?thesis
        by (subst pid_digits.simps)
          (auto simp: take_Suc_conv_app_nth upd_conv_take_nth_drop, simp_all add: add.commute)
    qed (use False l "1.prems" in \<open>subst pid_digits.simps, simp\<close>)
  qed (use "1.prems" in \<open>subst pid_digits.simps, simp\<close>)
qed

lemma for_n_rev:
  assumes "i \<le> length xs"
  shows "for_n 0 i (\<lambda>n b. do { x \<leftarrow> aget xs (i - Suc n); aput b n x }) ys =
    (if i \<le> length ys then Some (rev (take i xs) @ drop i ys) else None)"
proof -
  have "for_n 0 i (\<lambda>n b. do { x \<leftarrow> aget xs (i - Suc n); aput b n x }) ys
      = for_n 0 i (\<lambda>n b. aput b n (xs ! (i - Suc n))) ys"
    by (rule for_n_cong) (use assms in simp)
  moreover have "map (\<lambda>n. xs ! (i - Suc n)) [0..<i] = rev (take i xs)"
    using assms by (intro nth_equalityI) (simp_all add: rev_nth)
  ultimately show ?thesis by (simp add: for_n_fill)
qed

lemma proc_name_eq:
  "proc_name buf temp pid =
     (let ds = lsd_digits (sint pid) in
      if length ds \<le> length temp \<and> length ds < length buf
      then Some (rev ds @ NUL # drop (Suc (length ds)) buf) else None)"
proof (cases "length (lsd_digits (sint pid)) < length buf")
  case True
  then show ?thesis
    by (simp add: proc_name_def pid_digits_eq for_n_rev Let_def list_update_append Cons_nth_drop_Suc [symmetric])
next
  case False
  then show ?thesis by (simp add: proc_name_def pid_digits_eq for_n_rev Let_def)
qed

lemma lsd_digits_length_mono: "0 \<le> v \<Longrightarrow> v \<le> w \<Longrightarrow> length (lsd_digits v) \<le> length (lsd_digits w)"
proof (induction v arbitrary: w rule: lsd_digits.induct)
  case (1 v)
  show ?case
  proof (cases "v = 0")
    case False
    with 1 have p: "0 < v" "0 < w" by auto
    have "length (lsd_digits (v div 10)) \<le> length (lsd_digits (w div 10))"
      using 1(1) [OF False, of "w div 10"] p 1(3) by (simp add: sdiv_nonneg zdiv_mono1 pos_imp_zdiv_nonneg_iff)
    then show ?thesis using p by (simp add: lsd_digits_pos)
  qed simp
qed

lemma lsd_digits_three:
  assumes "0 \<le> v"
  shows "length (lsd_digits v) < 3 \<longleftrightarrow> v < 100"
proof (cases "v < 100")
  case True
  have "length (lsd_digits 99) = 2" by (simp add: lsd_digits_pos)
  then show ?thesis using True lsd_digits_length_mono [of v 99] assms by simp
next
  case False
  have "length (lsd_digits 100) = 3" by (simp add: lsd_digits_pos)
  then show ?thesis using False lsd_digits_length_mono [of 100 v] by simp
qed

text \<open>\<^verbatim>\<open>add_to_proc_list\<close> names the entry of a process in \<^verbatim>\<open>/proc\<close> by its number in decimal, most significant
  digit first, for numbers below 100; from 100 on it writes outside of its buffers of three characters.\<close>

theorem proc_name_decimal_below_100:
  assumes "length buf = 3" "length temp = 3" "0 \<le> sint pid"
  shows "proc_name buf temp pid =
    (if sint pid < 100 then Some (rev (lsd_digits (sint pid)) @ NUL # drop (Suc (length (lsd_digits (sint pid)))) buf)
     else None)"
  using lsd_digits_three [OF assms(3)] assms by (auto simp: proc_name_eq Let_def)

theorem proc_name_decimal_below_100_witness:
  "proc_name ''xyz'' ''abc'' 12 = Some (''12'' @ [NUL]) \<and> proc_name ''xyz'' ''abc'' 100 = None"
proof -
  have "lsd_digits 12 = ''21''" by (simp add: lsd_digits_pos char_of_def)
  then show ?thesis
    using proc_name_decimal_below_100 [of "''xyz''" "''abc''" 12] proc_name_decimal_below_100 [of "''xyz''" "''abc''" 100]
    by simp
qed

section \<open>Killing a process\<close>

lemma more_kfree [simp]: "kmem.more (kfree cur p s) = kmem.more s"
  by (simp add: kfree_def unmap_page_def release_def Let_def set_current_def)

lemma procs_kfree [simp]: "procs (kfree cur p k) = procs k" "fs (kfree cur p k) = fs (k :: kernel)"
  by (rule more_kernel [OF more_kfree])+

abbreviation proc_dir :: "kernel \<Rightarrow> u64" where
  "proc_dir k \<equiv> link_to_inode (tnodes (fs k) (proc_directory (fs k)))"

abbreviation proc_files :: "kernel \<Rightarrow> nat \<Rightarrow> filesys_tnode list" where
  "proc_files k n \<equiv> file_entries (fs k) (sub_files_list (inodes (fs k) (proc_dir k))) n"

text \<open>C17: \<^verbatim>\<open>kill\<close> with signal 9 of another ready process that is not the first of the list: the process is unlinked
  and the other lists stay.  The entry it removes from \<^verbatim>\<open>/proc\<close> is the first whose name is the number of the
  process written backwards, or the last entry when there is none.\<close>

theorem sys_kill_removes_reversed_name:
  assumes "chain (pnext (procs k)) (threadlist (procs k)) (ys @ b # p # zs) 0" "distinct (ys @ b # p # zs)"
    and "\<And>a. a \<in> set (ys @ [b]) \<Longrightarrow> p_pid (pcb_at k a) \<noteq> pid" "p_pid (pcb_at k p) = pid"
    and "pid \<noteq> p_pid (pcb_at k (this_thread k))" "pid \<noteq> 2 \<or> answer \<in> {CHR ''y'', CHR ''Y''}"
    and "0 \<le> sint pid" "length (lsd_digits (sint pid)) < length buf"
    and "num_sub_files (inodes (fs k) (proc_dir k)) = int n" "0 < n" "n \<le> 2 ^ 57"
    and "\<And>t. t \<in> set (proc_files k n) \<Longrightarrow> terminated (t_name t)"
  shows "\<exists>k'. sys_kill buf answer pid 9 k = Some (0, k')
    \<and> chain (pnext (procs k')) (threadlist (procs k')) (ys @ b # zs) 0
    \<and> blockedlist (procs k') = blockedlist (procs k) \<and> currentthread (procs k') = currentthread (procs k)
    \<and> num_sub_files (inodes (fs k') (proc_dir k)) = int (n - 1)
    \<and> file_entries (fs k') (sub_files_list (inodes (fs k') (proc_dir k))) (n - 1)
        = without_entry (lsd_digits (sint pid)) (proc_files k n)"
proof -
  let ?s = "upd b (\<lambda>q. q\<lparr>p_next := p_next (pcb_at k p)\<rparr>) (procs k)" and ?ds = "lsd_digits (sint pid)"
  have u: "unlink_loop pid 0 (threadlist (procs k)) (procs k) = Some (p, ?s)"
    "chain (pnext ?s) (threadlist (procs k)) (ys @ b # zs) 0"
    using unlink_loop_inner [OF assms(1-4)] by simp_all
  have p0: "p \<noteq> 0" using chain_nonnull [OF assms(1)] by simp
  define name where "name = ?ds @ NUL # drop (Suc (length ?ds)) buf"
  have nm: "itoa_loop (sint pid) buf 0 = Some name" "terminated name" "cstr name = ?ds"
    using assms(7,8) NUL_notin_lsd_digits [OF assms(7)]
    by (simp_all add: itoa_loop_eq name_def terminated_def)
  obtain v f where r: "remove_entry (proc_dir k) name (fs k) = Some (v, f)"
      "num_sub_files (inodes f (proc_dir k)) = int (n - 1)"
      "file_entries f (sub_files_list (inodes f (proc_dir k))) (n - 1) = without_entry name (proc_files k n)"
    using remove_entry_eq [OF nm(2) assms(9-11) refl assms(12)] by blast
  have w: "without_entry name fs = without_entry ?ds fs" for fs
  proof -
    have "cstr ?ds = ?ds"
      using NUL_notin_lsd_digits [OF assms(7)] unfolding cstr_def by (metis (full_types) takeWhile_eq_all_conv)
    then show ?thesis using nm(3) by (simp add: without_entry_def)
  qed
  define k' where "k' = kfree (p_page_table (pcb_at k (this_thread k))) v (k\<lparr>procs := ?s, fs := f\<rparr>)"
  have "sys_kill buf answer pid 9 k = Some (0, k')"
    using assms(5,6) u(1) p0 nm(1) r(1) by (auto simp: sys_kill_def k'_def)
  then show ?thesis using u(2) r w by (intro exI [of _ k']) (simp add: k'_def)
qed

text \<open>Three processes, 3 (running), 12 and 13, with the entries of the last two in \<^verbatim>\<open>/proc\<close>.\<close>

definition demo_proc_fs :: fsys where
  "demo_proc_fs = demo_fs\<lparr>
     tnodes := (\<lambda>a. zero_tnode)(400 := zero_tnode\<lparr>link_to_inode := 4\<rparr>,
       500 := zero_tnode\<lparr>t_name := ''12'' @ replicate 8 NUL\<rparr>,
       532 := zero_tnode\<lparr>t_name := ''13'' @ replicate 8 NUL\<rparr>),
     inodes := (\<lambda>_. blank_node)(4 := blank_node\<lparr>num_sub_files := 2, sub_files_list := 500\<rparr>),
     proc_directory := 400\<rparr>"

definition demo_processes :: kernel where
  "demo_processes = demo_kernel\<lparr>fs := demo_proc_fs,
     procs := \<lparr>pcbs = (\<lambda>_. blank_pcb)
        (8 := blank_pcb\<lparr>p_state := RUNNING, p_pid := 3, p_next := 16\<rparr>,
         16 := blank_pcb\<lparr>p_pid := 12, p_next := 24\<rparr>, 24 := blank_pcb\<lparr>p_pid := 13\<rparr>),
       threadlist = 8, currentthread = 8, mainthread = 0, blockedlist = 0, processcount = 13\<rparr>\<rparr>"

lemma demo_processes_proc:
  "proc_dir demo_processes = 4" "num_sub_files (inodes (fs demo_processes) 4) = int 2"
  "map t_name (proc_files demo_processes 2) = [''12'' @ replicate 8 NUL, ''13'' @ replicate 8 NUL]"
  by (simp_all add: demo_processes_def demo_proc_fs_def file_entries_def tnode_at_def upt_rec)

theorem sys_kill_removes_reversed_name_witness:
  "\<exists>k'. sys_kill (replicate 10 NUL) (CHR ''n'') 12 9 demo_processes = Some (0, k')
     \<and> chain (pnext (procs k')) (threadlist (procs k')) [8, 24] 0
     \<and> map (\<lambda>t. cstr (t_name t)) (file_entries (fs k') (sub_files_list (inodes (fs k') 4)) 1) = [''12'']"
proof -
  have ds: "lsd_digits (sint (12 :: u32)) = ''21''" by (simp add: lsd_digits_pos char_of_def)
  have nm: "terminated (t_name t)" if "t \<in> set (proc_files demo_processes 2)" for t
  proof -
    have "t_name t \<in> set [''12'' @ replicate 8 NUL, ''13'' @ replicate 8 NUL]"
      using that demo_processes_proc(3) by (metis image_eqI set_map)
    then show ?thesis by (auto simp: terminated_def NUL_def)
  qed
  have c: "map (\<lambda>t. cstr (t_name t)) (proc_files demo_processes 2) = [''12'', ''13'']"
  proof -
    have "map (\<lambda>t. cstr (t_name t)) (proc_files demo_processes 2) = map cstr (map t_name (proc_files demo_processes 2))"
      by simp
    also have "\<dots> = map cstr [''12'' @ replicate 8 NUL, ''13'' @ replicate 8 NUL]"
      by (simp only: demo_processes_proc(3))
    also have "\<dots> = [''12'', ''13'']" by (simp add: cstr_Cons NUL_def)
    finally show ?thesis .
  qed
  obtain x y where xy: "proc_files demo_processes 2 = [x, y]" "cstr (t_name x) = ''12''" "cstr (t_name y) = ''13''"
    using c by (auto simp: map_eq_Cons_conv)
  then have "without_entry ''21'' (proc_files demo_processes 2) = [x]"
    by (simp add: without_entry_def cstr_Cons NUL_def)
  moreover have "\<exists>k'. sys_kill (replicate 10 NUL) (CHR ''n'') 12 9 demo_processes = Some (0, k')
      \<and> chain (pnext (procs k')) (threadlist (procs k')) [8, 24] 0
      \<and> file_entries (fs k') (sub_files_list (inodes (fs k') 4)) 1 = without_entry ''21'' (proc_files demo_processes 2)"
  proof -
    have p: "chain (pnext (procs demo_processes)) (threadlist (procs demo_processes)) ([] @ 8 # 16 # [24]) 0"
      "\<And>a. a \<in> set ([] @ [8]) \<Longrightarrow> p_pid (pcb_at demo_processes a) \<noteq> 12" "p_pid (pcb_at demo_processes 16) = 12"
      "12 \<noteq> p_pid (pcb_at demo_processes (this_thread demo_processes))"
      by (simp_all add: demo_processes_def blank_pcb_def)
    have l: "distinct ([] @ 8 # 16 # [24 :: u64])" "12 \<noteq> (2 :: u32) \<or> CHR ''n'' \<in> {CHR ''y'', CHR ''Y''}" "0 \<le> sint (12 :: u32)"
      "length (lsd_digits (sint (12 :: u32))) < length (replicate 10 NUL)" "(0::nat) < 2" "(2::nat) \<le> 2 ^ 57"
      using ds by simp_all
    have n: "num_sub_files (inodes (fs demo_processes) (proc_dir demo_processes)) = int 2"
      unfolding demo_processes_proc(1) by (rule demo_processes_proc(2))
    show ?thesis
      using sys_kill_removes_reversed_name [OF p(1) l(1) p(2,3,4) l(2,3,4) n l(5,6) nm]
      unfolding ds demo_processes_proc(1) by auto
  qed
  ultimately show ?thesis using xy by auto
qed

section \<open>Changing the working directory\<close>

text \<open>\<open>moved path A s s'\<close>: the processes of \<open>A\<close> are in \<open>path\<close>, and nothing else has changed.\<close>

definition in_path :: "string \<Rightarrow> pcb \<Rightarrow> pcb \<Rightarrow> bool" where
  "in_path path p p' \<longleftrightarrow> p' = p\<lparr>p_cwd := p_cwd p'\<rparr> \<and> terminated (p_cwd p') \<and> cstr (p_cwd p') = cstr path
     \<and> length (p_cwd p') = length (p_cwd p)"

definition moved :: "string \<Rightarrow> u64 set \<Rightarrow> sys \<Rightarrow> sys \<Rightarrow> bool" where
  "moved path A s s' \<longleftrightarrow> s' = s\<lparr>pcbs := pcbs s'\<rparr>
     \<and> (\<forall>a. if a \<in> A then in_path path (pcbs s a) (pcbs s' a) else pcbs s' a = pcbs s a)"

definition cwd_fits :: "string \<Rightarrow> pcb \<Rightarrow> bool" where
  "cwd_fits path p \<longleftrightarrow> terminated (p_cwd p) \<and> length (cstr path) < length (p_cwd p)"

lemma in_path_trans: "in_path path p q \<Longrightarrow> in_path path q r \<Longrightarrow> in_path path p r"
  unfolding in_path_def by (metis pcb.surjective pcb.update_convs(16))

lemma in_path_fits: "in_path path p q \<Longrightarrow> cwd_fits path' q \<longleftrightarrow> terminated (p_cwd q) \<and> length (cstr path') < length (p_cwd p)"
  by (simp add: in_path_def cwd_fits_def)

lemma in_path_same:
  assumes "in_path path p q"
  shows "p_pid q = p_pid p" "p_ppid q = p_ppid p" "p_next q = p_next p" "p_state q = p_state p"
  using assms unfolding in_path_def by (metis pcb.select_convs pcb.surjective pcb.update_convs(16))+

lemma moved_refl: "moved path {} s s"
  by (simp add: moved_def)

lemma movedD: "moved path A s t \<Longrightarrow> a \<in> A \<Longrightarrow> in_path path (pcbs s a) (pcbs t a)"
  by (simp add: moved_def)

lemma moved_trans:
  assumes "moved path A s t" "moved path B t u"
  shows "moved path (A \<union> B) s u"
proof -
  have "u = s\<lparr>pcbs := pcbs u\<rparr>"
    using assms unfolding moved_def by (metis sys.surjective sys.update_convs(1))
  moreover have "if a \<in> A \<union> B then in_path path (pcbs s a) (pcbs u a) else pcbs u a = pcbs s a" for a
    using assms in_path_trans [of path "pcbs s a" "pcbs t a" "pcbs u a"]
    unfolding moved_def by (metis Un_iff)
  ultimately show ?thesis by (simp add: moved_def)
qed

lemma moved_same:
  assumes "moved path A s t"
  shows "p_pid (pcbs t a) = p_pid (pcbs s a)" "p_ppid (pcbs t a) = p_ppid (pcbs s a)" "pnext t = pnext s"
    "threadlist t = threadlist s" "blockedlist t = blockedlist s" "currentthread t = currentthread s"
proof -
  have p: "if a \<in> A then in_path path (pcbs s a) (pcbs t a) else pcbs t a = pcbs s a" for a
    using assms by (simp add: moved_def)
  show "p_pid (pcbs t a) = p_pid (pcbs s a)" "p_ppid (pcbs t a) = p_ppid (pcbs s a)"
    using p [of a] in_path_same(1,2) [of path "pcbs s a" "pcbs t a"] by (auto split: if_splits)
  have "p_next (pcbs t x) = p_next (pcbs s x)" for x
    using p [of x] in_path_same(3) [of path "pcbs s x" "pcbs t x"] by (auto split: if_splits)
  then show "pnext t = pnext s" by simp
  have "t = s\<lparr>pcbs := pcbs t\<rparr>" using assms by (simp add: moved_def)
  then show "threadlist t = threadlist s" "blockedlist t = blockedlist s" "currentthread t = currentthread s"
    by (metis sys.select_convs sys.surjective sys.update_convs(1))+
qed

lemma moved_fits: "moved path A s t \<Longrightarrow> cwd_fits path (pcbs s a) \<Longrightarrow> cwd_fits path (pcbs t a)"
  unfolding moved_def cwd_fits_def in_path_def by metis

lemma set_cwd_moves:
  assumes "terminated path" "cwd_fits path (pcbs s a)"
  shows "\<exists>s'. set_cwd path a s = Some s' \<and> moved path {a} s s'"
proof -
  let ?c = "p_cwd (pcbs s a)"
  have c: "terminated ?c" "length (cstr path) < length ?c" using assms(2) by (simp_all add: cwd_fits_def)
  have l: "length (cstr ?c) \<le> length ?c" using length_cstr_less [OF c(1)] by simp
  define d where "d = cstr path @ NUL # drop (Suc (length (cstr path))) (replicate (length (cstr ?c)) (char_of (0::int)) @ drop (length (cstr ?c)) ?c)"
  have d: "terminated d" "cstr d = cstr path" "length d = length ?c"
    using l c(2) by (simp_all add: d_def terminated_def)
  have "set_cwd path a s = Some (upd a (\<lambda>p. p\<lparr>p_cwd := d\<rparr>) s)"
    using c l assms(1) by (simp add: set_cwd_def memset_eq d_def)
  moreover have "moved path {a} s (upd a (\<lambda>p. p\<lparr>p_cwd := d\<rparr>) s)"
    using d by (simp add: moved_def in_path_def upd_def)
  ultimately show ?thesis by blast
qed

lemma parents_cwd_moves:
  assumes "terminated path" "chain (pnext s) p xs 0"
    and "\<And>a. a \<in> set xs \<Longrightarrow> p_pid (pcbs s a) = ppid \<Longrightarrow> cwd_fits path (pcbs s a)"
  shows "\<exists>s'. parents_cwd path ppid p s = Some s' \<and> moved path {a \<in> set xs. p_pid (pcbs s a) = ppid} s s'"
  using assms(2,3)
proof (induction xs arbitrary: s p)
  case Nil
  then show ?case using moved_refl [of path s] by (simp add: parents_cwd.simps)
next
  case (Cons x xs)
  have x: "p = x" "x \<noteq> 0" "chain (pnext s) (p_next (pcbs s x)) xs 0" using Cons.prems(1) by auto
  let ?X = "if p_pid (pcbs s x) = ppid then {x} else {}"
  obtain t where t: "(if p_pid (pcbs s x) = ppid then set_cwd path x s else Some s) = Some t" "moved path ?X s t"
  proof (cases "p_pid (pcbs s x) = ppid")
    case True
    then show thesis using that set_cwd_moves [OF assms(1), of s x] Cons.prems(2) [of x] by auto
  next
    case False
    then show thesis using that moved_refl [of path s] by simp
  qed
  note same = moved_same [OF t(2)]
  have "chain (pnext t) (p_next (pcbs t x)) xs 0" using x(3) same(3) by (metis (no_types, lifting))
  moreover have "cwd_fits path (pcbs t a)" if "a \<in> set xs" "p_pid (pcbs t a) = ppid" for a
    using moved_fits [OF t(2)] Cons.prems(2) [of a] that same(1) [of a] by simp
  ultimately obtain u where u: "parents_cwd path ppid (p_next (pcbs t x)) t = Some u"
      "moved path {a \<in> set xs. p_pid (pcbs t a) = ppid} t u"
    using Cons.IH [of t "p_next (pcbs t x)"] by blast
  have "moved path (?X \<union> {a \<in> set xs. p_pid (pcbs t a) = ppid}) s u" by (rule moved_trans [OF t(2) u(2)])
  moreover have "?X \<union> {a \<in> set xs. p_pid (pcbs t a) = ppid} = {a \<in> set (x # xs). p_pid (pcbs s a) = ppid}"
    using same(1) by auto
  moreover have "parents_cwd path ppid p s = Some u"
    using u(1) x(1,2) by (simp add: parents_cwd.simps [of path ppid x s] t(1) split del: if_split)
  ultimately show ?case by auto
qed

text \<open>\<^verbatim>\<open>chdir\<close> to a path that names a plain directory: the calling process moves there, and with it every
  process of the ready and the blocked list whose number is that of its parent (unless the parent number is 0);
  no other process and nothing else changes.  For a path that names nothing, a file, or a mount point (the root
  directory, \<^verbatim>\<open>/rootfs/\<close>, \<^verbatim>\<open>/dev/\<close> and \<^verbatim>\<open>/proc/\<close>) the result is \<open>-1\<close> and nothing moves.\<close>

theorem sys_chdir_moves_parent_too:
  assumes "find_file rows path (fs k) = Some item" "terminated path"
    and "me = this_thread k" "pp = p_ppid (pcb_at k me)"
    and "chain (pnext (procs k)) (threadlist (procs k)) xs 0" "chain (pnext (procs k)) (blockedlist (procs k)) bs 0"
    and "\<And>a. a = me \<or> p_pid (pcb_at k a) = pp \<Longrightarrow> cwd_fits path (pcb_at k a)"
  shows "if item \<noteq> 0 \<and> i_flags (inode_of (fs k) item) = FS_DIRECTORY
    then \<exists>s'. sys_chdir rows path k = Some (0, k\<lparr>procs := s'\<rparr>)
      \<and> moved path ({me} \<union> {a \<in> set (xs @ bs). pp \<noteq> 0 \<and> p_pid (pcb_at k a) = pp}) (procs k) s'
    else sys_chdir rows path k = Some (- 1, k)"
proof (cases "item \<noteq> 0 \<and> i_flags (inode_of (fs k) item) = FS_DIRECTORY")
  case True
  obtain s1 where s1: "set_cwd path me (procs k) = Some s1" "moved path {me} (procs k) s1"
    using set_cwd_moves [OF assms(2)] assms(7) by blast
  note m1 = moved_same [OF s1(2)]
  have run: "sys_chdir rows path k = (do { s \<leftarrow> (if p_ppid (pcbs s1 me) \<noteq> 0
       then do { s \<leftarrow> parents_cwd path (p_ppid (pcbs s1 me)) (threadlist s1) s1;
                 parents_cwd path (p_ppid (pcbs s me)) (blockedlist s) s } else Some s1);
       Some (0, k\<lparr>procs := s\<rparr>) })"
    using True assms(1,3) s1(1) by (simp add: sys_chdir_def Let_def)
  show ?thesis
  proof (cases "pp = 0")
    case True': True
    then show ?thesis using True run s1(2) m1(2) [of me] assms(4) by (auto intro!: exI [of _ s1])
  next
    case False
    have ch1: "chain (pnext s1) (threadlist s1) xs 0" "chain (pnext s1) (blockedlist s1) bs 0"
      using assms(5,6) m1(3,4,5) by metis+
    have "cwd_fits path (pcbs s1 a)" if "p_pid (pcbs s1 a) = pp" for a
      using moved_fits [OF s1(2)] assms(7) that m1(1) by metis
    then obtain s2 where s2: "parents_cwd path pp (threadlist s1) s1 = Some s2"
        "moved path {a \<in> set xs. p_pid (pcbs s1 a) = pp} s1 s2"
      using parents_cwd_moves [OF assms(2) ch1(1), of pp] by blast
    note m2 = moved_same [OF s2(2)]
    have ch2: "chain (pnext s2) (blockedlist s2) bs 0" using ch1(2) m2(3,5) by metis
    have "cwd_fits path (pcbs s2 a)" if "p_pid (pcbs s2 a) = pp" for a
      using moved_fits [OF s2(2) moved_fits [OF s1(2)]] assms(7) that m2(1) m1(1) by metis
    then obtain s3 where s3: "parents_cwd path pp (blockedlist s2) s2 = Some s3"
        "moved path {a \<in> set bs. p_pid (pcbs s2 a) = pp} s2 s3"
      using parents_cwd_moves [OF assms(2) ch2, of pp] by blast
    have "{me} \<union> {a \<in> set xs. p_pid (pcbs s1 a) = pp} \<union> {a \<in> set bs. p_pid (pcbs s2 a) = pp}
        = {me} \<union> {a \<in> set (xs @ bs). pp \<noteq> 0 \<and> p_pid (pcb_at k a) = pp}"
      using False m1(1) m2(1) by auto
    then have "moved path ({me} \<union> {a \<in> set (xs @ bs). pp \<noteq> 0 \<and> p_pid (pcb_at k a) = pp}) (procs k) s3"
      using moved_trans [OF moved_trans [OF s1(2) s2(2)] s3(2)] by simp
    moreover have "p_ppid (pcbs s1 me) = pp" "p_ppid (pcbs s2 me) = pp"
      using m1(2) [of me] m2(2) [of me] assms(4) by simp_all
    ultimately show ?thesis using True run s2(1) s3(1) False by (auto intro!: exI [of _ s3])
  qed
next
  case False
  then show ?thesis using assms(1) by (auto simp: sys_chdir_def)
qed


text \<open>Process 2, child of process 1, in the file system with \<^verbatim>\<open>/bin/\<close>.\<close>

definition demo_children :: kernel where
  "demo_children = demo_kernel\<lparr>fs := demo_fs,
     procs := \<lparr>pcbs = (\<lambda>_. blank_pcb\<lparr>p_cwd := replicate 25 NUL\<rparr>)
        (8 := blank_pcb\<lparr>p_state := RUNNING, p_pid := 2, p_ppid := 1, p_next := 16, p_cwd := replicate 25 NUL\<rparr>,
         16 := blank_pcb\<lparr>p_pid := 1, p_cwd := ''/'' @ replicate 24 NUL\<rparr>),
       threadlist = 8, currentthread = 8, mainthread = 0, blockedlist = 0, processcount = 2\<rparr>\<rparr>"

theorem sys_chdir_moves_parent_too_witness:
  "\<exists>s'. sys_chdir demo_rows (''/bin/'' @ [NUL]) demo_children = Some (0, demo_children\<lparr>procs := s'\<rparr>)
     \<and> cstr (p_cwd (pcbs s' 8)) = ''/bin/'' \<and> cstr (p_cwd (pcbs s' 16)) = ''/bin/''"
proof -
  let ?path = "''/bin/'' @ [NUL]"
  have ff: "find_file demo_rows ?path (fs demo_children) = Some 200" using demo_find_bin by (simp add: demo_children_def)
  have p: "cstr ?path = ''/bin/''" "terminated ?path" by (simp_all add: cstr_Cons NUL_def)
  have st: "this_thread demo_children = 8" "p_ppid (pcb_at demo_children 8) = 1"
    "chain (pnext (procs demo_children)) (threadlist (procs demo_children)) [8, 16] 0"
    "chain (pnext (procs demo_children)) (blockedlist (procs demo_children)) [] 0"
    "p_pid (pcb_at demo_children 16) = 1" by (simp_all add: demo_children_def blank_pcb_def)
  have fl: "i_flags (inode_of (fs demo_children) 200) = FS_DIRECTORY"
    by (simp add: demo_children_def demo_fs_def inode_of_def)
  have fits: "cwd_fits ?path (pcb_at demo_children a)" for a
    unfolding cwd_fits_def p by (simp add: demo_children_def terminated_def)
  obtain s' where r: "sys_chdir demo_rows ?path demo_children = Some (0, demo_children\<lparr>procs := s'\<rparr>)"
      "moved ?path ({8} \<union> {a \<in> set ([8, 16] @ []). (1::u32) \<noteq> 0 \<and> p_pid (pcb_at demo_children a) = 1})
        (procs demo_children) s'"
    using sys_chdir_moves_parent_too [OF ff p(2) st(1) [symmetric] st(2) [symmetric] st(3,4) fits] fl by auto
  have "in_path ?path (pcb_at demo_children 8) (pcbs s' 8)" "in_path ?path (pcb_at demo_children 16) (pcbs s' 16)"
    by (rule movedD [OF r(2)], use st(5) in simp)+
  then show ?thesis using r(1) p(1) by (auto simp: in_path_def)
qed

end
