(* ===== verification/Interrupts.thy ===== *)
theory Interrupts
  imports Process
begin

text \<open>
  The interrupt handlers of \<^verbatim>\<open>sys/idt.c\<close>: the interrupt descriptor table, the clock in the corner of the
  screen with the timer interrupt, \<^verbatim>\<open>sys_sleep\<close> of \<^verbatim>\<open>sys/syscall.c\<close>, which waits for its ticks, and the page fault
  handler with demand paging and copy-on-write.  Saving the registers and acknowledging the interrupt,
  which are inline assembly, are in \<open>Switch\<close>.
\<close>

section \<open>The interrupt descriptor table\<close>

record idtr_item =
  offset_1 :: u16
  selector :: u16
  ist :: u8
  type_attr :: u8
  offset_2 :: u16
  offset_3 :: u32
  gate_zero :: u32

definition MAX_IDT :: nat where
  "MAX_IDT = 255"

text \<open>The addresses of the handlers.\<close>

record handlers =
  at_interrupt0 :: u64
  at_interrupt1 :: u64
  at_interrupt2 :: u64
  at_interrupt3 :: u64
  at_interrupt4 :: u64
  at_interrupt5 :: u64
  at_interrupt_syscall :: u64

definition gate :: "u64 \<Rightarrow> u8 \<Rightarrow> idtr_item" where
  "gate h attr = \<lparr>offset_1 = ucast h, selector = 8, ist = 0, type_attr = attr,
     offset_2 = ucast (drop_bit 16 h), offset_3 = ucast (drop_bit 32 h), gate_zero = 0\<rparr>"

definition exception_gate :: "handlers \<Rightarrow> nat \<Rightarrow> idtr_item list \<Rightarrow> idtr_item list option" where
  "exception_gate h i idt =
     (if i = 14 then aput idt i (gate (at_interrupt4 h) 0x8e)
      else if i = 13 then aput idt i (gate (at_interrupt5 h) 0x8e)
      else aput idt i (gate (at_interrupt2 h) 0x8e))"

definition interrupt_gate :: "handlers \<Rightarrow> nat \<Rightarrow> idtr_item list \<Rightarrow> idtr_item list option" where
  "interrupt_gate h i idt =
     (if i = 128 then aput idt i (gate (at_interrupt_syscall h) 0xee)
      else aput idt i (gate (at_interrupt3 h) 0x8e))"

definition init_idt :: "handlers \<Rightarrow> idtr_item list \<Rightarrow> idtr_item list option" where
  "init_idt h idt =
     do { idt \<leftarrow> for_n 0 32 (exception_gate h) idt;
          idt \<leftarrow> aput idt 32 (gate (at_interrupt0 h) 0x8e);
          idt \<leftarrow> aput idt 33 (gate (at_interrupt1 h) 0x8e);
          for_n 34 222 (interrupt_gate h) idt }"

section \<open>The clock\<close>

record clock =
  tcount :: int
  mscount :: int
  scount :: int
  mcount :: int
  hcount :: int

text \<open>\<^verbatim>\<open>rem[i++] = intvalue % 10 + '0'\<close> until nothing is left, in an array of two numbers.\<close>

function rem_loop :: "int \<Rightarrow> int list \<Rightarrow> nat \<Rightarrow> int list option" where
  "rem_loop intvalue rem i =
     (if intvalue \<noteq> 0
      then do { rem \<leftarrow> aput rem i (intvalue smod 10 + 48); rem_loop (intvalue sdiv 10) rem (Suc i) }
      else Some rem)"
  by pat_completeness auto
termination
  by (relation "measure (\<lambda>(v, r, i). length r - i)") (auto simp: aput_def split: if_splits)

declare rem_loop.simps [simp del]

text \<open>The two digits of a counter at \<open>temp2\<close> and at \<open>temp2 + 2\<close> (every second byte of the screen is a colour).\<close>

definition put_number :: "int \<Rightarrow> u64 \<Rightarrow> memory \<Rightarrow> memory option" where
  "put_number v temp2 screen =
     do { rem \<leftarrow> rem_loop v [48, 48] 0;
          Some (screen(temp2 := char_of (rem ! 1), temp2 + 2 := char_of (rem ! 0))) }"

definition roll_over :: "clock \<Rightarrow> clock" where
  "roll_over c =
     (let c = (if scount c = 60
               then let c = c\<lparr>mcount := mcount c + 1, scount := 0\<rparr>;
                        c = (if mcount c = 60 then c\<lparr>hcount := hcount c + 1, mcount := 0\<rparr> else c)
                    in if hcount c = 24 then c\<lparr>hcount := 0\<rparr> else c
               else c)
      in if mscount c = 18 then c\<lparr>scount := scount c + 1, mscount := 0\<rparr> else c)"

definition CLOCK :: u64 where
  "CLOCK = KERNBASE + 0xb8f90"

definition handletime :: "clock \<times> memory \<Rightarrow> (clock \<times> memory) option" where
  "handletime = (\<lambda>(c, screen).
     do { let c = roll_over c;
          screen \<leftarrow> put_number (hcount c) CLOCK screen;
          let screen = screen(CLOCK + 4 := CHR '':'');
          screen \<leftarrow> put_number (mcount c) (CLOCK + 6) screen;
          let screen = screen(CLOCK + 10 := CHR '':'');
          screen \<leftarrow> put_number (scount c) (CLOCK + 12) screen;
          Some (c, screen) })"

text \<open>The timer interrupt: one tick of the clock, then the preemption of the scheduler theory.\<close>

definition tick :: "clock \<times> memory \<Rightarrow> (clock \<times> memory) option" where
  "tick = (\<lambda>(c, screen). handletime (c\<lparr>tcount := tcount c + 1, mscount := mscount c + 1\<rparr>, screen))"

definition interrupt0 :: "clock \<times> memory \<Rightarrow> sys \<Rightarrow> ((clock \<times> memory) \<times> sys) option" where
  "interrupt0 cs s = do { cs \<leftarrow> tick cs; s \<leftarrow> timer_preempt s; Some (cs, s) }"

section \<open>Sleeping\<close>

text \<open>\<open>seen i\<close> is what the \<open>i\<close>-th call of \<^verbatim>\<open>gettcount\<close> returns; the result is the number of the last call.\<close>

partial_function (option) sleep_loop :: "(nat \<Rightarrow> int) \<Rightarrow> u32 \<Rightarrow> nat \<Rightarrow> int \<Rightarrow> int \<Rightarrow> nat option" where
  "sleep_loop seen seconds i time sc =
     (let t = seen i;
          (sc, time) = (if t - time = 18 then (sc + 1, t) else (sc, time))
      in if seconds \<le> word_of_int sc then Some i
         else sleep_loop seen seconds (Suc i) time sc)"

declare sleep_loop.simps [simp del]

definition sys_sleep :: "(nat \<Rightarrow> int) \<Rightarrow> u32 \<Rightarrow> nat option" where
  "sys_sleep seen seconds = sleep_loop seen seconds 1 (seen 0) 0"

section \<open>Page faults\<close>

partial_function (option) find_area :: "(vm_area_struct \<Rightarrow> bool) \<Rightarrow> (u64 \<Rightarrow> vm_area_struct) \<Rightarrow> u64 \<Rightarrow> u64 option" where
  "find_area P m p =
     (if p = 0 then Some 0 else if P (m p) then Some p else find_area P m (vma_next (m p)))"

declare find_area.simps [simp del]

definition covers :: "vm_area_struct \<Rightarrow> u64 \<Rightarrow> bool" where
  "covers v a \<longleftrightarrow> vma_start v \<le> a \<and> a \<le> vma_end v"

text \<open>The branches for an address that is not of the kernel.\<close>

definition demand_page :: "nat \<Rightarrow> u64 \<Rightarrow> kernel \<Rightarrow> kernel option" where
  "demand_page depth arg1 k =
     do { let me = this_thread k;
          let root = p_page_table (pcb_at k me) + KERNBASE;
          let vmas = list_of_vmas (mms k (p_mm (pcb_at k me)));
          vma_stack \<leftarrow> find_area (\<lambda>v. vma_type v = STACK) (areas k) vmas;
          vma_heap \<leftarrow> find_area (\<lambda>v. vma_type v = HEAP \<and> covers v arg1) (areas k) vmas;
          if vma_stack \<noteq> 0 \<and> covers (areas k vma_stack) arg1
          then map_user_address depth arg1 (arg1 - USERBASE - 0x1000000000) 4096 root 7 k
          else if vma_heap \<noteq> 0 \<and> covers (areas k vma_heap) arg1
          then map_user_address depth arg1 (arg1 - USERBASE) 4096 root 7 k
          else if vma_stack \<noteq> 0 \<and> arg1 < vma_start (areas k vma_stack)
          then do { k \<leftarrow> map_user_address depth arg1 (arg1 - USERBASE - 0x1000000000) 4096 root 7 k;
                    Some (set_area vma_stack (\<lambda>v. v\<lparr>vma_start := vma_start v - 4096\<rparr>) k) }
          else map_user_address depth arg1 (arg1 - USERBASE) 4096 root 7 k }"

text \<open>\<open>arg1\<close> is the faulting address, the register \<^verbatim>\<open>cr2\<close>.\<close>

definition interrupt4 :: "nat \<Rightarrow> u64 \<Rightarrow> kernel \<Rightarrow> kernel option" where
  "interrupt4 depth arg1 k =
     (let me = this_thread k; cur = p_page_table (pcb_at k me); i = pml4t_index arg1 in
      if me \<noteq> 0 \<and> is_cow_enabled cur i k then copy_page depth cur (cur + KERNBASE) arg1 k
      else if i = 511 then do { s \<leftarrow> thread_on_completion (procs k); Some (k\<lparr>procs := s\<rparr>) }
      else demand_page depth arg1 k)"

section \<open>The vectors\<close>

text \<open>The address in a gate, as the processor reads it.\<close>

definition gate_target :: "idtr_item \<Rightarrow> u64" where
  "gate_target g = ucast (offset_1 g) OR push_bit 16 (ucast (offset_2 g)) OR push_bit 32 (ucast (offset_3 g))"

definition handler_of :: "handlers \<Rightarrow> nat \<Rightarrow> u64" where
  "handler_of h i = (if i = 14 then at_interrupt4 h else if i = 13 then at_interrupt5 h
     else if i < 32 then at_interrupt2 h else if i = 32 then at_interrupt0 h
     else if i = 33 then at_interrupt1 h else if i = 128 then at_interrupt_syscall h else at_interrupt3 h)"

definition vector :: "handlers \<Rightarrow> nat \<Rightarrow> idtr_item" where
  "vector h i = gate (handler_of h i) (if i = 128 then 0xee else 0x8e)"

lemma gate_target_gate [simp]: "gate_target (gate h a) = h"
proof (rule bit_word_eqI)
  fix n assume "n < LENGTH(64)"
  then consider "n < 16" | "16 \<le> n" "n < 32" | "32 \<le> n" "n < 64" by force
  then show "bit (gate_target (gate h a)) n \<longleftrightarrow> bit h n"
    by cases (auto simp: gate_target_def gate_def bit_simps)
qed

lemma for_n_fill_at:
  "lo \<le> length xs \<Longrightarrow> for_n lo n (\<lambda>i t. aput t i (f i)) xs =
    (if lo + n \<le> length xs then Some (take lo xs @ map f [lo..<lo + n] @ drop (lo + n) xs) else None)"
proof (induction n)
  case (Suc n)
  then show ?case unfolding for_n_Suc_right by (auto simp: list_update_append Cons_nth_drop_Suc [symmetric])
qed simp

lemma init_idt_eq:
  "init_idt h t = (if 256 \<le> length t then Some (map (vector h) [0..<256] @ drop 256 t) else None)"
proof -
  have e: "for_n 0 32 (exception_gate h) u = for_n 0 32 (\<lambda>i t. aput t i (vector h i)) u" for u
    by (rule for_n_cong) (simp add: exception_gate_def vector_def handler_of_def)
  have i: "for_n 34 222 (interrupt_gate h) u = for_n 34 222 (\<lambda>i t. aput t i (vector h i)) u" for u
    by (rule for_n_cong) (simp add: interrupt_gate_def vector_def handler_of_def)
  have m: "aput u 32 (gate (at_interrupt0 h) 0x8e) = for_n 32 1 (\<lambda>i t. aput t i (vector h i)) u"
    "aput u 33 (gate (at_interrupt1 h) 0x8e) = for_n 33 1 (\<lambda>i t. aput t i (vector h i)) u" for u
    by (simp_all add: vector_def handler_of_def)
  have "init_idt h t = for_n 0 (32 + (1 + (1 + 222))) (\<lambda>i t. aput t i (vector h i)) t"
    unfolding init_idt_def e i m for_n_append by (simp only: add_0 numeral_plus_one one_plus_numeral) simp
  then show ?thesis using for_n_fill_at [of 0 t 256 "vector h"] by simp
qed

text \<open>\<^verbatim>\<open>init_idt\<close> writes 256 gates into the table of \<^verbatim>\<open>MAX_IDT\<close> entries, which is one short: the last gate is
  written behind it.  With room for all of them every vector leads to its handler, and only the vector of
  the system calls has a gate that user mode may call.\<close>

theorem init_idt_overruns_table:
  assumes "length t = MAX_IDT"
  shows "init_idt h t = None
    \<and> (\<exists>t'. init_idt h (t @ [g]) = Some t' \<and> length t' = 256
         \<and> (\<forall>i<256. gate_target (t' ! i) = handler_of h i
              \<and> (drop_bit 5 (type_attr (t' ! i)) AND 3 = 3 \<longleftrightarrow> i = 128)))"
proof -
  have "init_idt h (t @ [g]) = Some (map (vector h) [0..<256])" "init_idt h t = None"
    using assms by (simp_all add: init_idt_eq MAX_IDT_def)
  moreover have "gate_target (vector h i) = handler_of h i" "type_attr (vector h i) = (if i = 128 then 0xee else 0x8e)" for i
    by (simp add: vector_def) (simp add: vector_def gate_def)
  ultimately show ?thesis by auto
qed

definition demo_handlers :: handlers where
  "demo_handlers = \<lparr>at_interrupt0 = 0xffffffff80201000, at_interrupt1 = 0xffffffff80201100,
     at_interrupt2 = 0xffffffff80201200, at_interrupt3 = 0xffffffff80201300, at_interrupt4 = 0xffffffff80201400,
     at_interrupt5 = 0xffffffff80201500, at_interrupt_syscall = 0xffffffff80201600\<rparr>"

theorem init_idt_overruns_table_witness:
  "init_idt demo_handlers (replicate 255 (gate 0 0)) = None
   \<and> (\<exists>t'. init_idt demo_handlers (replicate 255 (gate 0 0) @ [gate 0 0]) = Some t' \<and> gate_target (t' ! 14) = 0xffffffff80201400)"
proof -
  have "length (replicate 255 (gate 0 0)) = MAX_IDT" by (simp add: MAX_IDT_def)
  moreover have "handler_of demo_handlers 14 = 0xffffffff80201400" by (simp add: handler_of_def demo_handlers_def)
  ultimately show ?thesis
    using init_idt_overruns_table [of "replicate 255 (gate 0 0)" demo_handlers "gate 0 0"] by fastforce
qed

section \<open>The time of day\<close>

lemma rem_loop_two:
  assumes "0 \<le> v" "v < 100"
  shows "rem_loop v [48, 48] 0 = Some [v mod 10 + 48, v div 10 + 48]"
proof (cases "v < 10")
  case True
  then show ?thesis using assms
    by (cases "v = 0") (simp_all add: rem_loop.simps [of v] rem_loop.simps [of 0] sdiv_nonneg smod_nonneg)
next
  case False
  then have "0 < v div 10" "v div 10 < 10" using assms by auto
  then have "rem_loop (v div 10) [v mod 10 + 48, 48] 1 = Some [v mod 10 + 48, v div 10 + 48]"
    by (simp add: rem_loop.simps [of "v div 10"] rem_loop.simps [of 0] sdiv_nonneg smod_nonneg)
  then show ?thesis using False assms
    by (subst rem_loop.simps) (simp add: sdiv_nonneg smod_nonneg)
qed

definition two_digits :: "int \<Rightarrow> string" where
  "two_digits v = [char_of (v div 10 + 48), char_of (v mod 10 + 48)]"

text \<open>The text of the clock, every second byte of the screen from \<^const>\<open>CLOCK\<close> on.\<close>

definition shown :: "memory \<Rightarrow> string" where
  "shown screen = map (\<lambda>i. screen (CLOCK + 2 * of_nat i)) [0..<8]"

text \<open>The counters as a function of the ticks: the state after \<open>n\<close> ticks from a clock of zeros.\<close>

definition clock_inv :: "clock \<Rightarrow> bool" where
  "clock_inv c \<longleftrightarrow> 0 \<le> mscount c \<and> mscount c < 18 \<and> 0 \<le> scount c \<and> scount c \<le> 60 \<and> 0 \<le> mcount c \<and> mcount c < 60
     \<and> 0 \<le> hcount c \<and> hcount c < 24 \<and> (scount c = 60 \<longrightarrow> mscount c = 0)
     \<and> (scount c = 0 \<and> mscount c = 0 \<longrightarrow> tcount c = 0)
     \<and> (\<exists>days. tcount c = 18 * (86400 * days + 3600 * hcount c + 60 * mcount c + scount c) + mscount c)"

lemma clock_invI:
  assumes "0 \<le> mscount c" "mscount c < 18" "0 \<le> scount c" "scount c \<le> 60" "0 \<le> mcount c" "mcount c < 60"
    "0 \<le> hcount c" "hcount c < 24" "scount c = 60 \<longrightarrow> mscount c = 0" "scount c \<noteq> 0 \<or> mscount c \<noteq> 0"
    "tcount c = 18 * (86400 * days + 3600 * hcount c + 60 * mcount c + scount c) + mscount c"
  shows "clock_inv c"
  using assms unfolding clock_inv_def by blast

lemma roll_over_inv:
  assumes "clock_inv c"
  shows "clock_inv (roll_over (c\<lparr>tcount := tcount c + 1, mscount := mscount c + 1\<rparr>))"
    "tcount (roll_over (c\<lparr>tcount := tcount c + 1, mscount := mscount c + 1\<rparr>)) = tcount c + 1"
proof -
  obtain days where d: "tcount c = 18 * (86400 * days + 3600 * hcount c + 60 * mcount c + scount c) + mscount c"
    using assms by (auto simp: clock_inv_def)
  note b = assms [unfolded clock_inv_def]
  let ?c = "c\<lparr>tcount := tcount c + 1, mscount := mscount c + 1\<rparr>"
  show "tcount (roll_over ?c) = tcount c + 1" by (simp add: roll_over_def Let_def)
  have "scount c = 60 \<or> scount c < 60" "mcount c = 59 \<or> mcount c < 59" "hcount c = 23 \<or> hcount c < 23"
    "mscount c = 17 \<or> mscount c < 17" using b by auto
  then consider "scount c = 60" "mcount c = 59" "hcount c = 23" | "scount c = 60" "mcount c = 59" "hcount c < 23"
    | "scount c = 60" "mcount c < 59" | "scount c < 60" "mscount c = 17" | "scount c < 60" "mscount c < 17"
    by blast
  then show "clock_inv (roll_over ?c)"
  proof cases
    case 1
    then have r: "roll_over ?c = ?c\<lparr>mcount := 0, scount := 0, hcount := 0\<rparr>" using b by (simp add: roll_over_def)
    show ?thesis unfolding r using 1 b d by (intro clock_invI [of _ "days + 1"]) simp_all
  next
    case 2
    then have r: "roll_over ?c = ?c\<lparr>mcount := 0, scount := 0, hcount := hcount c + 1\<rparr>" using b by (simp add: roll_over_def)
    show ?thesis unfolding r using 2 b d by (intro clock_invI [of _ days]) simp_all
  next
    case 3
    then have r: "roll_over ?c = ?c\<lparr>mcount := mcount c + 1, scount := 0\<rparr>" using b by (simp add: roll_over_def)
    show ?thesis unfolding r using 3 b d by (intro clock_invI [of _ days]) simp_all
  next
    case 4
    then have r: "roll_over ?c = ?c\<lparr>mscount := 0, scount := scount c + 1\<rparr>" using b by (simp add: roll_over_def)
    show ?thesis unfolding r using 4 b d by (intro clock_invI [of _ days]) simp_all
  next
    case 5
    then have r: "roll_over ?c = ?c" using b by (simp add: roll_over_def)
    show ?thesis unfolding r using 5 b d by (intro clock_invI [of _ days]) simp_all
  qed
qed

lemma tick_shows:
  assumes "clock_inv c"
  shows "\<exists>c' screen'. tick (c, screen) = Some (c', screen') \<and> clock_inv c' \<and> tcount c' = tcount c + 1
    \<and> shown screen' = two_digits (hcount c') @ '':'' @ two_digits (mcount c') @ '':'' @ two_digits (scount c')"
proof -
  define c' where "c' = roll_over (c\<lparr>tcount := tcount c + 1, mscount := mscount c + 1\<rparr>)"
  have i: "clock_inv c'" "tcount c' = tcount c + 1" using roll_over_inv [OF assms] by (simp_all add: c'_def)
  have b: "0 \<le> hcount c'" "hcount c' < 100" "0 \<le> mcount c'" "mcount c' < 100" "0 \<le> scount c'" "scount c' < 100"
    using i(1) by (auto simp: clock_inv_def)
  have p: "put_number v a m = Some (m(a := char_of (v div 10 + 48), a + 2 := char_of (v mod 10 + 48)))"
    if "0 \<le> v" "v < 100" for v a m
    using rem_loop_two [OF that] by (simp add: put_number_def)
  define m' where "m' = screen(CLOCK := char_of (hcount c' div 10 + 48), CLOCK + 2 := char_of (hcount c' mod 10 + 48),
     CLOCK + 4 := CHR '':'', CLOCK + 6 := char_of (mcount c' div 10 + 48), CLOCK + 6 + 2 := char_of (mcount c' mod 10 + 48),
     CLOCK + 10 := CHR '':'', CLOCK + 12 := char_of (scount c' div 10 + 48), CLOCK + 12 + 2 := char_of (scount c' mod 10 + 48))"
  have "tick (c, screen) = Some (c', m')"
    using b by (simp add: tick_def handletime_def Let_def c'_def [symmetric] p m'_def)
  moreover have "shown m' = two_digits (hcount c') @ '':'' @ two_digits (mcount c') @ '':'' @ two_digits (scount c')"
    by (simp add: shown_def m'_def two_digits_def upt_rec)
  ultimately show ?thesis using i by blast
qed


fun ticks :: "nat \<Rightarrow> clock \<times> memory \<Rightarrow> (clock \<times> memory) option" where
  "ticks 0 cs = Some cs"
| "ticks (Suc n) cs = do { cs \<leftarrow> tick cs; ticks n cs }"

definition boot_clock :: clock where
  "boot_clock = \<lparr>tcount = 0, mscount = 0, scount = 0, mcount = 0, hcount = 0\<rparr>"

lemma ticks_shows:
  "clock_inv c \<Longrightarrow> \<exists>c' screen'. ticks (Suc n) (c, screen) = Some (c', screen') \<and> clock_inv c' \<and> tcount c' = tcount c + int (Suc n)
    \<and> shown screen' = two_digits (hcount c') @ '':'' @ two_digits (mcount c') @ '':'' @ two_digits (scount c')"
proof (induction n arbitrary: c screen)
  case 0
  then show ?case using tick_shows [of c screen] by auto
next
  case (Suc n)
  obtain c1 s1 where t: "tick (c, screen) = Some (c1, s1)" "clock_inv c1" "tcount c1 = tcount c + 1"
    using tick_shows [OF Suc.prems, of screen] by blast
  have "ticks (Suc (Suc n)) (c, screen) = ticks (Suc n) (c1, s1)" using t(1) by simp
  then show ?case using Suc.IH [OF t(2), of s1] t(3) by (simp add: algebra_simps del: ticks.simps)
qed

lemma clock_counters:
  assumes "clock_inv c" "tcount c = int (Suc n)"
  shows "hcount c = int (n div 1080 div 60 mod 24)" "mcount c = int (n div 1080 mod 60)"
    "scount c = (if 1080 dvd Suc n then 60 else int (Suc n div 18 mod 60))"
proof -
  note b = assms(1) [unfolded clock_inv_def]
  obtain days where d: "int (Suc n) = 18 * (86400 * days + 3600 * hcount c + 60 * mcount c + scount c) + mscount c"
    using b assms(2) by auto
  define q where "q = 1440 * days + 60 * hcount c + mcount c"
  have n: "int (Suc n) = 1080 * q + (18 * scount c + mscount c)" unfolding q_def using d by simp
  have pos: "0 < 18 * scount c + mscount c" using b assms(2) by (cases "scount c = 0") auto
  have le: "18 * scount c + mscount c \<le> 1080" using b by (cases "scount c = 60") auto
  have "int n = 1080 * q + (18 * scount c + mscount c - 1)" using n by simp
  then have "int n div 1080 = q" by (rule int_div_pos_eq) (use pos le in simp_all)
  then have m: "int (n div 1080) = q" by (simp add: zdiv_int)
  have "q = 60 * (24 * days + hcount c) + mcount c" by (simp add: q_def)
  then have "q mod 60 = mcount c" "q div 60 = 24 * days + hcount c"
    by (rule int_mod_pos_eq, use b in simp_all, intro int_div_pos_eq) auto
  moreover from this(2) have "q div 60 mod 24 = hcount c" by (rule int_mod_pos_eq) (use b in simp_all)
  ultimately show "hcount c = int (n div 1080 div 60 mod 24)" "mcount c = int (n div 1080 mod 60)"
    using m by (simp_all add: zdiv_int zmod_int)
  show "scount c = (if 1080 dvd Suc n then 60 else int (Suc n div 18 mod 60))"
  proof (cases "scount c = 60")
    case True
    then have "int (Suc n) = 1080 * (q + 1)" using n b by simp
    then have "int 1080 dvd int (Suc n)" by simp
    then have "1080 dvd Suc n" by (simp only: int_dvd_int_iff)
    with True show ?thesis by simp
  next
    case False
    then have lt: "18 * scount c + mscount c < 1080" using b by auto
    then have "int (Suc n) mod 1080 = 18 * scount c + mscount c"
      by (intro int_mod_pos_eq [OF n]) (use pos in simp_all)
    then have "\<not> 1080 dvd int (Suc n)" using pos by (simp add: dvd_eq_mod_eq_0)
    then have nd: "\<not> 1080 dvd Suc n" by (metis int_dvd_int_iff of_nat_numeral)
    have "int (Suc n) = 18 * (60 * q + scount c) + mscount c" using n by simp
    then have "int (Suc n) div 18 = 60 * q + scount c" by (rule int_div_pos_eq) (use b in simp_all)
    then have "int (Suc n) div 18 mod 60 = scount c" by (rule int_mod_pos_eq) (use b False in auto)
    then show ?thesis using nd by (simp add: zdiv_int zmod_int)
  qed
qed

text \<open>C18: After \<open>n + 1\<close> timer interrupts, 18 to the second, the counters and the screen show \<open>hh:mm:ss\<close> with the time that has
  passed, modulo a day, but at the full minute 60 seconds of the minute before: the roll-over comes before
  the count, one interrupt late.\<close>

theorem clock_shows_time:
  "\<exists>c screen'. ticks (Suc n) (boot_clock, screen) = Some (c, screen')
     \<and> shown screen' = two_digits (hcount c) @ '':'' @ two_digits (mcount c) @ '':'' @ two_digits (scount c)
     \<and> hcount c = int (n div 1080 div 60 mod 24) \<and> mcount c = int (n div 1080 mod 60)
     \<and> scount c = (if 1080 dvd Suc n then 60 else int (Suc n div 18 mod 60))"
proof -
  have "clock_inv boot_clock" by (simp add: clock_inv_def boot_clock_def)
  from ticks_shows [OF this, of n screen] obtain c m where
    t: "ticks (Suc n) (boot_clock, screen) = Some (c, m)" "clock_inv c" "tcount c = int (Suc n)"
      "shown m = two_digits (hcount c) @ '':'' @ two_digits (mcount c) @ '':'' @ two_digits (scount c)"
    by (auto simp: boot_clock_def)
  show ?thesis using t(1,4) clock_counters [OF t(2,3)] by blast
qed

section \<open>Waiting for ticks\<close>

lemma seconds_left: "0 \<le> sc \<Longrightarrow> sc < uint seconds \<Longrightarrow> \<not> seconds \<le> (word_of_int sc :: u32)"
  using uint_lt2p [of seconds] by (simp add: word_le_def uint_word_of_int)

lemma sleep_skip:
  assumes "0 \<le> sc" "sc < uint seconds" "\<And>j. i \<le> j \<Longrightarrow> j < i + d \<Longrightarrow> seen j - time \<noteq> 18"
  shows "sleep_loop seen seconds i time sc = sleep_loop seen seconds (i + d) time sc"
  using assms(3)
proof (induction d arbitrary: i)
  case (Suc d)
  have "sleep_loop seen seconds i time sc = sleep_loop seen seconds (Suc i) time sc"
    using Suc.prems [of i] seconds_left [OF assms(1,2)] by (subst sleep_loop.simps) (simp add: Let_def)
  also have "\<dots> = sleep_loop seen seconds (Suc i + d) time sc" by (rule Suc.IH) (use Suc.prems in auto)
  finally show ?case by simp
qed simp

lemma first_tick:
  assumes "\<And>j. seen (Suc j) \<le> seen j + 1" "seen i \<le> time + 18" "\<And>b. \<exists>j\<ge>i. b \<le> seen j"
  obtains d where "seen (i + d) = time + (18 :: int)" "\<And>j. i \<le> j \<Longrightarrow> j < i + d \<Longrightarrow> seen j - time \<noteq> 18"
proof -
  let ?P = "\<lambda>d. time + 18 \<le> seen (i + d)"
  obtain j where "i \<le> j" "time + 18 \<le> seen j" using assms(3) [of "time + 18"] by blast
  then have ex: "?P (j - i)" by simp
  define d where "d = (LEAST d. ?P d)"
  have d: "?P d" unfolding d_def by (rule LeastI [of ?P, OF ex])
  have less: "seen (i + e) < time + 18" if "e < d" for e
    using not_less_Least [of e ?P] that by (simp add: d_def)
  have "seen (i + d) \<le> time + 18"
  proof (cases d)
    case (Suc e)
    then show ?thesis using less [of e] assms(1) [of "i + e"] by simp
  qed (use assms(2) in simp)
  then have "seen (i + d) = time + 18" using d by simp
  moreover have "seen j - time \<noteq> 18" if "i \<le> j" "j < i + d" for j
    using less [of "j - i"] that by (simp add: less_diff_conv2)
  ultimately show thesis by (rule that)
qed

lemma sleep_loop_ends:
  assumes step: "\<And>j. seen (Suc j) \<le> seen j + 1" and unb: "\<And>b i. \<exists>j\<ge>i. b \<le> seen j"
  shows "\<lbrakk> 0 \<le> sc; uint seconds = sc + 1 + int m; seen i \<le> time + 18 \<rbrakk> \<Longrightarrow>
    \<exists>j. sleep_loop seen seconds i time sc = Some j \<and> seen j = time + 18 * (1 + int m)"
proof (induction m arbitrary: i time sc)
  case 0
  obtain d where d: "seen (i + d) = time + 18" "\<And>j. i \<le> j \<Longrightarrow> j < i + d \<Longrightarrow> seen j - time \<noteq> 18"
    using first_tick [of seen i time, OF step 0(3) unb] by blast
  have "sleep_loop seen seconds i time sc = sleep_loop seen seconds (i + d) time sc"
    by (rule sleep_skip [OF 0(1) _ d(2)]) (use 0 in auto)
  also have "\<dots> = Some (i + d)"
    using d(1) 0(2) word_of_int_uint [of seconds] by (subst sleep_loop.simps) simp
  finally show ?case using d(1) by auto
next
  case (Suc m)
  obtain d where d: "seen (i + d) = time + 18" "\<And>j. i \<le> j \<Longrightarrow> j < i + d \<Longrightarrow> seen j - time \<noteq> 18"
    using first_tick [of seen i time, OF step Suc.prems(3) unb] by blast
  have "sleep_loop seen seconds i time sc = sleep_loop seen seconds (i + d) time sc"
    by (rule sleep_skip [OF Suc.prems(1) _ d(2)]) (use Suc.prems in auto)
  also have "\<dots> = sleep_loop seen seconds (Suc (i + d)) (time + 18) (sc + 1)"
    using d(1) seconds_left [of "sc + 1" seconds] Suc.prems by (subst sleep_loop.simps) simp
  finally show ?case
    using Suc.IH [of "sc + 1" "Suc (i + d)" "time + 18"] Suc.prems step [of "i + d"] d(1) by (simp add: algebra_simps)
qed

text \<open>C20: \<^verbatim>\<open>sleep\<close> returns when the clock shows exactly 18 ticks per second more than at the call, provided that it
  never misses a tick: consecutive readings differ by at most one, and the clock goes on.\<close>

theorem sleep_ends:
  assumes "\<And>j. seen (Suc j) \<le> seen j + 1" "\<And>b i. \<exists>j\<ge>i. b \<le> seen j" "0 < seconds"
  shows "\<exists>j. sys_sleep seen seconds = Some j \<and> seen j = seen 0 + 18 * uint seconds"
proof -
  define m where "m = nat (uint seconds - 1)"
  have "0 < uint seconds" using assms(3) by (simp add: word_less_def)
  then have m: "uint seconds = 0 + 1 + int m" by (simp add: m_def)
  from sleep_loop_ends [of seen, OF assms(1,2) order_refl m, of 1 "seen 0"] show ?thesis
    using assms(1) [of 0] m by (auto simp: sys_sleep_def)
qed

theorem sleep_ends_witness:
  "sys_sleep int 2 = Some 36"
proof -
  have "\<exists>j\<ge>i. b \<le> int j" for b :: int and i :: nat
    by (rule exI [of _ "max i (nat b)"]) auto
  then show ?thesis using sleep_ends [of int 2] by auto
qed

lemma sleep_loop_misses:
  "sleep_loop seen seconds i time sc = Some r \<Longrightarrow> 0 \<le> sc \<Longrightarrow> sc < uint seconds \<Longrightarrow> \<exists>j\<ge>i. seen j - time = 18"
proof (induction seen seconds i time sc r rule: sleep_loop.raw_induct [rotated 1, consumes 1])
  case (1 loop seen seconds i time sc r)
  show ?case
  proof (cases "seen i - time = 18")
    case False
    then have "loop seen seconds (Suc i) time sc = Some r"
      using 1(2) seconds_left [OF 1(3,4)] by (simp add: Let_def)
    from 1(1) [OF this 1(3,4)] show ?thesis by (meson Suc_leD)
  qed auto
qed

text \<open>When the readings jump over the eighteenth tick, because another process ran in between, \<^verbatim>\<open>sleep\<close> never
  returns.\<close>

theorem sleep_misses_tick:
  assumes "0 < seconds" and "\<And>i. i \<le> j \<Longrightarrow> seen i < seen 0 + 18" "\<And>i. j < i \<Longrightarrow> seen 0 + 18 < seen i"
  shows "sys_sleep seen seconds = None"
proof (rule ccontr)
  assume "sys_sleep seen seconds \<noteq> None"
  then obtain r where "sleep_loop seen seconds 1 (seen 0) 0 = Some r" by (auto simp: sys_sleep_def)
  moreover have "0 < uint seconds" using assms(1) by (simp add: word_less_def)
  ultimately obtain i where "seen i - seen 0 = 18" using sleep_loop_misses [of seen seconds 1 "seen 0" 0 r] by auto
  then show False using assms(2) [of i] assms(3) [of i] by (cases "i \<le> j") auto
qed

theorem sleep_misses_tick_witness: "sys_sleep (\<lambda>i. 20 * int i) 1 = None"
  by (rule sleep_misses_tick [of 1 0]) auto

section \<open>Demand paging\<close>

lemma low_frame_bits: "(x :: u64) AND 0xfffff000 = ucast ((ucast x :: u32) AND 0xfffff000)"
proof -
  have a: "(0xfffff000 :: u64) = push_bit 12 (mask 20)" "(0xfffff000 :: u32) = push_bit 12 (mask 20)"
    by (simp_all add: mask_eq_exp_minus_1 push_bit_eq_mult)
  show ?thesis unfolding a by (rule bit_word_eqI) (auto simp: bit_simps)
qed

lemma fault_frame:
  "(arg1 - USERBASE) AND 0xfffff000 = arg1 AND 0xfffff000"
  "(arg1 - USERBASE - 0x1000000000) AND 0xfffff000 = arg1 AND 0xfffff000"
proof -
  have u: "(ucast USERBASE :: u32) = 0" "(ucast (0x1000000000 :: u64) :: u32) = 0"
    by (simp_all add: USERBASE_def)
  have m: "(ucast (x - y) :: u32) = ucast x - ucast y" for x y :: u64
    by (rule ucast_down_sub) 
  show "(arg1 - USERBASE) AND 0xfffff000 = arg1 AND 0xfffff000"
    "(arg1 - USERBASE - 0x1000000000) AND 0xfffff000 = arg1 AND 0xfffff000"
    unfolding low_frame_bits m u by simp_all
qed

lemma find_area_chain:
  "chain (\<lambda>a. vma_next (m a)) p as 0 \<Longrightarrow>
    find_area P m p = Some (case find (\<lambda>a. P (m a)) as of None \<Rightarrow> 0 | Some a \<Rightarrow> a)"
proof (induction as arbitrary: p)
  case Nil
  then show ?case by (simp add: find_area.simps)
next
  case (Cons a as)
  then show ?case by (simp add: find_area.simps [of P m a])
qed

lemma walk_set_area [simp]: "walk root va (set_area a f k) = walk root va k"
  by (simp add: walk_def table_path_def sub_table_def rd_def set_area_def)

lemma more_map_user:
  assumes "map_user_address depth va phys sz root f k = Some k'"
  shows "kmem.more k' = kmem.more k"
proof -
  note g = keeps_moreD [OF keeps_more_get_table [OF keeps_more_bump]]
  show ?thesis using assms
    by (auto simp: map_user_address_def map_user_with_def bind_eq_Some_conv
        dest!: g more_map_loop_turn [OF keeps_more_bump])
qed


abbreviation root_of :: "kernel \<Rightarrow> u64" where
  "root_of k \<equiv> p_page_table (pcb_at k (this_thread k)) + KERNBASE"

text \<open>The stack area that grows on a fault at \<open>arg1\<close>, if any, among the areas \<open>vs\<close> of the process.\<close>

definition growing_stack :: "kernel \<Rightarrow> u64 list \<Rightarrow> u64 \<Rightarrow> u64 option" where
  "growing_stack k vs arg1 =
     (if \<exists>h\<in>set vs. vma_type (areas k h) = HEAP \<and> covers (areas k h) arg1 then None
      else case find (\<lambda>a. vma_type (areas k a) = STACK) vs of None \<Rightarrow> None
        | Some a \<Rightarrow> if arg1 < vma_start (areas k a) then Some a else None)"

lemma find_SomeD: "find P xs = Some x \<Longrightarrow> P x \<and> x \<in> set xs"
  by (induction xs) (auto split: if_splits)

lemma demand_page_maps:
  assumes "chain (\<lambda>a. vma_next (areas k a)) (list_of_vmas (mms k (p_mm (pcb_at k (this_thread k))))) vs 0"
    and m: "\<And>phys. phys AND 0xfffff000 = arg1 AND 0xfffff000 \<Longrightarrow>
      map_user_address depth arg1 phys 4096 (root_of k) 7 k = Some k1"
  shows "demand_page depth arg1 k = Some (case growing_stack k vs arg1 of None \<Rightarrow> k1
      | Some a \<Rightarrow> set_area a (\<lambda>v. v\<lparr>vma_start := vma_start v - 4096\<rparr>) k1)"
proof -
  let ?S = "\<lambda>v. vma_type v = STACK" and ?H = "\<lambda>v. vma_type v = HEAP \<and> covers v arg1"
  have nz: "a \<noteq> 0" if "find P vs = Some a" for P a
    using find_SomeD [OF that] chain_nonnull [OF assms(1)] by blast
  have mm: "map_user_address depth arg1 (arg1 - USERBASE) 4096 (root_of k) 7 k = Some k1"
    "map_user_address depth arg1 (arg1 - USERBASE - 0x1000000000) 4096 (root_of k) 7 k = Some k1"
    by (rule m, rule fault_frame)+
  note f = find_area_chain [OF assms(1), of ?S] find_area_chain [OF assms(1), of ?H]
  show ?thesis
  proof (cases "find (\<lambda>a. ?S (areas k a)) vs")
    case None
    then show ?thesis using mm f by (simp add: demand_page_def growing_stack_def Let_def)
  next
    case (Some a)
    note a = Some nz [OF Some]
    show ?thesis
    proof (cases "find (\<lambda>a. ?H (areas k a)) vs")
      case None
      then have "\<not> (\<exists>h\<in>set vs. ?H (areas k h))" by (auto simp: find_None_iff)
      then have "growing_stack k vs arg1 = (if arg1 < vma_start (areas k a) then Some a else None)"
        using a unfolding growing_stack_def by auto
      then show ?thesis using mm f None a by (auto simp: demand_page_def Let_def covers_def)
    next
      case (Some b)
      then have "\<exists>h\<in>set vs. ?H (areas k h)" "?H (areas k b)" by (auto dest: find_SomeD)
      then have "growing_stack k vs arg1 = None" "covers (areas k b) arg1" unfolding growing_stack_def by auto
      then show ?thesis using mm f Some a nz [OF Some] by (simp add: demand_page_def Let_def)
    qed
  qed
qed

lemma bump_left_fewer: "bump_left U L n T s \<Longrightarrow> m \<le> n \<Longrightarrow> bump_left U L m T s"
  unfolding bump_left_def by (meson le_less_trans)

lemmas demo_kernel_left3 = bump_left_fewer [OF demo_kernel_left, of 3, simplified]

text \<open>C15: A page fault at an address outside of the kernel's slot of the root table, where the root table of the process has no
  entry, with at least four free frames for the tables that follow each other and are mapped by the kernel's tables, and the page
  not the last one of its page table: whatever
  areas the process has, the page is mapped to the frame that has the same low 32 bits, and the page behind it
  to the next frame.  Nothing checks that the address belongs to an area or that the frame is free, so every such
  access, the null pointer included, succeeds.  The only area that changes is the first stack area of the process, which grows by one
  page for any fault below it, unless a heap area of the process covers the address.\<close>

theorem page_fault_maps_low_bits:
  assumes "bump_left U L 3 T k" and "root_of k \<in> T" and "rd (root_of k) (pml4t_index arg1) k AND 1 = 0"
    and "pml4t_index arg1 \<noteq> 511" and "unat (pt_index arg1) < 511"
    and "chain (\<lambda>a. vma_next (areas k a)) (list_of_vmas (mms k (p_mm (pcb_at k (this_thread k))))) vs 0"
  shows "\<exists>k'. interrupt4 (Suc depth) arg1 k = Some k'
    \<and> walk (root_of k) arg1 k' = Some (arg1 AND 0xfffff000)
    \<and> walk (root_of k) (arg1 + 4096) k' = Some ((arg1 AND 0xfffff000) + 4096)
    \<and> areas k' = (case growing_stack k vs arg1 of None \<Rightarrow> areas k
        | Some a \<Rightarrow> (areas k)(a := (areas k a)\<lparr>vma_start := vma_start (areas k a) - 4096\<rparr>))
    \<and> procs k' = procs k"
proof -
  have map7: "(7 :: u64) AND 1 = 1" "(7 :: u64) < 4096" "(1 :: nat) \<le> 1" "unat (pt_index arg1) + 1 < 512"
    using assms(5) by simp_all
  obtain k1 where k1: "map_user_address (Suc depth) arg1 arg1 (4096 * int 1) (root_of k) 7 k = Some k1"
      "\<forall>i\<le>1. walk (root_of k) (arg1 + 4096 * of_nat i) k1 = Some ((arg1 AND 0xfffff000) + 4096 * of_nat i)"
    using bump_tables.map_user_fresh [OF assms(1-3) map7, of depth arg1] unfolding map_user_address_def by blast
  have m: "map_user_address (Suc depth) arg1 phys 4096 (root_of k) 7 k = Some k1"
    if "phys AND 0xfffff000 = arg1 AND 0xfffff000" for phys
    using k1(1) that by (simp add: map_user_address_def map_user_with_def)
  define k' where "k' = (case growing_stack k vs arg1 of None \<Rightarrow> k1
      | Some a \<Rightarrow> set_area a (\<lambda>v. v\<lparr>vma_start := vma_start v - 4096\<rparr>) k1)"
  have cow: "\<not> is_cow_enabled (p_page_table (pcb_at k (this_thread k))) (pml4t_index arg1) k"
    using assms(3) by (auto simp: is_cow_enabled_def)
  have "interrupt4 (Suc depth) arg1 k = Some k'"
    using cow assms(4) demand_page_maps [OF assms(6) m] unfolding interrupt4_def k'_def by (simp add: Let_def)
  moreover have "walk (root_of k) a k' = walk (root_of k) a k1" for a
    by (simp add: k'_def split: option.split)
  moreover have "walk (root_of k) arg1 k1 = Some (arg1 AND 0xfffff000)"
    "walk (root_of k) (arg1 + 4096) k1 = Some ((arg1 AND 0xfffff000) + 4096)"
    using k1(2) [rule_format, of 0] k1(2) [rule_format, of 1] by simp_all
  moreover have "kmem.more k1 = kmem.more k" by (rule more_map_user [OF k1(1)])
  then have "areas k1 = areas k" "procs k1 = procs k" by (rule more_kernel)+
  ultimately show ?thesis by (intro exI [of _ k']) (auto simp: k'_def split: option.split)
qed

theorem page_fault_maps_low_bits_witness:
  "\<exists>k'. interrupt4 1 0 demo_kernel = Some k' \<and> walk KERNBASE 0 k' = Some 0
     \<and> areas k' 0xffffffff80024000 = (areas demo_kernel 0xffffffff80024000)\<lparr>vma_start := 0x7ff000\<rparr>"
proof -
  let ?vs = "[0xffffffff80022000, 0xffffffff80023000, 0xffffffff80024000 :: u64]"
  have k: "root_of demo_kernel = 0xffffffff80000000" "this_thread demo_kernel = 0xffffffff80020000"
    by (simp_all add: demo_kernel_def KERNBASE_def blank_pcb_def)
  note left = demo_kernel_left3
  have i: "pml4t_index 0 = 0" "pt_index 0 = 0" by (simp_all add: pml4t_index_def pt_index_def)
  have rd: "rd 0xffffffff80000000 0 demo_kernel AND 1 = 0" by (simp add: rd_def demo_kernel_def demo_memory_def)
  have ch: "chain (\<lambda>a. vma_next (areas demo_kernel a))
      (list_of_vmas (mms demo_kernel (p_mm (pcb_at demo_kernel (this_thread demo_kernel))))) ?vs 0"
    by (simp add: demo_kernel_def)
  have "growing_stack demo_kernel ?vs 0 = Some 0xffffffff80024000"
    by (simp add: growing_stack_def demo_kernel_def OTHER_def STACK_def HEAP_def)
  moreover have "vma_start (areas demo_kernel 0xffffffff80024000) - 4096 = 0x7ff000" by (simp add: demo_kernel_def)
  ultimately show ?thesis
    using page_fault_maps_low_bits [OF left _ _ _ _ ch, of 0 0] k i rd by (simp add: KERNBASE_def) auto
qed


lemma ucast_down_add: "ucast (a + b :: u64) = (ucast a + ucast b :: u32)"
  using ucast_down_word_of_int [of "uint a + uint b"] by simp

lemma aligned_low_frame:
  assumes "page_aligned g" "(g :: u64) < 2 ^ 31"
  shows "g AND 0xfffff000 = g"
proof -
  have "(0xfffff000 :: u64) = PAGE_MASK AND mask 32" by (simp add: PAGE_MASK_def mask_eq_exp_minus_1)
  then have "g AND 0xfffff000 = take_bit 32 (g AND PAGE_MASK)" by (simp add: take_bit_eq_mask and.assoc)
  also have "\<dots> = g"
  proof -
    have "unat g < 2 ^ 32" using assms(2) by (simp add: word_less_nat_alt)
    then have "take_bit 32 g = g" by (simp add: word_unat_eq_iff unsigned_take_bit_eq take_bit_nat_eq_self)
    then show ?thesis using assms(1) by (simp add: page_aligned_def)
  qed
  finally show ?thesis .
qed

lemma page_below:
  assumes "page_aligned f" "4096 \<le> f" "(f :: u64) < 2 ^ 31"
  shows "page_aligned (f - 4096)" "f - 4096 < 2 ^ 31"
proof -
  have u: "unat (f - 4096) = unat f - 4096" using assms(2) by (simp add: unat_sub)
  show "page_aligned (f - 4096)" using assms(1) unfolding page_aligned_iff u by simp
  show "f - 4096 < 2 ^ 31" using assms(3) unfolding word_less_nat_alt u by simp
qed

text \<open>The stack of a process starts at \<open>USERBASE + f + 8 * 0x1000000000\<close>, where \<open>f\<close> is the frame that \<^verbatim>\<open>loadelf\<close>
  reserved for it.  When it grows by a page, the new page is mapped to the frame in front of \<open>f\<close>, which was
  not reserved for it, readable and writable for the process.\<close>

theorem stack_growth_maps_foreign_frame:
  assumes "bump_left U L 3 T k" and "root_of k \<in> T" and "rd (root_of k) (pml4t_index arg1) k AND 1 = 0"
    and "pml4t_index arg1 \<noteq> 511" and "unat (pt_index arg1) < 511"
    and "chain (\<lambda>a. vma_next (areas k a)) (list_of_vmas (mms k (p_mm (pcb_at k (this_thread k))))) vs 0"
    and "growing_stack k vs arg1 = Some a"
    and "vma_start (areas k a) = USERBASE + f + 8 * 0x1000000000" "page_aligned f" "4096 \<le> f" "f < 2 ^ 31"
    and "arg1 AND PAGE_MASK = vma_start (areas k a) - 4096"
  shows "\<exists>k'. interrupt4 (Suc depth) arg1 k = Some k' \<and> walk (root_of k) arg1 k' = Some (f - 4096)
    \<and> vma_start (areas k' a) = vma_start (areas k a) - 4096"
proof -
  have "arg1 AND 0xfffff000 = (arg1 AND PAGE_MASK) AND 0xfffff000"
    by (simp add: PAGE_MASK_def and.assoc)
  also have "\<dots> = (f - 4096) AND 0xfffff000"
  proof -
    have m: "(ucast (x - y) :: u32) = ucast x - ucast y" "(ucast (x + y) :: u32) = ucast x + ucast y" for x y :: u64
      by (rule ucast_down_sub) (rule ucast_down_add)
    have "(ucast (vma_start (areas k a) - 4096) :: u32) = ucast (f - 4096)"
      unfolding assms(8) m by (simp add: USERBASE_def)
    then show ?thesis unfolding assms(12) low_frame_bits by simp
  qed
  also have "\<dots> = f - 4096" by (rule aligned_low_frame [OF page_below [OF assms(9-11)]])
  finally have e: "arg1 AND 0xfffff000 = f - 4096" .
  from page_fault_maps_low_bits [OF assms(1-6), of depth] assms(7) e show ?thesis by auto
qed


text \<open>The process of \<^const>\<open>demo_kernel\<close> with its stack where \<^verbatim>\<open>loadelf\<close> puts it when its frame is 0x300000.\<close>

definition demo_stack :: kernel where
  "demo_stack = set_area 0xffffffff80024000 (\<lambda>v. v\<lparr>vma_start := USERBASE + 0x300000 + 8 * 0x1000000000\<rparr>) demo_kernel"

theorem stack_growth_maps_foreign_frame_witness:
  "\<exists>k'. interrupt4 1 0xFFFFCD4C002FFFF8 demo_stack = Some k' \<and> walk KERNBASE 0xFFFFCD4C002FFFF8 k' = Some 0x2ff000"
proof -
  let ?vs = "[0xffffffff80022000, 0xffffffff80023000, 0xffffffff80024000 :: u64]" and ?a = "0xffffffff80024000 :: u64"
  let ?arg = "0xFFFFCD4C002FFFF8 :: u64"
  have k: "root_of demo_stack = 0xffffffff80000000"
    by (simp add: demo_stack_def demo_kernel_def KERNBASE_def blank_pcb_def)
  have "kmem.truncate demo_stack = kmem.truncate demo_kernel" by (simp add: demo_stack_def)
  note left = demo_kernel_left3 [folded bump_left_truncate [OF this]]
  have i: "pml4t_index ?arg = 410" "pt_index ?arg = 255"
    by (simp_all add: pml4t_index_def pt_index_def drop_bit_eq_div)
  have rd: "rd 0xffffffff80000000 410 demo_stack AND 1 = 0"
    by (simp add: rd_def demo_stack_def set_area_def demo_kernel_def demo_memory_def)
  have ch: "chain (\<lambda>a. vma_next (areas demo_stack a))
      (list_of_vmas (mms demo_stack (p_mm (pcb_at demo_stack (this_thread demo_stack))))) ?vs 0"
    by (simp add: demo_stack_def demo_kernel_def)
  have st: "vma_start (areas demo_stack ?a) = USERBASE + 0x300000 + 8 * 0x1000000000" by (simp add: demo_stack_def)
  have gr: "growing_stack demo_stack ?vs ?arg = Some ?a"
    by (simp add: growing_stack_def demo_stack_def demo_kernel_def OTHER_def STACK_def HEAP_def USERBASE_def)
  have al: "page_aligned 0x300000" "?arg AND PAGE_MASK = vma_start (areas demo_stack ?a) - 4096"
    unfolding st by (simp_all add: page_aligned_def PAGE_MASK_def USERBASE_def)
  show ?thesis
    using stack_growth_maps_foreign_frame [OF left _ _ _ _ ch gr st al(1) _ _ al(2), of 0] k i rd
    by (simp add: KERNBASE_def) blast
qed

end
