(* ===== verification/Exec.thy ===== *)
theory Exec
  imports Process
begin

text \<open>
  Starting a program: loading an ELF file from the archive (\<^verbatim>\<open>loadelf\<close> of \<^verbatim>\<open>sys/tarfs.c\<close>), clearing the old
  address space and laying out the arguments on the user stack (\<^verbatim>\<open>do_execvpe\<close> of \<^verbatim>\<open>sys/process.c\<close>),
  and the first process (\<^verbatim>\<open>user_process\<close>).
\<close>

section \<open>ELF headers\<close>

text \<open>A little-endian number of \<open>n\<close> bytes in memory.\<close>

fun load_le :: "memory \<Rightarrow> u64 \<Rightarrow> nat \<Rightarrow> u64" where
  "load_le mem a 0 = 0"
| "load_le mem a (Suc n) = of_char (mem a) + 256 * load_le mem (a + 1) n"

record Elf64_Phdr =
  p_type :: u32
  p_flags :: u32
  p_offset :: u64
  p_vaddr :: u64
  p_filesz :: u64
  p_memsz :: u64

definition phdr_at :: "memory \<Rightarrow> u64 \<Rightarrow> Elf64_Phdr" where
  "phdr_at mem a = \<lparr>p_type = ucast (load_le mem a 4), p_flags = ucast (load_le mem (a + 4) 4),
     p_offset = load_le mem (a + 8) 8, p_vaddr = load_le mem (a + 16) 8,
     p_filesz = load_le mem (a + 32) 8, p_memsz = load_le mem (a + 40) 8\<rparr>"

definition e_entry :: "memory \<Rightarrow> u64 \<Rightarrow> u64" where
  "e_entry mem elf = load_le mem (elf + 24) 8"

definition e_phoff :: "memory \<Rightarrow> u64 \<Rightarrow> u64" where
  "e_phoff mem elf = load_le mem (elf + 32) 8"

definition e_phnum :: "memory \<Rightarrow> u64 \<Rightarrow> u64" where
  "e_phnum mem elf = load_le mem (elf + 56) 2"

section \<open>Loading\<close>

text \<open>\<^verbatim>\<open>kmemcpychar\<close> from the archive into the user memory.\<close>

definition copy_in :: "memory \<Rightarrow> u64 \<Rightarrow> u64 \<Rightarrow> u64 \<Rightarrow> memory \<Rightarrow> memory" where
  "copy_in mem src dst n um = (\<lambda>a. if a - dst < n then mem (src + (a - dst)) else um a)"

text \<open>The loop that copies a segment page by page.  The source is \<^verbatim>\<open>elf + phdr->p_offset + i\<close>, with \<^verbatim>\<open>elf\<close> a pointer to
  headers of 64 bytes.  The result has the final value of \<open>i\<close>, which is also the counter of the outer loop: an \<^verbatim>\<open>int\<close>, which
  is extended with its sign where it meets 64 bits.\<close>

partial_function (option) segment_loop ::
  "memory \<Rightarrow> u64 \<Rightarrow> Elf64_Phdr \<Rightarrow> u64 \<Rightarrow> u32 \<Rightarrow> memory \<Rightarrow> (u32 \<times> memory) option" where
  "segment_loop mem elf ph addr i um =
     (if addr < p_vaddr ph + p_memsz ph
      then let sizetocopy = (if 4096 < p_memsz ph - scast i then 4096 else p_memsz ph - scast i)
           in segment_loop mem elf ph (addr + 4096) (i + 4096)
                (copy_in mem (elf + 64 * (p_offset ph + scast i)) addr sizetocopy um)
      else Some (i, um))"

declare segment_loop.simps [simp del]

text \<open>The memory area of a segment and its file part.\<close>

definition segment_area :: "allocator \<Rightarrow> u64 \<Rightarrow> Elf64_Phdr \<Rightarrow> u64 action" where
  "segment_area alloc elf ph k =
     do { (vma, k) \<leftarrow> alloc VMA_SIZE k;
          let k = set_area vma (\<lambda>v. v\<lparr>vma_start := p_vaddr ph, vma_end := p_vaddr ph + p_memsz ph,
                    vma_flags := p_flags ph, vma_type := OTHER\<rparr>) k;
          if p_flags ph = 5 \<or> p_flags ph = 6
          then do { (file, k) \<leftarrow> alloc FILE_SIZE k;
                    let k = set_area vma (\<lambda>v. v\<lparr>vma_file := file\<rparr>) k;
                    Some (vma, set_vfile file (\<lambda>f. f\<lparr>file_start := elf, vm_pgoff := p_offset ph,
                            vm_sz := p_filesz ph,
                            bss_size := (if p_flags ph = 5 then 0 else p_memsz ph - p_filesz ph)\<rparr>) k) }
          else Some (vma, k) }"

text \<open>The body of the loop over the program headers for a loadable segment: the new \<open>i\<close> and \<open>tempvma\<close>.\<close>

definition load_segment :: "allocator \<Rightarrow> nat \<Rightarrow> memory \<Rightarrow> u64 \<Rightarrow> u64 \<Rightarrow> Elf64_Phdr \<Rightarrow> u64 \<Rightarrow> (u32 \<times> u64) action" where
  "load_segment alloc depth mem elf p1 ph tempvma k =
     do { (vma, k) \<leftarrow> segment_area alloc elf ph k;
          let (phy, k) = bump_physical (p_memsz ph) k;
          k \<leftarrow> map_user_address depth (p_vaddr ph) phy (to_int (p_memsz ph))
                 (p_page_table (pcb_at k p1) + KERNBASE) 7 k;
          (i, um) \<leftarrow> segment_loop mem elf ph (p_vaddr ph) 0 (umem k);
          let k = k\<lparr>umem := um\<rparr>;
          let mm = p_mm (pcb_at k p1);
          let k = set_area vma (\<lambda>v. v\<lparr>vma_next := 0\<rparr>) k;
          let k = (if tempvma = 0
                   then set_area vma (\<lambda>v. v\<lparr>vma_prev := 0\<rparr>) (set_mm mm (\<lambda>m. m\<lparr>list_of_vmas := vma\<rparr>) k)
                   else set_area vma (\<lambda>v. v\<lparr>vma_prev := tempvma\<rparr>) k);
          Some ((i, vma), count_area mm k) }"

partial_function (option) load_segments ::
  "allocator \<Rightarrow> nat \<Rightarrow> memory \<Rightarrow> u64 \<Rightarrow> u64 \<Rightarrow> u64 \<Rightarrow> u32 \<Rightarrow> u64 \<Rightarrow> kernel \<Rightarrow> kernel option" where
  "load_segments alloc depth mem elf p1 phdr i tempvma k =
     (if uint (e_phnum mem elf) \<le> sint i then Some k
      else do { ((i, tempvma), k) \<leftarrow>
                  (if p_type (phdr_at mem phdr) = 1
                   then load_segment alloc depth mem elf p1 (phdr_at mem phdr) tempvma k
                   else Some ((i, tempvma), k));
                load_segments alloc depth mem elf p1 (phdr + 56) (i + 1) tempvma k })"

declare load_segments.simps [simp del]

text \<open>Storing 64-bit values in user memory.\<close>

definition store64 :: "u64 \<Rightarrow> u64 \<Rightarrow> memory \<Rightarrow> memory" where
  "store64 a v um = (\<lambda>x. if x - a < 8 then char_of (uint (drop_bit (8 * unat (x - a)) v)) else um x)"

text \<open>\<open>start\<close> is the address of the archive, \<open>completion\<close> the value of \<^verbatim>\<open>on_completion_pointer\<close>.\<close>

definition loadelf_with :: "allocator \<Rightarrow> nat \<Rightarrow> memory \<Rightarrow> u64 \<Rightarrow> u64 \<Rightarrow> string \<Rightarrow> u64 \<Rightarrow> kernel \<Rightarrow> kernel option" where
  "loadelf_with alloc depth mem start completion filename p1 k =
     do { (p1, k) \<leftarrow> (if p1 = 0 then alloc PCB_SIZE k else Some (p1, k));
          header \<leftarrow> findfile mem start filename;
          let elf = header + 512;
          (mm, k) \<leftarrow> alloc MM_SIZE k;
          let k = set_pcb p1 (\<lambda>p. p\<lparr>p_mm := mm, p_gotoaddr := e_entry mem elf\<rparr>) k;
          let k = set_mm mm (\<lambda>m. m\<lparr>mm_freelist := 0\<rparr>) k;
          k \<leftarrow> load_segments alloc depth mem elf p1 (elf + e_phoff mem elf) 0 0 k;
          (_, k) \<leftarrow> createheap alloc 4096 p1 k;
          let (st, k) = bump_user 4096 k;
          let stack = st + 8 * 0x1000000000;
          (vma, k) \<leftarrow> alloc VMA_SIZE k;
          let k = set_area vma (\<lambda>v. v\<lparr>vma_type := STACK, vma_file := 0, vma_start := stack, vma_end := stack + 4095\<rparr>) k;
          (_, k) \<leftarrow> append_area (p_mm (pcb_at k p1)) vma k;
          let k = count_area (p_mm (pcb_at k p1)) k;
          let k = set_pcb p1 (\<lambda>p. p\<lparr>p_ursp := stack + 4087\<rparr>) k;
          Some (k\<lparr>umem := store64 (stack + 4087) completion (umem k)\<rparr>) }"

definition loadelf :: "nat \<Rightarrow> memory \<Rightarrow> u64 \<Rightarrow> u64 \<Rightarrow> string \<Rightarrow> u64 \<Rightarrow> kernel \<Rightarrow> kernel option" where
  "loadelf depth = loadelf_with (bump depth) depth"

section \<open>Clearing the old address space\<close>

definition kfree_here :: "u64 \<Rightarrow> kernel \<Rightarrow> kernel" where
  "kfree_here p k = kfree (p_page_table (pcb_at k (this_thread k))) p k"

partial_function (option) free_areas :: "u64 \<Rightarrow> kernel \<Rightarrow> kernel option" where
  "free_areas tempvma k =
     (if tempvma = 0 then Some k
      else let k = (if vma_type (areas k tempvma) = OTHER then kfree_here (vma_file (areas k tempvma)) k else k)
           in free_areas (vma_next (areas k tempvma)) (kfree_here tempvma k))"

declare free_areas.simps [simp del]

definition clear_vmas :: "kernel \<Rightarrow> kernel option" where
  "clear_vmas k =
     do { let mm = p_mm (pcb_at k (this_thread k));
          k \<leftarrow> free_areas (list_of_vmas (mms k mm)) k;
          let k = kfree_here (list_of_vmas (mms k mm)) k;
          Some (kfree_here mm k) }"

text \<open>\<^verbatim>\<open>clear_uptentries\<close>: each level clears its entries with the user bit and goes on below them.\<close>

definition clear_slot :: "(u64 \<Rightarrow> 'a kmem_scheme \<Rightarrow> 'a kmem_scheme) \<Rightarrow> u64 \<Rightarrow> u64 \<Rightarrow> 'a kmem_scheme \<Rightarrow> 'a kmem_scheme" where
  "clear_slot below tbl i s =
     (let e = rd tbl i s in if e AND 4 \<noteq> 0 then below (table_of e) (wr tbl i 0 s) else s)"

definition clear_pt :: "u64 \<Rightarrow> 'a kmem_scheme \<Rightarrow> 'a kmem_scheme" where
  "clear_pt tbl = for_to 512 (clear_slot (\<lambda>_ s. s) tbl)"

definition clear_pdt :: "u64 \<Rightarrow> 'a kmem_scheme \<Rightarrow> 'a kmem_scheme" where
  "clear_pdt tbl = for_to 512 (clear_slot clear_pt tbl)"

definition clear_pdpt :: "u64 \<Rightarrow> 'a kmem_scheme \<Rightarrow> 'a kmem_scheme" where
  "clear_pdpt tbl = for_to 512 (clear_slot clear_pdt tbl)"

definition clear_uptentries :: "u64 \<Rightarrow> 'a kmem_scheme \<Rightarrow> 'a kmem_scheme" where
  "clear_uptentries root =
     for_to 512 (\<lambda>i s. if i = 510 \<or> i = 511 then s else clear_slot clear_pdpt root i s)"

section \<open>The arguments\<close>

text \<open>Copying a vector of strings into rows of 40 characters, and the empty string behind the last.\<close>

fun copy_strings :: "string list \<Rightarrow> nat \<Rightarrow> string list \<Rightarrow> (nat \<times> string list) option" where
  "copy_strings [] i rows =
     do { row \<leftarrow> aget rows i; row \<leftarrow> kstrcopy row [NUL]; rows \<leftarrow> aput rows i row; Some (i, rows) }"
| "copy_strings (a # as) i rows =
     do { row \<leftarrow> aget rows i; row \<leftarrow> kstrcopy row a; rows \<leftarrow> aput rows i row; copy_strings as (Suc i) rows }"

definition store_string :: "u64 \<Rightarrow> string \<Rightarrow> memory \<Rightarrow> memory" where
  "store_string a s um =
     (let t = cstr s @ [NUL] in (\<lambda>x. if x - a < of_nat (length t) then t ! unat (x - a) else um x))"

text \<open>\<^verbatim>\<open>for (i = n - 1; i >= 0; i--) { stack = stack - kstrlength(row[i]) - 1; kstrcopy(stack, row[i]); }\<close>\<close>

fun push_strings :: "string list \<Rightarrow> nat \<Rightarrow> u64 \<times> memory \<Rightarrow> (u64 \<times> memory) option" where
  "push_strings rows 0 st = Some st"
| "push_strings rows (Suc n) (stack, um) =
     do { row \<leftarrow> aget rows n;
          len \<leftarrow> kstrlength row;
          let stack = stack - of_nat len - 1;
          push_strings rows n (stack, store_string stack row um) }"

text \<open>The loop that stores the addresses of the strings below \<open>sp\<close>, with \<open>i\<close> of \<open>n\<close> strings left.\<close>

fun put_pointers :: "string list \<Rightarrow> nat \<Rightarrow> nat \<Rightarrow> u64 \<Rightarrow> u64 \<times> memory \<Rightarrow> (u64 \<times> memory) option" where
  "put_pointers rows n 0 sp st = Some st"
| "put_pointers rows n (Suc i) sp (temp, um) =
     do { row \<leftarrow> aget rows i;
          len \<leftarrow> kstrlength row;
          let temp = temp - of_nat len - 1;
          put_pointers rows n i sp (temp, store64 (sp - 8 * of_nat (n - Suc i + 1)) temp um) }"

text \<open>The layout of the stack from \<open>base\<close> down: the final stack pointer and memory.\<close>

definition stack_layout :: "string list \<Rightarrow> nat \<Rightarrow> string list \<Rightarrow> nat \<Rightarrow> u64 \<Rightarrow> memory \<Rightarrow> (u64 \<times> memory) option" where
  "stack_layout args argc envs envc base um =
     do { (stack, um) \<leftarrow> push_strings envs envc (base, um);
          let argtemp = stack;
          (stack, um) \<leftarrow> push_strings args argc (stack, um);
          let ursp = stack - 8;
          let um = store64 ursp 0 um;
          (_, um) \<leftarrow> put_pointers envs envc envc ursp (base, um);
          let ursp = ursp - 8 * of_nat envc;
          let envtemp = ursp;
          let ursp = ursp - 8;
          let um = store64 ursp 0 um;
          (_, um) \<leftarrow> put_pointers args argc argc ursp (argtemp, um);
          let ursp = ursp - 8 * of_nat argc;
          let um = store64 (ursp - 8) envtemp um;
          let um = store64 (ursp - 16) ursp um;
          let um = store64 (ursp - 24) (of_nat argc) um;
          Some (ursp - 24, um) }"

text \<open>\<open>filename\<close>, \<open>args\<close> and \<open>envs\<close> are the local arrays on entry.\<close>

definition do_execvpe ::
  "nat \<Rightarrow> memory \<Rightarrow> u64 \<Rightarrow> u64 \<Rightarrow> string \<Rightarrow> string list \<Rightarrow> string list \<Rightarrow> string \<Rightarrow> string list \<Rightarrow> string list
     \<Rightarrow> kernel \<Rightarrow> kernel option" where
  "do_execvpe depth mem start completion filename args envs file argv envp k =
     do { filename \<leftarrow> kstrcopy filename file;
          (argc, args) \<leftarrow> copy_strings argv 0 args;
          (envc, envs) \<leftarrow> copy_strings envp 0 envs;
          k \<leftarrow> clear_vmas k;
          let k = clear_uptentries (p_page_table (pcb_at k (this_thread k)) + KERNBASE) k;
          k \<leftarrow> loadelf depth mem start completion filename (this_thread k) k;
          let me = this_thread k;
          (ursp, um) \<leftarrow> stack_layout args argc envs envc (p_ursp (pcb_at k me)) (umem k);
          let k = set_pcb me (\<lambda>p. p\<lparr>p_ursp := ursp\<rparr>) (k\<lparr>umem := um\<rparr>);
          kstack \<leftarrow> for_n 0 50 (\<lambda>i st. aput st i 0) (p_kstack (pcb_at k me));
          Some (set_pcb me (\<lambda>p. p\<lparr>p_kstack := kstack\<rparr>) k) }"

definition sys_execvpe ::
  "nat \<Rightarrow> memory \<Rightarrow> u64 \<Rightarrow> u64 \<Rightarrow> string \<Rightarrow> string list \<Rightarrow> string list \<Rightarrow> string \<Rightarrow> string list \<Rightarrow> string list
     \<Rightarrow> kernel \<Rightarrow> kernel option" where
  "sys_execvpe depth mem start completion filename args envs file argv envp k =
     do { let me = this_thread k;
          nm \<leftarrow> kstrcopy (p_name (pcb_at k me)) file;
          do_execvpe depth mem start completion filename args envs file argv envp
            (set_pcb me (\<lambda>p. p\<lparr>p_name := nm\<rparr>) k) }"

section \<open>The first process\<close>

definition MAXSLICE :: int where
  "MAXSLICE = 8"

definition user_process :: "nat \<Rightarrow> memory \<Rightarrow> u64 \<Rightarrow> u64 \<Rightarrow> string \<Rightarrow> string \<Rightarrow> kernel \<Rightarrow> kernel option" where
  "user_process depth mem start completion buf temp k =
     do { let k = k\<lparr>procs := (procs k)\<lparr>processcount := 0\<rparr>\<rparr>;
          process \<leftarrow> find_node (\<lambda>a. state_of (procs k) a = RUNNING) (procs k) (threadlist (procs k));
          if process = 0 then Some k
          else do { let me = this_thread k;
                    cwd \<leftarrow> kstrcopy (p_cwd (pcb_at k me)) (''/rootfs/bin/'' @ [NUL]);
                    let k = set_pcb me (\<lambda>p. p\<lparr>p_cwd := cwd\<rparr>) k;
                    (table, k) \<leftarrow> map_user_pml4 depth k;
                    let k = set_pcb process (\<lambda>p. p\<lparr>p_page_table := table - KERNBASE\<rparr>) k;
                    k \<leftarrow> loadelf depth mem start completion (''bin/init'' @ [NUL]) process k;
                    nm \<leftarrow> kstrcopy (p_name (pcb_at k me)) (''/rootfs/bin/init'' @ [NUL]);
                    let k = set_pcb me (\<lambda>p. p\<lparr>p_name := nm\<rparr>) k;
                    let k = k\<lparr>procs := (procs k)\<lparr>processcount := processcount (procs k) + 1\<rparr>\<rparr>;
                    let k = set_pcb process (\<lambda>p. p\<lparr>p_pid := processcount (procs k), p_ppid := 0,
                              p_totalslice := MAXSLICE\<rparr>) k;
                    add_to_proc_list (bump depth) buf temp process k } }"

section \<open>The image of the arguments\<close>

definition store_bytes :: "u64 \<Rightarrow> string \<Rightarrow> memory \<Rightarrow> memory" where
  "store_bytes a bs um = (\<lambda>x. if unat (x - a) < length bs then bs ! unat (x - a) else um x)"

definition word_bytes :: "u64 \<Rightarrow> string" where
  "word_bytes v = map (\<lambda>i. char_of (uint (drop_bit (8 * i) v))) [0..<8]"

definition words :: "u64 list \<Rightarrow> string" where
  "words vs = concat (map word_bytes vs)"

definition strings :: "string list \<Rightarrow> string" where
  "strings rows = concat (map (\<lambda>r. cstr r @ [NUL]) rows)"

lemma length_word_bytes [simp]: "length (word_bytes v) = 8"
  by (simp add: word_bytes_def)

lemma length_words [simp]: "length (words vs) = 8 * length vs"
  by (induction vs) (simp_all add: words_def)

lemma words_simps [simp]: "words [] = []" "words (v # vs) = word_bytes v @ words vs" "words (vs @ ws) = words vs @ words ws"
  by (simp_all add: words_def)

lemma strings_simps [simp]:
  "strings [] = []" "strings (r # rs) = cstr r @ NUL # strings rs" "strings (rs @ rs') = strings rs @ strings rs'"
  by (simp_all add: strings_def)

lemma store_bytes_Nil [simp]: "store_bytes a [] um = um"
  by (simp add: store_bytes_def)

lemma store64_bytes: "store64 a v um = store_bytes a (word_bytes v) um"
proof
  fix x
  have "x - a < 8 \<longleftrightarrow> unat (x - a) < 8" by (simp add: word_less_nat_alt)
  then show "store64 a v um x = store_bytes a (word_bytes v) um x"
    by (simp add: store64_def store_bytes_def word_bytes_def)
qed

lemma store_string_bytes:
  assumes "length (cstr s) < 2 ^ 63"
  shows "store_string a s um = store_bytes a (cstr s @ [NUL]) um"
proof
  fix x
  have "unat (of_nat (length (cstr s @ [NUL])) :: u64) = length (cstr s @ [NUL])"
    by (rule unat_of_nat64) (use assms in simp)
  then have "x - a < of_nat (length (cstr s @ [NUL])) \<longleftrightarrow> unat (x - a) < length (cstr s @ [NUL])"
    by (simp add: word_less_nat_alt)
  then show "store_string a s um x = store_bytes a (cstr s @ [NUL]) um x"
    by (simp add: store_string_def store_bytes_def Let_def)
qed

text \<open>What is stored in front of an image extends it.\<close>

lemma store_bytes_in_front:
  assumes "length bs + length img < 2 ^ 64"
  shows "store_bytes (a - of_nat (length bs)) bs (store_bytes a img um) = store_bytes (a - of_nat (length bs)) (bs @ img) um"
proof
  fix x
  let ?b = "of_nat (length bs) :: u64" and ?d = "x - (a - of_nat (length bs))"
  have l: "unat ?b = length bs" by (rule unat_of_nat64) (use assms in simp)
  show "store_bytes (a - ?b) bs (store_bytes a img um) x = store_bytes (a - ?b) (bs @ img) um x"
  proof (cases "unat ?d < length bs")
    case True
    then show ?thesis by (simp add: store_bytes_def nth_append)
  next
    case False
    then have "?b \<le> ?d" using l by (simp add: word_le_nat_alt)
    then have "unat (?d - ?b) = unat ?d - unat ?b" by (rule unat_sub)
    moreover have "?d - ?b = x - a" by simp
    ultimately have "unat (x - a) = unat ?d - length bs" by (simp only: l)
    then show ?thesis using False by (auto simp: store_bytes_def nth_append)
  qed
qed

lemma push_strings_image:
  assumes "n \<le> length rows" "\<And>r. r \<in> set rows \<Longrightarrow> terminated r" "length (strings (take n rows)) + length img < 2 ^ 63"
  shows "push_strings rows n (a, store_bytes a img um) =
    Some (a - of_nat (length (strings (take n rows))),
          store_bytes (a - of_nat (length (strings (take n rows)))) (strings (take n rows) @ img) um)"
  using assms
proof (induction n arbitrary: a img)
  case (Suc n)
  let ?r = "rows ! n" and ?l = "of_nat (length (cstr (rows ! n))) :: u64"
  have r: "aget rows n = Some ?r" "terminated ?r" "take (Suc n) rows = take n rows @ [?r]"
    using Suc.prems by (simp_all add: take_Suc_conv_app_nth)
  have len: "length (strings (take n rows)) + (length (cstr ?r) + 1 + length img) < 2 ^ 63" using Suc.prems(3) r(3) by simp
  have st: "store_string (a - ?l - 1) ?r (store_bytes a img um)
      = store_bytes (a - ?l - 1) ((cstr ?r @ [NUL]) @ img) um"
    using store_string_bytes [of ?r] store_bytes_in_front [of "cstr ?r @ [NUL]" img a um] len by (simp add: algebra_simps)
  have "push_strings rows (Suc n) (a, store_bytes a img um)
      = push_strings rows n (a - ?l - 1, store_bytes (a - ?l - 1) ((cstr ?r @ [NUL]) @ img) um)"
    using r st by (simp add: Let_def)
  also have "\<dots> = Some (a - ?l - 1 - of_nat (length (strings (take n rows))),
      store_bytes (a - ?l - 1 - of_nat (length (strings (take n rows)))) (strings (take n rows) @ (cstr ?r @ [NUL]) @ img) um)"
    by (rule Suc.IH) (use Suc.prems len in auto)
  finally show ?case by (simp add: r(3) algebra_simps)
qed simp

text \<open>The addresses of strings that lie one behind the other from \<open>a\<close> on.\<close>

fun addresses :: "u64 \<Rightarrow> string list \<Rightarrow> u64 list" where
  "addresses a [] = []"
| "addresses a (r # rs) = a # addresses (a + of_nat (length (cstr r)) + 1) rs"

lemma length_addresses [simp]: "length (addresses a rs) = length rs"
  by (induction rs arbitrary: a) auto

lemma addresses_snoc: "addresses a (rs @ [r]) = addresses a rs @ [a + of_nat (length (strings rs))]"
  by (induction rs arbitrary: a) (simp_all add: algebra_simps)

lemma put_pointers_image:
  assumes "i \<le> n" "n \<le> length rows" "\<And>r. r \<in> set rows \<Longrightarrow> terminated r" "8 * n + length img < 2 ^ 64"
    and "length ps = n - i"
  shows "put_pointers rows n i sp (temp, store_bytes (sp - 8 * of_nat (n - i)) (words ps @ img) um) =
    Some (temp - of_nat (length (strings (take i rows))),
      store_bytes (sp - 8 * of_nat n) (words (addresses (temp - of_nat (length (strings (take i rows)))) (take i rows) @ ps) @ img) um)"
  using assms
proof (induction i arbitrary: temp ps)
  case (Suc i)
  let ?r = "rows ! i" and ?l = "of_nat (length (cstr (rows ! i))) :: u64"
  have r: "aget rows i = Some ?r" "terminated ?r" "take (Suc i) rows = take i rows @ [?r]"
    using Suc.prems by (simp_all add: take_Suc_conv_app_nth)
  have n: "n - i = Suc (n - Suc i)" using Suc.prems(1) by simp
  let ?t = "temp - ?l - 1"
  have e: "sp - 8 * of_nat (n - Suc i + 1) = sp - 8 * of_nat (n - Suc i) - 8" "(8 :: u64) = of_nat (length (word_bytes ?t))"
    by (simp_all add: algebra_simps)
  have "store64 (sp - 8 * of_nat (n - Suc i + 1)) ?t (store_bytes (sp - 8 * of_nat (n - Suc i)) (words ps @ img) um)
      = store_bytes (sp - 8 * of_nat (n - i)) (words (?t # ps) @ img) um"
    unfolding store64_bytes e(1) n
    using store_bytes_in_front [of "word_bytes ?t" "words ps @ img" "sp - 8 * of_nat (n - Suc i)" um] Suc.prems
    by (simp add: algebra_simps)
  then have "put_pointers rows n (Suc i) sp (temp, store_bytes (sp - 8 * of_nat (n - Suc i)) (words ps @ img) um)
      = put_pointers rows n i sp (?t, store_bytes (sp - 8 * of_nat (n - i)) (words (?t # ps) @ img) um)"
    using r by (simp add: Let_def)
  also have "\<dots> = Some (?t - of_nat (length (strings (take i rows))),
      store_bytes (sp - 8 * of_nat n)
        (words (addresses (?t - of_nat (length (strings (take i rows)))) (take i rows) @ (?t # ps)) @ img) um)"
    by (rule Suc.IH) (use Suc.prems n in auto)
  finally show ?case using addresses_snoc [of _ "take i rows" ?r] by (simp add: r(3) algebra_simps)
qed simp


text \<open>The image for \<open>args\<close> and \<open>envs\<close> below \<open>base\<close>: the numbers and addresses, and the strings.\<close>

definition args_at :: "string list \<Rightarrow> string list \<Rightarrow> u64 \<Rightarrow> u64" where
  "args_at args envs base = base - of_nat (length (strings envs)) - of_nat (length (strings args))"

definition layout_pointer :: "string list \<Rightarrow> string list \<Rightarrow> u64 \<Rightarrow> u64" where
  "layout_pointer args envs base = args_at args envs base - 8 * of_nat (length args + length envs + 5)"

definition layout_words :: "string list \<Rightarrow> string list \<Rightarrow> u64 \<Rightarrow> u64 list" where
  "layout_words args envs base =
     (let sp = layout_pointer args envs base
      in [of_nat (length args), sp + 24, sp + 24 + 8 * of_nat (length args + 1)]
         @ addresses (args_at args envs base) args @ [0]
         @ addresses (base - of_nat (length (strings envs))) envs @ [0])"

lemma stack_layout_image:
  assumes "argc \<le> length args" "envc \<le> length envs" "\<And>r. r \<in> set args \<union> set envs \<Longrightarrow> terminated r"
    and "length (strings (take argc args)) + length (strings (take envc envs)) + 8 * (argc + envc + 5) < 2 ^ 63"
  shows "stack_layout args argc envs envc base um =
    (let as = take argc args; es = take envc envs; sp = layout_pointer as es base
     in Some (sp, store_bytes sp (words (layout_words as es base) @ strings as @ strings es) um))"
proof -
  let ?as = "take argc args" and ?es = "take envc envs"
  let ?E = "strings ?es" and ?A = "strings ?as"
  define s1 where "s1 = base - of_nat (length ?E)"
  define s0 where "s0 = s1 - of_nat (length ?A)"
  have l: "length ?as = argc" "length ?es = envc" using assms(1,2) by simp_all
  note m = min_absorb2 [OF assms(1)] min_absorb2 [OF assms(2)]
  have 1: "push_strings envs envc (base, um) = Some (s1, store_bytes s1 ?E um)"
    using push_strings_image [of envc envs "[]" base um] assms by (simp add: s1_def)
  have 2: "push_strings args argc (s1, store_bytes s1 ?E um) = Some (s0, store_bytes s0 (?A @ ?E) um)"
    using push_strings_image [of argc args ?E s1 um] assms by (simp add: s0_def)
  have front: "store64 (a - 8) v (store_bytes a img um) = store_bytes (a - 8) (word_bytes v @ img) um"
    if "8 + length img < 2 ^ 64" for a v img
    using store_bytes_in_front [of "word_bytes v" img a um] that by (simp add: store64_bytes)
  let ?I1 = "word_bytes 0 @ ?A @ ?E"
  have 3: "store64 (s0 - 8) 0 (store_bytes s0 (?A @ ?E) um) = store_bytes (s0 - 8) ?I1 um"
    by (rule front) (use assms(4) in simp)
  let ?I2 = "words (addresses s1 ?es) @ ?I1"
  have 4: "put_pointers envs envc envc (s0 - 8) (base, store_bytes (s0 - 8) ?I1 um) =
      Some (s1, store_bytes (s0 - 8 - 8 * of_nat envc) ?I2 um)"
    using put_pointers_image [of envc envc envs ?I1 "[]" "s0 - 8" base um] assms by (simp add: s1_def)
  let ?e = "s0 - 8 - 8 * of_nat envc"
  have 5: "store64 (?e - 8) 0 (store_bytes ?e ?I2 um) = store_bytes (?e - 8) (word_bytes 0 @ ?I2) um"
    by (rule front) (use assms(4) l in simp)
  let ?I3 = "words (addresses s0 ?as) @ word_bytes 0 @ ?I2"
  let ?v = "?e - 8 - 8 * of_nat argc"
  have 6: "put_pointers args argc argc (?e - 8) (s1, store_bytes (?e - 8) (word_bytes 0 @ ?I2) um) =
      Some (s0, store_bytes ?v ?I3 um)"
    using put_pointers_image [of argc argc args "word_bytes 0 @ ?I2" "[]" "?e - 8" s1 um] assms l by (simp add: s0_def)
  have 7: "store64 (?v - 8) ?e (store_bytes ?v ?I3 um) = store_bytes (?v - 8) (word_bytes ?e @ ?I3) um"
    by (rule front) (use assms(4) l in simp)
  have 8: "store64 (?v - 8 - 8) ?v (store_bytes (?v - 8) (word_bytes ?e @ ?I3) um)
      = store_bytes (?v - 8 - 8) (word_bytes ?v @ word_bytes ?e @ ?I3) um"
    by (rule front) (use assms(4) l in simp)
  have 9: "store64 (?v - 8 - 8 - 8) (of_nat argc) (store_bytes (?v - 8 - 8) (word_bytes ?v @ word_bytes ?e @ ?I3) um)
      = store_bytes (?v - 8 - 8 - 8) (word_bytes (of_nat argc) @ word_bytes ?v @ word_bytes ?e @ ?I3) um"
    by (rule front) (use assms(4) l in simp)
  have n: "?v - 16 = ?v - 8 - 8" "?v - 24 = ?v - 8 - 8 - 8" by simp_all
  have sp: "layout_pointer ?as ?es base = ?v - 24"
    by (simp add: layout_pointer_def args_at_def s0_def s1_def m algebra_simps)
  have w: "words (layout_words ?as ?es base) @ ?A @ ?E = word_bytes (of_nat argc) @ word_bytes ?v @ word_bytes ?e @ ?I3"
    by (simp add: layout_words_def Let_def sp args_at_def m) (simp add: s0_def s1_def algebra_simps)
  have "stack_layout args argc envs envc base um
      = Some (?v - 24, store_bytes (?v - 24) (words (layout_words ?as ?es base) @ ?A @ ?E) um)"
    unfolding stack_layout_def w n
    by (simp only: 1 2 3 4 5 6 7 8 9 n Let_def bind.bind_lunit prod.case)
  then show ?thesis unfolding sp Let_def .
qed


definition text_at :: "memory \<Rightarrow> u64 \<Rightarrow> string \<Rightarrow> bool" where
  "text_at um a s \<longleftrightarrow> (\<forall>j<length s. um (a + of_nat j) = s ! j) \<and> um (a + of_nat (length s)) = NUL"

lemma store_bytes_at:
  assumes "j < length bs" "length bs < 2 ^ 64"
  shows "store_bytes a bs um (a + of_nat j) = bs ! j"
proof -
  have "unat (of_nat j :: u64) = j" by (rule unat_of_nat64) (use assms in simp)
  then show ?thesis using assms(1) by (simp add: store_bytes_def)
qed

lemma addresses_nth: "i < length rs \<Longrightarrow> addresses a rs ! i = a + of_nat (length (strings (take i rs)))"
proof (induction rs arbitrary: a i)
  case (Cons r rs)
  then show ?case by (cases i) (simp_all add: algebra_simps)
qed simp

lemma strings_split: "i < length rs \<Longrightarrow> strings rs = strings (take i rs) @ cstr (rs ! i) @ NUL # strings (drop (Suc i) rs)"
  by (subst id_take_nth_drop [of i rs]) simp_all

lemma text_in_image:
  assumes "i < length rs" "length (pre @ strings rs @ post) < 2 ^ 64"
  shows "text_at (store_bytes a (pre @ strings rs @ post) um) (addresses (a + of_nat (length pre)) rs ! i) (cstr (rs ! i))"
proof -
  let ?o = "length pre + length (strings (take i rs))" and ?img = "pre @ strings rs @ post"
  have n: "?img ! (?o + j) = (cstr (rs ! i) @ [NUL]) ! j" "?o + j < length ?img" if "j \<le> length (cstr (rs ! i))" for j
    using that strings_split [OF assms(1)] by (auto simp: nth_append)
  have "store_bytes a ?img um (addresses (a + of_nat (length pre)) rs ! i + of_nat j) = (cstr (rs ! i) @ [NUL]) ! j"
    if "j \<le> length (cstr (rs ! i))" for j
    using store_bytes_at [of "?o + j" ?img a um] n [OF that] assms(2) addresses_nth [OF assms(1)]
    by (simp add: algebra_simps)
  then show ?thesis by (simp add: text_at_def nth_append)
qed


text \<open>The strings of the image that \<open>stack_layout\<close> builds.\<close>

lemma layout_texts:
  assumes "sp = layout_pointer as es base" "um' = store_bytes sp (words (layout_words as es base) @ strings as @ strings es) um"
    and "length (strings as) + length (strings es) + 8 * (length as + length es + 5) < 2 ^ 63"
  shows "i < length as \<Longrightarrow> text_at um' (addresses (args_at as es base) as ! i) (cstr (as ! i))"
    and "i < length es \<Longrightarrow> text_at um' (addresses (base - of_nat (length (strings es))) es ! i) (cstr (es ! i))"
proof -
  let ?W = "words (layout_words as es base)"
  have len: "length ?W = 8 * (length as + length es + 5)" by (simp add: layout_words_def Let_def)
  have sz: "length (?W @ strings as @ strings es) < 2 ^ 64" using assms(3) len by simp
  have a: "sp + of_nat (length ?W) = args_at as es base"
    unfolding len assms(1) layout_pointer_def by (simp add: algebra_simps)
  have e: "sp + of_nat (length (?W @ strings as)) = base - of_nat (length (strings es))"
  proof -
    have "sp + of_nat (length (?W @ strings as)) = sp + of_nat (length ?W) + of_nat (length (strings as))"
      by (simp only: length_append of_nat_add add.assoc)
    then show ?thesis unfolding a by (simp add: args_at_def)
  qed
  show "text_at um' (addresses (args_at as es base) as ! i) (cstr (as ! i))" if "i < length as"
    using text_in_image [of i as ?W "strings es" sp um] sz that unfolding a assms(2) by simp
  show "text_at um' (addresses (base - of_nat (length (strings es))) es ! i) (cstr (es ! i))" if "i < length es"
    using text_in_image [of i es "?W @ strings as" "[]" sp um] sz that unfolding e assms(2) by simp
qed

text \<open>C12: The stack of a program that \<^verbatim>\<open>exec\<close> starts, for any vectors of arguments and environment: from the final stack
  pointer up it holds the number of arguments, the addresses of the two vectors, the vectors themselves,
  each ended by a null pointer, and then the strings up to the old stack pointer.  Every pointer of
  the vectors leads to its terminated string, and nothing else in memory has changed.\<close>

theorem exec_arguments_on_stack:
  assumes "argc \<le> length args" "envc \<le> length envs" "\<And>r. r \<in> set args \<union> set envs \<Longrightarrow> terminated r"
    and "length (strings (take argc args)) + length (strings (take envc envs)) + 8 * (argc + envc + 5) < 2 ^ 63"
    and "as = take argc args" "es = take envc envs" "sp = layout_pointer as es base"
  shows "\<exists>um'. stack_layout args argc envs envc base um = Some (sp, um')
    \<and> um' = store_bytes sp (words (layout_words as es base) @ strings as @ strings es) um
    \<and> (\<forall>i<argc. text_at um' (addresses (args_at as es base) as ! i) (cstr (args ! i)))
    \<and> (\<forall>i<envc. text_at um' (addresses (base - of_nat (length (strings es))) es ! i) (cstr (envs ! i)))"
proof -
  define um' where "um' = store_bytes sp (words (layout_words as es base) @ strings as @ strings es) um"
  have l: "length as = argc" "length es = envc" using assms by simp_all
  have sz: "length (strings as) + length (strings es) + 8 * (length as + length es + 5) < 2 ^ 63"
    using assms(4) unfolding l by (simp add: assms(5,6))
  have "stack_layout args argc envs envc base um = Some (sp, um')"
    using stack_layout_image [OF assms(1-4), of base um] by (simp add: Let_def assms(5-7) um'_def)
  moreover have "\<forall>i<argc. text_at um' (addresses (args_at as es base) as ! i) (cstr (args ! i))"
    using layout_texts(1) [OF assms(7) um'_def sz] l assms(5) by auto
  moreover have "\<forall>i<envc. text_at um' (addresses (base - of_nat (length (strings es))) es ! i) (cstr (envs ! i))"
    using layout_texts(2) [OF assms(7) um'_def sz] l assms(6) by auto
  ultimately show ?thesis unfolding um'_def by blast
qed

theorem exec_arguments_on_stack_witness:
  "\<exists>um'. stack_layout [''ls'' @ [NUL], ''-l'' @ [NUL]] 2 [''A=b'' @ [NUL]] 1 0x1000 (\<lambda>_. CHR ''?'') = Some (0xfb6, um')
     \<and> text_at um' 0xff6 ''ls'' \<and> text_at um' 0xff9 ''-l'' \<and> text_at um' 0xffc ''A=b''"
proof -
  let ?as = "[''ls'' @ [NUL], ''-l'' @ [NUL]]" and ?es = "[''A=b'' @ [NUL]]"
  have c: "cstr (''ls'' @ [NUL]) = ''ls''" "cstr (''-l'' @ [NUL]) = ''-l''" "cstr (''A=b'' @ [NUL]) = ''A=b''"
    by (simp_all add: cstr_Cons NUL_def)
  have sp: "layout_pointer ?as ?es 0x1000 = 0xfb6" "args_at ?as ?es 0x1000 = 0xff6"
    unfolding layout_pointer_def args_at_def strings_simps c by simp_all
  have ad: "addresses 0xff6 ?as = [0xff6, 0xff9]" "addresses 0xffc ?es = [0xffc]"
    unfolding addresses.simps c by simp_all
  have es: "(0x1000 :: u64) - of_nat (length (strings ?es)) = 0xffc" unfolding strings_simps c by simp
  have t: "\<And>r. r \<in> set ?as \<union> set ?es \<Longrightarrow> terminated r" by (auto simp: terminated_def)
  have sz: "length (strings (take 2 ?as)) + length (strings (take 1 ?es)) + 8 * (2 + 1 + 5) < 2 ^ 63"
    by (simp add: c del: append.simps)
  obtain um' where u: "stack_layout ?as 2 ?es 1 0x1000 (\<lambda>_. CHR ''?'') = Some (0xfb6, um')"
      "\<forall>i<2. text_at um' (addresses 0xff6 ?as ! i) (cstr (?as ! i))" "\<forall>i<1. text_at um' (addresses 0xffc ?es ! i) (cstr (?es ! i))"
    using exec_arguments_on_stack [OF _ _ t sz, of ?as ?es "0xfb6" "0x1000" "\<lambda>_. CHR ''?''"] sp es by auto
  have "text_at um' 0xff6 ''ls''" "text_at um' 0xff9 ''-l''" "text_at um' 0xffc ''A=b''"
    using u(2) [rule_format, of 0] u(2) [rule_format, of 1] u(3) unfolding ad by (simp_all add: c del: append.simps)
  then show ?thesis using u(1) by blast
qed


section \<open>What clearing the address space leaves\<close>

text \<open>\<open>s'\<close> differs from \<open>s\<close> in some words of memory that are now 0.\<close>

definition zeroed :: "'a kmem_scheme \<Rightarrow> 'a kmem_scheme \<Rightarrow> bool" where
  "zeroed s s' \<longleftrightarrow> (\<exists>m. s' = s\<lparr>ptmem := m\<rparr> \<and> (\<forall>a. m a = ptmem s a \<or> m a = 0))"

lemma zeroed_refl [simp]: "zeroed s s"
  unfolding zeroed_def by (rule exI [of _ "ptmem s"]) simp

lemma zeroed_trans: "zeroed s t \<Longrightarrow> zeroed t u \<Longrightarrow> zeroed s u"
  unfolding zeroed_def by (auto, metis)

lemma zeroed_wr [simp]: "zeroed s (wr t i 0 s)"
  unfolding zeroed_def wr_def by (rule exI [of _ "(ptmem s)(t + 8 * i := 0)"]) simp

lemma zeroed_rd: "zeroed s s' \<Longrightarrow> rd t i s' = rd t i s \<or> rd t i s' = 0"
  by (auto simp: zeroed_def rd_def)

lemma zeroed_for_to: "(\<And>i s. zeroed s (body i s)) \<Longrightarrow> zeroed s (for_to n body s)"
  by (induction n) (auto intro: zeroed_trans)

lemma zeroed_clear_slot: "(\<And>t s. zeroed s (below t s)) \<Longrightarrow> zeroed s (clear_slot below tbl i s)"
  by (auto simp: clear_slot_def Let_def intro: zeroed_trans [OF zeroed_wr])

lemma zeroed_clear_pt: "zeroed s (clear_pt t s)"
  unfolding clear_pt_def by (intro zeroed_for_to zeroed_clear_slot) simp

lemma zeroed_clear_pdt: "zeroed s (clear_pdt t s)"
  unfolding clear_pdt_def by (intro zeroed_for_to zeroed_clear_slot zeroed_clear_pt)

lemma zeroed_clear_pdpt: "zeroed s (clear_pdpt t s)"
  unfolding clear_pdpt_def by (intro zeroed_for_to zeroed_clear_slot zeroed_clear_pdt)

lemma user_bit_gone: "zeroed s s' \<Longrightarrow> rd t i s AND 4 = 0 \<Longrightarrow> rd t i s' AND 4 = 0"
  using zeroed_rd [of s s' t i] by auto

lemma clear_slot_clears: "rd tbl i (clear_slot clear_pdpt tbl i s) AND 4 = 0"
proof (cases "rd tbl i s AND 4 = 0")
  case False
  have "rd tbl i (wr tbl i 0 s) AND 4 = 0" by (simp add: rd_def wr_def)
  then show ?thesis using False user_bit_gone [OF zeroed_clear_pdpt] by (simp add: clear_slot_def Let_def)
qed (simp add: clear_slot_def)

lemma clear_loop:
  fixes root :: u64 and s :: "'a kmem_scheme"
  defines "body \<equiv> (\<lambda>i s. if i = 510 \<or> i = 511 then s else clear_slot clear_pdpt root i s)"
  shows "n \<le> 512 \<Longrightarrow> zeroed s (for_to n body s)
    \<and> (\<forall>i<n. i \<noteq> 510 \<longrightarrow> i \<noteq> 511 \<longrightarrow> rd root (of_nat i) (for_to n body s) AND 4 = 0)"
proof (induction n)
  case (Suc n)
  let ?t = "for_to n body s"
  have z: "zeroed ?t (body (of_nat n) ?t)"
    by (auto simp: body_def intro: zeroed_clear_slot zeroed_clear_pdpt)
  have u: "unat (of_nat n :: u64) = n" by (rule unat_of_nat64) (use Suc.prems in simp)
  have "rd root (of_nat n) (body (of_nat n) ?t) AND 4 = 0" if "n \<noteq> 510" "n \<noteq> 511"
  proof -
    have "(of_nat n :: u64) \<noteq> 510" "(of_nat n :: u64) \<noteq> 511" using that u by (auto simp: word_unat_eq_iff)
    then show ?thesis using clear_slot_clears by (simp add: body_def)
  qed
  then show ?case using Suc z zeroed_trans user_bit_gone [OF z] by (auto simp: less_Suc_eq)
qed simp

text \<open>\<^verbatim>\<open>clear_uptentries\<close>, which \<^verbatim>\<open>exec\<close> calls before it loads the new program: in the root table of the process no entry
  outside of the slots 510 and 511 keeps the user bit, so nothing of the old program is left accessible.  It only
  writes zeros into page tables: none of the frames of the old program goes back to the allocator.\<close>

theorem clear_uptentries_clears_user_entries:
  "\<exists>m. clear_uptentries root s = s\<lparr>ptmem := m\<rparr> \<and> (\<forall>a. m a = ptmem s a \<or> m a = 0)
     \<and> (\<forall>i::u64. i < 512 \<longrightarrow> i \<notin> {510, 511} \<longrightarrow> rd root i (s\<lparr>ptmem := m\<rparr>) AND 4 = 0)"
proof -
  obtain m where m: "clear_uptentries root s = s\<lparr>ptmem := m\<rparr>" "\<forall>a. m a = ptmem s a \<or> m a = 0"
    using clear_loop [of 512 s root] unfolding clear_uptentries_def zeroed_def by auto
  have "rd root i (s\<lparr>ptmem := m\<rparr>) AND 4 = 0" if "i < 512" "i \<notin> {510, 511}" for i :: u64
  proof -
    have n: "unat i < 512" "of_nat (unat i) = i" using that(1) by (simp_all add: word_less_nat_alt)
    moreover have "unat i \<noteq> 510" "unat i \<noteq> 511" using that(2) by (auto simp: word_unat_eq_iff)
    ultimately show ?thesis
      using clear_loop [of 512 s root] unfolding m(1) [symmetric] clear_uptentries_def by auto
  qed
  then show ?thesis using m by blast
qed

theorem clear_uptentries_clears_user_entries_witness:
  "rd 0xffffffff80001000 3 (clear_uptentries 0xffffffff80001000 (demo_space\<lparr>ptmem := (\<lambda>_. 0x7007)\<rparr>)) AND 4 = 0"
  using clear_uptentries_clears_user_entries [of "0xffffffff80001000" "demo_space\<lparr>ptmem := (\<lambda>_. 0x7007)\<rparr>"] by auto

section \<open>What the loader copies\<close>

lemma segment_loop_pages:
  assumes "unat a + 4096 * n < 2 ^ 64" "unat (p_vaddr ph + p_memsz ph) \<le> unat a + 4096 * n" "0 < n"
    and "unat a + 4096 * (n - 1) < unat (p_vaddr ph + p_memsz ph)"
  shows "\<exists>um'. segment_loop mem elf ph a i um = Some (i + 4096 * of_nat n, um')"
  using assms
proof (induction n arbitrary: a i um)
  case (Suc n)
  define um1 where "um1 = copy_in mem (elf + 64 * (p_offset ph + scast i)) a (if 4096 < p_memsz ph - scast i then 4096 else p_memsz ph - scast i) um"
  have a1: "unat (a + 4096) = unat a + 4096" using unat_add_mult64 [of a 4096 1] Suc.prems(1) by simp
  have lt: "a < p_vaddr ph + p_memsz ph" using Suc.prems(4) by (simp add: word_less_nat_alt)
  have st: "segment_loop mem elf ph a i um = segment_loop mem elf ph (a + 4096) (i + 4096) um1"
    using lt by (subst segment_loop.simps) (simp add: Let_def um1_def)
  show ?case
  proof (cases n)
    case 0
    then have "\<not> a + 4096 < p_vaddr ph + p_memsz ph" using Suc.prems(2) by (simp add: word_less_nat_alt a1)
    then show ?thesis using st 0 by (subst (asm) (2) segment_loop.simps) simp
  next
    case (Suc n')
    have "\<exists>um'. segment_loop mem elf ph (a + 4096) (i + 4096) um1 = Some (i + 4096 + 4096 * of_nat n, um')"
      by (rule Suc.IH) (use Suc.prems Suc a1 in auto)
    then show ?thesis unfolding st by (simp add: algebra_simps)
  qed
qed simp


lemma sint_of_nat32: "n < 2 ^ 31 \<Longrightarrow> sint (of_nat n :: u32) = int n"
proof -
  assume n: "n < 2 ^ 31"
  then have "unat (of_nat n :: u32) = n" by (simp add: unat_of_nat take_bit_nat_eq_self)
  then have "uint (of_nat n :: u32) = int n" by (simp only: uint_nat)
  with n show ?thesis using sint_eq_uint_small [of "of_nat n"] by simp
qed

lemma load_segment_counter:
  assumes "load_segment alloc depth mem elf p1 ph tv k = Some ((i, vma), k')"
    and "0 < p_memsz ph" "unat (p_vaddr ph) + unat (p_memsz ph) + 4096 \<le> 2 ^ 64" "unat (p_memsz ph) + 4096 \<le> 2 ^ 31"
  shows "4097 \<le> sint (i + 1)"
proof -
  obtain um um' where "segment_loop mem elf ph (p_vaddr ph) 0 um = Some (i, um')"
    using assms(1) by (auto simp: load_segment_def bind_eq_Some_conv Let_def case_prod_unfold)
  moreover define n where "n = (unat (p_memsz ph) + 4095) div 4096"
  have m: "0 < unat (p_memsz ph)" using assms(2) by (simp add: unat_gt_0)
  have n: "0 < n" "4096 * (n - 1) < unat (p_memsz ph)" "unat (p_memsz ph) \<le> 4096 * n" "4096 * n < unat (p_memsz ph) + 4096"
    using m unfolding n_def by linarith+
  have e: "unat (p_vaddr ph + p_memsz ph) = unat (p_vaddr ph) + unat (p_memsz ph)"
    using assms(3) by (intro unat_add_lem [THEN iffD1]) simp
  have "\<exists>um'. segment_loop mem elf ph (p_vaddr ph) 0 um = Some (0 + 4096 * of_nat n, um')"
    by (rule segment_loop_pages) (use n e assms(3) in auto)
  ultimately have "i + 1 = of_nat (4096 * n + 1)" by simp
  moreover have "4096 * n + 1 < 2 ^ 31"
  proof -
    have "4096 * n < 4096 * 2 ^ 19" using n(4) assms(4) by simp
    then have "n < 2 ^ 19" by simp
    then show ?thesis by simp
  qed
  ultimately have "sint (i + 1) = int (4096 * n + 1)" by (simp only: sint_of_nat32)
  then show ?thesis using n(1) by simp
qed

lemma skip_headers:
  assumes "\<And>j. j < m \<Longrightarrow> p_type (phdr_at mem (phdr + 56 * of_nat j)) \<noteq> 1" "i + m \<le> unat (e_phnum mem elf)" "unat (e_phnum mem elf) < 2 ^ 31"
  shows "load_segments alloc depth mem elf p1 phdr (of_nat i) tv k
    = load_segments alloc depth mem elf p1 (phdr + 56 * of_nat m) (of_nat (i + m)) tv k"
  using assms
proof (induction m arbitrary: phdr i)
  case (Suc m)
  have "i < unat (e_phnum mem elf)" "sint (of_nat i :: u32) = int i" using Suc.prems(2,3) by (auto intro!: sint_of_nat32)
  then have lt: "\<not> uint (e_phnum mem elf) \<le> sint (of_nat i :: u32)" by (simp add: uint_nat del: of_nat_unat)
  have "load_segments alloc depth mem elf p1 phdr (of_nat i) tv k = load_segments alloc depth mem elf p1 (phdr + 56) (of_nat (Suc i)) tv k"
    using lt Suc.prems(1) [of 0] by (subst load_segments.simps) (simp add: add.commute)
  also have "\<dots> = load_segments alloc depth mem elf p1 (phdr + 56 + 56 * of_nat m) (of_nat (Suc i + m)) tv k"
  proof (rule Suc.IH)
    show "p_type (phdr_at mem (phdr + 56 + 56 * of_nat j)) \<noteq> 1" if "j < m" for j
      using Suc.prems(1) [of "Suc j"] that by (simp add: algebra_simps)
  qed (use Suc.prems(2,3) in simp_all)
  finally show ?case by (simp add: algebra_simps)
qed simp

text \<open>C16: \<^verbatim>\<open>loadelf\<close> loads the first loadable segment of a program and no other: the loop that copies it counts bytes in
  the variable that counts the program headers.  For a program with at most 4097 headers, whose first loadable segment is
  not empty, has at most 2^31 - 4096 bytes and does not reach up to the last page of the address space, the loop over
  the headers does what loading that segment alone does.\<close>

theorem load_segments_loads_first_only:
  assumes "\<And>j. j < m \<Longrightarrow> p_type (phdr_at mem (phdr + 56 * of_nat j)) \<noteq> 1" and "m < unat (e_phnum mem elf)"
    and "ph = phdr_at mem (phdr + 56 * of_nat m)" and "p_type ph = 1" "0 < p_memsz ph"
    and "unat (p_vaddr ph) + unat (p_memsz ph) + 4096 \<le> 2 ^ 64" "e_phnum mem elf \<le> 4097" "unat (p_memsz ph) + 4096 \<le> 2 ^ 31"
  shows "load_segments alloc depth mem elf p1 phdr 0 0 k = map_option snd (load_segment alloc depth mem elf p1 ph 0 k)"
proof -
  have n: "unat (e_phnum mem elf) \<le> 4097" using assms(7) by (simp add: word_le_nat_alt)
  then have "sint (of_nat m :: u32) = int m" using assms(2) by (intro sint_of_nat32) simp
  then have lt: "\<not> uint (e_phnum mem elf) \<le> sint (of_nat m :: u32)" using assms(2) by (simp add: uint_nat del: of_nat_unat)
  have done': "load_segments alloc depth mem elf p1 q j tv k' = Some k'" if "4097 \<le> sint j" for q j tv k'
  proof -
    have "uint (e_phnum mem elf) \<le> 4097" using n by (simp add: uint_nat del: of_nat_unat)
    then show ?thesis using that by (subst load_segments.simps) simp
  qed
  have "load_segments alloc depth mem elf p1 phdr 0 0 k
      = load_segments alloc depth mem elf p1 (phdr + 56 * of_nat m) (of_nat m) 0 k"
    using skip_headers [of m mem phdr 0 elf alloc depth p1 0 k] assms(1,2) n by simp
  also have "\<dots> = map_option snd (load_segment alloc depth mem elf p1 ph 0 k)"
    using lt assms(3,4) load_segment_counter [of alloc depth mem elf p1 ph 0 k, OF _ assms(5,6,8)] done'
    by (subst load_segments.simps) (cases "load_segment alloc depth mem elf p1 ph 0 k", auto)
  finally show ?thesis .
qed

text \<open>A program at 0x1000 with two loadable segments of 16 bytes, at 0x400000 and at 0.\<close>

definition demo_elf :: memory where
  "demo_elf = (\<lambda>_. NUL)(0x1038 := CHR 0x02, 0x1040 := CHR 0x01, 0x1052 := CHR 0x40,
     0x1068 := CHR 0x10, 0x1078 := CHR 0x01, 0x10a0 := CHR 0x10)"

lemma load_le_bytes:
  "load_le mem a 2 = of_char (mem a) + 256 * of_char (mem (a + 1))"
  "load_le mem a 4 = of_char (mem a) + 256 * (of_char (mem (a + 1)) + 256 * (of_char (mem (a + 2)) + 256 * of_char (mem (a + 3))))"
  "load_le mem a 8 = of_char (mem a) + 256 * (of_char (mem (a + 1)) + 256 * (of_char (mem (a + 2)) + 256 * (of_char (mem (a + 3))
     + 256 * (of_char (mem (a + 4)) + 256 * (of_char (mem (a + 5)) + 256 * (of_char (mem (a + 6)) + 256 * of_char (mem (a + 7))))))))"
  by (simp_all add: eval_nat_numeral ac_simps)

lemma demo_elf_byte: "of_char (demo_elf a) = (if a = 0x1038 then 2 else if a = 0x1040 \<or> a = 0x1078 then 1
    else if a = 0x1052 then 0x40 else if a = 0x1068 \<or> a = 0x10a0 then 16 else (0 :: u64))"
  by (simp add: demo_elf_def NUL_def)

theorem load_segments_loads_first_only_witness:
  "e_phnum demo_elf 0x1000 = 2 \<and> p_type (phdr_at demo_elf 0x1078) = 1
   \<and> load_segments (bump 1) 1 demo_elf 0x1000 0xffffffff80020000 0x1040 0 0 demo_kernel
       = map_option snd (load_segment (bump 1) 1 demo_elf 0x1000 0xffffffff80020000 (phdr_at demo_elf 0x1040) 0 demo_kernel)"
proof -
  have n: "e_phnum demo_elf 0x1000 = 2"
    by (simp add: e_phnum_def load_le_bytes demo_elf_byte)
  have p: "p_type (phdr_at demo_elf 0x1040) = 1" "p_type (phdr_at demo_elf 0x1078) = 1"
    "p_vaddr (phdr_at demo_elf 0x1040) = 0x400000" "p_memsz (phdr_at demo_elf 0x1040) = 16"
    by (simp_all add: phdr_at_def load_le_bytes demo_elf_byte)
  show ?thesis
    using load_segments_loads_first_only [of 0 demo_elf "0x1040" "0x1000" "phdr_at demo_elf 0x1040" "bump 1" 1
        "0xffffffff80020000" demo_kernel] n p by (simp del: bump.simps)
qed

end
