(* ===== verification/Console.thy ===== *)
theory Console
  imports Klibc Allocator
begin

text \<open>
  The console: printing on the screen (\<^verbatim>\<open>sys/kprintf.c\<close>) and reading the keyboard (\<^verbatim>\<open>sys/kscanf.c\<close>), with the writing
  and reading routines of \<^verbatim>\<open>sys/fs.c\<close> on top of them.  The screen is a memory of bytes, two for every
  character cell; the cursor \<^verbatim>\<open>outputstring\<close> is an address in it.  The arguments behind the format are the five
  that \<^verbatim>\<open>kprintf\<close> saves from registers and the words it then takes from the stack; a pointer to a
  string is looked up in \<open>text\<close>.
\<close>

section \<open>Printing\<close>

type_synonym bytes = "u64 \<Rightarrow> char"

record console =
  screen :: bytes
  outputstring :: u64

definition SCREEN :: u64 where
  "SCREEN = KERNBASE + 0xb8000"

definition getargument :: "u64 list \<Rightarrow> nat \<Rightarrow> u64" where
  "getargument regs paramnum = (if 2 \<le> paramnum \<and> paramnum \<le> 6 then regs ! (paramnum - 2) else 0)"

text \<open>The argument number \<open>noofarg\<close> and what is left of the stack.\<close>

definition argument :: "u64 list \<Rightarrow> nat \<Rightarrow> u64 list \<Rightarrow> (u64 \<times> u64 list) option" where
  "argument regs noofarg stack =
     (if 6 < noofarg then (case stack of [] \<Rightarrow> None | v # st \<Rightarrow> Some (v, st))
      else Some (getargument regs noofarg, stack))"

text \<open>\<^verbatim>\<open>rem[i++] = intvalue % 10 + '0'\<close> and its hexadecimal counterpart, least significant digit first.\<close>

function dec_rem :: "int \<Rightarrow> int list" where
  "dec_rem intvalue = (if intvalue = 0 then [] else (intvalue smod 10 + 48) # dec_rem (intvalue sdiv 10))"
  by pat_completeness auto
termination
  by (relation "measure (\<lambda>v. nat \<bar>v\<bar>)") (auto simp: signed_divide_int_def abs_mult sgn_if nat_less_iff)

definition hex_digit :: "nat \<Rightarrow> int" where
  "hex_digit d = (if d < 10 then int d + 48 else int (d mod 10) + 97)"

fun hex_rem :: "nat \<Rightarrow> int list" where
  "hex_rem v = (if v = 0 then [] else hex_digit (v mod 16) # hex_rem (v div 16))"

declare dec_rem.simps [simp del] hex_rem.simps [simp del]

text \<open>\<^verbatim>\<open>rem\<close> has room for twenty digits.\<close>

definition digits :: "int list \<Rightarrow> string option" where
  "digits rem = (if length rem \<le> 20 then Some (map char_of (rev rem)) else None)"

text \<open>A text on the screen from the cursor on; the cursor stays on its last character, in front of the
  old cursor when it is empty, and \<^verbatim>\<open>length\<close> follows it.\<close>

fun put_text :: "string \<Rightarrow> console \<Rightarrow> console" where
  "put_text [] c = c"
| "put_text (x # xs) c =
     put_text xs (c\<lparr>screen := (screen c)(outputstring c := x), outputstring := outputstring c + 2\<rparr>)"

definition put_field :: "string \<Rightarrow> console \<times> int \<Rightarrow> console \<times> int" where
  "put_field s = (\<lambda>(c, len). (let c = put_text s c in c\<lparr>outputstring := outputstring c - 2\<rparr>, len + 2 * int (length s) - 2))"

definition put_char :: "char \<Rightarrow> console \<Rightarrow> console" where
  "put_char x c = c\<lparr>screen := (screen c)(outputstring c := x)\<rparr>"

text \<open>One conversion: the character behind the percent sign, with its argument.\<close>

definition hex_field :: "u64 \<Rightarrow> console \<times> int \<Rightarrow> (console \<times> int) option" where
  "hex_field v = (\<lambda>(c, len).
     if v = 0 then Some (put_char (CHR ''0'') c, len)
     else do { s \<leftarrow> digits (hex_rem (unat v)); Some (put_field s (c, len)) })"

definition convert :: "(u64 \<Rightarrow> string) \<Rightarrow> u64 list \<Rightarrow> char \<Rightarrow> nat \<Rightarrow> u64 list \<times> console \<times> int
    \<Rightarrow> (u64 list \<times> console \<times> int) option" where
  "convert text regs f noofarg = (\<lambda>(stack, c, len).
     if f = CHR ''s'' then do { (v, stack) \<leftarrow> argument regs noofarg stack; Some (stack, put_field (cstr (text v)) (c, len)) }
     else if f = CHR ''c'' then do { (v, stack) \<leftarrow> argument regs noofarg stack; Some (stack, put_char (char_of (uint v)) c, len) }
     else if f = CHR ''d''
     then do { (v, stack) \<leftarrow> argument regs noofarg stack;
               let intvalue = sint (ucast v :: u32);
               if intvalue = 0 then Some (stack, put_char (CHR ''0'') c, len)
               else do { s \<leftarrow> digits (dec_rem intvalue); Some (stack, put_field s (c, len)) } }
     else if f = CHR ''p''
     then do { let c = put_char (CHR ''0'') c;
               let c = put_char (CHR ''x'') (c\<lparr>outputstring := outputstring c + 2\<rparr>);
               (v, stack) \<leftarrow> argument regs noofarg stack;
               r \<leftarrow> hex_field v (c\<lparr>outputstring := outputstring c + 2\<rparr>, len + 4);
               Some (stack, r) }
     else if f = CHR ''x''
     then do { (v, stack) \<leftarrow> argument regs noofarg stack; r \<leftarrow> hex_field v (c, len); Some (stack, r) }
     else Some (stack, c, len))"

text \<open>The rows from the second to the twenty-second move up.\<close>

definition scroll :: "bytes \<Rightarrow> bytes" where
  "scroll m = fold (\<lambda>l m. fold (\<lambda>k m. m(SCREEN + 160 * of_nat l + of_nat k := m (SCREEN + 160 * (of_nat l + 1) + of_nat k)))
      [0..<160] m) [0..<21] m"

definition make_room :: "console \<Rightarrow> console" where
  "make_room c =
     (if SCREEN + 160 * 21 \<le> outputstring c
      then c\<lparr>screen := scroll (screen c), outputstring := SCREEN + 160 * 20\<rparr> else c)"

text \<open>The loop over the format, which ends where the format does; a percent sign in front of the end leads
  behind it.\<close>

fun print_loop :: "(u64 \<Rightarrow> string) \<Rightarrow> u64 list \<Rightarrow> string \<Rightarrow> nat \<Rightarrow> u64 list \<times> console \<times> int \<Rightarrow> console option" where
  "print_loop text regs [] noofarg (stack, c, len) = Some (put_char NUL c)"
| "print_loop text regs (x # fmt) noofarg (stack, c, len) =
     (let c = make_room c in
      if x = CHR ''%''
      then (case fmt of [] \<Rightarrow> None
            | f # fmt \<Rightarrow>
                do { (stack, c, len) \<leftarrow> convert text regs f (noofarg + 1) (stack, c, len);
                     print_loop text regs fmt (noofarg + 1)
                       (stack, c\<lparr>outputstring := outputstring c + 2\<rparr>, len + 2) })
      else let c = (if x = CHR ''\<newline>''
                    then c\<lparr>outputstring := outputstring c - ((outputstring c - SCREEN) mod 160 + 2) + 160\<rparr>
                    else if x = CHR 0x0D then c\<lparr>outputstring := outputstring c - word_of_int len\<rparr>
                    else if x = CHR 0x09 then c\<lparr>outputstring := outputstring c + 8\<rparr>
                    else put_char x c)
           in print_loop text regs fmt noofarg (stack, c\<lparr>outputstring := outputstring c + 2\<rparr>, len + 2))"

definition kprintf :: "(u64 \<Rightarrow> string) \<Rightarrow> u64 list \<Rightarrow> u64 list \<Rightarrow> string \<Rightarrow> console \<Rightarrow> console option" where
  "kprintf text regs stack fmt c =
     (if terminated fmt then print_loop text regs (cstr fmt) 1 (stack, c, 2) else None)"

text \<open>Printing a format without conversions.\<close>

definition kputs :: "string \<Rightarrow> console \<Rightarrow> console option" where
  "kputs s = kprintf (\<lambda>_. []) [0, 0, 0, 0, 0] [] (s @ [NUL])"

section \<open>The keyboard\<close>

definition scantochar :: string where
  "scantochar = [NUL, NUL] @ ''1234567890-='' @ [NUL, NUL] @ ''qwertyuiop[]'' @ [CHR ''\<newline>'', NUL]
     @ ''asdfghjkl;'' @ [CHR 0x27] @ ''`'' @ [NUL, CHR 0x5C] @ ''zxcvbnm,./'' @ [NUL, NUL, NUL] @ '' '' @ replicate 42 NUL"

definition scantoUchar :: string where
  "scantoUchar = [NUL, NUL] @ ''!@#$%^&*()_+'' @ [NUL, NUL] @ ''QWERTYUIOP{}'' @ [CHR ''\<newline>'', NUL]
     @ ''ASDFGHJKL:'' @ [CHR 0x22] @ ''~'' @ [NUL, CHR ''|''] @ ''ZXCVBNM<>?'' @ [NUL, NUL, NUL] @ '' '' @ replicate 42 NUL"

definition scantoCchar :: string where
  "scantoCchar = [NUL, NUL] @ ''1234567890-='' @ [NUL, NUL] @ ''QWERTYUIOP[]'' @ [CHR ''\<newline>'', NUL]
     @ ''ASDFGHJKL;'' @ [CHR 0x27] @ ''`'' @ [NUL, CHR 0x5C] @ ''ZXCVBNM,./'' @ [NUL, NUL, NUL] @ '' '' @ replicate 42 NUL"

text \<open>\<open>kb_buffer\<close> is the memory from \<^verbatim>\<open>terminal_buf\<close> on.\<close>

record keyboard =
  controlflag :: u32
  kb_size :: int
  address_of_buf :: u64
  terminal_buf :: u64
  kb_buffer :: string

definition peek :: "keyboard \<Rightarrow> char option" where
  "peek k = aget (kb_buffer k) (unat (address_of_buf k - terminal_buf k))"

definition poke :: "u64 \<Rightarrow> char \<Rightarrow> keyboard \<Rightarrow> keyboard option" where
  "poke a x k = do { b \<leftarrow> aput (kb_buffer k) (unat (a - terminal_buf k)) x; Some (k\<lparr>kb_buffer := b\<rparr>) }"

definition reset_terminal :: "keyboard \<Rightarrow> keyboard option" where
  "reset_terminal k =
     do { b \<leftarrow> for_n 0 1024 (\<lambda>i b. aput b i NUL) (kb_buffer k);
          Some (k\<lparr>address_of_buf := terminal_buf k, kb_buffer := b, kb_size := 0\<rparr>) }"

definition get_terminal_size :: "keyboard \<Rightarrow> nat option" where
  "get_terminal_size k = kstrlength (kb_buffer k)"

text \<open>\<^verbatim>\<open>if (size >= 0 && address_of_buf != 0x0)\<close> the character and a terminator.\<close>

definition store_key :: "char \<Rightarrow> keyboard \<Rightarrow> keyboard option" where
  "store_key x k =
     (if 0 \<le> kb_size k \<and> address_of_buf k \<noteq> 0
      then do { k \<leftarrow> poke (address_of_buf k) x k; poke (address_of_buf k + 1) NUL k } else Some k)"

definition backspace :: "keyboard \<times> console \<Rightarrow> (keyboard \<times> console) option" where
  "backspace = (\<lambda>(k, c).
     do { let output_string = outputstring c - 2;
          c \<leftarrow> kputs '' '' (c\<lparr>outputstring := output_string\<rparr>);
          let c = c\<lparr>outputstring := output_string\<rparr>;
          let k = k\<lparr>address_of_buf := address_of_buf k - 1, kb_size := kb_size k - 1\<rparr>;
          k \<leftarrow> poke (address_of_buf k) NUL k;
          Some (k\<lparr>address_of_buf := address_of_buf k - 1, kb_size := kb_size k - 1\<rparr>, c) })"

definition enter_key :: "u8 \<Rightarrow> keyboard \<times> console \<Rightarrow> (keyboard \<times> console) option" where
  "enter_key code = (\<lambda>(k, c).
     do { x \<leftarrow> aget scantochar (unat code);
          k \<leftarrow> store_key x k;
          c \<leftarrow> kputs ''\<newline>'' c;
          Some (k, c) })"

definition echo :: "char \<Rightarrow> console \<Rightarrow> console option" where
  "echo x = kprintf (\<lambda>_. []) [of_char x, 0, 0, 0, 0] [] (''%c'' @ [NUL])"

text \<open>The control key stores a circumflex in front of the key.\<close>

definition control_key :: "u8 \<Rightarrow> keyboard \<times> console \<Rightarrow> (char \<times> keyboard \<times> console) option" where
  "control_key code = (\<lambda>(k, c).
     do { c \<leftarrow> echo (CHR ''^'') c;
          k \<leftarrow> (if 0 \<le> kb_size k \<and> address_of_buf k \<noteq> 0
               then do { k \<leftarrow> poke (address_of_buf k) (CHR ''^'') k;
                         Some (k\<lparr>address_of_buf := address_of_buf k + 1\<rparr>) } else Some k);
          x \<leftarrow> aget scantoCchar (unat code);
          k \<leftarrow> store_key x k;
          Some (x, k\<lparr>controlflag := controlflag k AND 0xfb\<rparr>, c) })"

definition plain_key :: "u8 \<Rightarrow> keyboard \<times> console \<Rightarrow> (keyboard \<times> console) option" where
  "plain_key code = (\<lambda>(k, c).
     do { (x, k, c) \<leftarrow>
            (if controlflag k AND 4 \<noteq> 0 then control_key code (k, c)
             else if controlflag k AND 2 \<noteq> 0
             then do { x \<leftarrow> aget scantoUchar (unat code); Some (x, k\<lparr>controlflag := controlflag k AND 0xfd\<rparr>, c) }
             else if controlflag k AND 1 \<noteq> 0 then do { x \<leftarrow> aget scantoUchar (unat code); Some (x, k, c) }
             else do { x \<leftarrow> aget scantochar (unat code); Some (x, k, c) });
          k \<leftarrow> store_key x k;
          c \<leftarrow> echo x c;
          Some (k, c) })"

text \<open>The end of the handler: the next place in the buffer, or an empty one.\<close>

definition settle :: "keyboard \<Rightarrow> keyboard option" where
  "settle k =
     (if kb_size k = 1024 then reset_terminal k
      else do { x \<leftarrow> peek k;
                if x \<noteq> NUL then Some (k\<lparr>address_of_buf := address_of_buf k + 1, kb_size := kb_size k + 1\<rparr>)
                else reset_terminal k })"

definition kscanf :: "u8 \<Rightarrow> keyboard \<times> console \<Rightarrow> (keyboard \<times> console) option" where
  "kscanf code kc =
     (if code AND 0x80 \<noteq> 0 then Some kc
      else do { (k, c) \<leftarrow>
                  (if code = 14 then backspace kc
                   else if code = 58
                   then (case kc of (k, c) \<Rightarrow>
                     Some (k\<lparr>controlflag := (if controlflag k AND 1 \<noteq> 0 then controlflag k AND 0xfe else controlflag k OR 1)\<rparr>, c))
                   else if code = 42 \<or> code = 54 then (case kc of (k, c) \<Rightarrow> Some (k\<lparr>controlflag := controlflag k OR 2\<rparr>, c))
                   else if code = 29 then (case kc of (k, c) \<Rightarrow> Some (k\<lparr>controlflag := controlflag k OR 4\<rparr>, c))
                   else if code = 28 then enter_key code kc
                   else plain_key code kc);
                if code \<notin> {58, 42, 54, 29} then do { k \<leftarrow> settle k; Some (k, c) } else Some (k, c) })"

section \<open>The terminal as a file\<close>

text \<open>One turn of the loop of \<^verbatim>\<open>check_for_ip\<close> for a line (\<open>size_ip = 0\<close>) and for a number of characters: the new
  content of \<open>ab\<close> and the result when the input is complete, \<open>Inr\<close> the terminal when it is not.  \<open>before\<close> is the
  byte in front of the buffer, which is what the loop looks at while the line is empty.\<close>

definition poll_terminal :: "char \<Rightarrow> string \<Rightarrow> int \<Rightarrow> keyboard \<Rightarrow> ((string \<times> int \<times> keyboard) + keyboard) option" where
  "poll_terminal before ab size_ip k =
     do { sz \<leftarrow> get_terminal_size k;
          if size_ip = 0
          then do { x \<leftarrow> (if sz = 0 then Some before else aget (kb_buffer k) (sz - 1));
                    if x = CHR ''\<newline>''
                    then do { ab \<leftarrow> kmemcpychar (kb_buffer k) ab (of_nat sz); k \<leftarrow> reset_terminal k; Some (Inl (ab, int sz, k)) }
                    else Some (Inr k) }
          else if int sz = size_ip
          then do { ab \<leftarrow> kstrncopy ab (kb_buffer k) size_ip; k \<leftarrow> reset_terminal k; Some (Inl (ab, size_ip, k)) }
          else Some (Inr k) }"

text \<open>The text to write is the format of \<^verbatim>\<open>kprintf\<close>: \<open>regs\<close> and \<open>stack\<close> are what the registers and the stack hold
  when it is called.\<close>

definition do_write :: "(u64 \<Rightarrow> string) \<Rightarrow> u64 list \<Rightarrow> u64 list \<Rightarrow> string \<Rightarrow> int \<Rightarrow> console
    \<Rightarrow> (int \<times> string \<times> console) option" where
  "do_write text regs stack buf sz c =
     (if sz \<le> 0 then Some (- 1, buf, c)
      else do { _ \<leftarrow> kmemcpychar buf (replicate (nat sz) NUL) (of_int sz);
                buf \<leftarrow> aput buf (nat sz) NUL;
                c \<leftarrow> kprintf text regs stack buf c;
                Some (1, buf, c) })"

definition do_write_err :: "string \<Rightarrow> int \<Rightarrow> console \<Rightarrow> (int \<times> console) option" where
  "do_write_err buf sz c =
     do { c \<leftarrow> for_n 0 (nat sz) (\<lambda>i c. do { x \<leftarrow> aget buf i; kputs (cstr [x, NUL]) c }) c; Some (1, c) }"

section \<open>What printing does\<close>

text \<open>The reference: the digits of a number, most significant first, and the text of a format.\<close>

fun dec_text :: "nat \<Rightarrow> string" where
  "dec_text n = (if n < 10 then [char_of (n + 48)] else dec_text (n div 10) @ [char_of (n mod 10 + 48)])"

fun hex_text :: "nat \<Rightarrow> string" where
  "hex_text n = (if n < 16 then [''0123456789abcdef'' ! n] else hex_text (n div 16) @ [''0123456789abcdef'' ! (n mod 16)])"

definition field_text :: "(u64 \<Rightarrow> string) \<Rightarrow> char \<Rightarrow> u64 \<Rightarrow> string" where
  "field_text text f v =
     (if f = CHR ''s'' then cstr (text v) else if f = CHR ''c'' then [char_of (uint v)]
      else if f = CHR ''d'' then dec_text (nat (sint (ucast v :: u32)))
      else if f = CHR ''x'' then hex_text (unat v) else ''0x'' @ hex_text (unat v))"

definition good_field :: "char \<Rightarrow> u64 \<Rightarrow> bool" where
  "good_field f v = (f \<in> set ''scxp'' \<or> f = CHR ''d'' \<and> 0 \<le> sint (ucast v :: u32))"

fun render :: "(u64 \<Rightarrow> string) \<Rightarrow> string \<Rightarrow> u64 list \<Rightarrow> string option" where
  "render text [] args = Some []"
| "render text (x # fmt) args =
     (if x = CHR ''%''
      then (case (fmt, args) of
              (f # fmt, v # args) \<Rightarrow>
                if good_field f v then map_option ((@) (field_text text f v)) (render text fmt args) else None
            | _ \<Rightarrow> None)
      else if x \<in> {NUL, CHR ''\<newline>'', CHR 0x0D, CHR 0x09} then None
      else map_option ((#) x) (render text fmt args))"

declare dec_text.simps [simp del] hex_text.simps [simp del]

lemma hex_digit_text: "d < 16 \<Longrightarrow> char_of (hex_digit d) = ''0123456789abcdef'' ! d"
proof -
  assume d: "d < 16"
  have "\<forall>d \<in> set [0..<16]. char_of (hex_digit d) = ''0123456789abcdef'' ! d" by code_simp
  with d show ?thesis by simp
qed

lemma hex_rem_text: "0 < n \<Longrightarrow> map char_of (rev (hex_rem n)) = hex_text n"
proof (induction n rule: hex_rem.induct)
  case (1 n)
  show ?case
  proof (cases "n < 16")
    case True
    with 1 show ?thesis by (simp add: hex_rem.simps [of n] hex_rem.simps [of 0] hex_text.simps [of n] hex_digit_text)
  next
    case False
    with 1 show ?thesis
      by (simp add: hex_rem.simps [of n] hex_text.simps [of n] hex_digit_text div_greater_zero_iff)
  qed
qed

lemma length_hex_rem: "n < 16 ^ k \<Longrightarrow> length (hex_rem n) \<le> k"
proof (induction k arbitrary: n)
  case 0
  then show ?case by (simp add: hex_rem.simps [of 0])
next
  case (Suc k)
  then have "n div 16 < 16 ^ k" by (simp add: less_mult_imp_div_less mult.commute)
  with Suc show ?case by (subst hex_rem.simps) simp
qed

lemma digits_hex: "v \<noteq> 0 \<Longrightarrow> digits (hex_rem (unat (v :: u64))) = Some (hex_text (unat v))"
  using length_hex_rem [of "unat v" 16] unsigned_less [of v, where ?'a = nat]
  by (simp add: digits_def hex_rem_text unat_gt_0)

lemma dec_rem_pos: "0 < v \<Longrightarrow> dec_rem v = (v mod 10 + 48) # dec_rem (v div 10)"
  by (subst dec_rem.simps) (simp add: sdiv_nonneg smod_nonneg)

lemma char_of_int: "char_of (int n) = char_of n"
  by (simp add: char_of_def bit_of_nat_iff_bit)

lemma dec_rem_text: "0 < n \<Longrightarrow> map char_of (rev (dec_rem (int n))) = dec_text n"
proof (induction n rule: dec_text.induct)
  case (1 n)
  have s: "dec_rem (int n) = int (n mod 10 + 48) # dec_rem (int (n div 10))"
    using 1(2) by (simp add: dec_rem_pos of_nat_mod of_nat_div)
  show ?case
  proof (cases "n < 10")
    case True
    then show ?thesis unfolding s by (simp add: dec_rem.simps [of 0] dec_text.simps [of n] char_of_int del: of_nat_add of_nat_mod)
  next
    case False
    with 1(1) show ?thesis unfolding s
      by (simp add: dec_text.simps [of n] div_greater_zero_iff char_of_int del: of_nat_add of_nat_mod of_nat_div)
  qed
qed

lemma length_dec_rem: "0 \<le> v \<Longrightarrow> v < 10 ^ k \<Longrightarrow> length (dec_rem v) \<le> k"
proof (induction k arbitrary: v)
  case 0
  then have "v = 0" by simp
  then show ?case by (simp add: dec_rem.simps [of 0])
next
  case (Suc k)
  show ?case
  proof (cases "v = 0")
    case False
    have "v div 10 < 10 ^ k" using Suc.prems by (simp add: div_less_iff_less_mult mult.commute)
    with Suc False show ?thesis by (simp add: dec_rem_pos pos_imp_zdiv_nonneg_iff)
  qed (simp add: dec_rem.simps [of 0])
qed

lemma digits_dec: "0 < (v :: int) \<Longrightarrow> v < 2 ^ 31 \<Longrightarrow> digits (dec_rem v) = Some (dec_text (nat v))"
  using length_dec_rem [of v 10] dec_rem_text [of "nat v"] by (simp add: digits_def)

text \<open>Printing steps over the cursor.\<close>

definition step :: "console \<Rightarrow> console" where
  "step c = c\<lparr>outputstring := outputstring c + 2\<rparr>"

lemma put_text_append: "put_text (s @ t) c = put_text t (put_text s c)"
  by (induction s arbitrary: c) auto

lemma step_put_field: "put_field s (c, len) = (c', len') \<Longrightarrow> step c' = put_text s c"
  by (auto simp: put_field_def step_def Let_def)

lemma step_put_char: "step (put_char x c) = put_text [x] c"
  by (simp add: step_def put_char_def)

lemma outputstring_put_text: "outputstring (put_text s c) = outputstring c + 2 * of_nat (length s)"
  by (induction s arbitrary: c) (auto simp: algebra_simps)

lemma dec_text_0: "dec_text 0 = ''0''"
  by code_simp

lemma argument_next:
  assumes "length regs = 5" "0 < n" "drop (n - 1) regs @ stack = v # args"
  shows "\<exists>st. argument regs (n + 1) stack = Some (v, st) \<and> drop n regs @ st = args"
proof (cases "n < 6")
  case True
  then have "drop (n - 1) regs = regs ! (n - 1) # drop n regs"
    using assms Cons_nth_drop_Suc [of "n - 1" regs] by simp
  with True assms show ?thesis by (auto simp: argument_def getargument_def)
next
  case False
  with assms show ?thesis by (auto simp: argument_def)
qed

lemma hex_field_text:
  "\<exists>c' len'. hex_field v (c, len) = Some (c', len') \<and> step c' = put_text (hex_text (unat v)) c"
proof (cases "v = 0")
  case True
  then show ?thesis by (simp add: hex_field_def step_put_char hex_text.simps [of 0])
next
  case False
  then show ?thesis
    by (simp add: hex_field_def digits_hex) (metis step_put_field surj_pair)
qed

lemma convert_field:
  assumes "argument regs n stack = Some (v, st)" "good_field f v"
  shows "\<exists>c' len'. convert text regs f n (stack, c, len) = Some (st, c', len') \<and> step c' = put_text (field_text text f v) c"
proof -
  have d: "f \<noteq> CHR ''d'' \<or> 0 \<le> sint (ucast v :: u32)" using assms by (auto simp: good_field_def)
  have lt: "sint (ucast v :: u32) < 2 ^ 31" using sint_lt [of "ucast v :: u32"] by simp
  consider "f = CHR ''s''" | "f = CHR ''c''" | "f = CHR ''d''" | "f = CHR ''x''" | "f = CHR ''p''"
    using assms by (auto simp: good_field_def)
  then show ?thesis
  proof cases
    case 1
    then show ?thesis using assms(1)
      by (simp add: convert_def field_text_def) (metis step_put_field surj_pair)
  next
    case 2
    then show ?thesis using assms(1) by (simp add: convert_def field_text_def step_put_char)
  next
    case 3
    show ?thesis
    proof (cases "sint (ucast v :: u32) = 0")
      case True
      with 3 assms(1) show ?thesis
        by (simp add: convert_def field_text_def step_put_char Let_def dec_text_0)
    next
      case False
      with 3 d lt have "digits (dec_rem (sint (ucast v :: u32))) = Some (dec_text (nat (sint (ucast v :: u32))))"
        by (intro digits_dec) auto
      with False 3 assms(1) show ?thesis
        by (simp add: convert_def field_text_def Let_def) (metis step_put_field surj_pair)
    qed
  next
    case 4
    then show ?thesis using assms(1) hex_field_text [of v c len]
      by (auto simp: convert_def field_text_def)
  next
    case 5
    let ?c = "put_text ''0x'' c"
    show ?thesis using 5 assms(1) hex_field_text [of v ?c "len + 4"]
      by (auto simp: convert_def field_text_def Let_def put_char_def put_text_append)
  qed
qed

definition cursor_at :: "nat \<Rightarrow> console \<Rightarrow> bool" where
  "cursor_at p c = (outputstring c = SCREEN + of_nat p)"

lemma SCREEN_num: "SCREEN = 0xFFFFFFFF800B8000"
  by (simp add: SCREEN_def KERNBASE_def)

lemma SCREEN_less: "p < 2 ^ 16 \<Longrightarrow> SCREEN + 3360 \<le> SCREEN + of_nat p \<longleftrightarrow> 3360 \<le> p"
  by (simp add: SCREEN_num word_le_nat_alt unat_word_ariths unat_of_nat take_bit_nat_def)

lemma make_room_id: "cursor_at p c \<Longrightarrow> p < 3360 \<Longrightarrow> make_room c = c"
  using SCREEN_less [of p] by (simp add: make_room_def cursor_at_def)

lemma cursor_at_put_text: "cursor_at p c \<Longrightarrow> cursor_at (p + 2 * length s) (put_text s c)"
  by (simp add: cursor_at_def outputstring_put_text)

lemma print_loop_renders:
  assumes "length regs = 5"
  shows "\<lbrakk> render strs fmt (drop (n - 1) regs @ stack) = Some t; 0 < n; cursor_at p c; p + 2 * length t < 3360 \<rbrakk>
    \<Longrightarrow> print_loop strs regs fmt n (stack, c, len) = Some (put_char NUL (put_text t c))"
proof (induction strs fmt "drop (n - 1) regs @ stack" arbitrary: n stack c len t p rule: render.induct)
  case (1 strs)
  then show ?case by simp
next
  case (2 strs x fmt)
  have room: "make_room c = c" using make_room_id 2 by simp
  show ?case
  proof (cases "x = CHR ''%''")
    case True
    with 2(3) obtain f fmt' v args u where f: "fmt = f # fmt'" and a: "drop (n - 1) regs @ stack = v # args"
      and g: "good_field f v" and u: "render strs fmt' args = Some u" and t: "t = field_text strs f v @ u"
      by (auto split: list.splits if_splits)
    obtain st where st: "argument regs (n + 1) stack = Some (v, st)" "drop n regs @ st = args"
      using argument_next [OF assms 2(4) a] by auto
    obtain c' len' where c': "convert strs regs f (n + 1) (stack, c, len) = Some (st, c', len')"
        "step c' = put_text (field_text strs f v) c"
      using convert_field [OF st(1) g] by blast
    have a': "drop (n - 1) regs @ stack = v # drop (n + 1 - 1) regs @ st" using a st(2) by simp
    have p: "cursor_at (p + 2 * length (field_text strs f v)) (step c')"
      using cursor_at_put_text [OF 2(5)] c'(2) by simp
    have "print_loop strs regs fmt' (n + 1) (st, step c', len' + 2) = Some (put_char NUL (put_text u (step c')))"
      by (rule 2(1) [OF True refl f a' g _ _ p]) (use st(2) u 2(6) t in \<open>simp_all\<close>)
    then show ?thesis using True f room c' st t
      by (simp add: put_text_append step_def)
  next
    case False
    with 2(3) obtain u where u: "render strs fmt (drop (n - 1) regs @ stack) = Some u" and t: "t = x # u"
      and x: "x \<notin> {NUL, CHR ''\<newline>'', CHR 0x0D, CHR 0x09}"
      by (auto split: if_splits)
    have p: "cursor_at (p + 2) (step (put_char x c))"
      using cursor_at_put_text [OF 2(5), of "[x]"] by (simp add: step_put_char)
    have "print_loop strs regs fmt n (stack, step (put_char x c), len + 2) = Some (put_char NUL (put_text u (step (put_char x c))))"
      by (rule 2(2) [OF False _ refl u 2(4) p]) (use x 2(6) t in \<open>simp_all\<close>)
    then show ?thesis using False x room t
      by (simp add: step_put_char Let_def) (simp add: step_def put_char_def)
  qed
qed

lemma render_no_NUL: "render strs fmt args = Some t \<Longrightarrow> NUL \<notin> set fmt"
proof (induction strs fmt args arbitrary: t rule: render.induct)
  case (2 strs x fmt args)
  show ?case
  proof (cases "x = CHR ''%''")
    case True
    with 2(3) obtain f fmt' v args' u where f: "fmt = f # fmt'" "args = v # args'" "good_field f v"
      "render strs fmt' args' = Some u"
      by (auto split: list.splits if_splits)
    with 2(1) [OF True refl f(1,2,3,4)] True show ?thesis by (auto simp: good_field_def NUL_def)
  next
    case False
    with 2 show ?thesis by (auto split: if_splits)
  qed
qed simp

lemma offset_eq: "i < 2 ^ 16 \<Longrightarrow> j < 2 ^ 16 \<Longrightarrow> SCREEN + of_nat i = SCREEN + of_nat j \<longleftrightarrow> i = j"
  by (simp add: of_nat_eq_iff word_of_nat_eq_iff take_bit_nat_def)

lemma screen_put_text_before:
  "cursor_at p c \<Longrightarrow> q < p \<Longrightarrow> p + 2 * length s < 2 ^ 16 \<Longrightarrow> screen (put_text s c) (SCREEN + of_nat q) = screen c (SCREEN + of_nat q)"
proof (induction s arbitrary: p c)
  case (Cons x s)
  have "cursor_at (p + 2) (put_text [x] c)" using cursor_at_put_text [OF Cons.prems(1), of "[x]"] by simp
  from Cons.IH [OF this] Cons.prems show ?case
    using offset_eq [of q p] by (simp add: cursor_at_def)
qed simp

lemma screen_put_text:
  "cursor_at p c \<Longrightarrow> i < length s \<Longrightarrow> p + 2 * length s < 2 ^ 16 \<Longrightarrow> screen (put_text s c) (SCREEN + of_nat (p + 2 * i)) = s ! i"
proof (induction s arbitrary: p c i)
  case (Cons x s)
  have c: "cursor_at (p + 2) (put_text [x] c)" using cursor_at_put_text [OF Cons.prems(1), of "[x]"] by simp
  show ?case
  proof (cases i)
    case 0
    with screen_put_text_before [OF c, of p s] Cons.prems show ?thesis by (simp add: cursor_at_def)
  next
    case (Suc j)
    with Cons.IH [OF c, of j] Cons.prems show ?thesis by (simp add: algebra_simps)
  qed
qed simp

text \<open>Scrolling moves every row up by one; the row behind the last one stays.\<close>

lemma at_offset: "p < 2 ^ 16 \<Longrightarrow> a = SCREEN + of_nat p \<longleftrightarrow> unat (a - SCREEN) = p"
proof -
  assume "p < 2 ^ 16"
  then have "unat (of_nat p :: u64) = p" by (simp add: unat_of_nat take_bit_nat_def)
  moreover have "a = SCREEN + of_nat p \<longleftrightarrow> a - SCREEN = of_nat p" by (auto simp: algebra_simps)
  ultimately show ?thesis by (auto simp: word_unat_eq_iff)
qed

definition scroll_byte :: "nat \<Rightarrow> bytes \<Rightarrow> bytes" where
  "scroll_byte p m = m(SCREEN + of_nat p := m (SCREEN + of_nat p + 160))"

lemma scroll_bytes_from:
  "b + n \<le> 3360 \<Longrightarrow> fold (\<lambda>k. scroll_byte (b + k)) [0..<n] m
   = (\<lambda>a. if b \<le> unat (a - SCREEN) \<and> unat (a - SCREEN) < b + n then m (a + 160) else m a)"
proof (induction n)
  case (Suc n)
  have u: "unat (of_nat (b + n) + 160 :: u64) = b + n + 160"
    using Suc.prems by (simp add: unat_word_ariths unat_of_nat take_bit_nat_def)
  have e: "a = SCREEN + of_nat (b + n) \<longleftrightarrow> unat (a - SCREEN) = b + n" for a
    by (rule at_offset) (use Suc.prems in simp)
  have f: "SCREEN + of_nat (b + n) + 160 - SCREEN = of_nat (b + n) + 160" by simp
  have IH: "fold (\<lambda>k. scroll_byte (b + k)) [0..<n] m
      = (\<lambda>a. if b \<le> unat (a - SCREEN) \<and> unat (a - SCREEN) < b + n then m (a + 160) else m a)"
    using Suc by simp
  have "fold (\<lambda>k. scroll_byte (b + k)) [0..<Suc n] m = scroll_byte (b + n)
      (\<lambda>a. if b \<le> unat (a - SCREEN) \<and> unat (a - SCREEN) < b + n then m (a + 160) else m a)"
    by (simp add: IH)
  also have "\<dots> = (\<lambda>a. if b \<le> unat (a - SCREEN) \<and> unat (a - SCREEN) < b + Suc n then m (a + 160) else m a)"
  proof (rule ext)
    fix a
    show "scroll_byte (b + n) (\<lambda>a. if b \<le> unat (a - SCREEN) \<and> unat (a - SCREEN) < b + n then m (a + 160) else m a) a
      = (if b \<le> unat (a - SCREEN) \<and> unat (a - SCREEN) < b + Suc n then m (a + 160) else m a)"
    proof (cases "unat (a - SCREEN) = b + n")
      case True
      then have "SCREEN + of_nat (b + n) = a" by (metis e)
      then have "a + 160 - SCREEN = of_nat (b + n) + 160" by (metis f)
      then have "unat (a + 160 - SCREEN) = b + n + 160" by (simp only: u)
      then show ?thesis using True \<open>SCREEN + of_nat (b + n) = a\<close> by (simp add: scroll_byte_def del: of_nat_add)
    next
      case False
      then show ?thesis using e [of a] by (auto simp: scroll_byte_def simp del: of_nat_add)
    qed
  qed
  finally show ?case .
qed (auto simp: fun_eq_iff)

lemma scroll_fold: "scroll m = fold (\<lambda>l. fold (\<lambda>k. scroll_byte (160 * l + k)) [0..<160]) [0..<21] m"
proof -
  have "(\<lambda>m :: bytes. m(SCREEN + 160 * of_nat l + of_nat k := m (SCREEN + 160 * (of_nat l + 1) + of_nat k)))
      = scroll_byte (160 * l + k)" for l k
    by (rule ext) (simp add: scroll_byte_def algebra_simps)
  then show ?thesis unfolding scroll_def by simp
qed

lemma scroll_rows: "fold (\<lambda>l. fold (\<lambda>k. scroll_byte (160 * l + k)) [0..<160]) [0..<n] m = fold scroll_byte [0..<160 * n] m"
proof (induction n)
  case (Suc n)
  have "[0..<160 * Suc n] = [0..<160 * n] @ map ((+) (160 * n)) [0..<160]"
    by (rule nth_equalityI) (auto simp: nth_append nth_upt)
  then show ?case using Suc by (simp add: fold_map comp_def)
qed simp

lemma scroll_eq: "scroll m = (\<lambda>a. if unat (a - SCREEN) < 3360 then m (a + 160) else m a)"
  using scroll_bytes_from [of 0 3360 m] by (simp add: scroll_fold scroll_rows)

lemma make_room_scrolls:
  "cursor_at p c \<Longrightarrow> 3360 \<le> p \<Longrightarrow> p < 2 ^ 16 \<Longrightarrow> make_room c = c\<lparr>screen := scroll (screen c), outputstring := SCREEN + 3200\<rparr>"
  using SCREEN_less [of p] by (simp add: make_room_def cursor_at_def)

lemma print_loop_make_room:
  "fmt \<noteq> [] \<Longrightarrow> print_loop strs regs fmt n (stack, make_room c, len) = print_loop strs regs fmt n (stack, c, len)"
proof (cases fmt)
  case (Cons x fmt')
  have "make_room (make_room c) = make_room c"
    by (simp add: make_room_def SCREEN_num)
  with Cons show ?thesis by (simp only: print_loop.simps)
qed simp

definition text_start :: "nat \<Rightarrow> nat" where
  "text_start p = (if p < 160 * 21 then p else 160 * 20)"

lemma cursor_make_room: "cursor_at p c \<Longrightarrow> p < 2 ^ 16 \<Longrightarrow> cursor_at (text_start p) (make_room c)"
  using make_room_scrolls [of p c] make_room_id [of p c]
  by (cases "p < 3360") (simp_all add: text_start_def, simp_all add: cursor_at_def)

lemma screen_make_room:
  assumes "cursor_at p c" "p < 2 ^ 16" "q < text_start p"
  shows "screen (make_room c) (SCREEN + of_nat q) = screen c (SCREEN + of_nat (if p < 160 * 21 then q else q + 160))"
proof (cases "p < 3360")
  case True
  with assms show ?thesis by (simp add: make_room_id)
next
  case False
  then have "q < 3200" using assms by (simp add: text_start_def)
  then have "unat (of_nat q :: u64) = q" by (simp add: unat_of_nat take_bit_nat_def)
  with False assms \<open>q < 3200\<close> show ?thesis
    by (simp add: make_room_scrolls scroll_eq algebra_simps)
qed

lemma kprintf_render:
  assumes "length regs = 5" "render strs fmt (regs @ stack) = Some t" "fmt \<noteq> []"
    and "cursor_at p c" "p < 2 ^ 16" "text_start p + 2 * length t < 3360"
  shows "kprintf strs regs stack (fmt @ [NUL]) c = Some (put_char NUL (put_text t (make_room c)))"
proof -
  have "print_loop strs regs fmt 1 (stack, make_room c, 2) = Some (put_char NUL (put_text t (make_room c)))"
    by (rule print_loop_renders [OF assms(1) _ _ cursor_make_room [OF assms(4,5)] assms(6)]) (use assms(2) in simp_all)
  then show ?thesis
    using render_no_NUL [OF assms(2)] print_loop_make_room [OF assms(3)] by (simp add: kprintf_def)
qed

text \<open>C21: Printing: for a format of plain characters and the conversions percent s, c, x, p, and d of a number
  that is not negative, whose arguments are the saved registers and then the words on the stack, the text that the
  format denotes stands in the cells from the cursor on, a zero byte behind it, and the cursor is at that byte --
  when the text ends before the end of the twenty-one rows.  With the cursor behind the last row, the rows first move
  up by one and the text starts at the last row; in both cases nothing else in front of the text changes.\<close>

theorem kprintf_renders_format:
  assumes "length regs = 5" "render strs fmt (regs @ stack) = Some t" "fmt \<noteq> []"
    and "outputstring c = SCREEN + of_nat p" "p < 2 ^ 16" "text_start p + 2 * length t < 160 * 21"
  shows "\<exists>c'. kprintf strs regs stack (fmt @ [NUL]) c = Some c' \<and>
    outputstring c' = SCREEN + of_nat (text_start p + 2 * length t) \<and> screen c' (outputstring c') = NUL \<and>
    (\<forall>i < length t. screen c' (SCREEN + of_nat (text_start p + 2 * i)) = t ! i) \<and>
    (\<forall>q < text_start p. screen c' (SCREEN + of_nat q) =
       screen c (SCREEN + of_nat (if p < 160 * 21 then q else q + 160)))"
proof -
  let ?p = "text_start p" and ?c = "make_room c"
  have c0: "cursor_at p c" using assms(4) by (simp add: cursor_at_def)
  have c: "cursor_at ?p ?c" by (rule cursor_make_room [OF c0 assms(5)])
  have e: "outputstring (put_text t ?c) = SCREEN + of_nat (?p + 2 * length t)"
    using cursor_at_put_text [OF c, of t] by (simp add: cursor_at_def)
  have n: "SCREEN + of_nat q \<noteq> SCREEN + of_nat (?p + 2 * length t)" if "q < ?p + 2 * length t" for q
    using offset_eq [of q "?p + 2 * length t"] that assms(6) by simp
  have r: "?p + 2 * length t < 3360" using assms(6) by simp
  show ?thesis
    unfolding kprintf_render [OF assms(1-3) c0 assms(5) r]
    by (intro exI [of _ "put_char NUL (put_text t ?c)"] conjI allI impI)
      (use n assms(6) screen_put_text [OF c, of _ t] screen_put_text_before [OF c, of _ t]
          screen_make_room [OF c0 assms(5)] in
        \<open>auto simp: put_char_def e simp del: of_nat_add of_nat_mult\<close>)
qed

theorem kprintf_renders_format_witness:
  "\<exists>c'. kprintf (\<lambda>a. if a = 4096 then ''init'' @ [NUL] else []) [4096, 107, 0xff, 0, 1] [7]
        (''%s: %d %p%c%x %d'' @ [NUL]) \<lparr>screen = \<lambda>_. NUL, outputstring = SCREEN + of_nat 3360\<rparr> = Some c' \<and>
    (\<forall>i < 18. screen c' (SCREEN + of_nat (3200 + 2 * i)) = (''init: 107 0xff'' @ [NUL] @ ''1 7'') ! i)"
proof -
  have d: "dec_text 107 = ''107''" "dec_text 7 = ''7''" "hex_text 255 = ''ff''" "hex_text 1 = ''1''" "hex_text (Suc 0) = ''1''"
    by code_simp+
  have r: "render (\<lambda>a. if a = 4096 then ''init'' @ [NUL] else []) ''%s: %d %p%c%x %d'' ([4096, 107, 0xff, 0, 1] @ [7])
      = Some (''init: 107 0xff'' @ [NUL] @ ''1 7'')"
    by (simp add: good_field_def field_text_def d cstr_def NUL_def char_of_def)
  let ?t = "''init: 107 0xff'' @ [NUL] @ ''1 7''" and ?c = "\<lparr>screen = \<lambda>_. NUL, outputstring = SCREEN + of_nat 3360\<rparr>"
  have s: "text_start 3360 = 3200" by (simp add: text_start_def)
  have side: "length [4096, 107, 0xff, 0, 1 :: u64] = 5" "''%s: %d %p%c%x %d'' \<noteq> []"
      "outputstring ?c = SCREEN + of_nat 3360" "(3360::nat) < 2 ^ 16" "text_start 3360 + 2 * length ?t < 160 * 21"
    by (simp_all add: s)
  from kprintf_renders_format [OF side(1) r side(2-5)] obtain c' where
    "kprintf (\<lambda>a. if a = 4096 then ''init'' @ [NUL] else []) [4096, 107, 0xff, 0, 1] [7]
        (''%s: %d %p%c%x %d'' @ [NUL]) ?c = Some c'"
    and t: "\<forall>i < length ?t. screen c' (SCREEN + of_nat (text_start 3360 + 2 * i)) = ?t ! i"
    by blast
  moreover have "length ?t = 18" by simp
  ultimately show ?thesis unfolding s by metis
qed

section \<open>What typing does\<close>

lemma echo_total: "\<exists>c'. echo x c = Some c'"
  by (simp add: echo_def kprintf_def cstr_Cons NUL_def convert_def argument_def getargument_def Let_def)

lemma kputs_total: "\<exists>c'. kputs ''\<newline>'' c = Some c'" "\<exists>c'. kputs '' '' c = Some c'"
  by (simp_all add: kputs_def kprintf_def cstr_Cons NUL_def Let_def)

text \<open>The reference: a line editor.  Its state is the caps and shift modifiers and the line.\<close>

type_synonym editor = "bool \<times> bool \<times> string"

definition key_char :: "bool \<Rightarrow> u8 \<Rightarrow> char" where
  "key_char upper code = (if upper then scantoUchar else scantochar) ! unat code"

fun press :: "u8 \<Rightarrow> editor \<Rightarrow> editor" where
  "press code (caps, shift, line) =
     (if 0x80 \<le> code then (caps, shift, line)
      else if code = 58 then (\<not> caps, shift, line)
      else if code = 42 \<or> code = 54 then (caps, True, line)
      else if code = 14 then (caps, shift, butlast line)
      else if code = 28 then (caps, shift, line @ ''\<newline>'')
      else (caps, False, line @ [key_char (shift \<or> caps) code]))"

text \<open>The keys that keep the line in the buffer: not control, no key without a character, backspace on two
  characters or more.\<close>

fun acceptable :: "u8 \<Rightarrow> editor \<Rightarrow> bool" where
  "acceptable code (caps, shift, line) =
     (0x80 \<le> code \<or> code \<in> {58, 42, 54} \<or> (code = 14 \<and> 2 \<le> length line) \<or>
      (code = 28 \<and> length line < 1023) \<or>
      (code < 100 \<and> code \<notin> {14, 28, 29} \<and> key_char (shift \<or> caps) code \<noteq> NUL \<and> length line < 1023))"

definition edits :: "editor \<Rightarrow> keyboard \<Rightarrow> bool" where
  "edits e k = (case e of (caps, shift, line) \<Rightarrow>
     controlflag k = (if caps then 1 else 0) OR (if shift then 2 else 0) \<and>
     kb_size k = int (length line) \<and> address_of_buf k = terminal_buf k + of_nat (length line) \<and>
     length (kb_buffer k) = 1024 \<and> length line < 1024 \<and> NUL \<notin> set line \<and>
     take (length line) (kb_buffer k) = line \<and> kb_buffer k ! length line = NUL \<and>
     0 < unat (terminal_buf k) \<and> unat (terminal_buf k) + 1024 < 2 ^ 64)"

lemma high_code: "code AND 0x80 \<noteq> (0 :: u8) \<longleftrightarrow> 0x80 \<le> code"
proof -
  have "\<forall>n \<in> set [0..<256]. (of_nat n AND 0x80 \<noteq> (0 :: u8)) = (0x80 \<le> (of_nat n :: u8))" by code_simp
  moreover have "unat code \<in> set [0..<256]" using unsigned_less [of code, where ?'a = nat] by simp
  ultimately have "(of_nat (unat code) AND 0x80 \<noteq> (0 :: u8)) = (0x80 \<le> (of_nat (unat code) :: u8))" by blast
  then show ?thesis by simp
qed

lemma small_nat_word: "n < 2000 \<Longrightarrow> unat (of_nat n :: u64) = n"
  by (simp add: unat_of_nat take_bit_nat_def)

lemma poke_at: "a = terminal_buf k + of_nat n \<Longrightarrow> n < 1024 \<Longrightarrow> length (kb_buffer k) = 1024 \<Longrightarrow>
    poke a x k = Some (k\<lparr>kb_buffer := (kb_buffer k)[n := x]\<rparr>)"
  by (simp add: poke_def small_nat_word)

lemma peek_at: "address_of_buf k = terminal_buf k + of_nat n \<Longrightarrow> n < 1024 \<Longrightarrow> length (kb_buffer k) = 1024 \<Longrightarrow>
    peek k = Some (kb_buffer k ! n)"
  by (simp add: peek_def small_nat_word)

lemma edits_address: "edits (caps, shift, line) k \<Longrightarrow> address_of_buf k \<noteq> 0"
proof
  assume e: "edits (caps, shift, line) k" and z: "address_of_buf k = 0"
  then have a: "unat (terminal_buf k) + length line < 2 ^ 64" "terminal_buf k + of_nat (length line) = 0" "0 < unat (terminal_buf k)"
      "length line < 1024"
    by (auto simp: edits_def)
  have "unat (terminal_buf k + of_nat (length line)) = unat (terminal_buf k) + length line"
    using a(1,4) by (subst unat_add_lem [THEN iffD1]) (simp_all add: small_nat_word)
  with a show False by simp
qed

lemma store_key_at:
  assumes "edits (caps, shift, line) k" "length line < 1023"
  shows "store_key x k = Some (k\<lparr>kb_buffer := (kb_buffer k)[length line := x, Suc (length line) := NUL]\<rparr>)"
proof -
  have "poke (address_of_buf k) x k = Some (k\<lparr>kb_buffer := (kb_buffer k)[length line := x]\<rparr>)"
    by (rule poke_at) (use assms in \<open>auto simp: edits_def\<close>)
  moreover have "poke (address_of_buf k + 1) NUL (k\<lparr>kb_buffer := (kb_buffer k)[length line := x]\<rparr>)
      = Some (k\<lparr>kb_buffer := (kb_buffer k)[length line := x, Suc (length line) := NUL]\<rparr>)"
    using assms poke_at [of "address_of_buf k + 1" "k\<lparr>kb_buffer := (kb_buffer k)[length line := x]\<rparr>" "Suc (length line)" NUL]
    by (auto simp: edits_def)
  ultimately show ?thesis
    using edits_address [OF assms(1)] assms(1) by (simp add: store_key_def edits_def)
qed

text \<open>A key with a character: stored and settled.\<close>

lemma key_typed:
  assumes "edits (caps, shift, line) k" "length line < 1023" "x \<noteq> NUL"
    and "f = (if caps' then 1 else 0) OR (if shift' then 2 else 0)"
  shows "\<exists>k'. do { k \<leftarrow> store_key x (k\<lparr>controlflag := f\<rparr>); settle k } = Some k' \<and> edits (caps', shift', line @ [x]) k'"
proof -
  let ?k = "k\<lparr>controlflag := f\<rparr>"
  let ?b = "(kb_buffer k)[length line := x, Suc (length line) := NUL]"
  have e: "edits (caps', shift', line) ?k" using assms(1,4) by (simp add: edits_def)
  have b: "take (Suc (length line)) ?b = line @ [x]" "?b ! length line = x" "?b ! Suc (length line) = NUL"
    using assms by (auto simp: edits_def take_Suc_conv_app_nth)
  have p: "peek (?k\<lparr>kb_buffer := ?b\<rparr>) = Some x"
    using peek_at [of "?k\<lparr>kb_buffer := ?b\<rparr>" "length line"] b(2) assms(1) by (simp add: edits_def)
  have s: "settle (?k\<lparr>kb_buffer := ?b\<rparr>) = Some (?k\<lparr>kb_buffer := ?b, address_of_buf := address_of_buf k + 1, kb_size := kb_size k + 1\<rparr>)"
    using p assms by (simp add: settle_def edits_def)
  show ?thesis
    using store_key_at [OF e assms(2), of x] s b assms by (auto simp: edits_def)
qed


lemma controlflag_bits:
  "edits (caps, shift, line) k \<Longrightarrow> controlflag k AND 4 = 0"
  "edits (caps, shift, line) k \<Longrightarrow> controlflag k AND 2 \<noteq> 0 \<longleftrightarrow> shift"
  "edits (caps, shift, line) k \<Longrightarrow> controlflag k AND 1 \<noteq> 0 \<longleftrightarrow> caps"
  by (auto simp: edits_def)

lemma aget_tables:
  "code < 100 \<Longrightarrow> aget scantochar (unat (code :: u8)) = Some (scantochar ! unat code)"
  "code < 100 \<Longrightarrow> aget scantoUchar (unat code) = Some (scantoUchar ! unat code)"
  by (auto simp: aget_def scantochar_def scantoUchar_def word_less_nat_alt)

lemma plain_key_chars:
  assumes "edits (caps, shift, line) k" "code < 100"
  shows "plain_key code (k, c) =
    do { k \<leftarrow> store_key (key_char (shift \<or> caps) code) (k\<lparr>controlflag := (if caps then 1 else 0)\<rparr>);
         c \<leftarrow> echo (key_char (shift \<or> caps) code) c; Some (k, c) }"
proof -
  have f: "(if caps then 1 else 0) = (if shift then controlflag k AND 0xfd else controlflag k)"
    using assms(1) by (auto simp: edits_def)
  then have u: "\<not> shift \<Longrightarrow> k\<lparr>controlflag := (if caps then 1 else 0)\<rparr> = k"
    by (cases k) simp
  show ?thesis
    using controlflag_bits [OF assms(1)] aget_tables [OF assms(2)] f u
    by (cases k; cases caps; cases shift) (simp_all add: plain_key_def key_char_def)
qed

lemma kscanf_plain:
  assumes "code < 100" "code \<notin> {14, 28, 29, 42, 54, 58}"
  shows "kscanf code (k, c) = do { (k, c) \<leftarrow> plain_key code (k, c); k \<leftarrow> settle k; Some (k, c) }"
proof -
  have "\<not> 0x80 \<le> code" using assms(1) by (simp add: word_le_nat_alt word_less_nat_alt)
  then show ?thesis using assms(2) high_code [of code] by (simp add: kscanf_def)
qed

lemma press_plain_key:
  assumes "edits (caps, shift, line) k" "length line < 1023" "code < 100" "key_char (shift \<or> caps) code \<noteq> NUL"
  shows "\<exists>k' c'. do { (k, c) \<leftarrow> plain_key code (k, c); k \<leftarrow> settle k; Some (k, c) } = Some (k', c') \<and>
    edits (caps, False, line @ [key_char (shift \<or> caps) code]) k'"
proof -
  let ?x = "key_char (shift \<or> caps) code"
  obtain k' where k': "do { k \<leftarrow> store_key ?x (k\<lparr>controlflag := (if caps then 1 else 0)\<rparr>); settle k } = Some k'"
      "edits (caps, False, line @ [?x]) k'"
    using key_typed [OF assms(1,2,4), of "if caps then 1 else 0" caps False] by auto
  then obtain u where u: "store_key ?x (k\<lparr>controlflag := (if caps then 1 else 0)\<rparr>) = Some u" "settle u = Some k'"
    by (auto split: bind_splits)
  obtain c' where c': "echo ?x c = Some c'" using echo_total by blast
  show ?thesis using u k'(2) c' by (simp add: plain_key_chars [OF assms(1,3)])
qed

lemma press_enter:
  assumes "edits (caps, shift, line) k" "length line < 1023"
  shows "\<exists>k' c'. do { (k, c) \<leftarrow> enter_key 28 (k, c); k \<leftarrow> settle k; Some (k, c) } = Some (k', c') \<and>
    edits (caps, shift, line @ ''\<newline>'') k'"
proof -
  let ?x = "CHR ''\<newline>''"
  have f: "controlflag k = (if caps then 1 else 0) OR (if shift then 2 else 0)" using assms(1) by (simp add: edits_def)
  have x0: "?x \<noteq> NUL" by (simp add: NUL_def)
  obtain k' where k': "do { k \<leftarrow> store_key ?x (k\<lparr>controlflag := controlflag k\<rparr>); settle k } = Some k'"
      "edits (caps, shift, line @ [?x]) k'"
    using key_typed [OF assms x0 f] by blast
  then obtain u where u: "store_key ?x k = Some u" "settle u = Some k'" by (auto split: bind_splits)
  obtain c' where c': "kputs ''\<newline>'' c = Some c'" using kputs_total by blast
  have x: "aget scantochar 28 = Some ?x" by (simp add: aget_def scantochar_def)
  show ?thesis using u k' c' x by (simp add: enter_key_def)
qed

lemma press_backspace:
  assumes "edits (caps, shift, line) k" "2 \<le> length line"
  shows "\<exists>k' c'. do { (k, c) \<leftarrow> backspace (k, c); k \<leftarrow> settle k; Some (k, c) } = Some (k', c') \<and>
    edits (caps, shift, butlast line) k'"
proof -
  obtain n where n: "length line = Suc (Suc n)" using assms(2) by (metis Suc_le_D numeral_2_eq_2 Suc_le_mono le_Suc_ex add_Suc)
  have e: "kb_size k = int n + 2" "address_of_buf k = terminal_buf k + of_nat n + 2" "length (kb_buffer k) = 1024"
    "n < 1022" "take (Suc (Suc n)) (kb_buffer k) = line" "NUL \<notin> set line"
    using assms(1) n by (auto simp: edits_def algebra_simps)
  let ?k = "k\<lparr>address_of_buf := terminal_buf k + of_nat n, kb_size := int n, kb_buffer := (kb_buffer k)[Suc n := NUL]\<rparr>"
  obtain c' where c': "kputs '' '' (c\<lparr>outputstring := outputstring c - 2\<rparr>) = Some c'" using kputs_total by blast
  let ?a = "1 + (terminal_buf k + of_nat n)"
  have "poke ?a NUL (k\<lparr>address_of_buf := ?a, kb_size := 1 + int n\<rparr>)
      = Some (k\<lparr>address_of_buf := ?a, kb_size := 1 + int n, kb_buffer := (kb_buffer k)[Suc n := NUL]\<rparr>)"
    using e poke_at [of ?a "k\<lparr>address_of_buf := ?a, kb_size := 1 + int n\<rparr>" "Suc n"] by simp
  then have b: "backspace (k, c) = Some (?k, c'\<lparr>outputstring := outputstring c - 2\<rparr>)"
    using c' e by (simp add: backspace_def Let_def)
  have "kb_buffer k ! n = line ! n" using e by (metis lessI less_SucI nth_take)
  then have "kb_buffer k ! n \<noteq> NUL" using e(6) n by (metis lessI less_SucI nth_mem)
  then have "settle ?k = Some (?k\<lparr>address_of_buf := terminal_buf k + of_nat n + 1, kb_size := int n + 1\<rparr>)"
    using e peek_at [of ?k n] by (simp add: settle_def)
  moreover have "edits (caps, shift, butlast line) (?k\<lparr>address_of_buf := terminal_buf k + of_nat n + 1, kb_size := int n + 1\<rparr>)"
    using assms(1) e n by (auto simp: edits_def butlast_conv_take min_def dest: in_set_takeD)
  ultimately show ?thesis using b by simp
qed

lemma kscanf_presses:
  assumes "edits (caps, shift, line) k" "acceptable code (caps, shift, line)"
  shows "\<exists>k' c'. kscanf code (k, c) = Some (k', c') \<and> edits (press code (caps, shift, line)) k'"
proof -
  consider (release) "0x80 \<le> code" | (caps) "code = 58" | (shift) "code = 42 \<or> code = 54" | (erase) "code = 14" "2 \<le> length line"
    | (enter) "code = 28" "length line < 1023"
    | (plain) "code < 100" "code \<notin> {14, 28, 29, 58, 42, 54}" "key_char (shift \<or> caps) code \<noteq> NUL" "length line < 1023"
    using assms(2) by auto
  then show ?thesis
  proof cases
    case release
    then show ?thesis using assms by (simp add: kscanf_def high_code)
  next
    case caps
    then show ?thesis using assms(1) by (auto simp: kscanf_def edits_def)
  next
    case shift
    then show ?thesis using assms(1) by (auto simp: kscanf_def edits_def)
  next
    case erase
    then show ?thesis using press_backspace [OF assms(1)] by (simp add: kscanf_def)
  next
    case enter
    then show ?thesis using press_enter [OF assms(1)] by (simp add: kscanf_def)
  next
    case plain
    then have "\<not> 0x80 \<le> code" by (simp add: word_le_nat_alt word_less_nat_alt)
    then show ?thesis using plain press_plain_key [OF assms(1) plain(4,1,3)] high_code [of code]
      by (simp add: kscanf_def)
  qed
qed

fun type_keys :: "u8 list \<Rightarrow> keyboard \<times> console \<Rightarrow> (keyboard \<times> console) option" where
  "type_keys [] kc = Some kc"
| "type_keys (code # codes) kc = do { kc \<leftarrow> kscanf code kc; type_keys codes kc }"

fun accepted :: "u8 list \<Rightarrow> editor \<Rightarrow> bool" where
  "accepted [] e = True"
| "accepted (code # codes) e = (acceptable code e \<and> accepted codes (press code e))"

lemma type_keys_presses:
  "edits e k \<Longrightarrow> accepted codes e \<Longrightarrow> \<exists>k' c'. type_keys codes (k, c) = Some (k', c') \<and> edits (fold press codes e) k'"
proof (induction codes arbitrary: e k c)
  case (Cons code codes)
  obtain caps shift line where e: "e = (caps, shift, line)" by (cases e) auto
  obtain k1 c1 where "kscanf code (k, c) = Some (k1, c1)" "edits (press code e) k1"
    using kscanf_presses [of caps shift line k code c] Cons.prems e by auto
  with Cons.IH [of "press code e" k1 c1] Cons.prems show ?case by simp
qed auto

lemma edits_buffer: "edits (caps, shift, line) k \<Longrightarrow> kb_buffer k = line @ NUL # drop (Suc (length line)) (kb_buffer k)"
  by (auto simp: edits_def) (metis Cons_nth_drop_Suc append_take_drop_id)

lemma edits_size: "edits (caps, shift, line) k \<Longrightarrow> get_terminal_size k = Some (length line)"
proof -
  assume e: "edits (caps, shift, line) k"
  have "cstr (kb_buffer k) = line" "terminated (kb_buffer k)"
    using e by (subst edits_buffer [OF e], simp add: edits_def)+
  then show ?thesis by (simp add: get_terminal_size_def)
qed

lemma reset_terminal_empty:
  assumes "edits (caps, shift, line) k"
  shows "\<exists>k'. reset_terminal k = Some k' \<and> edits (caps, shift, '''') k'"
  using assms by (simp add: reset_terminal_def for_n_fill edits_def map_replicate_const del: for_n.simps)

lemma poll_line:
  assumes "edits (caps, shift, t @ ''\<newline>'') k" "length t < length ab"
  shows "\<exists>k'. poll_terminal before ab 0 k = Some (Inl (t @ ''\<newline>'' @ drop (Suc (length t)) ab, int (length t) + 1, k'))
    \<and> edits (caps, shift, '''') k'"
proof -
  obtain k' where k': "reset_terminal k = Some k'" "edits (caps, shift, '''') k'"
    using reset_terminal_empty [OF assms(1)] by blast
  have n: "length t < 1023" "length (kb_buffer k) = 1024" "take (Suc (length t)) (kb_buffer k) = t @ ''\<newline>''"
    using assms(1) by (auto simp: edits_def)
  then have x: "kb_buffer k ! length t = CHR ''\<newline>''" by (metis lessI nth_append_length nth_take)
  have u: "unat (of_nat (length t) + 1 :: u64) = Suc (length t)"
    using n(1) by (simp add: unat_word_ariths small_nat_word)
  have "kmemcpychar (kb_buffer k) ab (of_nat (Suc (length t))) = Some (t @ ''\<newline>'' @ drop (Suc (length t)) ab)"
    using n assms(2) u by (simp add: kmemcpychar_eq add.commute)
  then show ?thesis
    using k' x n edits_size [OF assms(1)] by (simp add: poll_terminal_def)
qed

text \<open>C22: The terminal: when keys are typed that a line editor with caps lock, shift and backspace accepts -- no
  control key, no key without a character, no backspace in a line of less than two characters, never more than 1023
  characters -- and its line has fewer than 1023 characters when Enter follows, the interrupt handler puts exactly the line of that editor
  into the buffer, and a reader that polls the terminal with the size 0, as \<^verbatim>\<open>gets\<close> does, into a buffer longer than the
  line, gets it with a newline, with the rest of its own buffer untouched, and leaves an
  empty line behind.  Nothing checks the length of the reader's buffer.\<close>

theorem typed_line_is_read:
  assumes "edits e k" "accepted codes e" "fold press codes e = (caps, shift, t)"
    and "length t < 1023" "length t < length ab"
  shows "\<exists>k' c' k''. type_keys (codes @ [28]) (k, c) = Some (k', c') \<and>
    poll_terminal before ab 0 k' = Some (Inl (t @ ''\<newline>'' @ drop (Suc (length t)) ab, int (length t) + 1, k'')) \<and>
    edits (caps, shift, '''') k''"
proof -
  have "accepted (codes @ [28]) e"
    using assms(2-4) by (induction codes arbitrary: e) auto
  then obtain k' c' where "type_keys (codes @ [28]) (k, c) = Some (k', c')" "edits (fold press (codes @ [28]) e) k'"
    using type_keys_presses [OF assms(1)] by blast
  moreover have "fold press (codes @ [28]) e = (caps, shift, t @ ''\<newline>'')" using assms(3) by simp
  ultimately show ?thesis using poll_line [of caps shift t k' ab before] assms(5) by auto
qed

theorem typed_line_is_read_witness:
  "\<exists>k' c' k''. type_keys ([42, 31, 24, 25, 14, 23] @ [28])
      (\<lparr>controlflag = 0, kb_size = 0, address_of_buf = 4096, terminal_buf = 4096, kb_buffer = replicate 1024 NUL\<rparr>,
       \<lparr>screen = \<lambda>_. NUL, outputstring = SCREEN\<rparr>) = Some (k', c') \<and>
    poll_terminal NUL ''xxxxxx'' 0 k' = Some (Inl (''Soi'' @ ''\<newline>'' @ ''xx'', 4, k''))"
proof -
  let ?k = "\<lparr>controlflag = 0, kb_size = 0, address_of_buf = 4096, terminal_buf = 4096, kb_buffer = replicate 1024 NUL\<rparr>"
  have e: "edits (False, False, '''') ?k" by (simp add: edits_def)
  have a: "accepted [42, 31, 24, 25, 14, 23] (False, False, '''')"
      "fold press [42, 31, 24, 25, 14, 23] (False, False, '''') = (False, False, ''Soi'')"
    by code_simp+
  show ?thesis
    using typed_line_is_read [OF e a, of "''xxxxxx''" "\<lparr>screen = \<lambda>_. NUL, outputstring = SCREEN\<rparr>" NUL] by auto
qed

lemma backspace_short_line:
  assumes "edits (caps, shift, line) k" "length line < 2"
  shows "kscanf 14 (k, c) = None"
proof -
  obtain c' where c': "kputs '' '' (c\<lparr>outputstring := outputstring c - 2\<rparr>) = Some c'" using kputs_total by blast
  have e: "length (kb_buffer k) = 1024" "address_of_buf k = terminal_buf k + of_nat (length line)" "kb_size k = int (length line)"
    using assms(1) by (auto simp: edits_def)
  show ?thesis
  proof (cases "length line = 0")
    case True
    then have "poke (address_of_buf k - 1) NUL u = None" if "terminal_buf u = terminal_buf k" "kb_buffer u = kb_buffer k" for u
      using e that by (simp add: poke_def unsigned_minus_1_eq_mask mask_eq_exp_minus_1)
    then show ?thesis using c' by (simp add: kscanf_def backspace_def Let_def)
  next
    case False
    then have n: "length line = 1" using assms(2) by linarith
    have "poke (terminal_buf k) NUL u = Some (u\<lparr>kb_buffer := (kb_buffer k)[0 := NUL]\<rparr>)"
      if "terminal_buf u = terminal_buf k" "kb_buffer u = kb_buffer k" for u
      using e that poke_at [of "terminal_buf k" u 0] by simp
    then show ?thesis using c' e n by (simp add: kscanf_def backspace_def Let_def settle_def peek_def
          unsigned_minus_1_eq_mask mask_eq_exp_minus_1)
  qed
qed

lemma blank_key_resets:
  assumes "edits (caps, shift, line) k" "code < 100" "code \<notin> {14, 28, 29, 42, 54, 58}"
    and "key_char (shift \<or> caps) code = NUL" "length line < 1023"
  shows "\<exists>k' c'. kscanf code (k, c) = Some (k', c') \<and> edits (caps, False, '''') k'"
proof -
  let ?k = "k\<lparr>controlflag := (if caps then 1 else 0)\<rparr>"
  let ?u = "?k\<lparr>kb_buffer := (kb_buffer k)[length line := NUL, Suc (length line) := NUL]\<rparr>"
  have e: "edits (caps, False, line) ?k" using assms(1) by (simp add: edits_def)
  have s: "store_key NUL ?k = Some ?u" using store_key_at [OF e assms(5)] by simp
  have u: "edits (caps, False, line) ?u"
    using e assms(5) by (auto simp: edits_def)
  obtain k' where k': "reset_terminal ?u = Some k'" "edits (caps, False, '''') k'"
    using reset_terminal_empty [OF u] by blast
  have "peek ?u = Some NUL"
    using peek_at [of ?u "length line"] u by (simp add: edits_def)
  moreover have "kb_size ?u \<noteq> 1024" using assms(1,5) by (auto simp: edits_def)
  ultimately have "settle ?u = Some k'" using k'(1) by (simp add: settle_def)
  moreover obtain c' where "echo NUL c = Some c'" using echo_total by blast
  ultimately show ?thesis
    using s k' by (simp add: kscanf_plain [OF assms(2,3)] plain_key_chars [OF assms(1,2)] assms(4))
qed

lemma full_line_overruns:
  assumes "edits (caps, shift, line) k" "code < 100" "code \<notin> {14, 28, 29, 42, 54, 58}" "length line = 1023"
  shows "kscanf code (k, c) = None"
proof -
  have "store_key x (k\<lparr>controlflag := f\<rparr>) = None" for x f
    using assms(1,4) edits_address [OF assms(1)]
    by (auto simp: edits_def store_key_def poke_def split: bind_splits)
  then show ?thesis by (simp add: kscanf_plain [OF assms(2,3)] plain_key_chars [OF assms(1,2)])
qed

text \<open>C23: Where the handler leaves the line editor: backspace in a line of less than two characters writes or reads
  in front of the buffer; a key without a character (Escape, Tab, Alt) empties the line; and the character number
  1024 puts its terminator behind the buffer.\<close>

theorem kscanf_line_ends:
  assumes "edits (caps, shift, line) k"
  shows "(length line < 2 \<longrightarrow> kscanf 14 (k, c) = None) \<and>
    (code < 100 \<and> code \<notin> {14, 28, 29, 42, 54, 58} \<and> key_char (shift \<or> caps) code = NUL \<and> length line < 1023 \<longrightarrow>
      (\<exists>k' c'. kscanf code (k, c) = Some (k', c') \<and> edits (caps, False, '''') k')) \<and>
    (code < 100 \<and> code \<notin> {14, 28, 29, 42, 54, 58} \<and> length line = 1023 \<longrightarrow> kscanf code (k, c) = None)"
  using backspace_short_line [OF assms] blank_key_resets [OF assms] full_line_overruns [OF assms] by blast

theorem kscanf_line_ends_witness:
  "kscanf 14 (\<lparr>controlflag = 0, kb_size = 1, address_of_buf = 4097, terminal_buf = 4096, kb_buffer = ''a'' @ replicate 1023 NUL\<rparr>,
     \<lparr>screen = \<lambda>_. NUL, outputstring = SCREEN\<rparr>) = None"
proof -
  have e: "edits (False, False, ''a'')
      \<lparr>controlflag = 0, kb_size = 1, address_of_buf = 4097, terminal_buf = 4096, kb_buffer = ''a'' @ replicate 1023 NUL\<rparr>"
    by (simp add: edits_def NUL_def)
  show ?thesis using kscanf_line_ends [OF e] by simp
qed

end
