(* ===== verification/Disk.thy ===== *)
theory Disk
  imports Klibc
begin

text \<open>
  The disk: the search of the PCI buses for an AHCI controller, its ports, and the commands that read and write
  sectors (\<^verbatim>\<open>sys/pci.c\<close> with the layouts of \<^verbatim>\<open>include/sys/ahci.h\<close>).  The controller is hardware: its registers are
  read and written through the functions of the record \<^verbatim>\<open>port_ops\<close>, which may change the device and, by direct
  memory access, the memory.  Memory is a map from addresses to the double words that the AHCI layouts are
  made of; bit fields start at the least significant bit.  Calls of \<^verbatim>\<open>kprintf\<close> are recorded in \<open>printed\<close>.
\<close>

unbundle bit_operations_syntax

section \<open>Memory and registers\<close>

type_synonym dwords = "u64 \<Rightarrow> u32"

datatype port_reg = CLB | FB | IS_RWC | CMD | TFD | SIG | SCTL | SERR_RWC | SACT | CI

record 'd port_ops =
  reg_read :: "port_reg \<Rightarrow> 'd \<times> dwords \<Rightarrow> u64 \<times> 'd \<times> dwords"
  reg_write :: "port_reg \<Rightarrow> u64 \<Rightarrow> 'd \<times> dwords \<Rightarrow> 'd \<times> dwords"

record 'd disk =
  device :: 'd
  ram :: dwords
  printed :: "(string \<times> u64 list) list"

definition rd :: "'d port_ops \<Rightarrow> port_reg \<Rightarrow> 'd disk \<Rightarrow> u64 \<times> 'd disk" where
  "rd ops r s = (case reg_read ops r (device s, ram s) of (v, d, m) \<Rightarrow> (v, s\<lparr>device := d, ram := m\<rparr>))"

definition wr :: "'d port_ops \<Rightarrow> port_reg \<Rightarrow> u64 \<Rightarrow> 'd disk \<Rightarrow> 'd disk" where
  "wr ops r v s = (case reg_write ops r v (device s, ram s) of (d, m) \<Rightarrow> s\<lparr>device := d, ram := m\<rparr>)"

definition print :: "string \<Rightarrow> u64 list \<Rightarrow> 'd disk \<Rightarrow> 'd disk" where
  "print fmt args s = s\<lparr>printed := printed s @ [(fmt, args)]\<rparr>"

definition put64 :: "u64 \<Rightarrow> u64 \<Rightarrow> dwords \<Rightarrow> dwords" where
  "put64 a v m = m(a := ucast v, a + 4 := ucast (drop_bit 32 v))"

definition get64 :: "u64 \<Rightarrow> dwords \<Rightarrow> u64" where
  "get64 a m = ucast (m a) OR push_bit 32 (ucast (m (a + 4)))"

text \<open>A field of \<open>len\<close> bits from bit \<open>pos\<close> on.\<close>

definition set_field :: "nat \<Rightarrow> nat \<Rightarrow> u32 \<Rightarrow> u32 \<Rightarrow> u32" where
  "set_field pos len v w = (w AND NOT (push_bit pos (mask len))) OR push_bit pos (v AND mask len)"

definition get_field :: "nat \<Rightarrow> nat \<Rightarrow> u32 \<Rightarrow> u32" where
  "get_field pos len w = drop_bit pos w AND mask len"

text \<open>\<^verbatim>\<open>memset\<close> on memory of double words, for a size that is a multiple of four.\<close>

definition fill :: "u64 \<Rightarrow> u32 \<Rightarrow> nat \<Rightarrow> dwords \<Rightarrow> dwords" where
  "fill a v sz m = fold (\<lambda>k m. m(a + 4 * of_nat k := v)) [0..<sz div 4] m"

section \<open>Commands\<close>

fun find_slot_loop :: "nat \<Rightarrow> nat \<Rightarrow> u32 \<Rightarrow> int" where
  "find_slot_loop 0 i slots = - 1"
| "find_slot_loop (Suc n) i slots = (if slots AND 1 = 0 then int i else find_slot_loop n (Suc i) (drop_bit 1 slots))"

definition find_cmdslot :: "'d port_ops \<Rightarrow> 'd disk \<Rightarrow> int \<times> 'd disk" where
  "find_cmdslot ops s =
     (let (sact, s) = rd ops SACT s; (ci, s) = rd ops CI s;
          slot = find_slot_loop 32 0 (ucast (sact OR ci))
      in (slot, if slot = - 1 then print ''Cannot find free command list entry\<newline>'' [] s else s))"

definition prdtl_of :: "u32 \<Rightarrow> u16" where
  "prdtl_of count = ucast (drop_bit 4 (count - 1) + 1)"

text \<open>The first double word of a command header: \<^verbatim>\<open>cfl\<close>, \<^verbatim>\<open>w\<close> and \<^verbatim>\<open>prdtl\<close>.\<close>

definition fill_header :: "u64 \<Rightarrow> u32 \<Rightarrow> u16 \<Rightarrow> dwords \<Rightarrow> dwords" where
  "fill_header header w prdtl m =
     m(header := set_field 16 16 (ucast prdtl) (set_field 6 1 w (set_field 0 5 5 (m header))))"

text \<open>An entry of the table of regions: \<^verbatim>\<open>dba\<close>, \<^verbatim>\<open>dbc\<close> and \<^verbatim>\<open>i\<close>.\<close>

definition prdt_entry :: "u64 \<Rightarrow> nat \<Rightarrow> u64" where
  "prdt_entry tbl i = tbl + 0x80 + 16 * of_nat i"

definition put_entry :: "u64 \<Rightarrow> u64 \<Rightarrow> u32 \<Rightarrow> dwords \<Rightarrow> dwords" where
  "put_entry e dba dbc m =
     (let m = put64 e dba m in m(e + 12 := set_field 31 1 1 (set_field 0 22 dbc (m (e + 12)))))"

text \<open>The buffer is a pointer to 32-bit words, so \<^verbatim>\<open>4*1024\<close> of them are 16384 bytes.\<close>

fun prdt_loop :: "u64 \<Rightarrow> nat \<Rightarrow> nat \<Rightarrow> u64 \<Rightarrow> u32 \<Rightarrow> dwords \<Rightarrow> nat \<times> u64 \<times> u32 \<times> dwords" where
  "prdt_loop tbl i 0 buf count m = (i, buf, count, m)"
| "prdt_loop tbl i (Suc n) buf count m =
     prdt_loop tbl (Suc i) n (buf + 4 * (4 * 1024)) (count - 16) (put_entry (prdt_entry tbl i) buf (8 * 1024) m)"

definition fill_fis :: "bool \<Rightarrow> u64 \<Rightarrow> u32 \<Rightarrow> u32 \<Rightarrow> u32 \<Rightarrow> dwords \<Rightarrow> dwords" where
  "fill_fis reading tbl startl starth count m =
     (let m = m(tbl := set_field 0 8 0x27 (m tbl));
          m = (if reading then m(tbl := set_field 8 4 0 (m tbl)) else m);
          m = m(tbl := set_field 15 1 1 (m tbl));
          m = m(tbl := set_field 16 8 (if reading then 0x25 else 0x35) (m tbl));
          m = (if reading then m(tbl := set_field 24 8 0 (m tbl)) else m);
          m = m(tbl + 4 := set_field 24 8 0x40 (set_field 16 8 (drop_bit 16 startl)
                (set_field 8 8 (drop_bit 8 startl) (set_field 0 8 startl (m (tbl + 4))))));
          m = m(tbl + 8 := set_field 16 8 (drop_bit 8 starth) (set_field 8 8 starth
                (set_field 0 8 (drop_bit 24 startl) (m (tbl + 8)))))
      in m(tbl + 12 := set_field 0 16 count (m (tbl + 12))))"

text \<open>The command in memory: header, table of regions and register frame.  \<^verbatim>\<open>sizeof(hba_cmd_tbl_t)\<close> is 256 because the
  type is aligned to 128 bytes.\<close>

definition fill_command :: "bool \<Rightarrow> u64 \<Rightarrow> u32 \<Rightarrow> u32 \<Rightarrow> u32 \<Rightarrow> u64 \<Rightarrow> dwords \<Rightarrow> dwords" where
  "fill_command reading header startl starth count buf m =
     (let prdtl = prdtl_of count;
          m = fill_header header (if reading then 0 else 1) prdtl m;
          tbl = get64 (header + 8) m;
          m = fill tbl 0 (nat (256 + (int (unat prdtl) - 1) * 16)) m;
          (i, buf, count, m) = prdt_loop tbl 0 (unat prdtl - 1) buf count m;
          m = put_entry (prdt_entry tbl i) buf (push_bit 9 count) m
      in fill_fis reading tbl startl starth count m)"

text \<open>The loop in front of the command: \<open>n\<close> is what \<^verbatim>\<open>spin\<close> lacks of a million.\<close>

fun wait_ready :: "'d port_ops \<Rightarrow> nat \<Rightarrow> 'd disk \<Rightarrow> nat \<times> 'd disk" where
  "wait_ready ops n s =
     (let (tfd, s) = rd ops TFD s in
      if tfd AND 0x88 \<noteq> 0 \<and> 0 < n then wait_ready ops (n - 1) s else (n, s))"

declare wait_ready.simps [simp del]

partial_function (option) wait_done :: "'d port_ops \<Rightarrow> nat \<Rightarrow> 'd disk \<Rightarrow> (bool \<times> 'd disk) option" where
  "wait_done ops slot s =
     (let (ci, s) = rd ops CI s in
      if ci AND push_bit slot 1 = 0 then Some (True, s)
      else let (is, s) = rd ops IS_RWC s in
           if is AND 0x40000000 \<noteq> 0 then Some (False, s) else wait_done ops slot s)"

definition read_error :: "'d disk \<Rightarrow> 'd disk" where
  "read_error = print ''Read disk error\<newline>'' []"

text \<open>\<^verbatim>\<open>read\<close> and \<^verbatim>\<open>write_to_disk\<close>: the same but for the direction.\<close>

definition disk_command :: "bool \<Rightarrow> 'd port_ops \<Rightarrow> u32 \<Rightarrow> u32 \<Rightarrow> u32 \<Rightarrow> u64 \<Rightarrow> 'd disk \<Rightarrow> (int \<times> 'd disk) option" where
  "disk_command reading ops startl starth count buf s =
     (let s = wr ops IS_RWC 0xffffffff s; (slot, s) = find_cmdslot ops s in
      if slot = - 1 then Some (0, s)
      else
        let (clb, s) = rd ops CLB s;
            s = s\<lparr>ram := fill_command reading (clb + 32 * of_int slot) startl starth count buf (ram s)\<rparr>;
            (n, s) = wait_ready ops 1000000 s
        in if n = 0 then Some (0, print ''Port is hung\<newline>'' [] s)
           else do { let s = wr ops CI (push_bit (nat slot) 1) s;
                     (ok, s) \<leftarrow> wait_done ops (nat slot) s;
                     if \<not> ok then Some (0, read_error s)
                     else let (is, s) = rd ops IS_RWC s
                          in if is AND 0x40000000 \<noteq> 0 then Some (0, read_error s) else Some (1, s) })"

definition read_from_disk :: "'d port_ops \<Rightarrow> u32 \<Rightarrow> u32 \<Rightarrow> u32 \<Rightarrow> u64 \<Rightarrow> 'd disk \<Rightarrow> (int \<times> 'd disk) option" where
  "read_from_disk = disk_command True"

definition write_to_disk :: "'d port_ops \<Rightarrow> u32 \<Rightarrow> u32 \<Rightarrow> u32 \<Rightarrow> u64 \<Rightarrow> 'd disk \<Rightarrow> (int \<times> 'd disk) option" where
  "write_to_disk = disk_command False"

section \<open>Ports\<close>

definition update_reg :: "'d port_ops \<Rightarrow> port_reg \<Rightarrow> (u64 \<Rightarrow> u64) \<Rightarrow> 'd disk \<Rightarrow> 'd disk" where
  "update_reg ops r f s = (let (v, s) = rd ops r s in wr ops r (f v) s)"

partial_function (option) wait_cr :: "'d port_ops \<Rightarrow> 'd disk \<Rightarrow> 'd disk option" where
  "wait_cr ops s = (let (cmd, s) = rd ops CMD s in if cmd AND 0x8000 \<noteq> 0 then wait_cr ops s else Some s)"

definition start_cmd :: "'d port_ops \<Rightarrow> 'd disk \<Rightarrow> 'd disk option" where
  "start_cmd ops s =
     do { s \<leftarrow> wait_cr ops s;
          let s = update_reg ops CMD (\<lambda>v. v OR 0x10) s;
          Some (update_reg ops CMD (\<lambda>v. v OR 1) s) }"

partial_function (option) wait_stopped :: "'d port_ops \<Rightarrow> 'd disk \<Rightarrow> 'd disk option" where
  "wait_stopped ops s =
     (let (cmd, s) = rd ops CMD s in
      if cmd AND 0x4000 \<noteq> 0 then wait_stopped ops s
      else let (cmd, s) = rd ops CMD s in
           if cmd AND 0x8000 \<noteq> 0 then wait_stopped ops s else Some s)"

definition stop_cmd :: "'d port_ops \<Rightarrow> 'd disk \<Rightarrow> 'd disk option" where
  "stop_cmd ops s =
     do { let s = update_reg ops CMD (\<lambda>v. v AND 0xfffffffe) s;
          s \<leftarrow> wait_stopped ops s;
          Some (update_reg ops CMD (\<lambda>v. v AND 0xffffffef) s) }"

definition AHCI_BASE :: u64 where
  "AHCI_BASE = 0x400000"

text \<open>A command header of a port: eight regions, the address of its table, and the table cleared.\<close>

definition command_table :: "nat \<Rightarrow> nat \<Rightarrow> u64" where
  "command_table portno i =
     (AHCI_BASE + push_bit 10 40 + push_bit 13 (of_nat portno) + push_bit 8 (of_nat i)) AND 0xffffffff"

definition init_header :: "nat \<Rightarrow> u64 \<Rightarrow> nat \<Rightarrow> dwords \<Rightarrow> dwords" where
  "init_header portno clb i m =
     (let h = clb + 32 * of_nat i;
          m = m(h := set_field 16 16 8 (m h));
          m = put64 (h + 8) (command_table portno i) m
      in fill (get64 (h + 8) m) 0 256 m)"

definition port_rebase :: "'d port_ops \<Rightarrow> nat \<Rightarrow> 'd disk \<Rightarrow> 'd disk option" where
  "port_rebase ops portno s =
     do { s \<leftarrow> stop_cmd ops s;
          let s = wr ops CLB (AHCI_BASE + push_bit 10 (of_nat portno)) s;
          let s = update_reg ops CLB (\<lambda>v. v AND 0xffffffff) s;
          let (clb, s) = rd ops CLB s;
          let s = s\<lparr>ram := fill clb 0 1024 (ram s)\<rparr>;
          let s = wr ops FB (AHCI_BASE + push_bit 10 32 + push_bit 8 (of_nat portno)) s;
          let s = update_reg ops FB (\<lambda>v. v AND 0xffffffff) s;
          let (fb, s) = rd ops FB s;
          let s = s\<lparr>ram := fill fb 0 256 (ram s)\<rparr>;
          let (clb, s) = rd ops CLB s;
          let s = s\<lparr>ram := fold (init_header portno clb) [0..<32] (ram s)\<rparr>;
          let s = update_reg ops SCTL (\<lambda>v. v OR 0x301) s;
          let s = update_reg ops SCTL (\<lambda>v. v AND 0xfffffffe) s;
          let s = update_reg ops CMD (\<lambda>v. v OR (2 OR 4 OR 0x10000000)) s;
          let s = wr ops SERR_RWC 0xffffffff s;
          let s = wr ops IS_RWC 0xffffffff s;
          start_cmd ops s }"

definition check_type :: "'d port_ops \<Rightarrow> 'd disk \<Rightarrow> u32 \<times> 'd disk" where
  "check_type ops s =
     (let (sig, s) = rd ops SIG s; v = ucast sig :: u32 in
      (if v \<in> {0xEB140101, 0xC33C0101, 0x96690101, 0x00000101} then v else 0, s))"

section \<open>The controller\<close>

datatype host_reg = PI | GHC

record 'd host_ops =
  host_read :: "host_reg \<Rightarrow> 'd \<times> dwords \<Rightarrow> u32 \<times> 'd \<times> dwords"
  host_write :: "host_reg \<Rightarrow> u32 \<Rightarrow> 'd \<times> dwords \<Rightarrow> 'd \<times> dwords"
  ports :: "nat \<Rightarrow> 'd port_ops"

definition hrd :: "'d host_ops \<Rightarrow> host_reg \<Rightarrow> 'd disk \<Rightarrow> u32 \<times> 'd disk" where
  "hrd ops r s = (case host_read ops r (device s, ram s) of (v, d, m) \<Rightarrow> (v, s\<lparr>device := d, ram := m\<rparr>))"

definition or_ghc :: "'d host_ops \<Rightarrow> u32 \<Rightarrow> 'd disk \<Rightarrow> 'd disk" where
  "or_ghc ops b s =
     (let (v, s) = hrd ops GHC s in
      case host_write ops GHC (v OR b) (device s, ram s) of (d, m) \<Rightarrow> s\<lparr>device := d, ram := m\<rparr>)"

text \<open>The test of a disk: a hundred blocks of eight sectors written, then read.\<close>

definition write_blocks :: "'d port_ops \<Rightarrow> 'd disk \<Rightarrow> 'd disk option" where
  "write_blocks ops = for_n 0 100 (\<lambda>b s.
     do { let s = s\<lparr>ram := fill 0x210000 (0x01010101 * of_nat b) 4096 (ram s)\<rparr>;
          (_, s) \<leftarrow> write_to_disk ops (8 * of_nat b) 0 8 0x210000 s;
          Some s })"

definition read_blocks :: "'d port_ops \<Rightarrow> 'd disk \<Rightarrow> 'd disk option" where
  "read_blocks ops = for_n 0 100 (\<lambda>r s.
     do { let s = s\<lparr>ram := fill 0x210400 0 4096 (ram s)\<rparr>;
          (_, s) \<leftarrow> read_from_disk ops (8 * of_nat r) 0 8 0x210400 s;
          Some (print ''%x'' [ucast (ram s 0x210400)] s) })"

definition use_disk :: "'d host_ops \<Rightarrow> nat \<Rightarrow> 'd disk \<Rightarrow> 'd disk option" where
  "use_disk hba i s =
     do { let s = print ''SATA found at %d '' [of_nat i] s;
          let s = or_ghc hba 1 s;
          let s = or_ghc hba 0x80000000 s;
          let s = or_ghc hba 2 s;
          s \<leftarrow> port_rebase (ports hba i) i s;
          s \<leftarrow> write_blocks (ports hba i) s;
          read_blocks (ports hba i) s }"

fun probe_loop :: "'d host_ops \<Rightarrow> nat \<Rightarrow> nat \<Rightarrow> u32 \<Rightarrow> 'd disk \<Rightarrow> 'd disk option" where
  "probe_loop hba 0 i pi s = Some s"
| "probe_loop hba (Suc n) i pi s =
     (if pi AND 1 \<noteq> 0
      then let (dt, s) = check_type (ports hba i) s in
           if dt = 0x101 then use_disk hba i s
           else let s = (if dt = 0xEB140101 then print ''SATAPI drive found at port %d\<newline>'' [of_nat i] s
                         else if dt = 0xC33C0101 then print ''SEMB drive found at port %d\<newline>'' [of_nat i] s
                         else if dt = 0x96690101 then print ''PM drive found at port %d\<newline>'' [of_nat i] s
                         else s)
                in probe_loop hba n (Suc i) (drop_bit 1 pi) s
      else probe_loop hba n (Suc i) (drop_bit 1 pi) s)"

definition probe_port :: "'d host_ops \<Rightarrow> 'd disk \<Rightarrow> 'd disk option" where
  "probe_port hba s = (let (pi, s) = hrd hba PI s in probe_loop hba 32 0 pi s)"

text \<open>The configuration space: a double word is selected by an address and then read or written.  The memory of
  the controller at an address is \<open>hba_at\<close>.\<close>

record 'd pci_ops =
  config_read :: "u32 \<Rightarrow> 'd \<times> dwords \<Rightarrow> u32 \<times> 'd \<times> dwords"
  config_write :: "u32 \<Rightarrow> u32 \<Rightarrow> 'd \<times> dwords \<Rightarrow> 'd \<times> dwords"
  hba_at :: "u64 \<Rightarrow> 'd host_ops"

definition config_address :: "nat \<Rightarrow> nat \<Rightarrow> nat \<Rightarrow> u8 \<Rightarrow> u32" where
  "config_address bus device_no function offset =
     push_bit 16 (of_nat bus) OR push_bit 11 (of_nat device_no) OR push_bit 8 (of_nat function)
       OR (ucast offset AND 0xfc) OR 0x80000000"

definition config_rd :: "'d pci_ops \<Rightarrow> u32 \<Rightarrow> 'd disk \<Rightarrow> u32 \<times> 'd disk" where
  "config_rd ops a s = (case config_read ops a (device s, ram s) of (v, d, m) \<Rightarrow> (v, s\<lparr>device := d, ram := m\<rparr>))"

definition read_write_to_device :: "'d pci_ops \<Rightarrow> nat \<Rightarrow> nat \<Rightarrow> nat \<Rightarrow> u8 \<Rightarrow> 'd disk \<Rightarrow> u32 \<times> 'd disk" where
  "read_write_to_device ops bus device_no function offset =
     config_rd ops (config_address bus device_no function offset)"

definition check_function :: "'d pci_ops \<Rightarrow> nat \<Rightarrow> nat \<Rightarrow> nat \<Rightarrow> 'd disk \<Rightarrow> 'd disk option" where
  "check_function ops bus device_no function s =
     (let (vendor_id, s) = read_write_to_device ops bus device_no function 0 s;
          (v, s) = read_write_to_device ops bus device_no function 2 s;
          device_id = drop_bit 16 v AND 0xffff;
          (v, s) = read_write_to_device ops bus device_no function 0xa s;
          sub_class_id = drop_bit 16 v AND 0xff;
          (v, s) = read_write_to_device ops bus device_no function 0xb s;
          class_id = drop_bit 24 v AND 0xff
      in if vendor_id \<noteq> 0xffffffff \<and> class_id = 1 \<and> sub_class_id = 6
         then let s = print ''AHCI controller found at bus:%d, device: %d and function: %d\<newline>''
                        [of_nat bus, of_nat device_no, of_nat function] s;
                  s = print ''Vendor: %x\<newline>'' [ucast (vendor_id AND 0xffff)] s;
                  s = print ''Device: %x\<newline>'' [ucast device_id] s;
                  s = print ''Class Id: %x\<newline>'' [ucast class_id] s;
                  s = print ''Sub Class Id: %x\<newline>'' [ucast sub_class_id] s;
                  a = config_address bus device_no function 0x24;
                  (d, m) = config_write ops a 0xa6000 (device s, ram s);
                  (abar, s) = config_rd ops a (s\<lparr>device := d, ram := m\<rparr>)
              in probe_port (hba_at ops (ucast abar)) s
         else Some s)"

definition checkbus :: "'d pci_ops \<Rightarrow> 'd disk \<Rightarrow> 'd disk option" where
  "checkbus ops =
     for_n 0 256 (\<lambda>bus. for_n 0 32 (\<lambda>device_no. for_n 0 8 (\<lambda>function. check_function ops bus device_no function)))"

section \<open>Fields and double words\<close>

lemma get_set_field_same:
  "pos + len \<le> 32 \<Longrightarrow> get_field pos len (set_field pos len v w) = v AND mask len"
  by (rule bit_word_eqI)
    (auto simp: get_field_def set_field_def bit_simps)

lemma get_set_field_other:
  "pos + len \<le> pos' \<or> pos' + len' \<le> pos \<Longrightarrow> get_field pos' len' (set_field pos len v w) = get_field pos' len' w"
  by (rule bit_word_eqI)
    (auto simp: get_field_def set_field_def bit_simps dest: bit_imp_le_length)

lemma get64_put64: "get64 a (put64 a v m) = v"
proof -
  have "a + 4 \<noteq> a" by simp
  then have "get64 a (put64 a v m) = ucast (ucast v :: u32) OR push_bit 32 (ucast (ucast (drop_bit 32 v) :: u32))"
    by (simp add: get64_def put64_def)
  also have "\<dots> = v" by (rule bit_word_eqI) (auto simp: bit_simps)
  finally show ?thesis .
qed

lemma get64_cong: "m a = m' a \<Longrightarrow> m (a + 4) = m' (a + 4) \<Longrightarrow> get64 a m = get64 a m'"
  by (simp add: get64_def)

definition dw :: "u64 \<Rightarrow> nat \<Rightarrow> u64" where
  "dw a k = a + 4 * of_nat k"

lemma dw_inj: "j < 2 ^ 40 \<Longrightarrow> k < 2 ^ 40 \<Longrightarrow> dw a j = dw a k \<longleftrightarrow> j = k"
proof -
  assume j: "j < 2 ^ 40" and k: "k < 2 ^ 40"
  have "4 * of_nat n = (of_nat (4 * n) :: u64)" for n by simp
  moreover have "(of_nat (4 * j) :: u64) = of_nat (4 * k) \<longleftrightarrow> j = k"
    using j k by (simp add: word_of_nat_eq_iff take_bit_nat_eq_self del: of_nat_mult)
  ultimately show ?thesis by (simp only: dw_def) auto
qed


lemma fill_eq:
  "fill a v sz m = (\<lambda>x. if \<exists>k < sz div 4. x = dw a k then v else m x)"
proof -
  have "fold (\<lambda>k m. m(a + 4 * of_nat k := v)) [0..<n] m = (\<lambda>x. if \<exists>k < n. x = dw a k then v else m x)" for n
    by (induction n) (auto simp: fun_eq_iff dw_def less_Suc_eq)
  then show ?thesis by (simp add: fill_def)
qed

text \<open>The double words of a table of regions.\<close>

lemma prdt_entry_dw: "prdt_entry tbl i = dw tbl (32 + 4 * i)"
  by (simp add: prdt_entry_def dw_def algebra_simps)

lemma dw_add: "dw a k + 4 = dw a (k + 1)" "dw a k + 12 = dw a (k + 3)"
  by (simp_all add: dw_def algebra_simps)

definition entry_flags :: "u32 \<Rightarrow> u32 \<Rightarrow> u32" where
  "entry_flags dbc w = set_field 31 1 1 (set_field 0 22 dbc w)"

lemma put_entry_at:
  assumes "k < 2 ^ 32"
  shows "get64 (dw a k) (put_entry (dw a k) v c m) = v"
    and "put_entry (dw a k) v c m (dw a (k + 3)) = entry_flags c (m (dw a (k + 3)))"
    and "x \<noteq> dw a k \<Longrightarrow> x \<noteq> dw a (k + 1) \<Longrightarrow> x \<noteq> dw a (k + 3) \<Longrightarrow> put_entry (dw a k) v c m x = m x"
proof -
  have ne: "dw a (k + 3) \<noteq> dw a k" "dw a (k + 3) \<noteq> dw a (k + 1)" "dw a (k + 1) \<noteq> dw a k"
    using assms by (simp_all add: dw_inj)
  have g: "get64 (dw a k) (m'(dw a (k + 3) := u)) = get64 (dw a k) m'" for m' u
    using ne by (simp add: get64_def dw_add)
  show "get64 (dw a k) (put_entry (dw a k) v c m) = v"
    by (simp add: put_entry_def Let_def dw_add g get64_put64)
  show "put_entry (dw a k) v c m (dw a (k + 3)) = entry_flags c (m (dw a (k + 3)))"
    using ne by (simp add: put_entry_def Let_def dw_add put64_def entry_flags_def)
  show "x \<noteq> dw a k \<Longrightarrow> x \<noteq> dw a (k + 1) \<Longrightarrow> x \<noteq> dw a (k + 3) \<Longrightarrow> put_entry (dw a k) v c m x = m x"
    by (simp add: put_entry_def Let_def dw_add put64_def)
qed

lemma put_entry_other:
  "i < 2 ^ 20 \<Longrightarrow> (\<And>k. 32 + 4 * i \<le> k \<Longrightarrow> k < 36 + 4 * i \<Longrightarrow> x \<noteq> dw a k) \<Longrightarrow> put_entry (prdt_entry a i) v c m x = m x"
  unfolding prdt_entry_dw by (rule put_entry_at(3)) simp_all

text \<open>What the loop over the full regions leaves in memory.\<close>

lemma prdt_loop_result:
  assumes "i + n < 2 ^ 20"
  shows "\<exists>m'. prdt_loop tbl i n buf count m = (i + n, buf + 16384 * of_nat n, count - 16 * of_nat n, m') \<and>
    (\<forall>x. (\<forall>k. 32 + 4 * i \<le> k \<and> k < 32 + 4 * (i + n) \<longrightarrow> x \<noteq> dw tbl k) \<longrightarrow> m' x = m x) \<and>
    (\<forall>j < n. get64 (prdt_entry tbl (i + j)) m' = buf + 16384 * of_nat j \<and>
       m' (prdt_entry tbl (i + j) + 12) = entry_flags 8192 (m (prdt_entry tbl (i + j) + 12)))"
  using assms
proof (induction n arbitrary: i buf count m)
  case (Suc n)
  let ?m = "put_entry (prdt_entry tbl i) buf 8192 m"
  obtain m' where m': "prdt_loop tbl (Suc i) n (buf + 16384) (count - 16) ?m
      = (Suc i + n, buf + 16384 + 16384 * of_nat n, count - 16 - 16 * of_nat n, m')"
    and o: "\<forall>x. (\<forall>k. 32 + 4 * Suc i \<le> k \<and> k < 32 + 4 * (Suc i + n) \<longrightarrow> x \<noteq> dw tbl k) \<longrightarrow> m' x = ?m x"
    and e: "\<forall>j < n. get64 (prdt_entry tbl (Suc i + j)) m' = buf + 16384 + 16384 * of_nat j \<and>
       m' (prdt_entry tbl (Suc i + j) + 12) = entry_flags 8192 (?m (prdt_entry tbl (Suc i + j) + 12))"
    using Suc.IH [of "Suc i" "buf + 16384" "count - 16" ?m] Suc.prems by auto
  have o0: "m' (dw tbl k) = ?m (dw tbl k)" if "k < 36 + 4 * i" for k
    using o that Suc.prems by (auto simp: dw_inj)
  have later: "?m (dw tbl k) = m (dw tbl k)" if "36 + 4 * i \<le> k" "k < 2 ^ 32" for k
    by (rule put_entry_other) (use that Suc.prems in \<open>auto simp: dw_inj\<close>)
  have first: "get64 (prdt_entry tbl i) m' = buf"
    "m' (prdt_entry tbl i + 12) = entry_flags 8192 (m (prdt_entry tbl i + 12))"
  proof -
    have "get64 (prdt_entry tbl i) m' = get64 (prdt_entry tbl i) ?m"
      by (simp add: get64_def prdt_entry_dw dw_add o0)
    then show "get64 (prdt_entry tbl i) m' = buf"
      using put_entry_at(1) [of "32 + 4 * i"] Suc.prems by (simp add: prdt_entry_dw)
    show "m' (prdt_entry tbl i + 12) = entry_flags 8192 (m (prdt_entry tbl i + 12))"
      using put_entry_at(2) [of "32 + 4 * i"] Suc.prems by (simp add: prdt_entry_dw dw_add o0)
  qed
  have rest: "get64 (prdt_entry tbl (i + j)) m' = buf + 16384 * of_nat j \<and>
       m' (prdt_entry tbl (i + j) + 12) = entry_flags 8192 (m (prdt_entry tbl (i + j) + 12))" if "j < Suc n" for j
  proof (cases j)
    case 0
    with first show ?thesis by simp
  next
    case (Suc l)
    with e that have "get64 (prdt_entry tbl (i + j)) m' = buf + 16384 * of_nat j \<and>
       m' (prdt_entry tbl (i + j) + 12) = entry_flags 8192 (?m (prdt_entry tbl (i + j) + 12))"
      by (auto simp: algebra_simps)
    then show ?thesis using later [of "32 + 4 * (i + j) + 3"] Suc that Suc.prems by (simp add: prdt_entry_dw dw_add)
  qed
  have keep: "m' x = m x" if "\<forall>k. 32 + 4 * i \<le> k \<and> k < 32 + 4 * (i + Suc n) \<longrightarrow> x \<noteq> dw tbl k" for x
  proof -
    have "m' x = ?m x" using o that by auto
    also have "\<dots> = m x" by (rule put_entry_other) (use that Suc.prems in auto)
    finally show ?thesis .
  qed
  show ?case using m' rest keep by (auto simp: algebra_simps)
qed simp


text \<open>How the controller reads a command: direction, first sector, number of sectors, and the regions of memory.\<close>

definition command_lba :: "u64 \<Rightarrow> dwords \<Rightarrow> u64" where
  "command_lba tbl m = ucast (get_field 0 24 (m (dw tbl 1))) OR push_bit 24 (ucast (get_field 0 24 (m (dw tbl 2))))"

definition decode_command :: "u64 \<Rightarrow> dwords \<Rightarrow> u32 \<times> u32 \<times> u64 \<times> u32 \<times> (u64 \<times> u32) list" where
  "decode_command header m =
     (let tbl = get64 (header + 8) m in
      (get_field 6 1 (m header), get_field 16 8 (m tbl), command_lba tbl m, get_field 0 16 (m (dw tbl 3)),
       map (\<lambda>i. (get64 (prdt_entry tbl i) m, get_field 0 22 (m (prdt_entry tbl i + 12))))
         [0..<unat (get_field 16 16 (m header))]))"

definition sector48 :: "u32 \<Rightarrow> u32 \<Rightarrow> u64" where
  "sector48 startl starth = ucast startl OR push_bit 32 (ucast (starth AND mask 16))"

lemma fill_fis_other: "(\<And>k. k < 4 \<Longrightarrow> x \<noteq> dw tbl k) \<Longrightarrow> fill_fis reading tbl startl starth count m x = m x"
proof -
  assume a: "\<And>k. k < 4 \<Longrightarrow> x \<noteq> dw tbl k"
  have "x \<noteq> tbl" "x \<noteq> tbl + 4" "x \<noteq> tbl + 8" "x \<noteq> tbl + 12"
    using a [of 0] a [of 1] a [of 2] a [of 3] by (simp_all add: dw_def)
  then show ?thesis by (simp add: fill_fis_def Let_def)
qed

lemma get_field_append:
  "a + b \<le> 32 \<Longrightarrow> get_field 0 (a + b) (set_field a b v w) = get_field 0 a w OR push_bit a (v AND mask b)"
  by (rule bit_word_eqI) (auto simp: get_field_def set_field_def bit_simps)

lemma mask_append:
  fixes x :: "'a :: len word"
  shows "(x AND mask a) OR push_bit a (drop_bit a x AND mask b) = x AND mask (a + b)"
  by (rule bit_word_eqI) (auto simp: bit_simps)

lemma fis_low: "get_field 0 24 (set_field 24 8 v (set_field 16 8 (drop_bit 16 startl)
    (set_field 8 8 (drop_bit 8 startl) (set_field 0 8 startl w)))) = startl AND mask 24"
  using get_field_append [of 16 8] get_field_append [of 8 8] get_set_field_same [of 0 8]
    get_set_field_other [of 24 8 0 24] mask_append [of startl 8 8] mask_append [of startl 16 8]
  by simp

lemma fis_high: "get_field 0 24 (set_field 16 8 (drop_bit 8 starth) (set_field 8 8 starth (set_field 0 8 v w)))
    = (v AND mask 8) OR push_bit 8 (starth AND mask 16)"
proof -
  have "push_bit 8 (starth AND mask 16) = push_bit 8 ((starth AND mask 8) OR push_bit 8 (drop_bit 8 starth AND mask 8))"
    using mask_append [of starth 8 8] by simp
  then show ?thesis
    using get_field_append [of 16 8] get_field_append [of 8 8] get_set_field_same [of 0 8]
    by (simp add: or.assoc del: push_bit_and)
qed

lemma fis_sector: "ucast (startl AND mask 24) OR push_bit 24 (ucast ((drop_bit 24 startl AND mask 8) OR push_bit 8 (starth AND mask 16)))
    = sector48 startl starth"
  unfolding sector48_def by (rule bit_word_eqI) (auto simp: bit_simps dest: bit_imp_le_length)

lemma fill_fis_decoded:
  fixes tbl :: u64 and startl starth count :: u32
  shows "command_lba tbl (fill_fis reading tbl startl starth count m) = sector48 startl starth"
    and "get_field 0 16 (fill_fis reading tbl startl starth count m (dw tbl 3)) = count AND mask 16"
    and "get_field 16 8 (fill_fis reading tbl startl starth count m tbl) = (if reading then 0x25 else 0x35)"
proof -
  have t: "tbl + 4 \<noteq> tbl" "tbl + 8 \<noteq> tbl" "tbl + 12 \<noteq> tbl" "tbl + 8 \<noteq> tbl + 4" "tbl + 12 \<noteq> tbl + 4" "tbl + 12 \<noteq> tbl + 8"
    by simp_all
  show "command_lba tbl (fill_fis reading tbl startl starth count m) = sector48 startl starth"
    using t by (simp add: fill_fis_def Let_def command_lba_def dw_def fis_low fis_high fis_sector del: push_bit_and)
  show "get_field 0 16 (fill_fis reading tbl startl starth count m (dw tbl 3)) = count AND mask 16"
    using t by (simp add: fill_fis_def Let_def dw_def get_set_field_same)
  show "get_field 16 8 (fill_fis reading tbl startl starth count m tbl) = (if reading then 0x25 else 0x35)"
    using t by (simp add: fill_fis_def Let_def get_set_field_same get_set_field_other mask_eq_exp_minus_1)
qed

lemma fill_header_fields:
  "get_field 6 1 (fill_header h w p m h) = w AND 1"
  "get_field 16 16 (fill_header h w p m h) = ucast p"
  by (simp_all add: fill_header_def get_set_field_same get_set_field_other)
    (rule bit_word_eqI, auto simp: bit_simps dest: bit_imp_le_length)

definition regions :: "u32 \<Rightarrow> nat" where
  "regions count = (unat count - 1) div 16 + 1"

definition last_sectors :: "u32 \<Rightarrow> nat" where
  "last_sectors count = (unat count - 1) mod 16 + 1"

lemma prdtl_of_eq: "0 < unat count \<Longrightarrow> unat count \<le> 1048560 \<Longrightarrow> unat (prdtl_of count) = regions count"
proof -
  assume c: "0 < unat count" "unat count \<le> 1048560"
  then have "1 \<le> count" by (simp add: word_le_nat_alt)
  then have u: "unat (count - 1) = unat count - 1" by (simp add: unat_sub)
  have "unat (drop_bit 4 (count - 1)) = (unat count - 1) div 16"
    by (simp add: drop_bit_eq_div unat_div u)
  then have "unat (drop_bit 4 (count - 1) + 1) = regions count"
    using c by (subst unat_add_lem [THEN iffD1]) (simp_all add: regions_def)
  moreover have "regions count < 2 ^ 16" using c(2) by (simp add: regions_def)
  ultimately show ?thesis by (simp add: prdtl_of_def unsigned_ucast_eq take_bit_nat_eq_self)
qed

lemma last_count: "0 < unat count \<Longrightarrow> count - 16 * of_nat (regions count - 1) = of_nat (last_sectors count)"
proof -
  assume "0 < unat count"
  then have "unat count = 16 * (regions count - 1) + last_sectors count"
    by (simp add: regions_def last_sectors_def)
  then have "count = of_nat (16 * (regions count - 1) + last_sectors count)" by (metis of_nat_unat ucast_id)
  then have "count = 16 * of_nat (regions count - 1) + of_nat (last_sectors count)" by (simp only: of_nat_add of_nat_mult of_nat_numeral)
  then show ?thesis by (metis add_diff_cancel_left')
qed


text \<open>The header keeps away from the command table of the command.\<close>

definition header_apart :: "u64 \<Rightarrow> u64 \<Rightarrow> nat \<Rightarrow> bool" where
  "header_apart header tbl n = (\<forall>k < 60 + 4 * n. header \<noteq> dw tbl k \<and> header + 8 \<noteq> dw tbl k \<and> header + 12 \<noteq> dw tbl k)"

lemma entry_flags_bytes: "get_field 0 22 (entry_flags c w) = c AND mask 22"
  by (simp add: entry_flags_def get_set_field_same get_set_field_other)

lemma small_and_mask: "j < 2 ^ n \<Longrightarrow> n \<le> 32 \<Longrightarrow> (of_nat j :: u32) AND mask n = of_nat j"
  by (simp add: flip: take_bit_eq_mask) (simp add: take_bit_of_nat take_bit_nat_eq_self)

lemma last_bytes: "push_bit 9 (of_nat (last_sectors count)) AND mask 22 = (of_nat (512 * last_sectors count) :: u32)"
proof -
  have "512 * last_sectors count < 2 ^ 22" by (simp add: last_sectors_def)
  then have "(of_nat (512 * last_sectors count) :: u32) AND mask 22 = of_nat (512 * last_sectors count)"
    by (rule small_and_mask) simp
  moreover have "push_bit 9 (of_nat (last_sectors count)) = (of_nat (512 * last_sectors count) :: u32)"
    by (simp add: push_bit_eq_mult)
  ultimately show ?thesis by metis
qed

lemma prdtl_regions:
  assumes "0 < unat count" "unat count \<le> 1048560"
  obtains n where "regions count = Suc n" "n < 65535" "unat (prdtl_of count) = Suc n"
    "count - 16 * of_nat n = of_nat (last_sectors count)"
proof
  let ?n = "regions count - 1"
  show "regions count = Suc ?n" "?n < 65535" using assms(2) by (simp_all add: regions_def)
  then show "unat (prdtl_of count) = Suc ?n" using prdtl_of_eq [OF assms] by simp
  show "count - 16 * of_nat ?n = of_nat (last_sectors count)" by (rule last_count [OF assms(1)])
qed

text \<open>The memory behind a command: the table cleared, its entries, and everything else as it was.\<close>

lemma fill_command_memory:
  assumes "0 < unat count" "unat count \<le> 1048560" and "tbl = get64 (header + 8) m" "regions count = Suc n"
  obtains m4 where "fill_command reading header startl starth count buf m
      = fill_fis reading tbl startl starth (of_nat (last_sectors count)) m4"
    and "\<forall>j < Suc n. get64 (prdt_entry tbl j) m4 = buf + 16384 * of_nat j \<and>
       get_field 0 22 (m4 (prdt_entry tbl j + 12)) = (if j < n then 8192 else of_nat (512 * last_sectors count))"
    and "\<forall>x. (\<forall>k < 64 + 4 * n. x \<noteq> dw tbl k) \<longrightarrow> m4 x = fill_header header (if reading then 0 else 1) (prdtl_of count) m x"
    and "\<forall>k. 36 + 4 * n \<le> k \<and> k < 64 + 4 * n \<longrightarrow> m4 (dw tbl k) = 0"
proof -
  have n: "n < 65535" "unat (prdtl_of count) = Suc n" "count - 16 * of_nat n = of_nat (last_sectors count)"
    using prdtl_regions [OF assms(1,2)] assms(4) by (metis Suc_inject)+
  let ?m1 = "fill_header header (if reading then 0 else 1) (prdtl_of count) m" and ?l = "of_nat (last_sectors count) :: u32"
  have t1: "get64 (header + 8) ?m1 = tbl"
    by (simp add: assms(3) fill_header_def get64_def)
  let ?m2 = "fill tbl 0 (256 + n * 16) ?m1" and ?b = "buf + 16384 * of_nat n"
  obtain m3 where m3: "prdt_loop tbl 0 n buf count ?m2 = (n, ?b, ?l, m3)"
    and o: "\<forall>x. (\<forall>k. 32 \<le> k \<and> k < 32 + 4 * n \<longrightarrow> x \<noteq> dw tbl k) \<longrightarrow> m3 x = ?m2 x"
    and e: "\<forall>j < n. get64 (prdt_entry tbl j) m3 = buf + 16384 * of_nat j \<and>
       m3 (prdt_entry tbl j + 12) = entry_flags 8192 (?m2 (prdt_entry tbl j + 12))"
    using prdt_loop_result [of 0 n tbl buf count ?m2] n(1,3) by auto
  let ?m4 = "put_entry (prdt_entry tbl n) ?b (push_bit 9 ?l) m3"
  have k4: "?m4 (dw tbl k) = m3 (dw tbl k)" if "k < 32 + 4 * n" for k
    by (rule put_entry_other) (use that n(1) in \<open>auto simp: dw_inj\<close>)
  show thesis
  proof
    show "fill_command reading header startl starth count buf m = fill_fis reading tbl startl starth ?l ?m4"
      using m3 by (simp add: fill_command_def Let_def n(2) t1 nat_add_distrib nat_mult_distrib)
    show "\<forall>j < Suc n. get64 (prdt_entry tbl j) ?m4 = buf + 16384 * of_nat j \<and>
       get_field 0 22 (?m4 (prdt_entry tbl j + 12)) = (if j < n then 8192 else of_nat (512 * last_sectors count))"
    proof (intro allI impI)
      fix j assume "j < Suc n"
      show "get64 (prdt_entry tbl j) ?m4 = buf + 16384 * of_nat j \<and>
         get_field 0 22 (?m4 (prdt_entry tbl j + 12)) = (if j < n then 8192 else of_nat (512 * last_sectors count))"
      proof (cases "j < n")
        case True
        then have "get64 (prdt_entry tbl j) ?m4 = get64 (prdt_entry tbl j) m3" "?m4 (prdt_entry tbl j + 12) = m3 (prdt_entry tbl j + 12)"
          using k4 by (simp_all add: get64_def prdt_entry_dw dw_add)
        with e True small_and_mask [of 8192 22] show ?thesis by (simp add: entry_flags_bytes)
      next
        case False
        then have "j = n" using \<open>j < Suc n\<close> by simp
        then show ?thesis
          using put_entry_at(1,2) [of "32 + 4 * n" tbl ?b "push_bit 9 ?l" m3] n(1)
          by (simp add: prdt_entry_dw dw_add entry_flags_bytes last_bytes del: of_nat_mult)
      qed
    qed
    show "\<forall>x. (\<forall>k < 64 + 4 * n. x \<noteq> dw tbl k) \<longrightarrow> ?m4 x = ?m1 x"
      using o n(1) by (auto simp: put_entry_other fill_eq)
    show "\<forall>k. 36 + 4 * n \<le> k \<and> k < 64 + 4 * n \<longrightarrow> ?m4 (dw tbl k) = 0"
    proof (intro allI impI)
      fix k assume k: "36 + 4 * n \<le> k \<and> k < 64 + 4 * n"
      have "?m4 (dw tbl k) = m3 (dw tbl k)"
        by (rule put_entry_other) (use k n(1) in \<open>auto simp: dw_inj\<close>)
      also have "\<dots> = ?m2 (dw tbl k)" using o k n(1) by (auto simp: dw_inj)
      also have "\<dots> = 0" using k by (auto simp: fill_eq)
      finally show "?m4 (dw tbl k) = 0" .
    qed
  qed
qed

lemma fill_command_decoded:
  assumes "0 < unat count" "unat count \<le> 1048560"
    and "header_apart header (get64 (header + 8) m) (regions count)"
  shows "decode_command header (fill_command reading header startl starth count buf m) =
    (if reading then 0 else 1, if reading then 0x25 else 0x35, sector48 startl starth, of_nat (last_sectors count),
     map (\<lambda>i. (buf + 16384 * of_nat i, if Suc i < regions count then 8192 else of_nat (512 * last_sectors count)))
       [0..<regions count])"
proof -
  obtain n where n: "regions count = Suc n" "n < 65535" "unat (prdtl_of count) = Suc n"
    using prdtl_regions [OF assms(1,2)] by metis
  let ?tbl = "get64 (header + 8) m" and ?m1 = "fill_header header (if reading then 0 else 1) (prdtl_of count) m"
  obtain m4 where f: "fill_command reading header startl starth count buf m
      = fill_fis reading ?tbl startl starth (of_nat (last_sectors count)) m4" (is "_ = ?m5")
    and e: "\<forall>j < Suc n. get64 (prdt_entry ?tbl j) m4 = buf + 16384 * of_nat j \<and>
       get_field 0 22 (m4 (prdt_entry ?tbl j + 12)) = (if j < n then 8192 else of_nat (512 * last_sectors count))"
    and o: "\<forall>x. (\<forall>k < 64 + 4 * n. x \<noteq> dw ?tbl k) \<longrightarrow> m4 x = ?m1 x"
    by (rule fill_command_memory [OF assms(1,2) refl n(1)]) blast
  have a: "\<forall>k < 64 + 4 * n. header \<noteq> dw ?tbl k \<and> header + 8 \<noteq> dw ?tbl k \<and> header + 12 \<noteq> dw ?tbl k"
    using assms(3) n(1) by (simp add: header_apart_def)
  have h: "?m5 header = ?m1 header" "?m5 (header + 8) = m (header + 8)" "?m5 (header + 12) = m (header + 12)"
    using a o by (simp_all add: fill_fis_other fill_header_def)
  have twelve: "header + 8 + 4 = header + 12" by simp
  have t: "get64 (header + 8) ?m5 = ?tbl" by (rule get64_cong) (simp_all only: twelve h)
  have k: "?m5 (dw ?tbl k) = m4 (dw ?tbl k)" if "4 \<le> k" "k < 2 ^ 32" for k
    by (rule fill_fis_other) (use that in \<open>simp add: dw_inj\<close>)
  have l: "(of_nat (last_sectors count) :: u32) AND mask 16 = of_nat (last_sectors count)"
    by (rule small_and_mask) (simp_all add: last_sectors_def)
  have r: "get64 (prdt_entry ?tbl j) ?m5 = buf + 16384 * of_nat j \<and>
      get_field 0 22 (?m5 (prdt_entry ?tbl j + 12)) = (if j < n then 8192 else of_nat (512 * last_sectors count))" if "j < Suc n" for j
    using e that k n(2) by (simp add: get64_def prdt_entry_dw dw_add)
  have u: "unat (ucast (prdtl_of count) :: u32) = Suc n" using n(2,3) by (simp add: unsigned_ucast_eq take_bit_nat_eq_self)
  show ?thesis
    unfolding f decode_command_def Let_def t h(1) fill_header_fields fill_fis_decoded l u n(1)
    using r by simp
qed


section \<open>Slots and waiting\<close>

lemma find_slot_loop_eq:
  "find_slot_loop n i w = (if \<exists>j < n. \<not> bit w j then int (i + (LEAST j. \<not> bit w j)) else - 1)"
proof (induction n arbitrary: i w)
  case (Suc n)
  have z: "w AND 1 = 0 \<longleftrightarrow> \<not> bit w 0" by (simp add: and_one_eq even_bit_succ_iff bit_0 mod_2_eq_odd)
  show ?case
  proof (cases "bit w 0")
    case False
    then have "(LEAST j. \<not> bit w j) = 0" by simp
    with False z show ?thesis by auto
  next
    case True
    have e: "(\<exists>j < Suc n. \<not> bit w j) \<longleftrightarrow> (\<exists>j < n. \<not> bit w (Suc j))"
      using True by (metis Suc_less_eq less_Suc_eq_0_disj)
    have "(LEAST j. \<not> bit w j) = Suc (LEAST j. \<not> bit w (Suc j))" if "\<not> bit w (Suc j)" for j
      using Least_Suc [of "\<lambda>j. \<not> bit w j" "Suc j"] that True by simp
    with True z e show ?thesis by (auto simp: Suc.IH bit_drop_bit_eq)
  qed
qed simp

definition poll :: "'d port_ops \<Rightarrow> 'd disk \<Rightarrow> 'd disk" where
  "poll ops s = snd (rd ops IS_RWC (snd (rd ops CI s)))"

definition completes :: "'d port_ops \<Rightarrow> nat \<Rightarrow> 'd disk \<Rightarrow> bool" where
  "completes ops slot s = (fst (rd ops CI s) AND push_bit slot 1 = 0)"

definition reports_error :: "'d port_ops \<Rightarrow> 'd disk \<Rightarrow> bool" where
  "reports_error ops s = (fst (rd ops IS_RWC (snd (rd ops CI s))) AND 0x40000000 \<noteq> 0)"

lemma wait_done_step:
  "wait_done ops slot s =
     (if completes ops slot s then Some (True, snd (rd ops CI s))
      else if reports_error ops s then Some (False, poll ops s) else wait_done ops slot (poll ops s))"
  by (subst wait_done.simps) (simp add: completes_def reports_error_def poll_def split_beta Let_def)

lemma wait_done_stops:
  assumes "wait_done ops slot s = Some r"
  shows "\<exists>k. completes ops slot ((poll ops ^^ k) s) \<or> reports_error ops ((poll ops ^^ k) s)"
  using assms
proof (induction rule: wait_done.raw_induct)
  case (1 f ops slot s r)
  show ?case
  proof (cases "completes ops slot s \<or> reports_error ops s")
    case True
    then show ?thesis by (intro exI [of _ 0]) simp
  next
    case False
    then have "f ops slot (poll ops s) = Some r"
      using 1(2) by (simp add: completes_def reports_error_def poll_def split_beta Let_def split: if_splits)
    moreover have "wait_done ops slot (poll ops s) = Some r" using False 1(3) wait_done_step [of ops slot s] by simp
    ultimately obtain k where "completes ops slot ((poll ops ^^ k) (poll ops s)) \<or> reports_error ops ((poll ops ^^ k) (poll ops s))"
      using 1(1) by blast
    then show ?thesis by (intro exI [of _ "Suc k"]) (simp add: funpow_swap1)
  qed
qed (rule assms)

lemma wait_done_result:
  assumes "completes ops slot ((poll ops ^^ k) s) \<or> reports_error ops ((poll ops ^^ k) s)"
    and "\<And>j. j < k \<Longrightarrow> \<not> completes ops slot ((poll ops ^^ j) s) \<and> \<not> reports_error ops ((poll ops ^^ j) s)"
  shows "wait_done ops slot s =
    (let u = (poll ops ^^ k) s in
     Some (if completes ops slot u then (True, snd (rd ops CI u)) else (False, poll ops u)))"
  using assms
proof (induction k arbitrary: s)
  case 0
  then show ?case by (subst wait_done_step) (auto simp: Let_def)
next
  case (Suc k)
  have "\<not> completes ops slot s \<and> \<not> reports_error ops s" using Suc.prems(2) [of 0] by simp
  then have "wait_done ops slot s = wait_done ops slot (poll ops s)" by (subst wait_done_step) simp
  also have "\<dots> = (let u = (poll ops ^^ k) (poll ops s) in
      Some (if completes ops slot u then (True, snd (rd ops CI u)) else (False, poll ops u)))"
    by (rule Suc.IH) (use Suc.prems(1) Suc.prems(2) [of "Suc _"] in \<open>auto simp: funpow_swap1\<close>)
  finally show ?case by (simp add: funpow_swap1)
qed

lemma wait_ready_busy:
  "(\<And>s. fst (rd ops TFD s) AND 0x88 \<noteq> 0) \<Longrightarrow> fst (wait_ready ops n s) = 0"
proof (induction n arbitrary: s)
  case 0
  then show ?case by (subst wait_ready.simps) (simp add: split_beta Let_def)
next
  case (Suc n)
  then show ?case by (subst wait_ready.simps) (simp add: split_beta Let_def)
qed

section \<open>The layout of the ports\<close>

lemma command_table_of_nat:
  assumes "portno < 32" "i < 32"
  shows "command_table portno i = of_nat (0x40A000 + 8192 * portno + 256 * i)"
proof -
  let ?n = "0x40A000 + 8192 * portno + 256 * i"
  have n: "?n < 2 ^ 32" using assms by simp
  have "AHCI_BASE + push_bit 10 40 + push_bit 13 (of_nat portno) + push_bit 8 (of_nat i) = (of_nat ?n :: u64)"
    by (simp add: AHCI_BASE_def push_bit_eq_mult algebra_simps)
  moreover have "(0xffffffff :: u64) = mask 32" by (simp add: mask_eq_exp_minus_1)
  ultimately have "command_table portno i = take_bit 32 (of_nat ?n)"
    by (simp only: command_table_def take_bit_eq_mask)
  also have "\<dots> = of_nat ?n" using n by (simp only: take_bit_of_nat take_bit_nat_eq_self)
  finally show ?thesis .
qed


definition command_header :: "nat \<Rightarrow> nat \<Rightarrow> u64" where
  "command_header portno i = AHCI_BASE + push_bit 10 (of_nat portno) + 32 * of_nat i"

lemma header_unat:
  "portno < 32 \<Longrightarrow> i < 32 \<Longrightarrow> unat (command_header portno i) = 0x400000 + 1024 * portno + 32 * i"
  "portno < 32 \<Longrightarrow> i < 32 \<Longrightarrow> d < 32 \<Longrightarrow> unat (command_header portno i + of_nat d) = 0x400000 + 1024 * portno + 32 * i + d"
proof -
  have e: "command_header portno i + of_nat d = (of_nat (0x400000 + 1024 * portno + 32 * i + d) :: u64)" for d
    by (simp add: command_header_def AHCI_BASE_def push_bit_eq_mult algebra_simps)
  show "portno < 32 \<Longrightarrow> i < 32 \<Longrightarrow> d < 32 \<Longrightarrow> unat (command_header portno i + of_nat d) = 0x400000 + 1024 * portno + 32 * i + d"
    unfolding e by (simp add: unat_of_nat take_bit_nat_eq_self del: of_nat_add of_nat_mult)
  show "portno < 32 \<Longrightarrow> i < 32 \<Longrightarrow> unat (command_header portno i) = 0x400000 + 1024 * portno + 32 * i"
    using e [of 0] by (simp add: unat_of_nat take_bit_nat_eq_self del: of_nat_add of_nat_mult)
qed

lemma table_unat:
  assumes "portno < 32" "i < 32" "k < 2 ^ 20"
  shows "unat (dw (command_table portno i) k) = 0x40A000 + 8192 * portno + 256 * i + 4 * k"
proof -
  have "dw (command_table portno i) k = of_nat (0x40A000 + 8192 * portno + 256 * i + 4 * k)"
    by (simp add: dw_def command_table_of_nat [OF assms(1,2)])
  then show ?thesis using assms by (simp add: unat_of_nat take_bit_nat_eq_self del: of_nat_add of_nat_mult)
qed

lemma header_table_apart:
  assumes "portno < 32" "i < 32" "j < 32" "k < 2 ^ 20"
  shows "command_header portno i \<noteq> dw (command_table portno j) k"
    "command_header portno i + 8 \<noteq> dw (command_table portno j) k"
    "command_header portno i + 12 \<noteq> dw (command_table portno j) k"
  using table_unat [OF assms(1,3,4)] header_unat(1) [OF assms(1,2)] header_unat(2) [OF assms(1,2), of 8]
    header_unat(2) [OF assms(1,2), of 12] assms
  by (auto simp: word_unat_eq_iff)

lemma headers_apart:
  assumes "portno < 32" "i < 32" "j < 32" "i \<noteq> j" "d < 32" "e < 32"
  shows "command_header portno i + of_nat d \<noteq> command_header portno j + of_nat e"
  using header_unat(2) [OF assms(1,2,5)] header_unat(2) [OF assms(1,3,6)] assms
  by (auto simp: word_unat_eq_iff)

lemma init_header_eq:
  "h = clb + 32 * of_nat i \<Longrightarrow> init_header portno clb i m =
     fill (command_table portno i) 0 256 (put64 (h + 8) (command_table portno i) (m(h := set_field 16 16 8 (m h))))"
  by (simp add: init_header_def Let_def get64_put64)

lemma fill_outside: "(\<And>k. k < sz div 4 \<Longrightarrow> x \<noteq> dw a k) \<Longrightarrow> fill a v sz m x = m x"
  by (auto simp: fill_eq)

lemma init_header_other:
  assumes "\<And>k. k < 64 \<Longrightarrow> x \<noteq> dw (command_table portno i) k" "x \<noteq> h" "x \<noteq> h + 8" "x \<noteq> h + 12"
    and "h = clb + 32 * of_nat i"
  shows "init_header portno clb i m x = m x"
  unfolding init_header_eq [OF assms(5)]
  by (subst fill_outside) (use assms(1-4) in \<open>simp_all add: put64_def add.assoc\<close>)

lemma init_header_self:
  assumes "portno < 32" "i < 32" and h: "h = command_header portno i" and clb: "clb = AHCI_BASE + push_bit 10 (of_nat portno)"
  shows "get64 (h + 8) (init_header portno clb i m) = command_table portno i"
    "get_field 16 16 (init_header portno clb i m h) = 8"
    "k < 64 \<Longrightarrow> init_header portno clb i m (dw (command_table portno i) k) = 0"
proof -
  let ?m = "put64 (h + 8) (command_table portno i) (m(h := set_field 16 16 8 (m h)))"
  have e: "init_header portno clb i m = fill (command_table portno i) 0 256 ?m"
    by (rule init_header_eq) (simp add: h clb command_header_def)
  have o: "fill (command_table portno i) 0 256 ?m x = ?m x" if "x \<in> {h, h + 8, h + 12}" for x
  proof (rule fill_outside)
    fix k :: nat assume "k < 256 div 4"
    then have "k < 2 ^ 20" by simp
    then show "x \<noteq> dw (command_table portno i) k" using header_table_apart [OF assms(1,2,2)] that h by (metis insertE singletonD)
  qed
  have twelve: "h + 8 + 4 = h + 12" by simp
  have "get64 (h + 8) (fill (command_table portno i) 0 256 ?m) = get64 (h + 8) ?m"
    by (rule get64_cong) (simp_all only: twelve o insert_iff simp_thms)
  then show "get64 (h + 8) (init_header portno clb i m) = command_table portno i"
    by (simp only: e get64_put64)
  have "?m h = set_field 16 16 8 (m h)" by (simp add: put64_def)
  then show "get_field 16 16 (init_header portno clb i m h) = 8"
    using o [of h] by (simp add: e get_set_field_same mask_eq_exp_minus_1)
  show "k < 64 \<Longrightarrow> init_header portno clb i m (dw (command_table portno i) k) = 0"
    by (auto simp: e fill_eq)
qed


definition header_ready :: "nat \<Rightarrow> nat \<Rightarrow> dwords \<Rightarrow> bool" where
  "header_ready portno i m =
     (get64 (command_header portno i + 8) m = command_table portno i \<and>
      get_field 16 16 (m (command_header portno i)) = 8 \<and>
      (\<forall>k < 64. m (dw (command_table portno i) k) = 0))"

lemma init_header_keeps:
  assumes "portno < 32" "i < 32" "j < 32" "i \<noteq> j" and clb: "clb = AHCI_BASE + push_bit 10 (of_nat portno)"
    and "header_ready portno i m"
  shows "header_ready portno i (init_header portno clb j m)"
proof -
  let ?h = "command_header portno i" and ?g = "command_header portno j"
  have g: "?g = clb + 32 * of_nat j" by (simp add: clb command_header_def)
  have small: "k < 64 \<Longrightarrow> k < 2 ^ 20" for k :: nat by simp
  have o: "init_header portno clb j m x = m x" if x: "x \<in> {?h, ?h + 8, ?h + 12}" for x
  proof (rule init_header_other [OF _ _ _ _ g])
    show "x \<noteq> dw (command_table portno j) k" if "k < 64" for k
      using header_table_apart [OF assms(1-3) small [OF that]] x by auto
    have "x = ?h + of_nat 0 \<or> x = ?h + of_nat 8 \<or> x = ?h + of_nat 12"
      using x by simp
    then obtain d where d: "x = ?h + of_nat d" "d < 32"
      by (elim disjE) (erule that, simp)+
    show "x \<noteq> ?g" unfolding d(1) using headers_apart [OF assms(1-4) d(2), of 0] by simp
    show "x \<noteq> ?g + 8" unfolding d(1) using headers_apart [OF assms(1-4) d(2), of 8] by simp
    show "x \<noteq> ?g + 12" unfolding d(1) using headers_apart [OF assms(1-4) d(2), of 12] by simp
  qed
  have t: "init_header portno clb j m (dw (command_table portno i) k) = m (dw (command_table portno i) k)" if "k < 64" for k
  proof (rule init_header_other [OF _ _ _ _ g])
    show "dw (command_table portno i) k \<noteq> dw (command_table portno j) l" if "l < 64" for l
    proof -
      have "(256 * i + 4 * k) div 256 = i" "(256 * j + 4 * l) div 256 = j" using \<open>k < 64\<close> \<open>l < 64\<close> by simp_all
      then have "256 * i + 4 * k \<noteq> 256 * j + 4 * l" using assms(4) by metis
      then show ?thesis
        using table_unat [OF assms(1,2) small [OF \<open>k < 64\<close>]] table_unat [OF assms(1,3) small [OF \<open>l < 64\<close>]]
        by (auto simp: word_unat_eq_iff)
    qed
    show "dw (command_table portno i) k \<noteq> ?g" "dw (command_table portno i) k \<noteq> ?g + 8" "dw (command_table portno i) k \<noteq> ?g + 12"
      using header_table_apart [OF assms(1,3,2) small [OF that]] by auto
  qed
  have twelve: "?h + 8 + 4 = ?h + 12" by simp
  have "get64 (?h + 8) (init_header portno clb j m) = get64 (?h + 8) m"
    by (rule get64_cong) (simp_all only: twelve o insert_iff simp_thms)
  then show ?thesis using assms(6) t o [of ?h] by (simp add: header_ready_def)
qed

lemma init_headers_ready:
  assumes "portno < 32" "clb = AHCI_BASE + push_bit 10 (of_nat portno)"
  shows "n \<le> 32 \<Longrightarrow> i < n \<Longrightarrow> header_ready portno i (fold (init_header portno clb) [0..<n] m)"
proof (induction n)
  case (Suc n)
  show ?case
  proof (cases "i = n")
    case True
    then show ?thesis
      using init_header_self [OF assms(1) _ refl assms(2), of n] Suc.prems by (simp add: header_ready_def)
  next
    case False
    then have "header_ready portno i (fold (init_header portno clb) [0..<n] m)" using Suc by simp
    then show ?thesis
      using init_header_keeps [OF assms(1) _ _ False assms(2)] Suc.prems by simp
  qed
qed simp

lemma port_header_apart:
  assumes "portno < 32" "i < 32" "n \<le> 65535"
  shows "header_apart (command_header portno i) (command_table portno i) n"
proof -
  have "k < 2 ^ 20" if "k < 60 + 4 * n" for k using that assms(3) by simp
  then show ?thesis using header_table_apart [OF assms(1,2,2)] by (auto simp: header_apart_def)
qed


section \<open>Properties\<close>

text \<open>The 32 command headers of a port after \<^verbatim>\<open>port_rebase\<close>: each asks for eight regions and points to its own
  cleared table of 256 bytes, at 0x40A000 + 8192 * port + 256 * header, so no two tables of any ports overlap.\<close>

theorem port_headers_ready:
  assumes "portno < 32" "i < 32"
  shows "header_ready portno i (fold (init_header portno (AHCI_BASE + push_bit 10 (of_nat portno))) [0..<32] m) \<and>
    unat (command_table portno i) = 0x40A000 + 8192 * portno + 256 * i"
  using init_headers_ready [OF assms(1) refl order_refl assms(2)] assms
  by (simp add: command_table_of_nat unat_of_nat take_bit_nat_eq_self del: of_nat_add of_nat_mult)

theorem port_headers_ready_witness:
  "header_ready 0 31 (fold (init_header 0 (AHCI_BASE + push_bit 10 (of_nat 0))) [0..<32] (\<lambda>_. 0)) \<and>
    unat (command_table 0 31) = 0x40BF00"
  using port_headers_ready [of 0 31 "\<lambda>_. 0"] by simp

text \<open>C33: The command that \<^verbatim>\<open>read\<close> and \<^verbatim>\<open>write_to_disk\<close> put into memory, as the controller decodes it: the direction, the
  ATA command, the 48-bit sector, and the regions.  For up to 16 sectors it is one region of the buffer and the
  number of sectors asked for.  For more, every region but the last has 8192 bytes but they are 16384 bytes apart, since
  the buffer pointer counts words of four bytes, and the number of sectors in the command is only that of the last
  region.\<close>

theorem command_describes_transfer:
  assumes "portno < 32" "slot < 32" "header = command_header portno slot"
    and "get64 (header + 8) m = command_table portno slot" "0 < unat count" "unat count \<le> 16 * 65535"
  shows "decode_command header (fill_command reading header startl starth count buf m) =
    (if reading then 0 else 1, if reading then 0x25 else 0x35, sector48 startl starth,
     of_nat ((unat count - 1) mod 16 + 1),
     map (\<lambda>i. (buf + 16384 * of_nat i,
        if i < (unat count - 1) div 16 then 8192 else of_nat (512 * ((unat count - 1) mod 16 + 1))))
       [0..<(unat count - 1) div 16 + 1])"
proof -
  have c: "unat count \<le> 1048560" using assms(6) by simp
  have r: "regions count \<le> 65535" using c by (simp add: regions_def)
  have "header_apart header (get64 (header + 8) m) (regions count)"
    unfolding assms(4) unfolding assms(3) by (rule port_header_apart [OF assms(1,2) r])
  from fill_command_decoded [OF assms(5) c this] show ?thesis
    by (simp only: regions_def last_sectors_def Suc_eq_plus1 add_less_cancel_right)
qed

theorem command_describes_transfer_witness:
  "decode_command (command_header 0 1) (fill_command True (command_header 0 1) 0x12345678 0x9A 24 0x210400
      (put64 (command_header 0 1 + 8) (command_table 0 1) (\<lambda>_. 0))) =
    (0, 0x25, sector48 0x12345678 0x9A, 8, [(0x210400, 8192), (0x214400, 4096)])"
proof -
  let ?h = "command_header 0 1"
  have s: "0 < unat (24 :: u32)" "unat (24 :: u32) \<le> 16 * 65535" "(0 :: nat) < 32" "(1 :: nat) < 32" by simp_all
  show ?thesis
    using command_describes_transfer [OF s(3,4) refl get64_put64 [where m = "\<lambda>_. 0"] s(1,2), where reading = True and startl = "0x12345678"
        and starth = "0x9A" and buf = "0x210400"]
    by (simp add: upt_rec)
qed

text \<open>\<^verbatim>\<open>sizeof(hba_cmd_tbl_t)\<close> already covers eight regions, so a command of more than 16 sectors clears 16 bytes of the
  command table of the next slot for every region after its first: the register frame of a command that waits
  there is lost.\<close>

theorem long_command_clears_next_table:
  assumes "portno < 32" "Suc slot < 32" "header = command_header portno slot"
    and "get64 (header + 8) m = command_table portno slot" "16 < unat count" "unat count \<le> 128"
    and "k < 4 * ((unat count - 1) div 16)"
  shows "fill_command reading header startl starth count buf m (dw (command_table portno (Suc slot)) k) = 0"
proof -
  let ?tbl = "command_table portno slot"
  have c: "0 < unat count" "unat count \<le> 1048560" using assms(5,6) by auto
  obtain n where n: "regions count = Suc n" "n \<le> 7" "n = (unat count - 1) div 16"
    using assms(6) by (simp add: regions_def)
  have s: "slot < 32" using assms(2) by simp
  have "k < 2 ^ 20" using assms(7) n by simp
  then have x: "dw (command_table portno (Suc slot)) k = dw ?tbl (64 + k)"
    using table_unat [OF assms(1,2), of k] table_unat [OF assms(1) s, of "64 + k"] assms(7) n(2,3) by (simp add: word_unat_eq_iff)
  obtain m4 where f: "fill_command reading header startl starth count buf m
      = fill_fis reading ?tbl startl starth (of_nat (last_sectors count)) m4"
    and "\<forall>j < Suc n. get64 (prdt_entry ?tbl j) m4 = buf + 16384 * of_nat j \<and>
       get_field 0 22 (m4 (prdt_entry ?tbl j + 12)) = (if j < n then 8192 else of_nat (512 * last_sectors count))"
    and z: "\<forall>k. 36 + 4 * n \<le> k \<and> k < 64 + 4 * n \<longrightarrow> m4 (dw ?tbl k) = 0"
    by (rule fill_command_memory [OF c assms(4) [symmetric] n(1)]) blast
  have "fill_fis reading ?tbl startl starth (of_nat (last_sectors count)) m4 (dw ?tbl (64 + k)) = m4 (dw ?tbl (64 + k))"
    by (rule fill_fis_other) (use assms(7) n in \<open>simp add: dw_inj\<close>)
  also have "\<dots> = 0" using z assms(7) n by simp
  finally show ?thesis by (simp only: f x)
qed

theorem long_command_clears_next_table_witness:
  "fill_command False (command_header 0 0) 0 0 17 0x210000
     (put64 (command_header 0 0 + 8) (command_table 0 0) (\<lambda>_. 0x258027)) (dw (command_table 0 1) 0) = 0"
proof -
  have s: "(0 :: nat) < 32" "Suc 0 < 32" "16 < unat (17 :: u32)" "unat (17 :: u32) \<le> 128" "0 < 4 * ((unat (17 :: u32) - 1) div 16)"
    by simp_all
  show ?thesis
    using long_command_clears_next_table [OF s(1,2) refl get64_put64 [where m = "\<lambda>_. 0x258027"] s(3-5), where reading = False and startl = 0
        and starth = 0 and buf = "0x210000"]
    by simp
qed

text \<open>\<^verbatim>\<open>find_cmdslot\<close> returns the lowest of the 32 slots that neither \<^verbatim>\<open>sact\<close> nor \<^verbatim>\<open>ci\<close> uses, and -1 with a message exactly
  when there is none.\<close>

theorem find_cmdslot_lowest_free:
  "find_cmdslot ops s =
    (let (sact, s1) = rd ops SACT s; (ci, s2) = rd ops CI s1; free = (\<lambda>i. \<not> bit sact i \<and> \<not> bit ci i) in
     if \<exists>i < 32. free i then (int (LEAST i. free i), s2)
     else (- 1, print ''Cannot find free command list entry\<newline>'' [] s2))"
proof -
  have b: "bit (ucast (a OR b :: u64) :: u32) i \<longleftrightarrow> i < 32 \<and> (bit a i \<or> bit b i)" for a b i
    by (auto simp: bit_simps)
  have l: "(LEAST i. \<not> bit (ucast (a OR b :: u64) :: u32) i) = (LEAST i. \<not> bit a i \<and> \<not> bit b i)"
    if "i < 32" "\<not> bit a i \<and> \<not> bit b i" for a b i
  proof -
    have "(LEAST i. \<not> bit a i \<and> \<not> bit b i) \<le> i" by (rule Least_le) (rule that(2))
    then have "(LEAST i. \<not> bit a i \<and> \<not> bit b i) < 32" using that(1) by simp
    moreover have "\<not> bit a (LEAST i. \<not> bit a i \<and> \<not> bit b i) \<and> \<not> bit b (LEAST i. \<not> bit a i \<and> \<not> bit b i)"
      by (rule LeastI) (rule that(2))
    ultimately show ?thesis
      by (intro Least_equality) (auto simp: b not_less intro: Least_le order.trans [of _ 32])
  qed
  show ?thesis
    by (auto simp: find_cmdslot_def find_slot_loop_eq Let_def split_beta b dest: l)
qed

text \<open>C34: The wait for a command ends exactly when some poll of the controller finds the slot free or an error, with
  the outcome of the first such poll; a controller that reports neither is waited for forever.\<close>

theorem wait_done_first_stop:
  "wait_done ops slot s =
    (let stops = (\<lambda>k. completes ops slot ((poll ops ^^ k) s) \<or> reports_error ops ((poll ops ^^ k) s)) in
     if \<exists>k. stops k
     then let u = (poll ops ^^ (LEAST k. stops k)) s in
       Some (if completes ops slot u then (True, snd (rd ops CI u)) else (False, poll ops u))
     else None)"
proof (cases "\<exists>k. completes ops slot ((poll ops ^^ k) s) \<or> reports_error ops ((poll ops ^^ k) s)")
  case True
  let ?P = "\<lambda>k. completes ops slot ((poll ops ^^ k) s) \<or> reports_error ops ((poll ops ^^ k) s)"
  have "?P (LEAST k. ?P k)" using True by (rule LeastI_ex)
  moreover have "\<not> completes ops slot ((poll ops ^^ j) s) \<and> \<not> reports_error ops ((poll ops ^^ j) s)"
    if "j < (LEAST k. ?P k)" for j using not_less_Least [OF that] by blast
  ultimately have "wait_done ops slot s = (let u = (poll ops ^^ (LEAST k. ?P k)) s in
     Some (if completes ops slot u then (True, snd (rd ops CI u)) else (False, poll ops u)))"
    by (rule wait_done_result)
  then show ?thesis unfolding Let_def if_P [OF True] .
next
  case False
  then have "wait_done ops slot s = None" using wait_done_stops [of ops slot s] by (cases "wait_done ops slot s") auto
  then show ?thesis unfolding Let_def if_not_P [OF False] .
qed

text \<open>A port that stays busy is given up after a million polls: no command is issued, the result is 0 and the message
  is printed.\<close>

theorem hung_port_gives_up:
  assumes "\<And>u. fst (rd ops TFD u) AND 0x88 \<noteq> 0"
    and "fst (find_cmdslot ops (wr ops IS_RWC 0xffffffff s)) \<noteq> - 1"
  shows "\<exists>u. disk_command reading ops startl starth count buf s = Some (0, print ''Port is hung\<newline>'' [] u)"
proof -
  have "fst (wait_ready ops 1000000 u) = 0" for u by (rule wait_ready_busy) (rule assms(1))
  then show ?thesis using assms(2) by (auto simp: disk_command_def Let_def split_beta)
qed

text \<open>A port that is busy for ever and has no other register bit set.\<close>

definition busy_port :: "unit port_ops" where
  "busy_port = \<lparr>reg_read = \<lambda>r (d, m). (if r = TFD then 0x80 else 0, d, m), reg_write = \<lambda>r v (d, m). (d, m)\<rparr>"

theorem hung_port_gives_up_witness:
  "\<exists>u. disk_command True busy_port 0 0 8 0x210400 \<lparr>device = (), ram = \<lambda>_. 0, printed = []\<rparr>
     = Some (0, print ''Port is hung\<newline>'' [] u)"
  by (rule hung_port_gives_up)
    (auto simp: busy_port_def rd_def wr_def find_cmdslot_def Let_def split_beta find_slot_loop_eq intro: exI [of _ 0])

end
