(* ===== verification/Ulib.thy ===== *)
theory Ulib
  imports Console
begin

text \<open>
  The C library of the user programs: the strings of \<^verbatim>\<open>libc/string.c\<close>, and \<^verbatim>\<open>fgets\<close> and \<^verbatim>\<open>printf\<close> of
  \<^verbatim>\<open>libc/stdio.c\<close>.  As in the kernel library a character array is a list that starts at the pointer, and
  \<^const>\<open>None\<close> stands for leaving an array.  What \<^verbatim>\<open>malloc\<close> returns is memory whose contents are an argument; the heap \<open>h\<close>
  it is taken from is passed along, and \<open>mal n h\<close> is the heap behind a call of \<^verbatim>\<open>malloc\<close> for \<open>n\<close> bytes, \<^const>\<open>None\<close> when the kernel's
  allocator does not come back with a block.  The bytes that \<^verbatim>\<open>read\<close> delivers are a list that ends with the end of the file.
\<close>

section \<open>Strings\<close>

function strcpy_loop :: "string \<Rightarrow> string \<Rightarrow> nat \<Rightarrow> string option" where
  "strcpy_loop String1 String2 i =
     do { c \<leftarrow> aget String2 i;
          if c \<noteq> NUL
          then do { s \<leftarrow> aput String1 i c; strcpy_loop s String2 (Suc i) }
          else aput String1 i NUL }"
  by pat_completeness auto
termination
  by (relation "measure (\<lambda>(s1, s2, i). length s2 - i)") (auto simp: aget_def split: if_splits)

definition strcpy :: "string \<Rightarrow> string \<Rightarrow> string option" where
  "strcpy String1 String2 = strcpy_loop String1 String2 0"

function strlen_loop :: "string \<Rightarrow> nat \<Rightarrow> nat option" where
  "strlen_loop string stringlen =
     do { c \<leftarrow> aget string stringlen;
          if c \<noteq> NUL then strlen_loop string (Suc stringlen) else Some stringlen }"
  by pat_completeness auto
termination
  by (relation "measure (\<lambda>(s, i). length s - i)") (auto simp: aget_def split: if_splits)

definition strlen :: "string \<Rightarrow> nat option" where
  "strlen string = strlen_loop string 0"

function strcmp_loop :: "string \<Rightarrow> string \<Rightarrow> nat \<Rightarrow> int option" where
  "strcmp_loop string1 string2 i =
     do { a \<leftarrow> aget string1 i;
          if a \<noteq> NUL
          then do { b \<leftarrow> aget string2 i;
                    if a \<noteq> b then Some (-1) else strcmp_loop string1 string2 (Suc i) }
          else Some 0 }"
  by pat_completeness auto
termination
  by (relation "measure (\<lambda>(s1, s2, i). length s1 - i)") (auto simp: aget_def split: if_splits)

definition strcmp :: "string \<Rightarrow> string \<Rightarrow> int option" where
  "strcmp string1 string2 =
     do { n1 \<leftarrow> strlen string1;
          n2 \<leftarrow> strlen string2;
          if n1 \<noteq> n2 then Some (-1) else strcmp_loop string1 string2 0 }"

declare strcpy_loop.simps [simp del] strlen_loop.simps [simp del] strcmp_loop.simps [simp del]

definition umemset :: "string \<Rightarrow> int \<Rightarrow> int \<Rightarrow> string option" where
  "umemset s num sz = for_n 0 (nat sz) (\<lambda>i uc. aput uc i (char_of num)) s"

definition strcat :: "string \<Rightarrow> string \<Rightarrow> string \<Rightarrow> string option" where
  "strcat string1 string2 concatstr =
     do { string1len \<leftarrow> strlen string1;
          string2len \<leftarrow> strlen string2;
          c \<leftarrow> umemset concatstr 0 (int (string1len + string2len + 1));
          c \<leftarrow> for_n 0 string1len (\<lambda>i c. do { x \<leftarrow> aget string1 i; aput c i x }) c;
          c \<leftarrow> for_n 0 string2len (\<lambda>j c. do { x \<leftarrow> aget string2 j; aput c (string1len + j) x }) c;
          aput c (string1len + string2len) NUL }"

text \<open>For the empty string \<^verbatim>\<open>trim\<close> writes in front of it.\<close>

definition trim :: "string \<Rightarrow> string option" where
  "trim string1 = do { n \<leftarrow> strlen string1; if n = 0 then None else aput string1 (n - 1) NUL }"

text \<open>The sum may not leave the \<^verbatim>\<open>int\<close>s.\<close>

definition int_add :: "int \<Rightarrow> int \<Rightarrow> int option" where
  "int_add a b = (if - (2 ^ 31) \<le> a + b \<and> a + b < 2 ^ 31 then Some (a + b) else None)"

definition atoi_digit :: "int \<Rightarrow> char \<Rightarrow> int option" where
  "atoi_digit num c =
     do { m \<leftarrow> int_add (num * 10) 0; int_add m (sint (of_char c :: u8) - 48) }"

definition atoi :: "string \<Rightarrow> int option" where
  "atoi s = do { n \<leftarrow> strlen s; for_n 0 n (\<lambda>i num. do { c \<leftarrow> aget s i; atoi_digit num c }) 0 }"

text \<open>The array of token pointers: five of them, null or a block of 25 characters.  Only five bytes of the array are
  cleared, all of them in the pointer that is then overwritten; \<open>old\<close> is what the others hold.\<close>

type_synonym tokens = "string option list"

definition new_token :: "(nat \<Rightarrow> 'h \<Rightarrow> 'h option) \<Rightarrow> tokens \<Rightarrow> nat \<Rightarrow> 'h \<Rightarrow> (tokens \<times> 'h) option" where
  "new_token mal tokens j h =
     do { h \<leftarrow> mal 25 h;
          tokens \<leftarrow> aput tokens j (Some (replicate 25 NUL));
          Some (tokens, h) }"

definition put_token :: "tokens \<Rightarrow> nat \<Rightarrow> nat \<Rightarrow> char \<Rightarrow> tokens option" where
  "put_token tokens j i c =
     do { t \<leftarrow> aget tokens j; t \<leftarrow> t; t \<leftarrow> aput t i c; aput tokens j (Some t) }"

definition separator :: "char \<Rightarrow> bool" where
  "separator c = (c = CHR '' '' \<or> c = CHR ''\<newline>'')"

fun tokenize_loop :: "(nat \<Rightarrow> 'h \<Rightarrow> 'h option) \<Rightarrow> string \<Rightarrow> nat \<Rightarrow> nat \<Rightarrow> tokens \<Rightarrow> 'h \<Rightarrow> (tokens \<times> 'h) option" where
  "tokenize_loop mal [] j i tokens h = None"
| "tokenize_loop mal (c # string) j i tokens h =
     (if c = NUL then Some (tokens, h)
      else if \<not> separator c
      then do { tokens \<leftarrow> put_token tokens j i c; tokenize_loop mal string j (Suc i) tokens h }
      else do { n \<leftarrow> aget string 0;
                (tokens, h) \<leftarrow> (if n \<noteq> NUL then new_token mal tokens (Suc j) h else Some (tokens, h));
                tokenize_loop mal string (Suc j) 0 tokens h })"

definition tokenize :: "(nat \<Rightarrow> 'h \<Rightarrow> 'h option) \<Rightarrow> tokens \<Rightarrow> string \<Rightarrow> 'h \<Rightarrow> (tokens \<times> 'h) option" where
  "tokenize mal old string h =
     do { h \<leftarrow> mal (5 * 8) h;
          (tokens, h) \<leftarrow> new_token mal old 0 h;
          tokenize_loop mal string 0 0 tokens h }"

function tokencount_loop :: "tokens \<Rightarrow> nat \<Rightarrow> nat option" where
  "tokencount_loop String i =
     do { t \<leftarrow> aget String i; if t \<noteq> None then tokencount_loop String (Suc i) else Some i }"
  by pat_completeness auto
termination
  by (relation "measure (\<lambda>(s, i). length s - i)") (auto simp: aget_def split: if_splits)

declare tokencount_loop.simps [simp del]

definition tokencount :: "tokens \<Rightarrow> nat option" where
  "tokencount String = tokencount_loop String 0"

section \<open>Reading a line\<close>

text \<open>\<open>Some buf\<close> the buffer that is returned, or \<^const>\<open>None\<close> the empty string when the buffer already holds a newline
  where the line would continue; the size that is passed plays no role.\<close>

fun fgets_loop :: "string \<Rightarrow> string \<Rightarrow> nat \<Rightarrow> (string option \<times> string) option" where
  "fgets_loop [] buf temp =
     do { c \<leftarrow> aget buf temp;
          if c = CHR ''\<newline>'' then Some (None, [])
          else do { x \<leftarrow> aget buf 0;
                    buf \<leftarrow> (if x = NUL then aput buf temp (char_of (- 1 :: int)) else Some buf);
                    buf \<leftarrow> aput buf (temp + 1) NUL;
                    Some (Some buf, []) } }"
| "fgets_loop (r # input) buf temp =
     do { c \<leftarrow> aget buf temp;
          if c = CHR ''\<newline>'' then Some (None, r # input)
          else do { buf \<leftarrow> aput buf temp r;
                    if r = CHR ''\<newline>''
                    then do { buf \<leftarrow> aput buf temp NUL; Some (Some buf, input) }
                    else fgets_loop input buf (Suc temp) } }"

definition fgets :: "string \<Rightarrow> string \<Rightarrow> int \<Rightarrow> (string option \<times> string) option" where
  "fgets input stringVal sz = fgets_loop input stringVal 0"

section \<open>Printing to a buffer\<close>

fun put_chars :: "string \<Rightarrow> nat \<Rightarrow> string \<Rightarrow> (nat \<times> string) option" where
  "put_chars [] n buffer = Some (n, buffer)"
| "put_chars (x # xs) n buffer = do { buffer \<leftarrow> aput buffer n x; put_chars xs (n + 1) buffer }"

definition print_hex :: "u64 \<Rightarrow> nat \<Rightarrow> string \<Rightarrow> (nat \<times> string) option" where
  "print_hex v n buffer =
     (if v = 0 then do { buffer \<leftarrow> aput buffer n (CHR ''0''); Some (n, buffer) }
      else do { s \<leftarrow> digits (hex_rem (unat v)); put_chars s n buffer })"

definition print_field :: "(u64 \<Rightarrow> string) \<Rightarrow> u64 list \<Rightarrow> char \<Rightarrow> nat \<Rightarrow> u64 list \<Rightarrow> nat \<times> string
    \<Rightarrow> (u64 list \<times> nat \<times> string) option" where
  "print_field text regs f noofarg stack = (\<lambda>(n, buffer).
     if f = CHR ''s''
     then do { (v, stack) \<leftarrow> argument regs noofarg stack; r \<leftarrow> put_chars (cstr (text v)) n buffer; Some (stack, r) }
     else if f = CHR ''c''
     then do { (v, stack) \<leftarrow> argument regs noofarg stack; buffer \<leftarrow> aput buffer n (char_of (uint v)); Some (stack, n, buffer) }
     else if f = CHR ''d''
     then do { (v, stack) \<leftarrow> argument regs noofarg stack;
               let intvalue = sint (ucast v :: u32);
               r \<leftarrow> (if intvalue = 0 then do { buffer \<leftarrow> aput buffer n (CHR ''0''); Some (n, buffer) }
                    else do { s \<leftarrow> digits (dec_rem intvalue); put_chars s n buffer });
               Some (stack, r) }
     else if f = CHR ''p''
     then do { (n, buffer) \<leftarrow> put_chars ''0x'' n buffer;
               (v, stack) \<leftarrow> argument regs noofarg stack;
               r \<leftarrow> print_hex v n buffer; Some (stack, r) }
     else if f = CHR ''x''
     then do { (v, stack) \<leftarrow> argument regs noofarg stack; r \<leftarrow> print_hex v n buffer; Some (stack, r) }
     else Some (stack, n, buffer))"

text \<open>\<open>len\<close> is \<^verbatim>\<open>length\<close>, which a conversion moves by one only, and \<open>n\<close> is \<^verbatim>\<open>length2\<close>, which every turn of the loop
  moves behind the cell it wrote last or, after a conversion, one further.\<close>

fun printf_loop :: "(u64 \<Rightarrow> string) \<Rightarrow> u64 list \<Rightarrow> string \<Rightarrow> nat \<Rightarrow> u64 list \<Rightarrow> nat \<Rightarrow> nat \<times> string
    \<Rightarrow> (nat \<times> nat \<times> string) option" where
  "printf_loop text regs [] noofarg stack len (n, buffer) = Some (len, n, buffer)"
| "printf_loop text regs (x # fmt) noofarg stack len (n, buffer) =
     (if x = CHR ''%''
      then (case fmt of [] \<Rightarrow> None
            | f # fmt \<Rightarrow>
                do { (stack, n, buffer) \<leftarrow> print_field text regs f (noofarg + 1) stack (n, buffer);
                     printf_loop text regs fmt (noofarg + 1) stack (len + 1) (n + 1, buffer) })
      else do { buffer \<leftarrow> aput buffer n x;
                printf_loop text regs fmt noofarg stack (len + 1) (n + 1, buffer) })"

text \<open>The text given to \<^verbatim>\<open>write\<close> and the result; \<open>old\<close> is the block of 256 bytes from \<^verbatim>\<open>malloc\<close>.\<close>

definition printf :: "(u64 \<Rightarrow> string) \<Rightarrow> u64 list \<Rightarrow> u64 list \<Rightarrow> string \<Rightarrow> string \<Rightarrow> (string \<times> int) option" where
  "printf text regs stack old fmt =
     (if \<not> terminated fmt then None
      else do { (len, n, buffer) \<leftarrow> printf_loop text regs (cstr fmt) 1 stack 0 (0, old);
                if 0 < len then do { buffer \<leftarrow> aput buffer n NUL; Some (take n buffer, int len) }
                else Some ([], - 1) })"

section \<open>The strings agree with the kernel's\<close>

lemma strcpy_loop_eq: "strcpy_loop s1 s2 i = kstrcopy_loop s1 s2 i"
proof (induction s1 s2 i rule: strcpy_loop.induct)
  case (1 s1 s2 i)
  then show ?case
    by (subst strcpy_loop.simps, subst kstrcopy_loop.simps) (auto simp: aget_def aput_def)
qed

lemma strlen_loop_eq: "strlen_loop s i = kstrlength_loop s i"
proof (induction s i rule: strlen_loop.induct)
  case (1 s i)
  then show ?case
    by (subst strlen_loop.simps, subst kstrlength_loop.simps) (auto simp: aget_def)
qed

lemma strcmp_loop_eq: "strcmp_loop s1 s2 i = kstrcmp_loop s1 s2 i"
proof (induction s1 s2 i rule: strcmp_loop.induct)
  case (1 s1 s2 i)
  then show ?case
    by (subst strcmp_loop.simps, subst kstrcmp_loop.simps) (auto simp: aget_def)
qed

lemma strlen_kernel [simp]: "strlen s = kstrlength s"
  unfolding strlen_def kstrlength_def by (rule strlen_loop_eq)

lemma strcmp_kernel: "strcmp s1 s2 = kstrcmp s1 s2"
  unfolding strcmp_def kstrcmp_def strlen_kernel strcmp_loop_eq ..

lemma strcpy_kernel: "strcpy s1 s2 = kstrcopy s1 s2"
  unfolding strcpy_def kstrcopy_def by (rule strcpy_loop_eq)

lemma umemset_eq:
  "umemset s num sz = (if nat sz \<le> length s then Some (replicate (nat sz) (char_of num) @ drop (nat sz) s) else None)"
  by (simp add: umemset_def for_n_fill map_replicate_const)

lemma strcat_kernel: "strcat s1 s2 c = kstrcat s1 s2 c"
proof (cases "terminated s1 \<and> terminated s2")
  case True
  let ?n = "Suc (length (cstr s1) + length (cstr s2))"
  have "strcat s1 s2 c = do { c \<leftarrow> umemset c 0 (int ?n); kstrcat s1 s2 c }"
    using True by (simp add: strcat_def kstrcat_def)
  also have "umemset c 0 (int ?n) = (if ?n \<le> length c then Some (replicate ?n (char_of (0 :: int)) @ drop ?n c) else None)"
    by (simp only: umemset_eq nat_int)
  finally show ?thesis using True by (auto simp: kstrcat_eq Suc_le_eq simp del: replicate_Suc)
qed (auto simp: strcat_def kstrcat_eq)

lemma put_chars_eq:
  "put_chars s n buf = (if n + length s \<le> length buf \<or> s = [] then Some (n + length s, take n buf @ s @ drop (n + length s) buf) else None)"
proof (induction s arbitrary: n buf)
  case (Cons x s)
  show ?case
  proof (cases "n < length buf")
    case True
    then have "take (n + 1) (buf[n := x]) = take n buf @ [x]" by (simp add: take_Suc_conv_app_nth)
    with True Cons show ?thesis by (auto simp: add.commute)
  qed simp
qed simp

section \<open>Numbers\<close>

lemma atoi_digit_dec:
  assumes "0 \<le> num" "d < 10" "num * 10 + int d < 2 ^ 31"
  shows "atoi_digit num (char_of (d + 48)) = Some (num * 10 + int d)"
proof -
  have "\<forall>d \<in> set [0..<10]. sint (of_char (char_of (d + 48 :: nat)) :: u8) = int d + 48" by code_simp
  with assms(2) have "sint (of_char (char_of (d + 48)) :: u8) = int d + 48" by simp
  with assms show ?thesis by (simp add: atoi_digit_def int_add_def)
qed

lemma dec_text_rec:
  "dec_text n = (if n < 10 then [char_of (n + 48)] else dec_text (n div 10) @ [char_of (n mod 10 + 48)])"
  by (rule dec_text.simps)

lemma dec_text_nonempty: "dec_text n \<noteq> []"
  by (subst dec_text_rec) simp

lemma atoi_loop_dec:
  "s = dec_text n @ rest \<Longrightarrow> int n < 2 ^ 31 \<Longrightarrow>
   for_n 0 (length (dec_text n)) (\<lambda>i num. do { c \<leftarrow> aget s i; atoi_digit num c }) 0 = Some (int n)"
proof (induction n arbitrary: rest rule: dec_text.induct)
  case (1 n)
  show ?case
  proof (cases "n < 10")
    case True
    with 1(2) atoi_digit_dec [of 0 n] show ?thesis by (simp add: dec_text_rec [of n])
  next
    case False
    let ?d = "char_of (n mod 10 + 48)" and ?t = "dec_text (n div 10)"
    have e: "dec_text n = ?t @ [?d]" using False by (simp add: dec_text_rec [of n])
    have q: "int (n div 10) < 2 ^ 31" using 1(3) by simp
    have IH: "for_n 0 (length ?t) (\<lambda>i num. do { c \<leftarrow> aget s i; atoi_digit num c }) 0 = Some (int (n div 10))"
      by (rule 1(1) [OF False _ q]) (simp add: 1(2) e)
    have c: "aget s (length ?t) = Some ?d" using 1(2) by (simp add: e aget_def nth_append)
    have v: "int (n div 10) * 10 + int (n mod 10) = int n" by presburger
    show ?thesis
      unfolding e length_append_singleton for_n_Suc_right IH
      using c atoi_digit_dec [of "int (n div 10)" "n mod 10"] v 1(3) by simp
  qed
qed

lemma dec_text_no_NUL: "NUL \<notin> set (dec_text n)"
proof (induction n rule: dec_text.induct)
  case (1 n)
  have "\<forall>d \<in> set [0..<10]. char_of (d + 48 :: nat) \<noteq> NUL" by code_simp
  then have d: "d < 10 \<Longrightarrow> NUL \<noteq> char_of (d + 48)" for d :: nat by (metis atLeastLessThan_iff atLeast_upt bot_nat_0.extremum set_upt)
  show ?case using 1 d by (subst dec_text_rec) auto
qed

lemma atoi_dec: "int n < 2 ^ 31 \<Longrightarrow> atoi (dec_text n @ NUL # rest) = Some (int n)"
  using atoi_loop_dec [OF refl, of n "NUL # rest"] by (simp add: atoi_def dec_text_no_NUL)

section \<open>Tokens\<close>

text \<open>A sequence of calls of \<^verbatim>\<open>malloc\<close>.\<close>

fun mallocs :: "(nat \<Rightarrow> 'h \<Rightarrow> 'h option) \<Rightarrow> nat list \<Rightarrow> 'h \<Rightarrow> 'h option" where
  "mallocs mal [] h = Some h"
| "mallocs mal (n # ns) h = do { h \<leftarrow> mal n h; mallocs mal ns h }"

lemma mallocs_append: "mallocs mal (ns @ ms) h = do { h \<leftarrow> mallocs mal ns h; mallocs mal ms h }"
  by (induction ns arbitrary: h) (auto split: bind_split)

fun fields_from :: "string \<Rightarrow> string \<Rightarrow> string list" where
  "fields_from word [] = [word]"
| "fields_from word (c # line) =
     (if separator c then word # (if line = [] then [] else fields_from [] line) else fields_from (word @ [c]) line)"

definition fields :: "string \<Rightarrow> string list" where
  "fields = fields_from []"

definition block :: "string \<Rightarrow> string option" where
  "block word = Some (word @ replicate (25 - length word) NUL)"

lemma fields_from_word: "\<exists>u us. fields_from word line = (word @ u) # us"
proof (induction line arbitrary: word)
  case (Cons c line)
  then show ?case using Cons [of "word @ [c]"] by auto
qed simp

lemma put_token_block:
  "length word < 25 \<Longrightarrow> put_token (map block done @ block word # rest) (length done) (length word) c
    = Some (map block done @ block (word @ [c]) # rest)"
proof -
  assume w: "length word < 25"
  then have "replicate (25 - length word) NUL = NUL # replicate (25 - length (word @ [c])) NUL"
    by (simp add: Suc_diff_Suc flip: replicate_Suc)
  then show ?thesis
    using w by (simp add: put_token_def block_def aget_def aput_def nth_append list_update_append)
qed

lemma tokenize_fields:
  assumes "NUL \<notin> set line" "\<forall>w \<in> set (fields_from word line). length w \<le> 25"
    and "length done + length (fields_from word line) \<le> 5" "length done + 1 + length rest = 5"
  shows "tokenize_loop mal (line @ NUL # r) (length done) (length word) (map block done @ block word # rest) h
    = map_option (Pair (map block (done @ fields_from word line) @ drop (length (fields_from word line) - 1) rest))
        (mallocs mal (replicate (length (fields_from word line) - 1) 25) h)"
  using assms
proof (induction line arbitrary: "done" word rest h)
  case Nil
  then show ?case by simp
next
  case (Cons c line)
  have c: "c \<noteq> NUL" "NUL \<notin> set line" using Cons.prems(1) by auto
  show ?case
  proof (cases "separator c")
    case False
    obtain u us where "fields_from (word @ [c]) line = ((word @ [c]) @ u) # us" using fields_from_word by blast
    with Cons.prems(2) False have "length word < 25" by auto
    with Cons.IH [OF c(2), of "word @ [c]" "done" rest h] Cons.prems False c show ?thesis
      by (simp add: put_token_block)
  next
    case sep: True
    show ?thesis
    proof (cases line)
      case Nil
      with sep c show ?thesis by simp
    next
      case (Cons d line')
      obtain u us where f: "fields_from [] line = u # us" using fields_from_word [of "[]" line] by auto
      have F: "fields_from word (c # line) = word # fields_from [] line" using sep Cons by simp
      then have "1 \<le> length rest" using Cons.prems(3,4) f by simp
      then obtain t rest' where rest: "rest = t # rest'" by (cases rest) auto
      have "new_token mal (map block done @ block word # rest) (Suc (length done)) h
          = map_option (Pair (map block (done @ [word]) @ block [] # rest')) (mal 25 h)"
        by (cases "mal 25 h") (simp_all add: rest new_token_def block_def list_update_append)
      moreover have "aget (line @ NUL # r) 0 = Some d" "d \<noteq> NUL" using Cons c(2) by auto
      ultimately have "tokenize_loop mal ((c # line) @ NUL # r) (length done) (length word) (map block done @ block word # rest) h
          = do { h \<leftarrow> mal 25 h;
                 tokenize_loop mal (line @ NUL # r) (length (done @ [word])) (length ('''' :: string)) (map block (done @ [word]) @ block [] # rest') h }"
        using sep c(1) by (cases "mal 25 h") simp_all
      also have "\<dots> = do { h \<leftarrow> mal 25 h; map_option (Pair (map block ((done @ [word]) @ fields_from [] line) @ drop (length (fields_from [] line) - 1) rest'))
          (mallocs mal (replicate (length (fields_from [] line) - 1) 25) h) }"
        by (subst Cons.IH [OF c(2)]) (use Cons.prems F rest in simp_all)
      finally show ?thesis using F f rest by (simp split: bind_split)
    qed
  qed
qed

text \<open>The memory that \<^verbatim>\<open>tokenize\<close> asks for: the array of pointers, and a block for every word.\<close>

definition token_sizes :: "string \<Rightarrow> nat list" where
  "token_sizes line = 40 # replicate (length (fields line)) 25"

lemma tokenize_line:
  assumes "NUL \<notin> set line" "length (fields line) \<le> 5" "\<forall>w \<in> set (fields line). length w \<le> 25" "length old = 5"
  shows "tokenize mal old (line @ NUL # r) h
    = map_option (Pair (map block (fields line) @ drop (length (fields line)) old)) (mallocs mal (token_sizes line) h)"
proof -
  obtain t rest where old: "old = t # rest" using assms(4) by (cases old) auto
  obtain u us where f: "fields line = u # us" using fields_from_word [of "[]" line] by (auto simp: fields_def)
  have "tokenize mal old (line @ NUL # r) h = do { h \<leftarrow> mal 40 h; h \<leftarrow> mal 25 h;
      tokenize_loop mal (line @ NUL # r) (length ([] :: string list)) (length ('''' :: string)) (map block [] @ block [] # rest) h }"
    by (simp add: tokenize_def new_token_def old block_def split: bind_split)
  also have "\<dots> = do { h \<leftarrow> mal 40 h; h \<leftarrow> mal 25 h; map_option (Pair (map block ([] @ fields_from [] line) @ drop (length (fields_from [] line) - 1) rest))
      (mallocs mal (replicate (length (fields_from [] line) - 1) 25) h) }"
    by (subst tokenize_fields) (use assms old in \<open>simp_all add: fields_def\<close>)
  finally show ?thesis using f old by (simp add: fields_def token_sizes_def split: bind_split)
qed

lemma tokencount_prefix:
  "i \<le> length ts \<Longrightarrow> \<forall>t \<in> set ts. t \<noteq> None \<Longrightarrow>
    tokencount_loop (ts @ us) i = (case us of [] \<Rightarrow> None | None # _ \<Rightarrow> Some (length ts) | Some _ # _ \<Rightarrow> tokencount_loop (ts @ us) (length ts))"
proof (induction "length ts - i" arbitrary: i)
  case 0
  then show ?case
    by (subst tokencount_loop.simps) (auto simp: aget_def nth_append split: list.splits option.splits, subst tokencount_loop.simps, auto simp: aget_def nth_append)
next
  case (Suc n)
  then have i: "i < length ts" by simp
  then have "(ts @ us) ! i \<noteq> None" using Suc.prems by (simp add: nth_append)
  then have "tokencount_loop (ts @ us) i = tokencount_loop (ts @ us) (Suc i)"
    by (subst tokencount_loop.simps) (use i in \<open>simp add: aget_def\<close>)
  also have "\<dots> = (case us of [] \<Rightarrow> None | None # _ \<Rightarrow> Some (length ts) | Some _ # _ \<Rightarrow> tokencount_loop (ts @ us) (length ts))"
    by (rule Suc.hyps(1)) (use Suc i in auto)
  finally show ?case .
qed

lemma tokencount_blocks:
  "tokencount (map block ws @ replicate m None) = (if m = 0 then None else Some (length ws))"
  unfolding tokencount_def
  by (subst tokencount_prefix) (auto simp: block_def split: list.splits nat.splits, cases m, auto)

section \<open>Lines\<close>

lemma fgets_loop_line:
  assumes "CHR ''\<newline>'' \<notin> set line" "temp + length line < length buf"
    and "\<forall>i. temp \<le> i \<and> i \<le> temp + length line \<longrightarrow> buf ! i \<noteq> CHR ''\<newline>''"
  shows "fgets_loop (line @ CHR ''\<newline>'' # rest) buf temp
    = Some (Some (take temp buf @ line @ NUL # drop (Suc (temp + length line)) buf), rest)"
  using assms
proof (induction line arbitrary: buf temp)
  case Nil
  then show ?case by (simp add: upd_conv_take_nth_drop)
next
  case (Cons c line)
  have "fgets_loop (line @ CHR ''\<newline>'' # rest) (buf[temp := c]) (Suc temp)
    = Some (Some (take (Suc temp) (buf[temp := c]) @ line @ NUL # drop (Suc (Suc temp + length line)) (buf[temp := c])), rest)"
    by (rule Cons.IH) (use Cons.prems in \<open>auto simp: nth_list_update\<close>)
  then show ?case using Cons.prems by (auto simp: take_Suc_conv_app_nth)
qed

lemma fgets_loop_eof:
  assumes "CHR ''\<newline>'' \<notin> set line" "Suc (temp + length line) < length buf" "temp + length line > 0" "take temp buf @ line = x # xs" "x \<noteq> NUL"
    and "\<forall>i. temp \<le> i \<and> i \<le> temp + length line \<longrightarrow> buf ! i \<noteq> CHR ''\<newline>''"
  shows "fgets_loop line buf temp
    = Some (Some (take temp buf @ line @ buf ! (temp + length line) # NUL # drop (Suc (Suc (temp + length line))) buf), [])"
  using assms
proof (induction line arbitrary: buf temp)
  case Nil
  then have "buf ! 0 = x" by (cases buf) (auto simp: take_Cons split: nat.splits)
  then have "aget buf 0 = Some x" using Nil.prems(2) by (cases buf) (auto simp: aget_def)
  with Nil show ?case
    by (simp add: upd_conv_take_nth_drop take_Suc_conv_app_nth)
next
  case (Cons c line)
  have "fgets_loop line (buf[temp := c]) (Suc temp) = Some (Some (take (Suc temp) (buf[temp := c]) @ line
      @ buf[temp := c] ! (Suc temp + length line) # NUL # drop (Suc (Suc (Suc temp + length line))) (buf[temp := c])), [])"
    by (rule Cons.IH) (use Cons.prems in \<open>auto simp: nth_list_update take_Suc_conv_app_nth\<close>)
  then show ?case using Cons.prems by (auto simp: take_Suc_conv_app_nth)
qed

section \<open>Printing\<close>

fun field_cells :: "(u64 \<Rightarrow> string) \<Rightarrow> char \<Rightarrow> u64 \<Rightarrow> char option list" where
  "field_cells text f v =
     (if f = CHR ''c'' \<or> f = CHR ''d'' \<and> sint (ucast v :: u32) = 0 \<or> f \<in> {CHR ''x'', CHR ''p''} \<and> v = 0
      then map Some (field_text text f v) else map Some (field_text text f v) @ [None])"

text \<open>The bytes that printing writes, \<^const>\<open>None\<close> for one that it passes over.\<close>

fun printf_cells :: "(u64 \<Rightarrow> string) \<Rightarrow> string \<Rightarrow> u64 list \<Rightarrow> char option list option" where
  "printf_cells text [] args = Some []"
| "printf_cells text (x # fmt) args =
     (if x = CHR ''%''
      then (case (fmt, args) of
              (f # fmt, v # args) \<Rightarrow>
                if good_field f v then map_option ((@) (field_cells text f v)) (printf_cells text fmt args) else None
            | _ \<Rightarrow> None)
      else if x = NUL then None
      else map_option ((#) (Some x)) (printf_cells text fmt args))"

definition merge :: "char option list \<Rightarrow> string \<Rightarrow> string" where
  "merge cells old = map2 (\<lambda>c x. case c of None \<Rightarrow> x | Some y \<Rightarrow> y) cells old"

lemma merge_append: "length a \<le> length old \<Longrightarrow> merge (a @ b) old = merge a old @ merge b (drop (length a) old)"
  by (induction a arbitrary: old) (auto simp: merge_def Suc_le_length_iff)

lemma merge_Some: "length s \<le> length old \<Longrightarrow> merge (map Some s) old = s"
  by (induction s arbitrary: old) (auto simp: merge_def Suc_le_length_iff)


lemma merge_gap:
  "Suc (length s) \<le> length rs \<Longrightarrow> merge (map Some s @ [None]) rs @ drop (Suc (length s)) rs = s @ drop (length s) rs"
proof -
  assume l: "Suc (length s) \<le> length rs"
  then obtain y ys where d: "drop (length s) rs = y # ys" by (cases "drop (length s) rs") auto
  then have "drop (Suc (length s)) rs = ys" by (metis drop_Suc list.sel(3) tl_drop)
  with l d show ?thesis by (simp add: merge_append merge_Some) (simp add: merge_def)
qed

lemma merge_full: "length s \<le> length rs \<Longrightarrow> merge (map Some s) rs @ drop (length s) rs = s @ drop (length s) rs"
  by (simp add: merge_Some)

lemma put_chars_at:
  "length s \<le> length rs \<Longrightarrow> put_chars s (length bs) (bs @ rs) = Some (length bs + length s, bs @ s @ drop (length s) rs)"
  by (simp add: put_chars_eq)

lemma update_at: "rs \<noteq> [] \<Longrightarrow> (bs @ rs)[length bs := x] = bs @ x # drop (Suc 0) rs"
  by (cases rs) simp_all

lemma hex_text_0: "hex_text 0 = ''0''"
  by code_simp

definition hex_cells :: "u64 \<Rightarrow> char option list" where
  "hex_cells v = (if v = 0 then [Some (CHR ''0'')] else map Some (hex_text (unat v)) @ [None])"

lemma print_hex_cells:
  assumes "length (hex_cells v) \<le> length rs"
  shows "\<exists>m. print_hex v (length bs) (bs @ rs) = Some (m, bs @ merge (hex_cells v) rs @ drop (length (hex_cells v)) rs)
    \<and> m + 1 = length bs + length (hex_cells v)"
proof (cases "v = 0")
  case True
  with assms have "rs \<noteq> []" by (auto simp: hex_cells_def)
  with True show ?thesis
    using merge_full [of "''0''" rs] assms by (simp add: print_hex_def hex_cells_def update_at Suc_le_eq)
next
  case False
  with assms merge_gap [of "hex_text (unat v)" rs] show ?thesis
    by (simp add: print_hex_def hex_cells_def digits_hex put_chars_at)
qed

lemma field_cells_hex:
  "field_cells text (CHR ''x'') v = hex_cells v" "field_cells text (CHR ''p'') v = map Some ''0x'' @ hex_cells v"
  by (auto simp: hex_cells_def field_text_def hex_text_0)

lemma print_field_cells:
  assumes a: "argument regs n stack = Some (v, st)" and "good_field f v" and l: "length (field_cells strs f v) \<le> length rs"
  shows "\<exists>m. print_field strs regs f n stack (length bs, bs @ rs)
      = Some (st, m, bs @ merge (field_cells strs f v) rs @ drop (length (field_cells strs f v)) rs)
    \<and> m + 1 = length bs + length (field_cells strs f v)"
proof -
  have lt: "sint (ucast v :: u32) < 2 ^ 31" using sint_lt [of "ucast v :: u32"] by simp
  consider "f = CHR ''s''" | "f = CHR ''c''" | "f = CHR ''d''" "0 \<le> sint (ucast v :: u32)" | "f = CHR ''x''" | "f = CHR ''p''"
    using assms(2) by (auto simp: good_field_def)
  then show ?thesis
  proof cases
    case 1
    with l merge_gap [of "cstr (strs v)" rs] show ?thesis
      by (simp add: print_field_def a field_text_def put_chars_at)
  next
    case 2
    with l have "rs \<noteq> []" by (auto simp: field_text_def)
    with 2 l merge_full [of "[char_of (uint v)]" rs] show ?thesis
      by (simp add: print_field_def a field_text_def update_at Suc_le_eq)
  next
    case 3
    show ?thesis
    proof (cases "sint (ucast v :: u32) = 0")
      case True
      with 3 l have "rs \<noteq> []" by (auto simp: field_text_def dec_text_0)
      with True 3 l merge_full [of "''0''" rs] show ?thesis
        by (simp add: print_field_def a field_text_def update_at Suc_le_eq dec_text_0 Let_def)
    next
      case False
      with 3 lt have "digits (dec_rem (sint (ucast v :: u32))) = Some (dec_text (nat (sint (ucast v :: u32))))"
        by (intro digits_dec) auto
      with False 3 l merge_gap [of "dec_text (nat (sint (ucast v :: u32)))" rs] show ?thesis
        by (simp add: print_field_def a field_text_def put_chars_at Let_def)
    qed
  next
    case 4
    with l show ?thesis unfolding 4 field_cells_hex
      using print_hex_cells [of v rs bs] by (auto simp: print_field_def a field_cells_hex simp del: field_cells.simps)
  next
    case 5
    have l2: "2 \<le> length rs" "length (hex_cells v) \<le> length (drop 2 rs)"
      using l unfolding 5 field_cells_hex by auto
    obtain m where m: "print_hex v (length (bs @ ''0x'')) ((bs @ ''0x'') @ drop 2 rs)
        = Some (m, (bs @ ''0x'') @ merge (hex_cells v) (drop 2 rs) @ drop (length (hex_cells v)) (drop 2 rs))"
      "m + 1 = length (bs @ ''0x'') + length (hex_cells v)"
      using print_hex_cells [OF l2(2), of "bs @ ''0x''"] by blast
    have "put_chars ''0x'' (length bs) (bs @ rs) = Some (length (bs @ ''0x''), (bs @ ''0x'') @ drop 2 rs)"
      using put_chars_at [of "''0x''" rs bs] l2(1) by (simp add: numeral_2_eq_2)
    moreover have "merge (map Some ''0x'' @ hex_cells v) rs = ''0x'' @ merge (hex_cells v) (drop 2 rs)"
      using merge_append [of "map Some ''0x''" rs "hex_cells v"] merge_Some [of "''0x''" rs] l2(1) by (simp add: numeral_2_eq_2)
    ultimately show ?thesis unfolding 5 field_cells_hex
      using m by (simp add: print_field_def a add.commute del: put_chars.simps)
  qed
qed

lemma printf_loop_cells:
  assumes "length regs = 5"
  shows "\<lbrakk> printf_cells strs fmt (drop (n - 1) regs @ stack) = Some cs; 0 < n; length cs \<le> length rs \<rbrakk>
    \<Longrightarrow> \<exists>k. printf_loop strs regs fmt n stack len (length bs, bs @ rs)
      = Some (len + k, length bs + length cs, bs @ merge cs rs @ drop (length cs) rs) \<and> (fmt \<noteq> [] \<longrightarrow> 0 < k)"
proof (induction strs fmt "drop (n - 1) regs @ stack" arbitrary: n stack len bs rs cs rule: printf_cells.induct)
  case (1 strs)
  then show ?case by (simp add: merge_def)
next
  case (2 strs x fmt)
  show ?case
  proof (cases "x = CHR ''%''")
    case True
    with 2(3) obtain f fmt' v args u where f: "fmt = f # fmt'" and a: "drop (n - 1) regs @ stack = v # args"
      and g: "good_field f v" and u: "printf_cells strs fmt' args = Some u" and t: "cs = field_cells strs f v @ u"
      by (auto split: list.splits if_splits)
    let ?c = "field_cells strs f v"
    obtain st where st: "argument regs (n + 1) stack = Some (v, st)" "drop n regs @ st = args"
      using argument_next [OF assms 2(4) a] by auto
    have l: "length ?c \<le> length rs" "length u \<le> length (drop (length ?c) rs)" using 2(5) t by auto
    obtain m where m: "print_field strs regs f (n + 1) stack (length bs, bs @ rs) = Some (st, m, bs @ merge ?c rs @ drop (length ?c) rs)"
      "m + 1 = length bs + length ?c"
      using print_field_cells [OF st(1) g l(1), of bs] by blast
    have a': "drop (n - 1) regs @ stack = v # drop (n + 1 - 1) regs @ st" using a st(2) by simp
    have lm: "length (merge ?c rs) = length ?c" using l(1) by (simp add: merge_def del: field_cells.simps)
    have "\<exists>k. printf_loop strs regs fmt' (n + 1) st (len + 1) (length (bs @ merge ?c rs), (bs @ merge ?c rs) @ drop (length ?c) rs)
      = Some (len + 1 + k, length (bs @ merge ?c rs) + length u, (bs @ merge ?c rs) @ merge u (drop (length ?c) rs) @ drop (length u) (drop (length ?c) rs))
        \<and> (fmt' \<noteq> [] \<longrightarrow> 0 < k)"
      by (rule 2(1) [OF True refl f a' g _ _ l(2)]) (use st(2) u in \<open>simp_all del: field_cells.simps\<close>)
    then obtain k where "printf_loop strs regs fmt' (n + 1) st (len + 1) (m + 1, bs @ merge ?c rs @ drop (length ?c) rs)
      = Some (len + Suc k, length bs + length cs, bs @ merge cs rs @ drop (length cs) rs)"
      using m(2) lm t l(1) by (auto simp: merge_append add.commute simp del: field_cells.simps)
    then show ?thesis using True f m(1) by (auto simp del: field_cells.simps intro!: exI [of _ "Suc k"])
  next
    case False
    with 2(3) obtain u where u: "printf_cells strs fmt (drop (n - 1) regs @ stack) = Some u" and t: "cs = Some x # u" and x: "x \<noteq> NUL"
      by (auto split: if_splits)
    obtain y ys where rs: "rs = y # ys" using 2(5) t by (cases rs) auto
    obtain k where "printf_loop strs regs fmt n stack (len + 1) (length (bs @ [x]), (bs @ [x]) @ ys)
      = Some (len + 1 + k, length (bs @ [x]) + length u, (bs @ [x]) @ merge u ys @ drop (length u) ys)"
      using 2(2) [OF False x refl u 2(4), of ys "len + 1" "bs @ [x]"] 2(5) t rs by auto
    then show ?thesis using False rs t
      by (auto simp: update_at merge_def intro!: exI [of _ "Suc k"])
  qed
qed


lemma printf_cells_no_NUL: "printf_cells strs fmt args = Some cs \<Longrightarrow> NUL \<notin> set fmt"
proof (induction strs fmt args arbitrary: cs rule: printf_cells.induct)
  case (2 strs x fmt args)
  show ?case
  proof (cases "x = CHR ''%''")
    case True
    with 2(3) obtain f fmt' v args' u where f: "fmt = f # fmt'" "args = v # args'" "good_field f v"
      "printf_cells strs fmt' args' = Some u"
      by (auto split: list.splits if_splits)
    with 2(1) [OF True refl f(1,2,3,4)] True show ?thesis by (auto simp: good_field_def NUL_def)
  next
    case False
    with 2 show ?thesis by (auto split: if_splits)
  qed
qed simp

section \<open>Properties\<close>

text \<open>The string routines of the user library compute the same as those of the kernel, on every input: the same
  results and the same reads and writes outside of the arrays.\<close>

theorem user_strings_agree_with_kernel:
  "strcpy s1 s2 = kstrcopy s1 s2 \<and> strlen s = kstrlength s \<and> strcmp s1 s2 = kstrcmp s1 s2 \<and>
   strcat s1 s2 c = kstrcat s1 s2 c"
  by (simp add: strcpy_kernel strcmp_kernel strcat_kernel)

text \<open>\<^verbatim>\<open>tokenize\<close> splits a line of at most five words of at most 25 characters at its spaces and newlines; two
  separators in a row make an empty word, one at the end makes none.  It asks \<^verbatim>\<open>malloc\<close> for 40 bytes and for 25 bytes for
  each word, and does not return when the memory runs out.  Counting the words gives their number when
  the unused pointers happen to be null and reads behind the array when there are five.\<close>

theorem tokenize_splits_line:
  assumes "NUL \<notin> set line" "length (fields line) \<le> 5" "\<forall>w \<in> set (fields line). length w \<le> 25" "length old = 5"
  shows "\<exists>ts. tokenize mal old (line @ NUL # r) h = map_option (Pair ts) (mallocs mal (40 # replicate (length (fields line)) 25) h) \<and>
    ts = map block (fields line) @ drop (length (fields line)) old \<and>
    (old = replicate 5 None \<longrightarrow> tokencount ts = (if length (fields line) = 5 then None else Some (length (fields line))))"
proof -
  have "tokencount (map block (fields line) @ drop (length (fields line)) (replicate 5 None))
      = (if length (fields line) = 5 then None else Some (length (fields line)))"
    using assms(2) tokencount_blocks [of "fields line" "5 - length (fields line)"] by (simp add: drop_replicate)
  with tokenize_line [OF assms, of mal r h] show ?thesis unfolding token_sizes_def by auto
qed

theorem tokenize_splits_line_witness:
  "\<exists>ts. tokenize (\<lambda>n room. if n \<le> room then Some (room - n) else None) (replicate 5 None) (''cat  /proc\<newline>'' @ NUL # []) 120 = Some (ts, 5)
    \<and> tokencount ts = Some 3"
proof -
  have f: "fields ''cat  /proc\<newline>'' = [''cat'', '''', ''/proc'']" by (simp add: fields_def separator_def)
  show ?thesis
    using tokenize_splits_line [of "''cat  /proc\<newline>''" "replicate 5 None" "\<lambda>n room. if n \<le> room then Some (room - n) else None" "[]" 120]
    unfolding f by (auto simp: NUL_def numeral_3_eq_3)
qed

text \<open>\<^verbatim>\<open>atoi\<close> is the inverse of decimal printing: it reads the digits of every number below 2^31 back to that number.\<close>

theorem atoi_of_decimal:
  assumes "n < 2 ^ 31"
  shows "atoi (dec_text n @ NUL # rest) = Some (int n)"
proof -
  have "int n < 2 ^ 31" using assms by simp
  then show ?thesis by (rule atoi_dec)
qed

theorem atoi_of_decimal_witness:
  "atoi (''120'' @ NUL # ''x'') = Some 120"
proof -
  have "dec_text 120 = ''120''" by code_simp
  then show ?thesis using atoi_of_decimal [of 120 "''x''"] by simp
qed

text \<open>\<^verbatim>\<open>fgets\<close> reads one line into a buffer that is long enough and has no newline in it yet: the newline is replaced by
  a terminator and the rest of the input stays.  When the input ends without a newline, the line is followed by
  one character that was in the buffer before.\<close>

theorem fgets_reads_line:
  assumes "CHR ''\<newline>'' \<notin> set line" "length line + 1 < length buf" "CHR ''\<newline>'' \<notin> set (take (length line + 1) buf)"
  shows "fgets (line @ CHR ''\<newline>'' # rest) buf sz = Some (Some (line @ NUL # drop (length line + 1) buf), rest) \<and>
    (line \<noteq> [] \<and> hd line \<noteq> NUL \<longrightarrow>
      fgets line buf sz = Some (Some (line @ buf ! length line # NUL # drop (length line + 2) buf), []))"
proof -
  have n: "\<forall>i. i \<le> length line \<longrightarrow> buf ! i \<noteq> CHR ''\<newline>''"
    using assms(2,3) by (auto simp: in_set_conv_nth)
  show ?thesis
    using fgets_loop_line [of line 0 buf rest] fgets_loop_eof [of line 0 buf "hd line" "List.tl line"] assms n
    by (auto simp: fgets_def)
qed

theorem fgets_reads_line_witness:
  "fgets (''#!'' @ CHR ''\<newline>'' # ''ls'') ''abcdef'' 50 = Some (Some (''#!'' @ NUL # ''def''), ''ls'') \<and>
    fgets ''#!'' ''abcdef'' 50 = Some (Some (''#!c'' @ NUL # ''ef''), [])"
  using fgets_reads_line [of "''#!''" "''abcdef''" "''ls''" 50] by (simp add: NUL_def)

text \<open>What \<^verbatim>\<open>printf\<close> hands to \<^verbatim>\<open>write\<close>: the text that the format denotes, but after every string and after every number
  other than 0 it passes over one byte, where whatever \<^verbatim>\<open>malloc\<close> left in the buffer is printed.\<close>

theorem printf_leaves_gaps:
  assumes "length regs = 5" "printf_cells strs fmt (regs @ stack) = Some cs" "fmt \<noteq> []" "length cs < length old"
  shows "\<exists>k > 0. printf strs regs stack old (fmt @ [NUL]) = Some (merge cs old, k)"
proof -
  have n: "NUL \<notin> set fmt" by (rule printf_cells_no_NUL [OF assms(2)])
  obtain k where "printf_loop strs regs fmt 1 stack 0 (0, old) = Some (k, length cs, merge cs old @ drop (length cs) old)" "0 < k"
    using printf_loop_cells [OF assms(1), of strs fmt 1 stack cs old 0 "[]"] assms(2-4) by auto
  moreover have "length (merge cs old) = length cs" using assms(4) by (simp add: merge_def)
  ultimately show ?thesis using n assms(4) by (simp add: printf_def aput_def list_update_append)
qed

theorem printf_leaves_gaps_witness:
  "\<exists>k > 0. printf (\<lambda>a. ''init'' @ [NUL]) [4096, 107, 0, 0, 0] [] ''abcdefghijklmnopqrstuvwxyz'' (''%s: %d %x'' @ [NUL])
    = Some (''inite: 107k 0'', k)"
proof -
  have d: "dec_text 107 = ''107''" "hex_text 0 = ''0''" by code_simp+
  have c: "printf_cells (\<lambda>a. ''init'' @ [NUL]) ''%s: %d %x'' ([4096, 107, 0, 0, 0] @ [])
      = Some (map Some ''init'' @ [None] @ map Some '': 107'' @ [None] @ map Some '' 0'')"
    by (simp add: good_field_def field_text_def d cstr_def NUL_def)
  show ?thesis
    using printf_leaves_gaps [OF _ c, of "''abcdefghijklmnopqrstuvwxyz''"] by (simp add: merge_def)
qed

end
