(* ===== verification/Shell.thy ===== *)
theory Shell
  imports Ulib Umalloc
begin

text \<open>
  The shell: \<^verbatim>\<open>bin/sbush/sbush.c\<close>, which reads commands from the terminal, and \<^verbatim>\<open>bin/sh/sh.c\<close>, which reads them from a
  script.  What a program does is the list of its system calls; \<^verbatim>\<open>fork\<close> carries the calls of the child.  The shell sees
  the kernel through the results of its calls: \<open>access\<close> is the answer to \<^verbatim>\<open>access\<close>, \<open>pid k\<close> the number that the call \<open>k\<close> of
  \<^verbatim>\<open>fork\<close> returns to the parent, \<open>old\<close> and \<open>concatstr\<close> the contents of fresh memory, \<open>mal\<close> the calls of \<^verbatim>\<open>malloc\<close> on the
  heap \<open>h\<close>, from which nothing is given back.
\<close>

datatype act =
    Write string
  | Fork "act list"
  | Execvpe string "string list"
  | Waitpid int
  | Exit int

section \<open>Printing a line\<close>

text \<open>\<^verbatim>\<open>putchar\<close> and \<^verbatim>\<open>puts\<close> of the C library: the result and the calls.\<close>

definition putchar :: "char \<Rightarrow> char \<times> act list" where
  "putchar c = (c, [Write [c]])"

fun puts :: "string \<Rightarrow> (int \<times> act list) option" where
  "puts [] = None"
| "puts (c # s) =
     (if c = NUL
      then (let (r, w) = putchar (CHR ''\<newline>'') in Some (if r = CHR ''\<newline>'' then 0 else - 1, w))
      else (let (r, w) = putchar c in
            if r \<noteq> c then Some (- 1, w)
            else do { (e, ws) \<leftarrow> puts s; Some (e, w @ ws) }))"

definition gets :: "string \<Rightarrow> string \<Rightarrow> string option" where
  "gets line s = kmemcpychar line s (of_nat (length line))"

section \<open>Running a command\<close>

text \<open>The strings that the kernel finds in an array of tokens.\<close>

fun args_of :: "tokens \<Rightarrow> string list option" where
  "args_of [] = None"
| "args_of (None # tokens) = Some []"
| "args_of (Some t # tokens) = (if terminated t then do { ts \<leftarrow> args_of tokens; Some (cstr t # ts) } else None)"

text \<open>\<^verbatim>\<open>bg_fg_process\<close>, the same function in both programs, in the process in which \<^verbatim>\<open>fork\<close> returned \<open>pid\<close>.\<close>

definition bg_fg_process :: "(string \<Rightarrow> int) \<Rightarrow> string \<Rightarrow> tokens \<Rightarrow> int \<Rightarrow> act list option" where
  "bg_fg_process access concatstr command pid =
     do { commandc \<leftarrow> tokencount command;
          if pid = 0
          then do { name \<leftarrow> aget command 0;
                    name \<leftarrow> name;
                    filename \<leftarrow> strcat (''bin/'' @ [NUL]) name concatstr;
                    if access (cstr filename) = - 1
                    then do { (_, w1) \<leftarrow> puts (''Command not found'' @ [NUL]);
                              (_, w2) \<leftarrow> puts filename;
                              Some (w1 @ w2 @ [Exit 0]) }
                    else do { args \<leftarrow> args_of command; Some [Execvpe (cstr filename) args] } }
          else if 0 < pid
          then do { last \<leftarrow> (if commandc = 0 then None else aget command (commandc - 1));
                    last \<leftarrow> last;
                    r \<leftarrow> strcmp (''&'' @ [NUL]) last;
                    Some (if r \<noteq> 0 then [Waitpid pid] else []) }
          else Some [] }"

definition run_command :: "(string \<Rightarrow> int) \<Rightarrow> string \<Rightarrow> int \<Rightarrow> tokens \<Rightarrow> act list option" where
  "run_command access concatstr pid command =
     do { child \<leftarrow> bg_fg_process access concatstr command 0;
          parent \<leftarrow> bg_fg_process access concatstr command pid;
          Some (Fork child # parent) }"

section \<open>The interactive shell\<close>

text \<open>A command that starts with \<^verbatim>\<open>/\<close> or \<^verbatim>\<open>.\<close> is a script for \<^verbatim>\<open>sh\<close>.  The two copies of its name fill the memory that is
  allocated for them.\<close>

definition script_command :: "(nat \<Rightarrow> 'h \<Rightarrow> 'h option) \<Rightarrow> tokens \<Rightarrow> 'h \<Rightarrow> (tokens \<times> 'h) option" where
  "script_command mal tokens h =
     do { t0 \<leftarrow> aget tokens 0;
          t0 \<leftarrow> t0;
          c \<leftarrow> aget t0 0;
          if c = CHR ''/'' \<or> c = CHR ''.''
          then do { n \<leftarrow> strlen t0;
                    h \<leftarrow> mal (n + 1) h;
                    temp \<leftarrow> strcpy (replicate (n + 1) NUL) t0;
                    t0 \<leftarrow> strcpy t0 (''sh'' @ [NUL]);
                    tokens \<leftarrow> aput tokens 0 (Some t0);
                    n \<leftarrow> strlen temp;
                    h \<leftarrow> mal (n + 1) h;
                    t1 \<leftarrow> strcpy (replicate (n + 1) NUL) temp;
                    tokens \<leftarrow> aput tokens 1 (Some t1);
                    Some (tokens, h) }
          else Some (tokens, h) }"

definition mapFunction :: "(nat \<Rightarrow> 'h \<Rightarrow> 'h option) \<Rightarrow> (string \<Rightarrow> int) \<Rightarrow> string \<Rightarrow> tokens \<Rightarrow> int \<Rightarrow> string \<Rightarrow> 'h \<Rightarrow> (act list \<times> 'h) option" where
  "mapFunction mal access concatstr old pid inputString h =
     do { (tokens, h) \<leftarrow> tokenize mal old inputString h;
          (tokens, h) \<leftarrow> script_command mal tokens h;
          w \<leftarrow> run_command access concatstr pid tokens;
          Some (w, h) }"

text \<open>The loop of \<^verbatim>\<open>main\<close> over the lines that are typed: the calls, and whether the loop was left; when no line is left
  the shell waits.\<close>

fun sbush_loop :: "(nat \<Rightarrow> 'h \<Rightarrow> 'h option) \<Rightarrow> (string \<Rightarrow> int) \<Rightarrow> string \<Rightarrow> tokens \<Rightarrow> (nat \<Rightarrow> int) \<Rightarrow> nat \<Rightarrow> string list \<Rightarrow> string \<Rightarrow> 'h
    \<Rightarrow> (bool \<times> act list) option" where
  "sbush_loop mal access concatstr old pid k lines stringInput h =
     do { r \<leftarrow> strcmp stringInput (''exit'' @ CHR ''\<newline>'' # [NUL]);
          if r = 0 then Some (True, [Write ''After everything''])
          else do { n \<leftarrow> strlen stringInput;
                    stringInput \<leftarrow> umemset stringInput 0 (int n);
                    case lines of
                      [] \<Rightarrow> Some (False, [Write ''sbush> ''])
                    | line # lines \<Rightarrow>
                        do { stringInput \<leftarrow> gets line stringInput;
                             r \<leftarrow> strcmp stringInput (CHR ''\<newline>'' # [NUL]);
                             if r = 0
                             then do { (b, ws) \<leftarrow> sbush_loop mal access concatstr old pid k lines stringInput h;
                                       Some (b, Write ''sbush> '' # ws) }
                             else do { stringInput \<leftarrow> trim stringInput;
                                       (w, h) \<leftarrow> mapFunction mal access concatstr old (pid k) stringInput h;
                                       (b, ws) \<leftarrow> sbush_loop mal access concatstr old pid (Suc k) lines stringInput h;
                                       Some (b, Write ''sbush> '' # w @ ws) } } } }"

declare sbush_loop.simps [simp del]

definition sbush :: "(nat \<Rightarrow> 'h \<Rightarrow> 'h option) \<Rightarrow> (string \<Rightarrow> int) \<Rightarrow> string \<Rightarrow> tokens \<Rightarrow> (nat \<Rightarrow> int) \<Rightarrow> string list \<Rightarrow> string \<Rightarrow> 'h
    \<Rightarrow> (bool \<times> act list) option" where
  "sbush mal access concatstr old pid lines inp h =
     do { s \<leftarrow> aput inp 0 (CHR ''e'');
          s \<leftarrow> aput s 1 NUL;
          sbush_loop mal access concatstr old pid 0 lines s h }"

section \<open>Lines of a file\<close>

text \<open>\<^verbatim>\<open>fgets\<close> as it is called: \<open>read s\<close> is a \<^verbatim>\<open>read\<close> of one byte, \<^const>\<open>None\<close> in the place of the byte at the end of the file.\<close>

partial_function (option) fgets_over :: "('s \<Rightarrow> (char option \<times> 's) option) \<Rightarrow> string \<Rightarrow> nat \<Rightarrow> 's \<Rightarrow> (string option \<times> 's) option" where
  "fgets_over read buf temp s =
     do { c \<leftarrow> aget buf temp;
          if c = CHR ''\<newline>'' then Some (None, s)
          else do { (b, s) \<leftarrow> read s;
                    case b of
                      None \<Rightarrow>
                        do { x \<leftarrow> aget buf 0;
                             buf \<leftarrow> (if x = NUL then aput buf temp (char_of (- 1 :: int)) else Some buf);
                             buf \<leftarrow> aput buf (temp + 1) NUL;
                             Some (Some buf, s) }
                    | Some r \<Rightarrow>
                        do { buf \<leftarrow> aput buf temp r;
                             if r = CHR ''\<newline>''
                             then do { buf \<leftarrow> aput buf temp NUL; Some (Some buf, s) }
                             else fgets_over read buf (Suc temp) s } } }"

declare fgets_over.simps [simp del]

text \<open>What reading lines needs of a file: \<open>rest s\<close> are the bytes that are left in a good state.\<close>

locale byte_source =
  fixes read :: "'s \<Rightarrow> (char option \<times> 's) option"
    and good :: "'s \<Rightarrow> bool"
    and rest :: "'s \<Rightarrow> string"
  assumes read_end: "good s \<Longrightarrow> rest s = [] \<Longrightarrow> \<exists>s'. read s = Some (None, s') \<and> good s' \<and> rest s' = []"
    and read_byte: "good s \<Longrightarrow> rest s = c # cs \<Longrightarrow> \<exists>s'. read s = Some (Some c, s') \<and> good s' \<and> rest s' = cs"
begin

definition same_line :: "(string option \<times> string) option \<Rightarrow> (string option \<times> 's) option \<Rightarrow> bool" where
  "same_line x y = (case x of None \<Rightarrow> y = None | Some (r, input) \<Rightarrow> \<exists>s'. y = Some (r, s') \<and> good s' \<and> rest s' = input)"

lemma fgets_over_refines:
  "good s \<Longrightarrow> same_line (fgets_loop (rest s) buf temp) (fgets_over read buf temp s)"
proof (induction "rest s" arbitrary: s buf temp)
  case Nil
  then have e: "rest s = []" by simp
  obtain s' where "read s = Some (None, s')" "good s'" "rest s' = []" using read_end [OF Nil(2) e] by blast
  then show ?case using Nil(2) e
    by (subst fgets_over.simps) (auto simp: same_line_def aget_def aput_def)
next
  case (Cons c cs)
  have e: "rest s = c # cs" using Cons.hyps(2) by simp
  obtain s' where s': "read s = Some (Some c, s')" "good s'" "rest s' = cs" using read_byte [OF Cons.prems e] by blast
  have IH: "same_line (fgets_loop cs b t) (fgets_over read b t s')" for b t
    using Cons.hyps(1) [of s' b t] s' by simp
  show ?case
  proof (cases "temp < length buf \<and> buf ! temp \<noteq> CHR ''\<newline>'' \<and> c \<noteq> CHR ''\<newline>''")
    case True
    then have "fgets_over read buf temp s = fgets_over read (buf[temp := c]) (Suc temp) s'"
      using s' by (subst fgets_over.simps) simp
    with IH [of "buf[temp := c]" "Suc temp"] True show ?thesis by (simp add: e)
  next
    case False
    then show ?thesis using s' Cons.prems e
      by (subst fgets_over.simps) (auto simp: same_line_def aget_def aput_def)
  qed
qed

lemma fgets_over_line:
  "good s \<Longrightarrow> fgets (rest s) buf sz = Some (r, input) \<Longrightarrow> \<exists>s'. fgets_over read buf 0 s = Some (r, s') \<and> good s' \<and> rest s' = input"
  using fgets_over_refines [of s buf 0] by (simp add: same_line_def fgets_def)

lemma fgets_over_fault: "good s \<Longrightarrow> fgets (rest s) buf sz = None \<Longrightarrow> fgets_over read buf 0 s = None"
  using fgets_over_refines [of s buf 0] by (simp add: same_line_def fgets_def)

end

section \<open>Scripts\<close>

text \<open>The name of the script: relative names are put behind the working directory.  \<open>cwd\<close> is what \<^verbatim>\<open>getcwd\<close> writes to
  its buffer, \<open>string3\<close> the local array.\<close>

definition script_name :: "string \<Rightarrow> string \<Rightarrow> string \<Rightarrow> string option" where
  "script_name cwd string3 arg =
     do { c \<leftarrow> aget arg 0;
          if c = CHR ''.'' then strcat cwd (drop 2 arg) string3
          else if c \<noteq> CHR ''/'' then strcat cwd arg string3
          else Some arg }"

text \<open>The loop over the lines of the script; \<open>read\<close> reads a byte of the file \<open>s\<close>, and the end of the file is the
  character -1.  \<^verbatim>\<open>fgets\<close> returns the empty string only when the buffer is not empty, and then the loop would write
  to a constant.  The calls end when the script does.\<close>

definition EOF :: char where
  "EOF = char_of (- 1 :: int)"

partial_function (option) sh_loop :: "(nat \<Rightarrow> 'h \<Rightarrow> 'h option) \<Rightarrow> ('s \<Rightarrow> (char option \<times> 's) option) \<Rightarrow> (string \<Rightarrow> int) \<Rightarrow> string \<Rightarrow> tokens
    \<Rightarrow> (nat \<Rightarrow> int) \<Rightarrow> nat \<Rightarrow> 's \<Rightarrow> string \<Rightarrow> 'h \<Rightarrow> act list option" where
  "sh_loop mal read access concatstr old pid k s line h =
     do { c \<leftarrow> aget line 0;
          if c = EOF then Some []
          else do { n \<leftarrow> strlen line;
                    line \<leftarrow> umemset line 0 (int n);
                    (r, s) \<leftarrow> fgets_over read line 0 s;
                    line \<leftarrow> r;
                    c \<leftarrow> aget line 0;
                    if c = EOF then Some []
                    else if c = CHR ''#'' then sh_loop mal read access concatstr old pid k s line h
                    else do { (split, h) \<leftarrow> tokenize mal old line h;
                              w \<leftarrow> run_command access concatstr (pid k) split;
                              ws \<leftarrow> sh_loop mal read access concatstr old pid (Suc k) s line h;
                              Some (w @ ws) } } }"

declare sh_loop.simps [simp del]

text \<open>\<open>opened\<close> is the file when \<^verbatim>\<open>open\<close> finds it, \<open>mem\<close> the content of the buffer for the lines; the result is that of
  \<^verbatim>\<open>main\<close> and the calls.\<close>

definition sh :: "(nat \<Rightarrow> 'h \<Rightarrow> 'h option) \<Rightarrow> ('s \<Rightarrow> (char option \<times> 's) option) \<Rightarrow> (string \<Rightarrow> int) \<Rightarrow> string \<Rightarrow> tokens \<Rightarrow> (nat \<Rightarrow> int)
    \<Rightarrow> (string \<Rightarrow> 's option) \<Rightarrow> string \<Rightarrow> string \<Rightarrow> string \<Rightarrow> string \<Rightarrow> 'h \<Rightarrow> (int \<times> act list) option" where
  "sh mal read access concatstr old pid opened cwd string3 mem arg h =
     do { h \<leftarrow> mal 25 h;
          filename \<leftarrow> script_name cwd string3 arg;
          case opened (cstr filename) of
            None \<Rightarrow> do { (_, w) \<leftarrow> puts (''File Not Found'' @ CHR ''\<newline>'' # [NUL]); Some (1, w) }
          | Some s \<Rightarrow>
              do { h \<leftarrow> mal 50 h;
                   line \<leftarrow> umemset mem 0 50;
                   (r, s) \<leftarrow> fgets_over read line 0 s;
                   line \<leftarrow> (case r of None \<Rightarrow> Some [NUL] | Some line \<Rightarrow> Some line);
                   c \<leftarrow> strcmp line (''#!/bin/sbush'' @ [NUL]);
                   if c \<noteq> 0
                   then do { (_, w) \<leftarrow> puts (''Script cannot be executed in this shell'' @ CHR ''\<newline>'' # [NUL]); Some (1, w) }
                   else do { w \<leftarrow> sh_loop mal read access concatstr old pid 0 s line h; Some (0, w) } } }"

section \<open>What a command does\<close>

definition puts_acts :: "string \<Rightarrow> act list" where
  "puts_acts s = map (\<lambda>c. Write [c]) (s @ [CHR ''\<newline>''])"

lemma puts_eq [simp]: "puts s = (if terminated s then Some (0, puts_acts (cstr s)) else None)"
  by (induction s) (auto simp: puts_acts_def putchar_def cstr_Cons)

text \<open>The command \<open>ws\<close>: the child runs the program of that name below \<^verbatim>\<open>bin/\<close> with the words as its arguments, the
  shell waits for it unless the last word is \<^verbatim>\<open>&\<close>.\<close>

definition command_acts :: "(string \<Rightarrow> int) \<Rightarrow> int \<Rightarrow> string list \<Rightarrow> act list" where
  "command_acts access pid ws =
     Fork (if access (''bin/'' @ hd ws) = - 1
           then puts_acts ''Command not found'' @ puts_acts (''bin/'' @ hd ws) @ [Exit 0]
           else [Execvpe (''bin/'' @ hd ws) ws])
     # (if last ws = ''&'' then [] else [Waitpid pid])"

fun holds :: "string list \<Rightarrow> tokens \<Rightarrow> bool" where
  "holds (w # ws) (Some s # ts) = (terminated s \<and> cstr s = w \<and> holds ws ts)"
| "holds [] (None # ts) = True"
| "holds _ _ = False"

lemma holds_args: "holds ws ts \<Longrightarrow> args_of ts = Some ws"
  by (induction ws ts rule: holds.induct) auto

lemma holds_split: "holds ws ts \<Longrightarrow> \<exists>us vs. ts = map Some us @ None # vs \<and> map cstr us = ws \<and> (\<forall>u \<in> set us. terminated u)"
proof (induction ws ts rule: holds.induct)
  case (1 w ws s ts)
  then obtain us vs where "ts = map Some us @ None # vs" "map cstr us = ws" "\<forall>u \<in> set us. terminated u" by auto
  with 1(2) show ?case by (intro exI [of _ "s # us"] exI [of _ vs]) auto
qed (auto intro: exI [of _ "[]"])

lemma holds_count: "holds ws ts \<Longrightarrow> tokencount ts = Some (length ws)"
proof -
  assume "holds ws ts"
  then obtain us vs where u: "ts = map Some us @ None # vs" "map cstr us = ws" using holds_split by blast
  then have "length us = length ws" by auto
  then show ?thesis using tokencount_prefix [of 0 "map Some us" "None # vs"] u(1) by (simp add: tokencount_def)
qed

lemma kstrcat_strings:
  assumes "terminated s" "terminated t" "length (cstr s) + length (cstr t) < length c"
  shows "\<exists>r. strcat s t c = Some r \<and> terminated r \<and> cstr r = cstr s @ cstr t"
  using assms cstr_append_NUL [of "cstr s @ cstr t"] by (auto simp: strcat_kernel kstrcat_eq simp del: cstr_append_NUL)

lemma run_command_acts:
  assumes "holds ws ts" "ws \<noteq> []" "length (hd ws) \<le> 15" "length c = 20" "0 < pid"
  shows "run_command access c pid ts = Some (command_acts access pid ws)"
proof -
  obtain us vs where u: "ts = map Some us @ None # vs" "map cstr us = ws" "\<forall>u \<in> set us. terminated u"
    using holds_split [OF assms(1)] by blast
  then have ne: "us \<noteq> []" using assms(2) by auto
  have h: "aget ts 0 = Some (Some (hd us))" "cstr (hd us) = hd ws" "terminated (hd us)"
    using u ne by (auto simp: hd_conv_nth nth_append)
  have l: "aget ts (length ws - 1) = Some (Some (last us))" "cstr (last us) = last ws" "terminated (last us)"
    using u ne by (auto simp: last_conv_nth nth_append)
  obtain r where r: "strcat (''bin/'' @ [NUL]) (hd us) c = Some r" "terminated r" "cstr r = ''bin/'' @ hd ws"
    using kstrcat_strings [of "''bin/'' @ [NUL]" "hd us" c] h assms(3,4) by (auto simp: cstr_Cons NUL_def)
  have n: "cstr (''Command not found'' @ [NUL]) = ''Command not found''" "cstr (''&'' @ [NUL]) = ''&''"
    by (simp_all add: cstr_Cons NUL_def)
  show ?thesis
    using assms h l r n holds_count [OF assms(1)] holds_args [OF assms(1)]
    by (auto simp: run_command_def bg_fg_process_def command_acts_def strcmp_kernel)
qed

section \<open>Lines\<close>

definition plain_line :: "string \<Rightarrow> bool" where
  "plain_line l = (NUL \<notin> set l \<and> CHR ''\<newline>'' \<notin> set l \<and> length l \<le> 48 \<and> length (Ulib.fields l) < 5
     \<and> (\<forall>w \<in> set (Ulib.fields l). length w < 25) \<and> length (hd (Ulib.fields l)) \<le> 15)"

lemma fields_from_chars: "w \<in> set (fields_from u l) \<Longrightarrow> set w \<subseteq> set u \<union> set l"
  by (induction u l rule: fields_from.induct) (auto split: if_splits)

lemma fields_chars: "w \<in> set (Ulib.fields l) \<Longrightarrow> set w \<subseteq> set l"
  using fields_from_chars [of w "[]" l] by (simp add: Ulib.fields_def)

lemma fields_nonempty: "Ulib.fields l \<noteq> []"
  using fields_from_word [of "[]" l] by (auto simp: Ulib.fields_def)

lemma holds_blocks:
  "\<forall>w \<in> set ws. NUL \<notin> set w \<and> length w < 25 \<Longrightarrow> holds ws (map block ws @ replicate (Suc m) None)"
proof (induction ws)
  case (Cons w ws)
  then have "25 - length w = Suc (24 - length w)" by auto
  with Cons show ?case by (simp add: block_def)
qed simp

lemma tokenize_holds:
  assumes "plain_line l"
  shows "\<exists>ts. tokenize mal (replicate 5 None) (l @ NUL # r) h = map_option (Pair ts) (mallocs mal (token_sizes l) h) \<and> holds (Ulib.fields l) ts
    \<and> length ts = 5 \<and> ts = map block (Ulib.fields l) @ replicate (5 - length (Ulib.fields l)) None"
proof -
  let ?ts = "map block (Ulib.fields l) @ replicate (5 - length (Ulib.fields l)) None"
  have p: "length (Ulib.fields l) < 5" "\<forall>w \<in> set (Ulib.fields l). NUL \<notin> set w \<and> length w < 25" "NUL \<notin> set l"
    using assms fields_chars [of _ l] by (auto simp: plain_line_def)
  have "tokenize mal (replicate 5 None) (l @ NUL # r) h = map_option (Pair ?ts) (mallocs mal (token_sizes l) h)"
    using tokenize_line [OF p(3), of "replicate 5 None" mal r h] p(1,2) by (simp add: drop_replicate less_imp_le)
  moreover obtain m where "5 - length (Ulib.fields l) = Suc m" using p(1) by (metis Suc_diff_Suc)
  then have "holds (Ulib.fields l) ?ts" using holds_blocks [OF p(2), of m] by simp
  ultimately show ?thesis using p(1) by auto
qed

text \<open>The words that \<^verbatim>\<open>sbush\<close> runs: a script is the first argument of \<^verbatim>\<open>sh\<close>, in the place of its own first argument.\<close>

definition shell_words :: "string list \<Rightarrow> string list" where
  "shell_words ws =
     (if hd ws \<noteq> [] \<and> (hd (hd ws) = CHR ''/'' \<or> hd (hd ws) = CHR ''.'') then ''sh'' # hd ws # drop 2 ws else ws)"

text \<open>The memory for the two copies of the name of a script, and all the memory for a line of \<^verbatim>\<open>sbush\<close>.\<close>

definition script_sizes :: "string list \<Rightarrow> nat list" where
  "script_sizes ws =
     (if hd ws \<noteq> [] \<and> (hd (hd ws) = CHR ''/'' \<or> hd (hd ws) = CHR ''.'') then [length (hd ws) + 1, length (hd ws) + 1] else [])"

definition line_sizes :: "string \<Rightarrow> nat list" where
  "line_sizes l = token_sizes l @ script_sizes (Ulib.fields l)"

lemma script_command_holds:
  assumes "holds ws (map block ws @ replicate (5 - length ws) None)" "ws \<noteq> []" "length ws < 5"
    "\<forall>w \<in> set ws. NUL \<notin> set w \<and> length w < 25"
  shows "\<exists>ts. script_command mal (map block ws @ replicate (5 - length ws) None) h = map_option (Pair ts) (mallocs mal (script_sizes ws) h)
    \<and> holds (shell_words ws) ts"
proof -
  obtain w us where ws: "ws = w # us" using assms(2) by (cases ws) auto
  obtain rest where rest: "25 - length w = Suc rest" using assms(4) ws by (cases "25 - length w") auto
  let ?b = "w @ replicate (Suc rest) NUL"
  have b: "block w = Some ?b" "terminated ?b" "cstr ?b = w" "length ?b = 25"
    using assms(4) ws rest by (simp_all add: block_def)
  have q: "NUL \<notin> set w" using assms(4) ws by auto
  have c: "?b ! 0 = (if w = [] then NUL else hd w)" by (cases w) auto
  have t1: "kstrcopy (replicate (length w + 1) NUL) ?b = Some (w @ [NUL])" using b by simp
  have t2: "kstrcopy ?b (''sh'' @ [NUL]) = Some (''sh'' @ NUL # drop 3 ?b)" using b by (simp add: cstr_Cons NUL_def numeral_3_eq_3)
  have t3: "kstrcopy (replicate (length w + 1) NUL) (w @ [NUL]) = Some (w @ [NUL])" using q by simp
  show ?thesis
  proof (cases "w \<noteq> [] \<and> (hd w = CHR ''/'' \<or> hd w = CHR ''.'')")
    case False
    then have "script_command mal (map block ws @ replicate (5 - length ws) None) h = Some (map block ws @ replicate (5 - length ws) None, h)"
      using b(1) c ws by (auto simp: script_command_def NUL_def)
    with False assms(1) ws show ?thesis by (auto simp: shell_words_def script_sizes_def)
  next
    case True
    let ?ts = "(map block ws @ replicate (5 - length ws) None)[0 := Some (''sh'' @ NUL # drop 3 ?b), 1 := Some (w @ [NUL])]"
    have "script_command mal (map block ws @ replicate (5 - length ws) None) h
        = do { h \<leftarrow> mal (length w + 1) h; h \<leftarrow> mal (length w + 1) h; Some (?ts, h) }"
      using b t1 t2 t3 c ws True q assms(3) by (auto simp: script_command_def strcpy_kernel split: bind_split)
    then have "script_command mal (map block ws @ replicate (5 - length ws) None) h = map_option (Pair ?ts) (mallocs mal (script_sizes ws) h)"
      using True ws by (simp add: script_sizes_def split: bind_split)
    moreover have wn: "cstr (w @ [CHR 0x00]) = w" using q cstr_append_NUL [of w "[]"] by (simp add: NUL_def)
    have "holds (shell_words ws) ?ts"
    proof (cases us)
      case Nil
      then show ?thesis
        using ws True wn by (simp add: shell_words_def cstr_Cons NUL_def eval_nat_numeral)
    next
      case (Cons v vs)
      then show ?thesis using ws True wn assms(1) b(1) by (auto simp: shell_words_def cstr_Cons NUL_def block_def)
    qed
    ultimately show ?thesis by blast
  qed
qed

lemma mapFunction_acts:
  assumes "plain_line l" "length c = 20" "0 < pid"
  shows "mapFunction mal access c (replicate 5 None) pid (l @ NUL # r) h
    = map_option (Pair (command_acts access pid (shell_words (Ulib.fields l)))) (mallocs mal (line_sizes l) h)"
proof -
  have p: "length (Ulib.fields l) < 5" "\<forall>w \<in> set (Ulib.fields l). NUL \<notin> set w \<and> length w < 25" "length (hd (Ulib.fields l)) \<le> 15"
    using assms(1) fields_chars [of _ l] by (auto simp: plain_line_def)
  obtain ts where ts: "tokenize mal (replicate 5 None) (l @ NUL # r) h = map_option (Pair ts) (mallocs mal (token_sizes l) h)"
    "holds (Ulib.fields l) ts" "ts = map block (Ulib.fields l) @ replicate (5 - length (Ulib.fields l)) None"
    using tokenize_holds [OF assms(1), of mal r h] by blast
  have w: "shell_words (Ulib.fields l) \<noteq> []" "length (hd (shell_words (Ulib.fields l))) \<le> 15"
    using p(3) fields_nonempty by (auto simp: shell_words_def)
  show ?thesis
  proof (cases "mallocs mal (token_sizes l) h")
    case None
    then show ?thesis using ts(1) by (simp add: mapFunction_def line_sizes_def mallocs_append)
  next
    case (Some h1)
    obtain us where us: "script_command mal ts h1 = map_option (Pair us) (mallocs mal (script_sizes (Ulib.fields l)) h1)" "holds (shell_words (Ulib.fields l)) us"
      using script_command_holds [OF _ fields_nonempty p(1,2), of mal h1] ts(2,3) by blast
    with run_command_acts [OF us(2) w assms(2,3)] ts(1) us(1) Some show ?thesis
      by (simp add: mapFunction_def line_sizes_def mallocs_append split: bind_split)
  qed
qed

section \<open>The loops\<close>

text \<open>A buffer that holds a text and zeros behind it.\<close>

definition text_in :: "nat \<Rightarrow> string \<Rightarrow> string" where
  "text_in n t = t @ replicate (n - length t) NUL"

lemma text_in_NUL: "length t < n \<Longrightarrow> text_in n t = t @ NUL # replicate (n - 1 - length t) NUL"
proof -
  assume "length t < n"
  then have "n - length t = Suc (n - 1 - length t)" by simp
  then show ?thesis by (simp only: text_in_def replicate_Suc)
qed

lemma text_in_string:
  assumes "NUL \<notin> set t" "length t < n"
  shows "cstr (text_in n t) = t" "terminated (text_in n t)" "umemset (text_in n t) 0 (int (length t)) = Some (replicate n NUL)"
proof -
  show "cstr (text_in n t) = t" "terminated (text_in n t)" using assms by (simp_all add: text_in_NUL)
  have "char_of (0 :: int) = NUL" by (simp add: NUL_def char_of_def)
  then show "umemset (text_in n t) 0 (int (length t)) = Some (replicate n NUL)"
    using assms(2) by (simp add: umemset_eq text_in_def flip: replicate_add)
qed

lemma gets_text:
  assumes "length t < n" "n < 2 ^ 32"
  shows "gets t (replicate n NUL) = Some (text_in n t)"
proof -
  have "unat (of_nat (length t) :: u64) = length t" using assms by (intro unat_of_nat64) simp
  then show ?thesis using assms by (simp add: gets_def kmemcpychar_eq text_in_def drop_replicate)
qed

lemma trim_line:
  assumes "NUL \<notin> set l" "length l + 1 < n"
  shows "trim (text_in n (l @ ''\<newline>'')) = Some (text_in n l)"
proof -
  have t: "NUL \<notin> set (l @ ''\<newline>'')" "length (l @ ''\<newline>'') < n" using assms by (auto simp: NUL_def)
  have "(text_in n (l @ ''\<newline>''))[length l := NUL] = text_in n l"
    using assms(2) text_in_NUL [of l n] by (simp add: text_in_def list_update_append)
  moreover have "length l < length (text_in n (l @ ''\<newline>''))" using assms(2) by (simp add: text_in_def)
  ultimately show ?thesis using text_in_string(1,2) [OF t] by (simp add: trim_def)
qed

text \<open>What \<^verbatim>\<open>sbush\<close> does with the lines typed: a prompt for each of them, and the command of every line that is not empty.\<close>

fun session :: "(string \<Rightarrow> int) \<Rightarrow> (nat \<Rightarrow> int) \<Rightarrow> nat \<Rightarrow> string list \<Rightarrow> act list" where
  "session access pid k [] = [Write ''sbush> '']"
| "session access pid k (l # ls) = Write ''sbush> '' #
     (if l = [] then session access pid k ls
      else command_acts access (pid k) (shell_words (Ulib.fields l)) @ session access pid (Suc k) ls)"

text \<open>The memory that a session takes; an empty line takes none.\<close>

fun session_sizes :: "string list \<Rightarrow> nat list" where
  "session_sizes [] = []"
| "session_sizes (l # ls) = (if l = [] then [] else line_sizes l) @ session_sizes ls"

lemma sbush_loop_session:
  assumes "\<forall>l \<in> set ls. plain_line l" "length c = 20" "\<forall>k. 0 < pid k"
  shows "NUL \<notin> set t \<Longrightarrow> length t \<le> 49 \<Longrightarrow> t \<noteq> ''exit\<newline>'' \<Longrightarrow>
    sbush_loop mal access c (replicate 5 None) pid k (map (\<lambda>l. l @ ''\<newline>'') ls) (text_in 50 t) h
    = map_option (\<lambda>_. (False, session access pid k ls)) (mallocs mal (session_sizes ls) h)"
  using assms(1)
proof (induction ls arbitrary: k t h)
  case Nil
  have x: "cstr (''exit'' @ CHR ''\<newline>'' # [NUL]) = ''exit\<newline>''" by (simp add: cstr_Cons NUL_def)
  have "length t < 50" using Nil by simp
  with Nil x text_in_string [of t 50] show ?case by (subst sbush_loop.simps) (simp add: strcmp_kernel)
next
  case (Cons l ls)
  have x: "cstr (''exit'' @ CHR ''\<newline>'' # [NUL]) = ''exit\<newline>''" "cstr (CHR ''\<newline>'' # [NUL]) = ''\<newline>''" by (simp_all add: cstr_Cons NUL_def)
  have p: "plain_line l" "NUL \<notin> set l" "CHR ''\<newline>'' \<notin> set l" "length l \<le> 48" using Cons.prems by (auto simp: plain_line_def)
  have t: "cstr (text_in 50 t) = t" "terminated (text_in 50 t)" "umemset (text_in 50 t) 0 (int (length t)) = Some (replicate 50 NUL)"
    using text_in_string [of t 50] Cons.prems by auto
  have g: "gets (l @ ''\<newline>'') (replicate 50 NUL) = Some (text_in 50 (l @ ''\<newline>''))" using gets_text [of "l @ ''\<newline>''" 50] p by simp
  have n: "NUL \<notin> set (l @ ''\<newline>'')" "length (l @ ''\<newline>'') < 50" using p by (auto simp: NUL_def)
  note u = text_in_string [OF n]
  have m: "mapFunction mal access c (replicate 5 None) (pid k) (text_in 50 l) h
      = map_option (Pair (command_acts access (pid k) (shell_words (Ulib.fields l)))) (mallocs mal (line_sizes l) h)"
    using mapFunction_acts [OF p(1) assms(2), of "pid k" mal access "replicate (49 - length l) NUL" h] assms(3) p(4)
    by (simp add: text_in_NUL)
  have e: "l @ ''\<newline>'' \<noteq> ''\<newline>'' \<longleftrightarrow> l \<noteq> []" "l \<noteq> ''exit\<newline>''" using p(3) by auto
  have IH: "sbush_loop mal access c (replicate 5 None) pid j (map (\<lambda>l. l @ ''\<newline>'') ls) (text_in 50 s) h
      = map_option (\<lambda>_. (False, session access pid j ls)) (mallocs mal (session_sizes ls) h)"
    if "NUL \<notin> set s" "length s \<le> 49" "s \<noteq> ''exit\<newline>''" for j s h
    using Cons.IH [OF that] Cons.prems(4) by simp
  show ?case
  proof (cases "l = []")
    case True
    then show ?thesis
      using t x g u IH [of "''\<newline>''" k h] Cons.prems(3) by (subst sbush_loop.simps) (auto simp: strcmp_kernel NUL_def split: bind_split)
  next
    case False
    then show ?thesis
      using t x g u IH [of l "Suc k"] Cons.prems(3) trim_line [OF p(2), of 50] p m e
      by (subst sbush_loop.simps) (auto simp: strcmp_kernel mallocs_append split: bind_split)
  qed
qed

text \<open>A script: its lines but the comments, until the end.\<close>

fun script_acts :: "(string \<Rightarrow> int) \<Rightarrow> (nat \<Rightarrow> int) \<Rightarrow> nat \<Rightarrow> string list \<Rightarrow> act list" where
  "script_acts access pid k [] = []"
| "script_acts access pid k (l # ls) =
     (if l \<noteq> [] \<and> hd l = CHR ''#'' then script_acts access pid k ls
      else command_acts access (pid k) (Ulib.fields l) @ script_acts access pid (Suc k) ls)"

fun script_memory :: "string list \<Rightarrow> nat list" where
  "script_memory [] = []"
| "script_memory (l # ls) = (if l \<noteq> [] \<and> hd l = CHR ''#'' then [] else token_sizes l) @ script_memory ls"

definition script_line :: "string \<Rightarrow> bool" where
  "script_line l = (NUL \<notin> set l \<and> CHR ''\<newline>'' \<notin> set l \<and> length l \<le> 48 \<and> (l \<noteq> [] \<longrightarrow> hd l \<noteq> EOF)
     \<and> (l \<noteq> [] \<and> hd l = CHR ''#'' \<or> plain_line l))"

definition lines_text :: "string list \<Rightarrow> string" where
  "lines_text ls = concat (map (\<lambda>l. l @ ''\<newline>'') ls)"

lemma EOF_other: "EOF \<noteq> NUL" "EOF \<noteq> CHR ''\<newline>''"
  by (simp_all add: EOF_def NUL_def char_of_def)

lemma fgets_text:
  assumes "CHR ''\<newline>'' \<notin> set l" "length l < n"
  shows "fgets (l @ CHR ''\<newline>'' # rest) (replicate n NUL) sz = Some (Some (text_in n l), rest)"
proof -
  have "replicate n NUL ! i \<noteq> CHR ''\<newline>''" if "i < n" for i using that by (simp add: NUL_def)
  then have "fgets (l @ CHR ''\<newline>'' # rest) (replicate n NUL) sz = Some (Some (l @ NUL # drop (length l + 1) (replicate n NUL)), rest)"
    using fgets_loop_line [of l 0 "replicate n NUL" rest] assms by (simp add: fgets_def)
  then show ?thesis using assms(2) by (simp add: text_in_NUL)
qed

context byte_source
begin

lemma sh_loop_end:
  assumes "good s" "rest s = []" "NUL \<notin> set t" "length t \<le> 49" "t = [] \<or> hd t \<noteq> EOF"
  shows "sh_loop mal read access c old pid k s (text_in 50 t) h = Some []"
proof -
  have z: "aget (text_in 50 t) 0 = Some (if t = [] then NUL else hd t)" by (cases t) (auto simp: text_in_def)
  have "fgets [] (replicate 50 NUL) 50 = Some (Some (EOF # NUL # replicate 48 NUL), [])"
    by (simp add: fgets_def EOF_def NUL_def numeral_eq_Suc)
  then obtain s' where f: "fgets_over read (replicate 50 NUL) 0 s = Some (Some (EOF # NUL # replicate 48 NUL), s')"
    using fgets_over_line [OF assms(1), of "replicate 50 NUL" 50] assms(2) by auto
  show ?thesis
    using assms(3-5) z text_in_string [of t 50] f EOF_other by (subst sh_loop.simps) (auto split: if_splits)
qed

lemma sh_loop_line:
  assumes "good s" "rest s = l @ ''\<newline>'' @ later" "NUL \<notin> set t" "length t \<le> 49" "t = [] \<or> hd t \<noteq> EOF"
    "CHR ''\<newline>'' \<notin> set l" "length l \<le> 48" "l = [] \<or> hd l \<noteq> EOF"
  shows "\<exists>s'. good s' \<and> rest s' = later \<and> sh_loop mal read access c old pid k s (text_in 50 t) h
    = (if l \<noteq> [] \<and> hd l = CHR ''#'' then sh_loop mal read access c old pid k s' (text_in 50 l) h
       else do { (split, h) \<leftarrow> tokenize mal old (text_in 50 l) h;
                 w \<leftarrow> run_command access c (pid k) split;
                 ws \<leftarrow> sh_loop mal read access c old pid (Suc k) s' (text_in 50 l) h;
                 Some (w @ ws) })"
proof -
  have z: "aget (text_in 50 u) 0 = Some (if u = [] then NUL else hd u)" for u by (cases u) (auto simp: text_in_def)
  have "fgets (rest s) (replicate 50 NUL) 50 = Some (Some (text_in 50 l), later)"
    using fgets_text [OF assms(6), of 50 later 50] assms(2,7) by simp
  then obtain s' where f: "fgets_over read (replicate 50 NUL) 0 s = Some (Some (text_in 50 l), s')" "good s'" "rest s' = later"
    using fgets_over_line [OF assms(1)] by blast
  have "sh_loop mal read access c old pid k s (text_in 50 t) h
    = (if l \<noteq> [] \<and> hd l = CHR ''#'' then sh_loop mal read access c old pid k s' (text_in 50 l) h
       else do { (split, h) \<leftarrow> tokenize mal old (text_in 50 l) h;
                 w \<leftarrow> run_command access c (pid k) split;
                 ws \<leftarrow> sh_loop mal read access c old pid (Suc k) s' (text_in 50 l) h;
                 Some (w @ ws) })"
    using assms(3-5,8) z text_in_string [of t 50] f(1) EOF_other by (subst sh_loop.simps) (auto simp: NUL_def)
  with f(2,3) show ?thesis by blast
qed

lemma sh_loop_script:
  assumes "\<forall>l \<in> set ls. script_line l" "length c = 20" "\<forall>k. 0 < pid k"
  shows "good s \<Longrightarrow> rest s = lines_text ls \<Longrightarrow> NUL \<notin> set t \<Longrightarrow> length t \<le> 49 \<Longrightarrow> t = [] \<or> hd t \<noteq> EOF \<Longrightarrow>
    sh_loop mal read access c (replicate 5 None) pid k s (text_in 50 t) h = map_option (\<lambda>_. script_acts access pid k ls) (mallocs mal (script_memory ls) h)"
  using assms(1)
proof (induction ls arbitrary: k t s h)
  case Nil
  then show ?case using sh_loop_end [of s t] by (simp add: lines_text_def)
next
  case (Cons l ls)
  have p: "NUL \<notin> set l" "CHR ''\<newline>'' \<notin> set l" "length l \<le> 48" "l = [] \<or> hd l \<noteq> EOF"
    and q: "l \<noteq> [] \<and> hd l = CHR ''#'' \<or> plain_line l"
    using Cons.prems(6) by (auto simp: script_line_def)
  have "rest s = l @ ''\<newline>'' @ lines_text ls" using Cons.prems(2) by (simp add: lines_text_def)
  from sh_loop_line [where mal = mal and access = access and c = c and old = "replicate 5 None" and pid = pid and k = k and h = h,
      OF Cons.prems(1) this Cons.prems(3-5) p(2-4)] obtain s' where s': "good s'" "rest s' = lines_text ls"
    and step: "sh_loop mal read access c (replicate 5 None) pid k s (text_in 50 t) h
    = (if l \<noteq> [] \<and> hd l = CHR ''#'' then sh_loop mal read access c (replicate 5 None) pid k s' (text_in 50 l) h
       else do { (split, h) \<leftarrow> tokenize mal (replicate 5 None) (text_in 50 l) h;
                 w \<leftarrow> run_command access c (pid k) split;
                 ws \<leftarrow> sh_loop mal read access c (replicate 5 None) pid (Suc k) s' (text_in 50 l) h;
                 Some (w @ ws) })"
    by blast
  have IH: "sh_loop mal read access c (replicate 5 None) pid j s' (text_in 50 l) h
      = map_option (\<lambda>_. script_acts access pid j ls) (mallocs mal (script_memory ls) h)" for j h
    using Cons.IH [OF s', of l j h] p Cons.prems(6) by simp
  show ?case
  proof (cases "l \<noteq> [] \<and> hd l = CHR ''#''")
    case True
    then show ?thesis unfolding step using IH by simp
  next
    case False
    with q have q: "plain_line l" by blast
    have u: "text_in 50 l = l @ NUL # replicate (49 - length l) NUL" using p(3) by (simp add: text_in_NUL)
    obtain ts where ts: "tokenize mal (replicate 5 None) (text_in 50 l) h = map_option (Pair ts) (mallocs mal (token_sizes l) h)" "holds (Ulib.fields l) ts"
      using tokenize_holds [OF q, of mal _ h] u by metis
    have "run_command access c (pid k) ts = Some (command_acts access (pid k) (Ulib.fields l))"
      using run_command_acts [OF ts(2) fields_nonempty _ assms(2)] q assms(3) by (simp add: plain_line_def)
    then show ?thesis unfolding step using False IH ts(1) by (auto simp: mallocs_append split: bind_split)
  qed
qed

lemma sh_script:
  assumes "\<forall>l \<in> set ls. script_line l" "length concatstr = 20" "\<forall>k. 0 < pid k" "length mem = 50"
    and "hd arg = CHR ''/''" "terminated arg" "opened (cstr arg) = Some s" "good s" "rest s = ''#!/bin/sbush\<newline>'' @ lines_text ls"
  shows "sh mal read access concatstr (replicate 5 None) pid opened cwd string3 mem arg h
    = map_option (\<lambda>_. (0, script_acts access pid 0 ls)) (mallocs mal (25 # 50 # script_memory ls) h)"
proof -
  have "arg \<noteq> []" using assms(6) by auto
  then have "script_name cwd string3 arg = Some arg" using assms(5) by (cases arg) (auto simp: script_name_def)
  moreover have "umemset mem 0 50 = Some (replicate 50 NUL)" using assms(4) by (simp add: umemset_eq NUL_def char_of_def)
  moreover have "fgets (rest s) (replicate 50 NUL) 50 = Some (Some (text_in 50 ''#!/bin/sbush''), lines_text ls)"
    using fgets_text [of "''#!/bin/sbush''" 50 "lines_text ls" 50] assms(9) by simp
  then obtain s' where "fgets_over read (replicate 50 NUL) 0 s = Some (Some (text_in 50 ''#!/bin/sbush''), s')" "good s'" "rest s' = lines_text ls"
    using fgets_over_line [OF assms(8)] by blast
  moreover have "cstr (''#!/bin/sbush'' @ [NUL]) = ''#!/bin/sbush''" by (simp add: cstr_Cons NUL_def)
  moreover have "CHR ''#'' \<noteq> EOF" by (simp add: EOF_def char_of_def)
  ultimately show ?thesis
    using assms(7) text_in_string [of "''#!/bin/sbush''" 50] sh_loop_script [OF assms(1-3), of s' "''#!/bin/sbush''" mal access 0]
    by (auto simp: sh_def strcmp_kernel NUL_def split: bind_split)
qed

end

text \<open>A list of bytes is a file.\<close>

definition list_read :: "string \<Rightarrow> (char option \<times> string) option" where
  "list_read s = (case s of [] \<Rightarrow> Some (None, []) | c # cs \<Rightarrow> Some (Some c, cs))"

interpretation list_source: byte_source list_read "\<lambda>s. True" "\<lambda>s. s"
  by unfold_locales (auto simp: list_read_def)

section \<open>The heap of the shell\<close>

text \<open>\<^verbatim>\<open>malloc\<close> as the kernel serves it, on a heap whose free memory is one block of \<open>u\<close> units.\<close>

definition kernel_malloc :: "nat \<Rightarrow> uheap \<Rightarrow> uheap option" where
  "kernel_malloc n h = map_option snd (do_malloc (of_nat n) h)"

definition one_block :: "u64 \<Rightarrow> nat \<Rightarrow> uheap \<Rightarrow> bool" where
  "one_block b u h \<longleftrightarrow> free_blocks h [b] \<and> msize h b = of_nat u \<and> unat b + 16 * u < 2 ^ 64"

lemma kernel_malloc_block:
  assumes "one_block b u h" "num_units (of_nat n) = of_nat k" "k < 2 ^ 32"
  shows "k < u \<Longrightarrow> \<exists>h'. kernel_malloc n h = Some h' \<and> one_block b (u - k) h'"
    and "u < k \<Longrightarrow> kernel_malloc n h = None"
proof -
  have b: "free_blocks h ([] @ b # [])" "msize h b = of_nat u" "unat b + 16 * u < 2 ^ 64" using assms(1) by (auto simp: one_block_def)
  have n: "unat (of_nat u :: u64) = u" "unat (of_nat k :: u64) = k" using b(3) assms(3) by (auto intro!: unat_of_nat64)
  show "\<exists>h'. kernel_malloc n h = Some h' \<and> one_block b (u - k) h'" if "k < u"
  proof -
    have "num_units (of_nat n) < msize h b" using that n assms(2) b(2) by (simp add: word_less_nat_alt)
    moreover have "fits b (msize h b)" using b n by (simp add: fits_def)
    ultimately obtain s' where "do_malloc (of_nat n) h = Some (b + 16 * (msize h b - num_units (of_nat n)) + 16, s')"
      "free_blocks s' (kept_blocks [] [b])" "msize s' b = msize h b - num_units (of_nat n)"
      using malloc_split [OF b(1), of "of_nat n"] by auto
    moreover have "(of_nat u - of_nat k :: u64) = of_nat (u - k)" using that by (simp add: of_nat_diff)
    moreover have "unat b + 16 * (u - k) < 2 ^ 64" using b(3) that by linarith
    ultimately show ?thesis using assms(2) b(2) by (auto simp: kernel_malloc_def one_block_def kept_blocks_def)
  qed
  show "kernel_malloc n h = None" if "u < k"
  proof -
    have "msize h b < num_units (of_nat n)" using that n assms(2) b(2) by (simp add: word_less_nat_alt)
    moreover have "chain (mnext h) (freelist h) [b] 0" using b(1) by (simp add: free_blocks_def)
    ultimately show ?thesis using malloc_loop_exhausted [of h "freelist h" "[b]" "num_units (of_nat n)"]
      by (simp add: kernel_malloc_def do_malloc_def)
  qed
qed

text \<open>A command of one word takes seven units.\<close>

lemma one_word_sizes:
  assumes "\<forall>l \<in> set ls. l \<noteq> [] \<and> length (Ulib.fields l) = 1 \<and> script_sizes (Ulib.fields l) = []" "one_block b (3 + 7 * m) h"
  shows "(mallocs kernel_malloc (session_sizes ls) h \<noteq> None) = (length ls \<le> m)"
  using assms
proof (induction ls arbitrary: m h)
  case (Cons l ls)
  have u: "num_units (of_nat 40) = of_nat 4" "num_units (of_nat 25) = of_nat 3" by (simp_all add: num_units_def)
  have z: "session_sizes (l # ls) = 40 # 25 # session_sizes ls"
    using Cons.prems(1) by (simp add: line_sizes_def token_sizes_def)
  show ?case
  proof (cases m)
    case 0
    then show ?thesis using kernel_malloc_block(2) [OF Cons.prems(2) u(1)] z by simp
  next
    case (Suc m')
    obtain h1 where h1: "kernel_malloc 40 h = Some h1" "one_block b (3 + 7 * m - 4) h1"
      using kernel_malloc_block(1) [OF Cons.prems(2) u(1)] Suc by auto
    then obtain h2 where h2: "kernel_malloc 25 h1 = Some h2" "one_block b (3 + 7 * m - 4 - 3) h2"
      using kernel_malloc_block(1) [OF h1(2) u(2)] Suc by auto
    have "3 + 7 * m - 4 - 3 = 3 + 7 * m'" using Suc by simp
    then have "(mallocs kernel_malloc (session_sizes ls) h2 \<noteq> None) = (length ls \<le> m')"
      using Cons.IH [of m' h2] Cons.prems(1) h2(2) by simp
    then show ?thesis using z h1(1) h2(1) Suc by simp
  qed
qed simp

section \<open>Properties\<close>



text \<open>C25: The heap of a program is one page, and the shell fills it: on the free list that \<^verbatim>\<open>createheap\<close> makes, one block of 255 units, it
  runs lines of one word each -- of at most 15 characters, not beginning with a slash or a dot -- as long as they are at most 36, when \<^verbatim>\<open>fork\<close> succeeds and the buffer and the memory that
  \<^verbatim>\<open>malloc\<close> returns hold zeros.  With one line more, the kernel's \<^verbatim>\<open>do_malloc\<close> follows the null pointer behind the last block.\<close>

theorem sbush_fills_its_heap:
  assumes "\<forall>l \<in> set ls. plain_line l \<and> l \<noteq> [] \<and> length (Ulib.fields l) = 1 \<and> hd l \<noteq> CHR ''/'' \<and> hd l \<noteq> CHR ''.''"
    and "length concatstr = 20" "\<forall>k. 0 < pid k" "length inp = 50" "set (drop 2 inp) \<subseteq> {NUL}"
    and "b \<noteq> 0" "unat b + 4096 < 2 ^ 64"
  shows "sbush kernel_malloc access concatstr (replicate 5 None) pid (map (\<lambda>l. l @ ''\<newline>'') ls) inp (init_freelist b (h\<lparr>freelist := 0\<rparr>))
    = (if length ls \<le> 36 then Some (False, session access pid 0 ls) else None)"
proof -
  have "hd (Ulib.fields l) \<noteq> [] \<longrightarrow> hd (hd (Ulib.fields l)) = hd l" if "l \<noteq> []" for l
  proof (cases l)
    case (Cons c l')
    obtain u us where "fields_from [c] l' = ([c] @ u) # us" using fields_from_word by blast
    then show ?thesis using Cons by (simp add: Ulib.fields_def)
  qed (use that in simp)
  then have w: "\<forall>l \<in> set ls. l \<noteq> [] \<and> length (Ulib.fields l) = 1 \<and> script_sizes (Ulib.fields l) = []"
    using assms(1) by (auto simp: script_sizes_def)
  have "one_block b (3 + 7 * 36) (init_freelist b (h\<lparr>freelist := 0\<rparr>))"
    using assms(6,7) by (simp add: one_block_def init_freelist_def free_blocks_def)
  note o = one_word_sizes [OF w this]
  obtain a c rest where inp: "inp = a # c # rest" using assms(4) by (auto simp: numeral_eq_Suc length_Suc_conv)
  have "rest = replicate 48 NUL" using assms(4,5) inp by (intro replicate_eqI) auto
  then have t: "inp[0 := CHR ''e'', 1 := NUL] = text_in 50 ''e''" using inp text_in_NUL [of "''e''" 50] by simp
  have "\<forall>l \<in> set ls. plain_line l" using assms(1) by blast
  from sbush_loop_session [OF this assms(2,3), of "''e''" kernel_malloc access 0 "init_freelist b (h\<lparr>freelist := 0\<rparr>)"]
  show ?thesis using o inp t by (auto simp: sbush_def NUL_def)
qed

theorem sbush_fills_its_heap_witness:
  "sbush kernel_malloc (\<lambda>p. 1) (replicate 20 NUL) (replicate 5 None) (\<lambda>k. 7) (map (\<lambda>l. l @ ''\<newline>'') (replicate 37 ''ps'')) (replicate 50 NUL) demo_heap = None"
proof -
  have "Ulib.fields ''ps'' = [''ps'']" by (simp add: Ulib.fields_def separator_def)
  then have "\<forall>l \<in> set (replicate 37 ''ps''). plain_line l \<and> l \<noteq> [] \<and> length (Ulib.fields l) = 1 \<and> hd l \<noteq> CHR ''/'' \<and> hd l \<noteq> CHR ''.''"
    by (simp add: plain_line_def NUL_def)
  from sbush_fills_its_heap [OF this, of "replicate 20 NUL" "\<lambda>k. 7" "replicate 50 NUL" "0x1000" "\<lambda>p. 1" "\<lparr>hdr = (\<lambda>_. \<lparr>mh_next = 0, mh_size = 0\<rparr>), freelist = 0\<rparr>"]
  show ?thesis by (simp add: demo_heap_def)
qed

end
