(* ===== verification/System_Call.thy ===== *)
theory System_Call
  imports Syscalls Console
begin

text \<open>
  The way of a system call: the stubs of the C library (\<^verbatim>\<open>unistd.c\<close>, \<^verbatim>\<open>dirent.c\<close>, \<^verbatim>\<open>stdlib.c\<close>, \<^verbatim>\<open>signal.c\<close>, \<^verbatim>\<open>read.c\<close>,
  \<^verbatim>\<open>write.c\<close>), the interrupt gate with its table of handlers (\<^verbatim>\<open>sys/idt.c\<close>, \<^verbatim>\<open>syscall_handler\<close>), and the handlers of
  \<^verbatim>\<open>sys/syscall.c\<close> that pass their arguments on.  The gate works for any handlers: \<open>run\<close> says what the handler with
  a name does with its three arguments, and \<open>sched\<close> is the call of \<^verbatim>\<open>schedule\<close> before the return.
\<close>

section \<open>The stubs of the C library\<close>

text \<open>The type of the variable that takes \<^verbatim>\<open>rax\<close>, as the type of the function: the value that the program gets.\<close>

datatype ctype = CVoid | CInt | CUnsigned | CLong | CPointer

fun c_result :: "ctype \<Rightarrow> u64 \<Rightarrow> int" where
  "c_result CVoid r = 0"
| "c_result CInt r = sint (ucast r :: u32)"
| "c_result CUnsigned r = uint (ucast r :: u32)"
| "c_result CLong r = sint r"
| "c_result CPointer r = uint r"

text \<open>The number that a function puts into \<^verbatim>\<open>rax\<close> and the type of its result.\<close>

definition unistd_calls :: "(string \<times> nat \<times> ctype) list" where
  "unistd_calls =
     [(''getcwd'', 3, CPointer), (''execvpe'', 7, CInt), (''fork'', 8, CInt), (''getpid'', 1, CUnsigned),
      (''getppid'', 19, CUnsigned), (''waitpid'', 11, CInt), (''access'', 12, CInt), (''open'', 13, CInt),
      (''close'', 14, CInt), (''sleep'', 15, CUnsigned), (''chdir'', 17, CInt), (''unlink'', 20, CInt)]"

definition dirent_calls :: "(string \<times> nat \<times> ctype) list" where
  "dirent_calls = [(''opendir'', 4, CPointer), (''readdir'', 5, CPointer), (''closedir'', 6, CInt)]"

definition stdlib_calls :: "(string \<times> nat \<times> ctype) list" where
  "stdlib_calls = [(''malloc'', 2, CPointer), (''exit'', 9, CVoid), (''free'', 18, CVoid)]"

definition read_call :: "string \<times> nat \<times> ctype" where
  "read_call = (''read'', 10, CLong)"

definition write_call :: "string \<times> nat \<times> ctype" where
  "write_call = (''write'', 0, CInt)"

definition kill_call :: "string \<times> nat \<times> ctype" where
  "kill_call = (''kill'', 16, CInt)"

definition libc_calls :: "(string \<times> nat \<times> ctype) list" where
  "libc_calls = unistd_calls @ dirent_calls @ stdlib_calls @ [read_call, write_call, kill_call]"

section \<open>The interrupt\<close>

definition MAXSYSCALLS :: nat where
  "MAXSYSCALLS = 50"

text \<open>The table of handlers; the entries that are not initialised are null.\<close>

definition syscalls :: "string option list" where
  "syscalls = (let hs = [''sys_write'', ''sys_getpid'', ''sys_malloc'', ''sys_getcwd'', ''sys_opendir'',
      ''sys_readdir'', ''sys_closedir'', ''sys_execvpe'', ''sys_fork'', ''sys_exit'',
      ''sys_read'', ''sys_waitpid'', ''sys_access'', ''sys_open'', ''sys_close'',
      ''sys_sleep'', ''sys_kill'', ''sys_chdir'', ''sys_free'', ''sys_getppid'',
      ''sys_unlink''] in map Some hs @ replicate (MAXSYSCALLS - length hs) None)"

text \<open>The registers of the program, and the stack that the processor and the pushes of \<^verbatim>\<open>interrupt_syscall\<close> leave: \<open>pad\<close> is
  what its prologue saves.  The number of a slot is its distance from \<^verbatim>\<open>rsp\<close> in words.\<close>

record uregs =
  u_rax :: u64
  u_rbx :: u64
  u_rcx :: u64
  u_rdx :: u64
  u_rdi :: u64
  u_rsi :: u64
  u_rbp :: u64
  u_r8 :: u64
  u_r9 :: u64
  u_r10 :: u64
  u_r11 :: u64
  u_r12 :: u64
  u_r13 :: u64
  u_r14 :: u64
  u_r15 :: u64
  u_rip :: u64
  u_cs :: u64
  u_rflags :: u64
  u_rsp :: u64
  u_ss :: u64

definition int_frame :: "u64 \<Rightarrow> uregs \<Rightarrow> u64 list" where
  "int_frame pad r =
     [u_r12 r, u_rbp r, u_rsi r, u_rdi r, u_rdx r, u_rcx r, u_rbx r, u_rax r, pad,
      u_rip r, u_cs r, u_rflags r, u_rsp r, u_ss r]"

text \<open>The registers that the control block of the process keeps for the handler.\<close>

record call_regs =
  c_ursp :: u64
  c_rax :: u64
  c_rdx :: u64
  c_rsi :: u64
  c_rdi :: u64

definition save_args :: "u64 list \<Rightarrow> call_regs option" where
  "save_args frame =
     do { ursp \<leftarrow> aget frame 12;
          rax \<leftarrow> aget frame 7;
          rdx \<leftarrow> aget frame 4;
          rsi \<leftarrow> aget frame 2;
          rdi \<leftarrow> aget frame 3;
          Some \<lparr>c_ursp = ursp, c_rax = rax, c_rdx = rdx, c_rsi = rsi, c_rdi = rdi\<rparr> }"

text \<open>\<^verbatim>\<open>syscall_handler\<close> has eight registers and its return address on top of the frame, so its slot at 128 bytes is the
  saved \<^verbatim>\<open>rax\<close>.\<close>

type_synonym 's handler = "u64 \<Rightarrow> u64 \<Rightarrow> u64 \<Rightarrow> 's \<Rightarrow> (u64 \<times> 's) option"

definition syscall_handler :: "'s handler \<Rightarrow> call_regs \<Rightarrow> u64 list \<Rightarrow> 's \<Rightarrow> (u64 list \<times> 's) option" where
  "syscall_handler sysaddress r frame s =
     do { (ret, s) \<leftarrow> sysaddress (c_rdi r) (c_rsi r) (c_rdx r) s;
          frame \<leftarrow> aput frame (128 div 8 - 9) ret;
          Some (frame, s) }"

definition interrupt_syscall :: "(string \<Rightarrow> 's handler) \<Rightarrow> ('s \<Rightarrow> 's option) \<Rightarrow> u64 list \<Rightarrow> 's \<Rightarrow> (u64 list \<times> 's) option" where
  "interrupt_syscall run sched frame s =
     do { r \<leftarrow> save_args frame;
          sysaddress \<leftarrow> aget syscalls (unat (c_rax r));
          sysaddress \<leftarrow> sysaddress;
          (frame, s) \<leftarrow> syscall_handler (run sysaddress) r frame s;
          s \<leftarrow> sched s;
          Some (frame, s) }"

text \<open>The pops and the return to the program: \<open>left\<close> are the registers as \<^verbatim>\<open>schedule\<close> left them.  The handler keeps the result
  in \<^verbatim>\<open>r9\<close> while it acknowledges the interrupt; \<^verbatim>\<open>r8\<close>, \<^verbatim>\<open>r10\<close>, \<^verbatim>\<open>r11\<close> and \<^verbatim>\<open>r13\<close> to \<^verbatim>\<open>r15\<close> are not on the stack.\<close>

fun return_frame :: "uregs \<Rightarrow> u64 list \<Rightarrow> uregs option" where
  "return_frame left [r12, rbp, rsi, rdi, rdx, rcx, rbx, rax, pad, rip, cs, rflags, rsp, ss] =
     Some (left\<lparr>u_rax := rax, u_rbx := rbx, u_rcx := rcx, u_rdx := rdx, u_rdi := rdi, u_rsi := rsi, u_rbp := rbp,
           u_r9 := rax, u_r12 := r12, u_rip := rip, u_cs := cs, u_rflags := rflags, u_rsp := rsp, u_ss := ss\<rparr>)"
| "return_frame left _ = None"

text \<open>A call of a function of the C library with up to three arguments; \<open>left\<close> gives the registers that the kernel's code leaves
  in the state behind the call.\<close>

definition libc_call :: "(string \<Rightarrow> 's handler) \<Rightarrow> ('s \<Rightarrow> 's option) \<Rightarrow> ('s \<Rightarrow> uregs) \<Rightarrow> u64 \<Rightarrow> nat \<times> ctype \<Rightarrow> u64 \<Rightarrow> u64 \<Rightarrow> u64
    \<Rightarrow> uregs \<Rightarrow> 's \<Rightarrow> (int \<times> uregs \<times> 's) option" where
  "libc_call run sched left pad f a b c regs s =
     (case f of (n, type) \<Rightarrow>
      do { let regs = regs\<lparr>u_rdi := a, u_rsi := b, u_rdx := c, u_rax := of_nat n\<rparr>;
           (frame, s) \<leftarrow> interrupt_syscall run sched (int_frame pad regs) s;
           regs \<leftarrow> return_frame (left s) frame;
           Some (c_result type (u_rax regs), regs, s) })"

section \<open>The other handlers of interrupts\<close>

text \<open>The keyboard: the scan code is read from port 0x60.\<close>

definition interrupt1 :: "(u16 \<Rightarrow> u8) \<Rightarrow> keyboard \<times> console \<Rightarrow> (keyboard \<times> console) option" where
  "interrupt1 inb kc = kscanf (inb 0x60) kc"

text \<open>An exception and a protection fault print their name and end the process; \<^verbatim>\<open>thread_on_completion\<close> ends in an endless
  loop, from which only the timer interrupt takes the processor away, so the code behind the call is not reached.  Every other interrupt is only printed.\<close>

definition interrupt2 :: "kernel \<times> console \<Rightarrow> (kernel \<times> console) option" where
  "interrupt2 kc =
     (case kc of (k, c) \<Rightarrow>
      do { c \<leftarrow> kputs ''interrupt2'' c; s \<leftarrow> thread_on_completion (procs k); Some (k\<lparr>procs := s\<rparr>, c) })"

definition interrupt5 :: "kernel \<times> console \<Rightarrow> (kernel \<times> console) option" where
  "interrupt5 kc =
     (case kc of (k, c) \<Rightarrow>
      do { c \<leftarrow> kputs ''General Protection Fault\<newline>'' c; s \<leftarrow> thread_on_completion (procs k); Some (k\<lparr>procs := s\<rparr>, c) })"

definition interrupt3 :: "console \<Rightarrow> console option" where
  "interrupt3 c = kputs ''interrupt3'' c"

section \<open>Handlers that pass their arguments on\<close>

definition sys_getpid :: "kernel \<Rightarrow> u32" where
  "sys_getpid k = p_pid (pcb_at k (this_thread k))"

definition sys_getppid :: "kernel \<Rightarrow> u32" where
  "sys_getppid k = p_ppid (pcb_at k (this_thread k))"

definition sys_malloc :: "u64 \<Rightarrow> uheap \<Rightarrow> (u64 \<times> uheap) option" where
  "sys_malloc sz h = do_malloc sz h"

definition sys_free :: "u64 \<Rightarrow> uheap \<Rightarrow> uheap option" where
  "sys_free ptr h = do_free ptr h"

definition sys_exit :: "int \<Rightarrow> kernel \<Rightarrow> kernel option" where
  "sys_exit status k = do { s \<leftarrow> thread_on_completion (procs k); Some (k\<lparr>procs := s\<rparr>) }"

definition sys_open :: "string list \<Rightarrow> u64 \<Rightarrow> u64 \<Rightarrow> string \<Rightarrow> fsys \<Rightarrow> (int \<times> fsys) option" where
  "sys_open rows tn no pathname s = do_fopen rows tn no pathname s"

definition sys_close :: "int \<Rightarrow> fsys \<Rightarrow> int \<times> fsys" where
  "sys_close fd s = do_close fd s"

text \<open>The memory for a directory stream: a block of the heap of the program, whose page is then mapped if it is not.\<close>

definition open_memory :: "nat \<Rightarrow> u64 \<Rightarrow> uheap \<times> kernel \<Rightarrow> (uheap \<times> kernel) option" where
  "open_memory depth sz = (\<lambda>(h, k).
     do { (dirptr, h) \<leftarrow> sys_malloc sz h;
          k \<leftarrow> map_user_address depth dirptr (dirptr - USERBASE) 4096 (p_page_table (pcb_at k (this_thread k)) + KERNBASE) 7 k;
          Some (h, k) })"

definition sys_opendir :: "nat \<Rightarrow> proc_view \<Rightarrow> string list \<Rightarrow> string \<Rightarrow> fsys \<Rightarrow> uheap \<times> kernel
    \<Rightarrow> (dirent list \<times> fsys \<times> uheap \<times> kernel) option" where
  "sys_opendir depth pv rows dirname s hk = do_opendir (open_memory depth) pv rows dirname s hk"

definition sys_readdir :: "dirent list \<Rightarrow> fsys \<Rightarrow> (nat option \<times> dirent list) option" where
  "sys_readdir dirp s = do_readdir dirp s"

definition sys_closedir :: "dirent list \<Rightarrow> fsys \<Rightarrow> (int \<times> dirent list \<times> fsys) option" where
  "sys_closedir dirp s = do_closedir dirp s"

text \<open>The node of a descriptor: the code checks neither the range nor for the null pointer.\<close>

definition descriptor :: "int \<Rightarrow> fsys \<Rightarrow> u64 option" where
  "descriptor fd s =
     do { node \<leftarrow> (if fd < 0 then None else aget (file_descriptors s) (nat fd)); if node = 0 then None else Some node }"

text \<open>Writing to a node goes to the screen, whatever the node is; \<open>buf\<close> is the memory of the program from the text on.\<close>

definition write_vfs :: "(u64 \<Rightarrow> string) \<Rightarrow> u64 list \<Rightarrow> u64 list \<Rightarrow> u64 \<Rightarrow> string \<Rightarrow> int \<Rightarrow> fsys \<Rightarrow> console
    \<Rightarrow> (int \<times> string \<times> console) option" where
  "write_vfs text regs stack node buf sz s c =
     (case i_write (inode_of s node) of
        NoFn \<Rightarrow> Some (0, buf, c)
      | Do_write \<Rightarrow> Console.do_write text regs stack buf sz c
      | Do_write_err \<Rightarrow> do { (r, c) \<leftarrow> Console.do_write_err buf sz c; Some (r, buf, c) }
      | _ \<Rightarrow> None)"

definition sys_write :: "(u64 \<Rightarrow> string) \<Rightarrow> u64 list \<Rightarrow> u64 list \<Rightarrow> int \<Rightarrow> string \<Rightarrow> int \<Rightarrow> fsys \<Rightarrow> console
    \<Rightarrow> (int \<times> string \<times> console) option" where
  "sys_write text regs stack fd msg sz s c = do { node \<leftarrow> descriptor fd s; write_vfs text regs stack node msg sz s c }"

text \<open>Waiting for the terminal: \<open>keyboards t\<close> is the keyboard at the turn \<open>t\<close> of the loop, which interrupts change.\<close>

partial_function (option) check_for_ip :: "char \<Rightarrow> string \<Rightarrow> int \<Rightarrow> (nat \<Rightarrow> keyboard) \<Rightarrow> nat \<Rightarrow> (string \<times> int \<times> keyboard) option" where
  "check_for_ip before ab size_ip keyboards t =
     do { r \<leftarrow> poll_terminal before ab size_ip (keyboards t);
          case r of Inl x \<Rightarrow> Some x | Inr _ \<Rightarrow> check_for_ip before ab size_ip keyboards (Suc t) }"

declare check_for_ip.simps [simp del]

text \<open>Of the terminal the number of characters is not returned.\<close>

definition sys_read :: "(u64 \<Rightarrow> char) \<Rightarrow> char \<Rightarrow> (nat \<Rightarrow> keyboard) \<Rightarrow> int \<Rightarrow> string \<Rightarrow> int \<Rightarrow> fsys \<Rightarrow> (int \<times> string \<times> fsys) option" where
  "sys_read mem before keyboards fd msg sz s =
     (if fd \<noteq> 0
      then do { node \<leftarrow> descriptor fd s;
                (r, bytes, s) \<leftarrow> read_vfs mem node sz s;
                msg \<leftarrow> kmemcpychar bytes msg (of_nat (length bytes));
                Some (r, msg, s) }
      else do { (msg, _, _) \<leftarrow> check_for_ip before msg sz keyboards 0; Some (0, msg, s) })"

section \<open>The frame\<close>

lemma save_args_frame:
  "save_args (int_frame pad r) = Some \<lparr>c_ursp = u_rsp r, c_rax = u_rax r, c_rdx = u_rdx r, c_rsi = u_rsi r, c_rdi = u_rdi r\<rparr>"
  by (simp add: save_args_def int_frame_def)

lemma put_result: "aput (int_frame pad r) 7 x = Some (int_frame pad (r\<lparr>u_rax := x\<rparr>))"
proof -
  have "(int_frame pad r)[7 := x] = int_frame pad (r\<lparr>u_rax := x\<rparr>)" by (simp add: int_frame_def eval_nat_numeral)
  then show ?thesis by (simp add: aput_def int_frame_def)
qed

lemma handler_frame:
  "syscall_handler g q (int_frame pad r) s = map_option (\<lambda>(ret, s). (int_frame pad (r\<lparr>u_rax := ret\<rparr>), s)) (g (c_rdi q) (c_rsi q) (c_rdx q) s)"
  by (auto simp: syscall_handler_def put_result split: bind_split)

lemma return_frame_frame:
  "return_frame l (int_frame pad r) = Some (r\<lparr>u_r8 := u_r8 l, u_r9 := u_rax r, u_r10 := u_r10 l, u_r11 := u_r11 l,
     u_r13 := u_r13 l, u_r14 := u_r14 l, u_r15 := u_r15 l\<rparr>)"
  by (simp add: int_frame_def)

section \<open>Waiting for a line\<close>

text \<open>A keyboard on which a line is being typed.\<close>

definition line_open :: "keyboard \<Rightarrow> bool" where
  "line_open k \<longleftrightarrow> (\<exists>caps shift line. edits (caps, shift, line) k \<and> (line = [] \<or> last line \<noteq> CHR ''\<newline>''))"

lemma poll_open_line:
  assumes "line_open k" "before \<noteq> CHR ''\<newline>''"
  shows "poll_terminal before ab 0 k = Some (Inr k)"
proof -
  obtain caps shift line where e: "edits (caps, shift, line) k" "line = [] \<or> last line \<noteq> CHR ''\<newline>''"
    using assms(1) by (auto simp: line_open_def)
  have sz: "get_terminal_size k = Some (length line)" using edits_size [OF e(1)] .
  show ?thesis
  proof (cases "line = []")
    case True
    then show ?thesis using sz assms(2) by (simp add: poll_terminal_def)
  next
    case False
    then have "length line - 1 < length line" by simp
    moreover have "take (length line) (kb_buffer k) = line" "length line < length (kb_buffer k)" using e(1) by (auto simp: edits_def)
    ultimately have "kb_buffer k ! (length line - 1) = last line" "length line - 1 < length (kb_buffer k)"
      using False by (metis last_conv_nth nth_take, simp)
    then show ?thesis using sz False e(2) by (simp add: poll_terminal_def)
  qed
qed

lemma check_for_ip_line:
  assumes "edits (caps, shift, l @ ''\<newline>'') (keyboards (t + n))" "length l < length ab" "before \<noteq> CHR ''\<newline>''"
    "\<forall>i < n. line_open (keyboards (t + i))"
  shows "\<exists>k'. check_for_ip before ab 0 keyboards t = Some (l @ ''\<newline>'' @ drop (Suc (length l)) ab, int (length l) + 1, k')
    \<and> edits (caps, shift, '''') k'"
  using assms
proof (induction n arbitrary: t)
  case 0
  then show ?case using poll_line [of caps shift l "keyboards t" ab before] by (subst check_for_ip.simps) auto
next
  case (Suc n)
  have "poll_terminal before ab 0 (keyboards t) = Some (Inr (keyboards t))"
    using Suc.prems(3,4) poll_open_line by force
  moreover have "\<forall>i < n. line_open (keyboards (Suc t + i))" using Suc.prems(4) by (metis Suc_less_eq add_Suc_shift)
  with Suc.IH [of "Suc t"] Suc.prems(1-3)
  have "\<exists>k'. check_for_ip before ab 0 keyboards (Suc t) = Some (l @ ''\<newline>'' @ drop (Suc (length l)) ab, int (length l) + 1, k')
    \<and> edits (caps, shift, '''') k'" by simp
  ultimately show ?case by (subst check_for_ip.simps) simp
qed

section \<open>Properties\<close>

text \<open>C29: A call of a function of the C library runs the handler of the same name with its three arguments, provided that the
  handler and the \<^verbatim>\<open>schedule\<close> behind it return, and its value is the handler's result at the width of the function's
  type.  The program finds \<^verbatim>\<open>rax\<close>, \<^verbatim>\<open>rbx\<close>, \<^verbatim>\<open>rcx\<close>, \<^verbatim>\<open>rdx\<close>, \<^verbatim>\<open>rdi\<close>, \<^verbatim>\<open>rsi\<close>, \<^verbatim>\<open>rbp\<close>, \<^verbatim>\<open>r12\<close>, its instruction and stack pointers,
  segments and flags as it set them for the call, \<^verbatim>\<open>rax\<close> with the result; \<^verbatim>\<open>r9\<close> holds the result as well, and
  \<^verbatim>\<open>r8\<close>, \<^verbatim>\<open>r10\<close>, \<^verbatim>\<open>r11\<close> and \<^verbatim>\<open>r13\<close> to \<^verbatim>\<open>r15\<close> are what the kernel's code left in them.\<close>

theorem libc_call_reaches_handler:
  assumes "(name, f) \<in> set libc_calls"
    and "run (''sys_'' @ name) a b c s = Some (ret, s1)" "sched s1 = Some s2"
  shows "libc_call run sched left pad f a b c regs s
    = Some (c_result (snd f) ret,
        regs\<lparr>u_rdi := a, u_rsi := b, u_rdx := c, u_rax := ret, u_r9 := ret, u_r8 := u_r8 (left s2), u_r10 := u_r10 (left s2),
          u_r11 := u_r11 (left s2), u_r13 := u_r13 (left s2), u_r14 := u_r14 (left s2), u_r15 := u_r15 (left s2)\<rparr>, s2)"
proof -
  have "\<forall>(name, n, type) \<in> set libc_calls. n < 50 \<and> syscalls ! n = Some (''sys_'' @ name) \<and> length syscalls = 50"
    by code_simp
  with assms(1) obtain n type where f: "f = (n, type)" and n: "n < 50" "syscalls ! n = Some (''sys_'' @ name)" "length syscalls = 50"
    by (cases f) auto
  have u: "unat (of_nat n :: u64) = n" using n(1) by (intro unat_of_nat64) simp
  show ?thesis
    using assms(2,3) n u
    by (simp add: f libc_call_def Let_def interrupt_syscall_def save_args_frame handler_frame return_frame_frame)
qed

definition demo_regs :: uregs where
  "demo_regs = \<lparr>u_rax = 0, u_rbx = 1, u_rcx = 2, u_rdx = 3, u_rdi = 4, u_rsi = 5, u_rbp = 6, u_r8 = 8, u_r9 = 9, u_r10 = 10,
     u_r11 = 11, u_r12 = 12, u_r13 = 13, u_r14 = 14, u_r15 = 15,
     u_rip = 0x400000, u_cs = 0x2b, u_rflags = 0x202, u_rsp = 0x7000, u_ss = 0x23\<rparr>"

theorem libc_call_reaches_handler_witness:
  "libc_call (\<lambda>h a b c s. if h = ''sys_open'' then Some (0xffffffffffffffff, s + 1) else None) (\<lambda>s. Some (2 * s))
      (\<lambda>s. demo_regs\<lparr>u_r8 := word_of_int s\<rparr>) 0 (13, CInt) 4096 0 0 demo_regs (20 :: int)
    = Some (- 1, demo_regs\<lparr>u_rdi := 4096, u_rsi := 0, u_rdx := 0, u_rax := 0xffffffffffffffff, u_r9 := 0xffffffffffffffff, u_r8 := 42\<rparr>, 42)"
proof -
  have "(''open'', 13, CInt) \<in> set libc_calls" by (simp add: libc_calls_def unistd_calls_def)
  from libc_call_reaches_handler [OF this, of "\<lambda>h a b c s. if h = ''sys_open'' then Some (0xffffffffffffffff, s + 1) else None"
      4096 0 0 "20 :: int" "0xffffffffffffffff" 21 "\<lambda>s. Some (2 * s)" 42 "\<lambda>s. demo_regs\<lparr>u_r8 := word_of_int s\<rparr>" 0 demo_regs]
  show ?thesis by (simp add: demo_regs_def)
qed

text \<open>C30: A read of the terminal with the size 0, as \<^verbatim>\<open>gets\<close> makes it, waits, however long the line takes, until the line is
  complete, and then has it with its newline in the buffer of the program, when the buffer is longer than the line and no
  newline stands in front of the terminal's own buffer.  Its result is 0, not the number of characters.\<close>

theorem stdin_read_waits_for_line:
  assumes "edits (caps, shift, l @ ''\<newline>'') (keyboards n)" "\<forall>i < n. line_open (keyboards i)"
    and "length l < length msg" "before \<noteq> CHR ''\<newline>''"
  shows "sys_read mem before keyboards 0 msg 0 s = Some (0, l @ ''\<newline>'' @ drop (Suc (length l)) msg, s)"
  using check_for_ip_line [of caps shift l keyboards 0 n msg before] assms by (auto simp: sys_read_def)

definition demo_keyboard :: "string \<Rightarrow> keyboard" where
  "demo_keyboard l = \<lparr>controlflag = 0, kb_size = int (length l), address_of_buf = 4096 + of_nat (length l), terminal_buf = 4096,
     kb_buffer = l @ replicate (1024 - length l) NUL\<rparr>"

theorem stdin_read_waits_for_line_witness:
  "sys_read (\<lambda>_. NUL) NUL (\<lambda>t. if t = 0 then demo_keyboard ''l'' else demo_keyboard ''ls\<newline>'') 0 ''abcd'' 0 demo_fs
    = Some (0, ''ls\<newline>d'', demo_fs)"
proof -
  have e: "edits (False, False, l) (demo_keyboard l)" if "length l < 10" "NUL \<notin> set l" for l
    using that by (simp add: edits_def demo_keyboard_def nth_append)
  have "edits (False, False, ''ls'' @ ''\<newline>'') (demo_keyboard ''ls\<newline>'')" using e [of "''ls\<newline>''"] by (simp add: NUL_def)
  moreover have "line_open (demo_keyboard ''l'')"
    using e [of "''l''"] unfolding line_open_def by (intro exI [of _ False] exI [of _ "''l''"]) (simp add: NUL_def)
  ultimately show ?thesis
    using stdin_read_waits_for_line [of False False "''ls''" "\<lambda>t. if t = 0 then demo_keyboard ''l'' else demo_keyboard ''ls\<newline>''" 1 "''abcd''" NUL]
    by (simp add: NUL_def)
qed

section \<open>A character of the terminal\<close>

text \<open>\<^verbatim>\<open>getchar\<close> of the C library: a read of one character into an array of one byte.\<close>

definition getchar :: "(u64 \<Rightarrow> char) \<Rightarrow> char \<Rightarrow> (nat \<Rightarrow> keyboard) \<Rightarrow> fsys \<Rightarrow> (char \<times> fsys) option" where
  "getchar mem before keyboards s =
     do { buf \<leftarrow> aput [NUL] 0 NUL;
          (_, buf, s) \<leftarrow> sys_read mem before keyboards 0 buf 1 s;
          c \<leftarrow> aget buf 0;
          Some (c, s) }"

lemma poll_sized_overruns: "ab \<noteq> [] \<Longrightarrow> poll_terminal before ab (int (length ab)) k \<noteq> Some (Inl r)"
  by (auto simp: poll_terminal_def get_terminal_size_def kstrncopy_eq Let_def bind_eq_Some_conv split: if_splits)

lemma sized_read_overruns: "ab \<noteq> [] \<Longrightarrow> check_for_ip before ab (int (length ab)) keyboards t = None"
proof (rule ccontr)
  assume ab: "ab \<noteq> []" and "check_for_ip before ab (int (length ab)) keyboards t \<noteq> None"
  then obtain r where "check_for_ip before ab (int (length ab)) keyboards t = Some r" by auto
  then have "\<not> (ab \<noteq> [] \<and> int (length ab) = int (length ab))"
  proof (rule check_for_ip.raw_induct [where P = "\<lambda>before ab n keyboards t r. \<not> (ab \<noteq> [] \<and> n = int (length ab))", rotated], goal_cases)
    case (1 f before ab n keyboards t r)
    show ?case
    proof
      assume z: "ab \<noteq> [] \<and> n = int (length ab)"
      then have "f before ab n keyboards (Suc t) = Some r"
        using 1(2) poll_sized_overruns [of ab before "keyboards t"]
        by (cases "poll_terminal before ab n (keyboards t)") (auto split: sum.splits)
      then show False using 1(1) z by blast
    qed
  qed
  then show False using ab by simp
qed

text \<open>One turn of a sized read, on a line of the size asked for and on another one.\<close>

lemma poll_sized_line:
  assumes "edits (caps, shift, l) k" "l \<noteq> []"
  shows "if length l < length ab
    then \<exists>k'. poll_terminal before ab (int (length l)) k = Some (Inl (l @ NUL # drop (Suc (length l)) ab, int (length l), k'))
    else poll_terminal before ab (int (length l)) k = None"
proof -
  have b: "cstr (kb_buffer k) = l" "length l < length (kb_buffer k)"
    using assms(1) by (subst edits_buffer [OF assms(1)], simp_all add: edits_def)
  then have "take (length l) (kb_buffer k) = l" using assms(1) by (simp add: edits_def)
  then have "kstrncopy ab (kb_buffer k) (int (length l)) = (if length l < length ab then Some (l @ NUL # drop (Suc (length l)) ab) else None)"
    using b by (simp add: kstrncopy_eq Let_def)
  then show ?thesis
    using assms(2) reset_terminal_empty [OF assms(1)] edits_size [OF assms(1)] by (auto simp: poll_terminal_def)
qed

lemma poll_sized_waits:
  "edits e k \<Longrightarrow> length (snd (snd e)) \<noteq> n \<Longrightarrow> 0 < n \<Longrightarrow> poll_terminal before ab (int n) k = Some (Inr k)"
  using edits_size [of "fst e" "fst (snd e)" "snd (snd e)" k] by (simp add: poll_terminal_def)

lemma check_for_ip_sized:
  assumes "edits (caps, shift, l) (keyboards (t + n))" "l \<noteq> []"
    "\<forall>i < n. \<exists>e. edits e (keyboards (t + i)) \<and> length (snd (snd e)) \<noteq> length l"
  shows "if length l < length ab
    then \<exists>k'. check_for_ip before ab (int (length l)) keyboards t = Some (l @ NUL # drop (Suc (length l)) ab, int (length l), k')
    else check_for_ip before ab (int (length l)) keyboards t = None"
  using assms
proof (induction n arbitrary: t)
  case 0
  then show ?case using poll_sized_line [of caps shift l "keyboards t" ab before] by (subst (1 2) check_for_ip.simps) auto
next
  case (Suc n)
  obtain e where "edits e (keyboards t)" "length (snd (snd e)) \<noteq> length l" using Suc.prems(3) by force
  then have "poll_terminal before ab (int (length l)) (keyboards t) = Some (Inr (keyboards t))"
    using poll_sized_waits Suc.prems(2) by simp
  then have "check_for_ip before ab (int (length l)) keyboards t = check_for_ip before ab (int (length l)) keyboards (Suc t)"
    by (subst check_for_ip.simps) simp
  moreover have "\<forall>i < n. \<exists>e. edits e (keyboards (Suc t + i)) \<and> length (snd (snd e)) \<noteq> length l"
    using Suc.prems(3) by (metis Suc_less_eq add_Suc_shift)
  with Suc.IH [of "Suc t"] Suc.prems(1,2)
  have "if length l < length ab
    then \<exists>k'. check_for_ip before ab (int (length l)) keyboards (Suc t) = Some (l @ NUL # drop (Suc (length l)) ab, int (length l), k')
    else check_for_ip before ab (int (length l)) keyboards (Suc t) = None" by simp
  ultimately show ?case by simp
qed

text \<open>C31: A read of the terminal that asks for a number of characters waits, as long as the line has another length, for
  exactly that many, with or without a newline among them, and copies them with a zero byte behind.  With a buffer of just that
  number of bytes the turn that finds them stores behind the buffer; so \<^verbatim>\<open>getchar\<close>, which reads one
  character into one byte, never returns with its memory intact, whatever is typed.\<close>

theorem sized_terminal_read:
  assumes "edits (caps, shift, l) (keyboards n)" "l \<noteq> []"
    and "\<forall>i < n. \<exists>e. edits e (keyboards i) \<and> length (snd (snd e)) \<noteq> length l"
  shows "(length l < length msg \<longrightarrow>
      sys_read mem before keyboards 0 msg (int (length l)) s = Some (0, l @ NUL # drop (Suc (length l)) msg, s)) \<and>
    (length msg \<le> length l \<longrightarrow>
      poll_terminal before msg (int (length l)) (keyboards n) = None \<and> sys_read mem before keyboards 0 msg (int (length l)) s = None) \<and>
    (\<forall>typed. getchar mem before typed s = None)"
  using check_for_ip_sized [of caps shift l keyboards 0 n msg before] poll_sized_line [OF assms(1,2), of msg before]
    sized_read_overruns [of "[NUL]" before _ 0] assms
  by (auto simp: sys_read_def getchar_def split: if_splits)

theorem sized_terminal_read_witness:
  "sys_read (\<lambda>_. NUL) NUL (\<lambda>t. if t = 0 then demo_keyboard ''y'' else demo_keyboard ''yes'') 0 ''abcde'' 3 demo_fs
    = Some (0, ''yes'' @ NUL # ''e'', demo_fs)"
proof -
  have e: "edits (False, False, l) (demo_keyboard l)" if "length l < 10" "NUL \<notin> set l" for l
    using that by (simp add: edits_def demo_keyboard_def nth_append)
  have "edits (False, False, ''yes'') (demo_keyboard ''yes'')" "edits (False, False, ''y'') (demo_keyboard ''y'')"
    using e by (simp_all add: NUL_def)
  then have "\<exists>e. edits e (demo_keyboard ''y'') \<and> length (snd (snd e)) \<noteq> 3"
    by (intro exI [of _ "(False, False, ''y'')"]) simp
  with \<open>edits (False, False, ''yes'') (demo_keyboard ''yes'')\<close> show ?thesis
    using sized_terminal_read [of False False "''yes''" "\<lambda>t. if t = 0 then demo_keyboard ''y'' else demo_keyboard ''yes''" 1 "''abcde''"
        "\<lambda>_. NUL" NUL demo_fs]
    by (simp add: numeral_3_eq_3)
qed

end
