(* ===== verification/Programs.thy ===== *)
theory Programs
  imports Shell System_Call
begin

text \<open>
  The programs under \<^verbatim>\<open>bin/\<close> other than the shells, on top of the file system of the kernel: \<^verbatim>\<open>ls\<close> and \<^verbatim>\<open>ps\<close> list a
  directory stream, \<^verbatim>\<open>cat\<close> reads a file, \<^verbatim>\<open>cd\<close> and \<^verbatim>\<open>unlink\<close> build a path.  The system calls are those of the kernel's
  theories.  What a program gives to \<^verbatim>\<open>write\<close> is a list of \<^const>\<open>Write\<close>s; \<^verbatim>\<open>cat\<close>, whose texts are those of a file, is followed up to
  the screen.
\<close>

section \<open>Paths\<close>

text \<open>Relative names are put behind the working directory, which is the content of \<^verbatim>\<open>buf\<close>.\<close>

definition full_name :: "string \<Rightarrow> string \<Rightarrow> string \<Rightarrow> string option" where
  "full_name cwd concatstr arg =
     do { c \<leftarrow> aget arg 0; if c \<noteq> CHR ''/'' then strcat cwd arg concatstr else Some arg }"

text \<open>\<^verbatim>\<open>cd\<close> first ends the name with a slash, in the place of the argument: the path for \<^verbatim>\<open>chdir\<close>.\<close>

definition cd :: "string \<Rightarrow> string \<Rightarrow> string \<Rightarrow> string option" where
  "cd cwd concatstr arg =
     do { len \<leftarrow> strlen arg;
          c \<leftarrow> (if len = 0 then None else aget arg (len - 1));
          arg \<leftarrow> (if c \<noteq> CHR ''/'' then do { arg \<leftarrow> aput arg len (CHR ''/''); aput arg (len + 1) NUL } else Some arg);
          full_name cwd concatstr arg }"

definition unlink :: "string list \<Rightarrow> string \<Rightarrow> string \<Rightarrow> string \<Rightarrow> string \<Rightarrow> string \<Rightarrow> int action" where
  "unlink rows parent node cwd concatstr arg k =
     do { filename \<leftarrow> full_name cwd concatstr arg; sys_unlink rows parent node filename k }"

section \<open>Numbers on the command line\<close>

text \<open>The arguments of the call of \<^verbatim>\<open>kill\<close>, if there is one, and of \<^verbatim>\<open>sleep\<close>.\<close>

definition kill :: "string \<Rightarrow> string \<Rightarrow> (int \<times> int) option option" where
  "kill arg1 arg2 =
     do { c \<leftarrow> aget arg1 0;
          if c = CHR ''-''
          then do { signal \<leftarrow> atoi (drop 1 arg1);
                    pid \<leftarrow> atoi arg2;
                    Some (if signal = 9 then Some (pid, signal) else None) }
          else Some None }"


definition main_echo :: "string \<Rightarrow> (int \<times> act list) option" where
  "main_echo arg = puts arg"

text \<open>\<^verbatim>\<open>init\<close>, in the process in which \<^verbatim>\<open>fork\<close> returned \<open>pid\<close>, and \<^verbatim>\<open>export\<close>, whose body is a comment.  The start code of every
  program calls \<^verbatim>\<open>exit(0)\<close> behind \<^verbatim>\<open>main\<close>, whatever \<^verbatim>\<open>main\<close> returned.\<close>

definition init_branch :: "int \<Rightarrow> act list" where
  "init_branch pid = (if pid = 0 then [Execvpe ''bin/sbush'' [''bin/sbush'']] else [Waitpid pid])"

definition main_init :: "int \<Rightarrow> act list" where
  "main_init pid = Fork (init_branch 0) # init_branch pid"

definition main_export :: "int \<times> act list" where
  "main_export = (0, [])"

definition after_main :: "act list \<Rightarrow> act list" where
  "after_main acts = acts @ [Exit 0]"

definition pwd :: "string \<Rightarrow> act list option" where
  "pwd cwd = do { n \<leftarrow> strlen cwd; Some [Write (take n cwd), Write ''\<newline>''] }"

section \<open>Lists\<close>

text \<open>The loop of \<^verbatim>\<open>ls\<close> and \<^verbatim>\<open>ps\<close> until \<^verbatim>\<open>readdir\<close> returns null; \<open>dir\<close> is the memory from the stream on.\<close>

partial_function (option) list_loop :: "(dirent \<Rightarrow> act list option) \<Rightarrow> dirent list \<Rightarrow> fsys \<Rightarrow> (act list \<times> dirent list) option" where
  "list_loop row dir s =
     do { (r, dir) \<leftarrow> do_readdir dir s;
          case r of
            None \<Rightarrow> Some ([], dir)
          | Some i \<Rightarrow> do { w \<leftarrow> row (dir ! i); (ws, dir) \<leftarrow> list_loop row dir s; Some (w @ ws, dir) } }"

declare list_loop.simps [simp del]

definition close_message :: "int \<Rightarrow> act list" where
  "close_message c = (if c = - 1 then [Write ''Close failed\<newline>''] else [])"

definition ls_row :: "dirent \<Rightarrow> act list option" where
  "ls_row d = do { n \<leftarrow> strlen (d_name d); Some (Write (take n (d_name d)) # snd (putchar (CHR '' ''))) }"

text \<open>\<open>behind\<close> is the memory behind the stream that \<^verbatim>\<open>opendir\<close> allocates, by \<open>alloc\<close> on \<open>h\<close>: for the kernel this is
  \<^const>\<open>open_memory\<close>.\<close>

definition ls :: "(u64 \<Rightarrow> 'h \<Rightarrow> 'h option) \<Rightarrow> proc_view \<Rightarrow> string list \<Rightarrow> dirent list \<Rightarrow> string \<Rightarrow> fsys \<Rightarrow> 'h
    \<Rightarrow> (act list \<times> fsys \<times> 'h) option" where
  "ls alloc pv rows behind cwd s h =
     do { (ds, s, h) \<leftarrow> do_opendir alloc pv rows cwd s h;
          (w, ds) \<leftarrow> list_loop ls_row (ds @ behind) s;
          (c, ds, s) \<leftarrow> do_closedir ds s;
          Some (w @ Write ''\<newline>'' # close_message c, s, h) }"

text \<open>A number of \<^verbatim>\<open>ps\<close>: the digits in \<open>t\<close>, and turned round in \<open>out\<close>.\<close>

definition ps_number :: "string \<Rightarrow> string \<Rightarrow> int \<Rightarrow> (string \<times> string) option" where
  "ps_number t out v =
     do { (i, t) \<leftarrow> pid_digits v t 0;
          out \<leftarrow> for_n 0 i (\<lambda>k p. do { x \<leftarrow> aget t (i - Suc k); aput p k x }) out;
          out \<leftarrow> aput out i NUL;
          Some (t, out) }"

definition state_name :: "int \<Rightarrow> act list" where
  "state_name st =
     (if st = 0 then [Write ''RUNNING''] else if st = 1 then [Write ''SLEEPING''] else if st = 2 then [Write ''ZOMBIE''] else [])"

definition ps_row :: "string \<Rightarrow> string \<Rightarrow> string \<Rightarrow> dirent \<Rightarrow> act list option" where
  "ps_row pid ppid t d =
     do { (t, pid) \<leftarrow> ps_number t pid (sint (d_pid d));
          (t, ppid) \<leftarrow> (if d_ppid d = 0
                        then do { p \<leftarrow> aput ppid 0 (CHR ''0''); p \<leftarrow> aput p 1 NUL; Some (t, p) }
                        else ps_number t ppid (sint (d_ppid d)));
          n \<leftarrow> strlen pid;
          m \<leftarrow> strlen ppid;
          l \<leftarrow> strlen (d_name d);
          let space = snd (putchar (CHR '' ''));
          Some (Write (take n pid) # space @ Write (take m ppid) # space @ state_name (d_state d) @ space
                @ [Write (take l (d_name d)), Write ''\<newline>'']) }"

definition ps :: "(u64 \<Rightarrow> 'h \<Rightarrow> 'h option) \<Rightarrow> string \<Rightarrow> string \<Rightarrow> string \<Rightarrow> proc_view \<Rightarrow> string list \<Rightarrow> dirent list \<Rightarrow> fsys \<Rightarrow> 'h
    \<Rightarrow> (act list \<times> fsys \<times> 'h) option" where
  "ps alloc pid ppid t pv rows behind s h =
     do { (ds, s, h) \<leftarrow> do_opendir alloc pv rows (''/proc/'' @ [NUL]) s h;
          (w, ds) \<leftarrow> list_loop (ps_row pid ppid t) (ds @ behind) s;
          (c, ds, s) \<leftarrow> do_closedir ds s;
          Some (Write ''PID PPID STATUS NAME\<newline>'' # w @ close_message c, s, h) }"

section \<open>Files\<close>

text \<open>A \<^verbatim>\<open>read\<close> of a file into \<open>line\<close>: the result, the buffer and the file system.\<close>

definition read_in :: "(u64 \<Rightarrow> char) \<Rightarrow> u64 \<Rightarrow> string \<Rightarrow> int \<Rightarrow> fsys \<Rightarrow> (int \<times> string \<times> fsys) option" where
  "read_in mem node line sz s =
     do { (n, bytes, s) \<leftarrow> read_vfs mem node sz s;
          line \<leftarrow> kmemcpychar bytes line (of_nat (length bytes));
          Some (n, line, s) }"

text \<open>The loop of \<^verbatim>\<open>cat\<close>.  It writes to the descriptor 1 through the kernel, which prints with \<^const>\<open>kprintf\<close>: \<open>text\<close>, \<open>regs\<close> and
  \<open>stack\<close> are what that finds as its arguments, \<open>c\<close> is the console.\<close>

partial_function (option) cat_loop :: "(u64 \<Rightarrow> string) \<Rightarrow> u64 list \<Rightarrow> u64 list \<Rightarrow> (u64 \<Rightarrow> char) \<Rightarrow> u64 \<Rightarrow> string \<Rightarrow> fsys \<Rightarrow> console
    \<Rightarrow> (fsys \<times> console) option" where
  "cat_loop text regs stack mem node line s c =
     do { len \<leftarrow> strlen line;
          line \<leftarrow> umemset line 0 (int len);
          (n, line, s) \<leftarrow> read_in mem node line 100 s;
          if n = - 1 then Some (s, c)
          else do { (r, line, c) \<leftarrow> sys_write text regs stack 1 line n s c;
                    cat_loop text regs stack mem node line s c } }"

declare cat_loop.simps [simp del]

text \<open>\<^verbatim>\<open>cat\<close> of the open file \<open>node\<close>; \<open>line\<close> is the block from \<^verbatim>\<open>malloc\<close>.\<close>

definition cat_file :: "(u64 \<Rightarrow> string) \<Rightarrow> u64 list \<Rightarrow> u64 list \<Rightarrow> (u64 \<Rightarrow> char) \<Rightarrow> u64 \<Rightarrow> string \<Rightarrow> fsys \<Rightarrow> console
    \<Rightarrow> (fsys \<times> console) option" where
  "cat_file text regs stack mem node line s c =
     do { line \<leftarrow> umemset line 0 100;
          (n, line, s) \<leftarrow> read_in mem node line 100 s;
          (r, line, c) \<leftarrow> sys_write text regs stack 1 line n s c;
          (if n \<noteq> - 1 then cat_loop text regs stack mem node line s c else Some (s, c)) }"

text \<open>The whole program: the result of \<^verbatim>\<open>main\<close>, its message, the file system and the console; \<open>tn\<close> and \<open>no\<close> are the pages for
  the copy of the file's nodes.\<close>

definition cat :: "(u64 \<Rightarrow> string) \<Rightarrow> u64 list \<Rightarrow> u64 list \<Rightarrow> (u64 \<Rightarrow> char) \<Rightarrow> string list \<Rightarrow> u64 \<Rightarrow> u64 \<Rightarrow> string \<Rightarrow> string \<Rightarrow> string \<Rightarrow> string
    \<Rightarrow> fsys \<Rightarrow> console \<Rightarrow> (int \<times> act list \<times> fsys \<times> console) option" where
  "cat text regs stack mem rows tn no cwd concatstr line arg s c =
     do { filename \<leftarrow> full_name cwd concatstr arg;
          (fileptr, s) \<leftarrow> do_fopen rows tn no filename s;
          if fileptr < 0
          then do { (_, w) \<leftarrow> puts (''File Not Found'' @ CHR ''\<newline>'' # [NUL]); Some (1, w, s, c) }
          else do { node \<leftarrow> aget (file_descriptors s) (nat fileptr);
                    (s, c) \<leftarrow> cat_file text regs stack mem node line s c;
                    let (r, s) = do_close fileptr s;
                    Some (0, [], s, c) } }"

text \<open>A \<^verbatim>\<open>read\<close> of one byte from the kernel, into a buffer that holds a zero.\<close>

definition read_file :: "(u64 \<Rightarrow> char) \<Rightarrow> u64 \<Rightarrow> fsys \<Rightarrow> (char option \<times> fsys) option" where
  "read_file mem node s =
     do { (bytes, buf, s) \<leftarrow> read_in mem node [NUL] 1 s;
          if bytes = - 1 then Some (None, s) else do { c \<leftarrow> aget buf 0; Some (Some c, s) } }"

section \<open>What \<^verbatim>\<open>ps\<close> prints\<close>

lemma ps_number_eq:
  "ps_number t out v =
     (let ds = lsd_digits v in
      if length ds \<le> length t \<and> length ds < length out
      then Some (ds @ drop (length ds) t, rev ds @ NUL # drop (Suc (length ds)) out) else None)"
proof (cases "length (lsd_digits v) < length out")
  case True
  then show ?thesis
    by (simp add: ps_number_def pid_digits_eq for_n_rev Let_def list_update_append Cons_nth_drop_Suc [symmetric])
next
  case False
  then show ?thesis by (simp add: ps_number_def pid_digits_eq for_n_rev Let_def)
qed

lemma lsd_digits_five:
  assumes "0 \<le> v"
  shows "length (lsd_digits v) < 5 \<longleftrightarrow> v < 10000"
proof (cases "v < 10000")
  case True
  have "length (lsd_digits 9999) = 4" by (simp add: lsd_digits_pos)
  then show ?thesis using True lsd_digits_length_mono [of v 9999] assms by simp
next
  case False
  have "length (lsd_digits 10000) = 5" by (simp add: lsd_digits_pos)
  then show ?thesis using False lsd_digits_length_mono [of 10000 v] by simp
qed

lemma ps_number_five:
  assumes "length t = 5" "length out = 5" "0 \<le> v"
  shows "if v < 10000
    then \<exists>t' out'. ps_number t out v = Some (t', out') \<and> length t' = 5 \<and> terminated out' \<and> cstr out' = rev (lsd_digits v)
    else ps_number t out v = None"
  using lsd_digits_five [OF assms(3)] assms NUL_notin_lsd_digits [OF assms(3)] by (auto simp: ps_number_eq Let_def)

lemma take_cstr: "length (cstr s) = n \<Longrightarrow> take n s = cstr s"
  using take_length_cstr by blast

lemma ps_row_eq:
  assumes "length pid = 5" "length ppid = 5" "length t = 5" "terminated (d_name d)" "0 \<le> sint (d_pid d)" "0 \<le> sint (d_ppid d)"
  shows "ps_row pid ppid t d =
    (if sint (d_pid d) < 10000 \<and> sint (d_ppid d) < 10000
     then Some ([Write (rev (lsd_digits (sint (d_pid d)))), Write '' '',
                 Write (if d_ppid d = 0 then ''0'' else rev (lsd_digits (sint (d_ppid d)))), Write '' '']
            @ state_name (d_state d) @ [Write '' '', Write (cstr (d_name d)), Write ''\<newline>''])
     else None)"
proof (cases "sint (d_pid d) < 10000")
  case True
  then obtain t' p where p: "ps_number t pid (sint (d_pid d)) = Some (t', p)" "length t' = 5" "terminated p"
    "cstr p = rev (lsd_digits (sint (d_pid d)))"
    using ps_number_five [OF assms(3,1,5)] by auto
  show ?thesis
  proof (cases "d_ppid d = 0")
    case z: True
    obtain a b r where "ppid = a # b # r" using assms(2) by (auto simp: numeral_eq_Suc length_Suc_conv)
    then show ?thesis using True z p assms(4) by (simp add: ps_row_def putchar_def take_cstr take_length_cstr cstr_Cons NUL_def)
  next
    case nz: False
    show ?thesis
    proof (cases "sint (d_ppid d) < 10000")
      case True
      then obtain t'' q where "ps_number t' ppid (sint (d_ppid d)) = Some (t'', q)" "terminated q"
        "cstr q = rev (lsd_digits (sint (d_ppid d)))"
        using ps_number_five [OF p(2) assms(2,6)] by auto
      then show ?thesis using p nz True \<open>sint (d_pid d) < 10000\<close> assms(4)
        using take_cstr [of p "length (lsd_digits (sint (d_pid d)))"] take_cstr [of q "length (lsd_digits (sint (d_ppid d)))"]
        by (simp add: ps_row_def putchar_def take_length_cstr)
    next
      case False
      then show ?thesis using p nz ps_number_five [OF p(2) assms(2,6)] by (simp add: ps_row_def)
    qed
  qed
next
  case False
  then show ?thesis using ps_number_five [OF assms(3,1,5)] by (simp add: ps_row_def)
qed

section \<open>What \<^verbatim>\<open>cat\<close> prints\<close>



















section \<open>What \<^verbatim>\<open>ls\<close> prints\<close>

definition written :: "act list \<Rightarrow> string" where
  "written ws = concat (map (\<lambda>a. case a of Write t \<Rightarrow> t | _ \<Rightarrow> []) ws)"

lemma unread_append:
  "unread j (ds @ es) = (case unread j ds of Some i \<Rightarrow> Some i | None \<Rightarrow> unread (j + length ds) es)"
  by (induction ds arbitrary: j) (auto split: option.splits)

abbreviation marked :: "dirent \<Rightarrow> dirent" where
  "marked d \<equiv> d\<lparr>d_no := 1\<rparr>"

lemma stream_mark: "stream s k ds \<Longrightarrow> k < length ds \<Longrightarrow> stream s (Suc k) (ds[k := marked (ds ! k)])"
  by (cases k) (auto simp: stream_def nth_list_update Let_def Suc_le_eq)

lemma readdir_in_memory:
  assumes "stream s k ds" "ds \<noteq> []" "d_no z \<noteq> 1"
  shows "do_readdir (ds @ z # rest) s =
    (if k < length ds then Some (Some k, ds[k := marked (ds ! k)] @ z # rest) else Some (None, ds @ z # rest))"
proof -
  note st = assms(1) [unfolded stream_def]
  have "unread 0 ds = (if k < length ds then Some k else None)" using unread_eq [of k ds 0] st by simp
  then have un: "unread 0 (ds @ z # rest) = Some (if k < length ds then k else length ds)"
    using assms(3) by (simp add: unread_append)
  have fd: "aget (ds @ z # rest) 0 = Some (ds ! 0)" "0 \<le> d_fd (ds ! 0)" "nat (d_fd (ds ! 0)) < length (file_descriptors s)"
    "num_sub_files (inode_of s (file_descriptors s ! nat (d_fd (ds ! 0))))
        + num_sub_directory (inode_of s (file_descriptors s ! nat (d_fd (ds ! 0)))) = int (length ds)"
    using st assms(2) by (auto simp: Let_def nth_append)
  show ?thesis
  proof (cases "k < length ds")
    case True
    then have "terminated (d_name (ds ! k))" "cstr (d_name (ds ! k)) \<noteq> []" using st by auto
    then show ?thesis using True un fd by (simp add: do_readdir_def Let_def nth_append list_update_append)
  next
    case False
    then show ?thesis using un fd by (simp add: do_readdir_def Let_def)
  qed
qed

lemma list_loop_stream:
  assumes "stream s k ds" "ds \<noteq> []" "d_no z \<noteq> 1" "\<And>i. k \<le> i \<Longrightarrow> i < length ds \<Longrightarrow> row (marked (ds ! i)) = Some (f i)"
  shows "list_loop row (ds @ z # rest) s = Some (concat (map f [k..<length ds]), map marked ds @ z # rest)"
  using assms
proof (induction "length ds - k" arbitrary: k ds)
  case 0
  then have k: "k = length ds" by (simp add: stream_def)
  then have "map marked ds = ds" using "0.prems"(1) by (auto simp: stream_def intro!: map_idI dest!: in_set_conv_nth [THEN iffD1])
  then show ?case using readdir_in_memory [OF "0.prems"(1-3)] k by (subst list_loop.simps) simp
next
  case (Suc n)
  then have k: "k < length ds" by simp
  let ?ds = "ds[k := marked (ds ! k)]"
  have "list_loop row (?ds @ z # rest) s = Some (concat (map f [Suc k..<length ?ds]), map marked ?ds @ z # rest)"
  proof (rule Suc.hyps(1))
    show "stream s (Suc k) ?ds" using stream_mark [OF Suc.prems(1) k] .
    show "row (marked (?ds ! i)) = Some (f i)" if "Suc k \<le> i" "i < length ?ds" for i using Suc.prems(4) [of i] that by simp
  qed (use Suc k in auto)
  moreover have "map marked ?ds = map marked ds"
    using k by (simp add: map_update list_update_same_conv [THEN iffD2])
  moreover have "row ((?ds @ z # rest) ! k) = Some (f k)" using Suc.prems(4) [of k] k by (simp add: nth_append)
  ultimately show ?case
    using readdir_in_memory [OF Suc.prems(1-3)] k by (subst list_loop.simps) (simp add: upt_conv_Cons)
qed

lemma clear_dir_stops:
  assumes "terminated (d_name z)" "cstr (d_name z) = []" "\<forall>d \<in> set ds. terminated (d_name d) \<and> 26 \<le> length (d_name d)"
  shows "clear_dir (ds @ z # rest) \<noteq> None"
  using assms(3) by (induction ds) (use assms(1,2) in \<open>auto simp: memset_eq\<close>)

text \<open>A whole pass over a stream that was just opened, and its end: the descriptor is free again.\<close>

lemma opened_stream_listed:
  assumes ds: "ds \<noteq> []" "\<forall>d \<in> set ds. d_no d = 0 \<and> d_fd d = int fd \<and> terminated (d_name d) \<and> length (d_name d) = 26 \<and> cstr (d_name d) \<noteq> []"
    and n: "num_sub_files (inode_of s node) + num_sub_directory (inode_of s node) = int (length ds)"
    and fd: "first_free 0 (file_descriptors s) = Some fd" "length (file_descriptors s) = 25"
    and z: "d_no z \<noteq> 1" "terminated (d_name z)" "cstr (d_name z) = []"
    and row: "\<forall>d \<in> set ds. row (marked d) = Some (f d)"
  shows "\<exists>ds' ds''. list_loop row (ds @ z # rest) (s\<lparr>file_descriptors := (file_descriptors s)[fd := node]\<rparr>) = Some (concat (map f ds), ds')
    \<and> do_closedir ds' (s\<lparr>file_descriptors := (file_descriptors s)[fd := node]\<rparr>) = Some (0, ds'', s)"
proof -
  let ?s = "s\<lparr>file_descriptors := (file_descriptors s)[fd := node]\<rparr>"
  have f: "fd < 25" "file_descriptors s ! fd = 0" using fd(1) by (auto simp: first_free_Some)
  have d: "d_no (ds ! i) = 0" "terminated (d_name (ds ! i))" "length (d_name (ds ! i)) = 26" "cstr (d_name (ds ! i)) \<noteq> []"
    "d_fd (ds ! i) = int fd" if "i < length ds" for i
    using ds(2) that nth_mem by blast+
  have st: "stream ?s 0 ds"
    using d ds(1) f(1) fd(2) n by (auto simp: stream_def inode_of_def Let_def)
  have "list_loop row (ds @ z # rest) ?s = Some (concat (map (\<lambda>i. f (ds ! i)) [0..<length ds]), map marked ds @ z # rest)"
    by (rule list_loop_stream [OF st ds(1) z(1)]) (use row in simp)
  moreover have "map (\<lambda>i. f (ds ! i)) [0..<length ds] = map f ds" by (rule nth_equalityI) simp_all
  moreover have "clear_dir (map marked ds @ z # rest) \<noteq> None" by (rule clear_dir_stops [OF z(2,3)]) (use ds(2) in auto)
  then obtain ds'' where "clear_dir (map marked ds @ z # rest) = Some ds''" by blast
  then have "do_closedir (map marked ds @ z # rest) ?s = Some (0, ds'', s)"
    using d(5) [of 0] ds(1) f fd(2) by (cases ds) (auto simp: do_closedir_def list_update_same_conv)
  ultimately show ?thesis by auto
qed

section \<open>Reading a file byte by byte\<close>

text \<open>The bytes of a file from an offset on.\<close>

definition bytes_from :: "(u64 \<Rightarrow> char) \<Rightarrow> u64 \<Rightarrow> nat \<Rightarrow> nat \<Rightarrow> string" where
  "bytes_from mem start n off = map (\<lambda>i. mem (start + of_nat i)) [off..<n]"

lemma read_byte:
  assumes "open_at s node n off" "unat (i_start (inode_of s node)) + n + 1 < 2 ^ 64"
  shows "if n \<le> off then read_in mem node [NUL] 1 s = Some (- 1, [NUL], s)
    else \<exists>s'. read_in mem node [NUL] 1 s = Some (1, [mem (i_start (inode_of s node) + of_nat off)], s') \<and>
      open_at s' node n (Suc off) \<and> i_start (inode_of s' node) = i_start (inode_of s node)"
proof (cases "n \<le> off")
  case True
  then show ?thesis using read_vfs_eq [OF assms(1), of 1 mem] by (simp add: read_in_def kmemcpychar_eq)
next
  case False
  then have "read_vfs mem node 1 s = Some (1, do_fread mem 1 (i_start (inode_of s node) + of_nat off),
      set_inode (link_to_inode (tnodes s node)) (\<lambda>i. i\<lparr>i_offset := of_nat off + 1\<rparr>) s)" (is "_ = Some (_, _, ?s)")
    using read_vfs_eq [OF assms(1), of 1 mem] by (simp split: if_splits)
  then have "read_in mem node [NUL] 1 s = Some (1, [mem (i_start (inode_of s node) + of_nat off)], ?s)"
    by (simp add: read_in_def do_fread_def kmemcpychar_eq)
  moreover have "open_at ?s node n (Suc off)" "i_start (inode_of ?s node) = i_start (inode_of s node)"
    using assms False by (auto simp: open_at_def set_inode_def inode_of_def)
  ultimately show ?thesis using False by simp
qed

text \<open>An open file of the kernel is a source of bytes: \<open>a\<close> is its start in the archive and \<open>n\<close> its size.\<close>

definition file_open :: "u64 \<Rightarrow> nat \<Rightarrow> u64 \<Rightarrow> fsys \<Rightarrow> bool" where
  "file_open node n a s \<longleftrightarrow> open_at s node n (unat (i_offset (inode_of s node))) \<and> i_start (inode_of s node) = a \<and> unat a + n + 1 < 2 ^ 64"

definition file_rest :: "(u64 \<Rightarrow> char) \<Rightarrow> u64 \<Rightarrow> nat \<Rightarrow> u64 \<Rightarrow> fsys \<Rightarrow> string" where
  "file_rest mem node n a s = bytes_from mem a n (unat (i_offset (inode_of s node)))"

lemma open_at_offset: "open_at s node n off \<Longrightarrow> unat (i_offset (inode_of s node)) = off"
  unfolding open_at_def using unat_of_nat64 [of off] by auto

lemma file_openI: "open_at s node n off \<Longrightarrow> unat (i_start (inode_of s node)) + n + 1 < 2 ^ 64 \<Longrightarrow>
    file_open node n (i_start (inode_of s node)) s \<and> file_rest mem node n (i_start (inode_of s node)) s = bytes_from mem (i_start (inode_of s node)) n off"
  using open_at_offset [of s node n off] by (simp add: file_open_def file_rest_def)

lemma bytes_from_simps: "n \<le> off \<Longrightarrow> bytes_from mem a n off = []"
  "off < n \<Longrightarrow> bytes_from mem a n off = mem (a + of_nat off) # bytes_from mem a n (Suc off)"
  by (simp_all add: bytes_from_def upt_conv_Cons)

interpretation file_source: byte_source "read_file mem node" "file_open node n a" "file_rest mem node n a"
  for mem node n a
proof
  fix s assume s: "file_open node n a s"
  define off where "off = unat (i_offset (inode_of s node))"
  have o: "open_at s node n off" "i_start (inode_of s node) = a" "unat a + n + 1 < 2 ^ 64"
    using s by (auto simp: file_open_def off_def)
  note rd = read_byte [OF o(1), of mem, unfolded o(2), OF o(3)]
  show "\<exists>s'. read_file mem node s = Some (None, s') \<and> file_open node n a s' \<and> file_rest mem node n a s' = []"
    if e: "file_rest mem node n a s = []"
  proof -
    have "n \<le> off" using e bytes_from_simps(2) [of off n mem a] by (force simp: file_rest_def off_def)
    then show ?thesis using rd s e by (simp add: read_file_def)
  qed
  show "\<exists>s'. read_file mem node s = Some (Some c, s') \<and> file_open node n a s' \<and> file_rest mem node n a s' = cs"
    if e: "file_rest mem node n a s = c # cs" for c cs
  proof -
    have "\<not> n \<le> off" using e bytes_from_simps(1) [of n off mem a] by (force simp: file_rest_def off_def)
    then obtain s' where s': "read_in mem node [NUL] 1 s = Some (1, [mem (a + of_nat off)], s')" "open_at s' node n (Suc off)"
      "i_start (inode_of s' node) = a"
      using rd by auto
    have "mem (a + of_nat off) = c" "bytes_from mem a n (Suc off) = cs"
      using e bytes_from_simps(2) [of off n mem a] \<open>\<not> n \<le> off\<close> by (simp_all add: file_rest_def off_def)
    then show ?thesis using s' o(3) open_at_offset [OF s'(2)] by (auto simp: read_file_def file_open_def file_rest_def)
  qed
qed

section \<open>Properties\<close>




text \<open>C28: \<^verbatim>\<open>ls\<close> of a working directory that has an entry and whose names are short and not empty, with a free descriptor, writes the
  names of the sub-directories and of the files in their order, processes under
  their names, and leaves the file system as it was, exactly if the memory for the stream is there, 48 bytes for each entry.  The
  memory behind the stream may not look like an entry: \<^verbatim>\<open>readdir\<close> and \<^verbatim>\<open>closedir\<close> look at it.\<close>

theorem ls_lists_directory:
  assumes find: "find_file rows cwd s = Some node" "node \<noteq> 0"
    and fd: "first_free 0 (file_descriptors s) = Some fd" "length (file_descriptors s) = 25"
    and ino: "inode_of s node = ino" "num_sub_directory ino = int nd" "num_sub_files ino = int nf" "0 < nd + nf"
    and dn: "\<And>i. i < nd \<Longrightarrow> short_name (t_name (tnodes s (tnode_at (sub_directory_list ino) i)))"
    and fn: "\<And>i. i < nf \<Longrightarrow> short_name (t_name (tnodes s (tnode_at (sub_files_list ino) i)))"
    and pn: "\<And>p. p \<noteq> 0 \<Longrightarrow> short_name (fst (pv p))"
    and z: "d_no z \<noteq> 1" "terminated (d_name z)" "cstr (d_name z) = []"
  defines "names \<equiv> map (\<lambda>i. cstr (t_name (tnodes s (tnode_at (sub_directory_list ino) i)))) [0..<nd]
      @ map (\<lambda>i. listed_name pv s (tnode_at (sub_files_list ino) i)) [0..<nf]"
  assumes ne: "[] \<notin> set names"
  shows "ls alloc pv rows (z # rest) cwd s h
    = (case alloc (of_nat (nd + nf) * 48) h of None \<Rightarrow> None
       | Some h' \<Rightarrow> Some (concat (map (\<lambda>nm. [Write nm, Write '' '']) names) @ [Write ''\<newline>''], s, h'))"
proof (cases "alloc (of_nat (nd + nf) * DIR_SIZE) h")
  case None
  have "do_opendir alloc pv rows cwd s h = None"
    using None ino(1-3) find fd by (intro do_opendir_no_memory)
  with None show ?thesis by (simp add: ls_def DIR_SIZE_def)
next
  case (Some h')
  let ?s = "s\<lparr>file_descriptors := (file_descriptors s)[fd := node]\<rparr>"
  obtain ds where ds: "do_opendir alloc pv rows cwd s h = Some (ds, ?s, h')" "map (cstr \<circ> d_name) ds = names"
    "\<forall>d \<in> set ds. d_no d = 0 \<and> d_fd d = int fd \<and> terminated (d_name d) \<and> length (d_name d) = 26"
    using do_opendir_lists [where procs = pv and alloc = alloc, OF find fd ino(1-3) dn fn pn Some] unfolding names_def by blast
  have len: "length ds = nd + nf" using arg_cong [OF ds(2), of length] by (simp add: names_def)
  have "cstr (d_name d) \<noteq> []" if "d \<in> set ds" for d using ne that unfolding ds(2) [symmetric] by force
  moreover have "num_sub_files (inode_of s node) + num_sub_directory (inode_of s node) = int (length ds)"
    using ino len by simp
  moreover have "\<forall>d \<in> set ds. ls_row (marked d) = Some [Write (cstr (d_name d)), Write '' '']"
    using ds(3) by (simp add: ls_row_def putchar_def take_length_cstr)
  moreover have "ds \<noteq> []" using len ino(4) by auto
  ultimately obtain ds' ds'' where
    "list_loop ls_row (ds @ z # rest) ?s = Some (concat (map (\<lambda>d. [Write (cstr (d_name d)), Write '' '']) ds), ds')"
    "do_closedir ds' ?s = Some (0, ds'', s)"
    using opened_stream_listed [OF _ _ _ fd z, of ds node ls_row "\<lambda>d. [Write (cstr (d_name d)), Write '' '']" rest] ds(3) by blast
  moreover have "map (\<lambda>d. [Write (cstr (d_name d)), Write '' '']) ds = map (\<lambda>nm. [Write nm, Write '' '']) names"
    unfolding ds(2) [symmetric] by simp
  ultimately show ?thesis using ds(1) Some by (simp add: ls_def close_message_def DIR_SIZE_def)
qed

theorem ls_lists_directory_witness:
  "ls (\<lambda>n room. if n \<le> room then Some (room - n) else None) demo_procs demo_rows [zero_dirent] (''/bin/'' @ [NUL]) demo_fs 4064
    = Some ([Write ''ls'', Write '' '', Write ''\<newline>''], demo_fs, 4016)"
proof -
  have free: "first_free 0 (file_descriptors demo_fs) = Some 0"
    by (simp add: first_free_Some demo_fs_def)
  have n: "(200::u64) \<noteq> 0" "length (file_descriptors demo_fs) = 25"
    "num_sub_directory (inode_of demo_fs 200) = int 0" "num_sub_files (inode_of demo_fs 200) = int 1" "0 < 0 + (1::nat)"
    by (simp_all add: demo_fs_def inode_of_def blank_node_def)
  have nm: "\<And>i. i < 1 \<Longrightarrow> short_name (t_name (tnodes demo_fs (tnode_at (sub_files_list (inode_of demo_fs 200)) i)))"
    "listed_name demo_procs demo_fs (tnode_at (sub_files_list (inode_of demo_fs 200)) 0) = ''ls''"
    by (simp_all add: demo_fs_def inode_of_def blank_node_def short_name_def terminated_def cstr_Cons NUL_def
        tnode_at_def listed_name_def)
  have pn: "\<And>p. p \<noteq> 0 \<Longrightarrow> short_name (fst (demo_procs p))"
    by (simp add: short_name_def terminated_def cstr_Cons demo_procs_def)
  have z: "d_no zero_dirent \<noteq> 1" "terminated (d_name zero_dirent)" "cstr (d_name zero_dirent) = []"
    by (simp_all add: zero_dirent_def terminated_def)
  show ?thesis
    using ls_lists_directory [where pv = demo_procs and rest = "[]" and alloc = "\<lambda>n room. if n \<le> room then Some (room - n) else None"
        and h = 4064, OF demo_find_bin n(1) free n(2) refl n(3-5) _ nm(1) pn z] nm(2)
    by simp
qed

text \<open>A line of \<^verbatim>\<open>ps\<close>: the number of the process and of its parent in decimal, the state and the name, as long as both
  numbers have at most four digits; with five the arrays overflow.  Process 0 has the empty number.\<close>

theorem ps_row_overflows_at_five_digits:
  assumes "length pid = 5" "length ppid = 5" "length t = 5" "terminated (d_name d)" "0 \<le> sint (d_pid d)" "0 \<le> sint (d_ppid d)"
  shows "(ps_row pid ppid t d = None \<longleftrightarrow> 10000 \<le> sint (d_pid d) \<or> 10000 \<le> sint (d_ppid d)) \<and>
    (\<forall>ws. ps_row pid ppid t d = Some ws \<longrightarrow>
      written ws = rev (lsd_digits (sint (d_pid d))) @ '' '' @ (if d_ppid d = 0 then ''0'' else rev (lsd_digits (sint (d_ppid d))))
        @ '' '' @ written (state_name (d_state d)) @ '' '' @ cstr (d_name d) @ ''\<newline>'')"
  using ps_row_eq [OF assms] by (auto simp: written_def)

theorem ps_row_overflows_at_five_digits_witness:
  "ps_row (replicate 5 NUL) (replicate 5 NUL) (replicate 5 NUL) (zero_dirent\<lparr>d_pid := 10000\<rparr>) = None"
  using ps_row_overflows_at_five_digits [of "replicate 5 NUL" "replicate 5 NUL" "replicate 5 NUL" "zero_dirent\<lparr>d_pid := 10000\<rparr>"]
  by (simp add: zero_dirent_def terminated_def NUL_def)

text \<open>C32: \<^verbatim>\<open>fgets\<close> over the kernel's files reads the bytes of the file in order: it refines the \<^verbatim>\<open>fgets\<close> that takes its input
  from a list, with the same line, the same faults and the offset of the file where the list has its rest.  Requests
  for one byte are not touched by the wrong comparison in \<^verbatim>\<open>read\<close>.\<close>

theorem fgets_reads_file_bytes:
  assumes "open_at s node n off" "unat (i_start (inode_of s node)) + n + 1 < 2 ^ 64"
  shows "case fgets (bytes_from mem (i_start (inode_of s node)) n off) buf sz of
      None \<Rightarrow> fgets_over (read_file mem node) buf 0 s = None
    | Some (r, input) \<Rightarrow> \<exists>s' off'. fgets_over (read_file mem node) buf 0 s = Some (r, s') \<and> open_at s' node n off' \<and>
        input = bytes_from mem (i_start (inode_of s node)) n off'"
proof -
  note f = file_openI [OF assms, of mem]
  show ?thesis
    using file_source.fgets_over_line [OF conjunct1 [OF f], of mem buf sz] file_source.fgets_over_fault [OF conjunct1 [OF f], of mem buf sz] f
    by (fastforce simp: file_open_def file_rest_def split: option.splits)
qed

theorem fgets_reads_file_bytes_witness:
  "\<exists>s'. fgets_over (read_file (\<lambda>a. if a = 4102 then CHR ''\<newline>'' else CHR ''x'') 300) ''abcd'' 0 demo_open = Some (Some (''xx'' @ NUL # ''d''), s')"
proof -
  have st: "i_start (inode_of demo_open 300) = 4096"
    by (simp add: demo_open_def demo_fs_def inode_of_def set_inode_def blank_node_def)
  have f: "fgets (bytes_from (\<lambda>a. if a = 4102 then CHR ''\<newline>'' else CHR ''x'') 4096 8 4) ''abcd'' 5 = Some (Some (''xx'' @ NUL # ''d''), ''x'')"
    by (simp add: bytes_from_def fgets_def upt_rec)
  show ?thesis
    using fgets_reads_file_bytes [OF demo_open_at, of "\<lambda>a. if a = 4102 then CHR ''\<newline>'' else CHR ''x''" "''abcd''" 5] unfolding st f
    by auto
qed






end
