(* ===== verification/Switch.thy ===== *)
theory Switch
  imports Process
begin

text \<open>
  The assembly of the kernel: \<^verbatim>\<open>switch_to\<close>, the register part of \<^verbatim>\<open>schedule\<close> and \<^verbatim>\<open>switch_to_ring_3\<close>
  (\<^verbatim>\<open>sys/contextswitch.c\<close>), the timer, keyboard and page fault gates of \<^verbatim>\<open>sys/idt.c\<close>, \<^verbatim>\<open>set_tss_rsp\<close>
  (\<^verbatim>\<open>sys/gdt.c\<close>), and the first instructions of a program (\<^verbatim>\<open>crt/crt1.c\<close>).  The statements of inline assembly are
  instructions of a small machine with the general registers, the segment registers, the flags, \<^verbatim>\<open>cr3\<close>, and a memory of
  64-bit words by address; every access of this code is aligned.  What the compiler puts around the statements, the words of
  the frames, is a parameter: the code relies on the number of these words.
\<close>

section \<open>The machine\<close>

datatype reg = RAX | RBX | RCX | RDX | RSI | RDI | RBP | RSP | R8 | R9 | R10 | R11 | R12 | R13 | R14 | R15

datatype sreg = CS | DS | ES | FS | GS | SS

record cpu =
  gpr :: "reg \<Rightarrow> u64"
  seg :: "sreg \<Rightarrow> u64"
  rip :: u64
  rflags :: u64
  cr2 :: u64
  cr3 :: u64
  tss_rsp0 :: u64
  outs :: "(u16 \<times> u8) list"
  mem :: "u64 \<Rightarrow> u64"

text \<open>The instructions of the inline assembly.  An operand of the form \<^verbatim>\<open>"=m"(p->f)\<close> is the address of the field.\<close>

datatype instr =
    Push reg | Pop reg | PushImm u64 | PushMem u64 | PushFlags
  | Mov reg reg | MovImm reg u64 | Load reg u64 | LoadAt reg reg u64 | Store u64 reg | StoreAt reg u64 reg
  | AddImm reg u64 | OrImm reg u64 | MovSeg sreg reg | MovCR3 u64
  | Out u16 | Cli | Sti | Call u64 u64 | Ret | Iret

definition IF_BIT :: u64 where
  "IF_BIT = 0x200"

definition push_word :: "u64 \<Rightarrow> cpu \<Rightarrow> cpu" where
  "push_word v c =
     (let sp = gpr c RSP - 8 in c\<lparr>gpr := (gpr c)(RSP := sp), mem := (mem c)(sp := v)\<rparr>)"

definition top_word :: "cpu \<Rightarrow> u64" where
  "top_word c = mem c (gpr c RSP)"

definition drop_word :: "cpu \<Rightarrow> cpu" where
  "drop_word c = c\<lparr>gpr := (gpr c)(RSP := gpr c RSP + 8)\<rparr>"

definition set_reg :: "reg \<Rightarrow> u64 \<Rightarrow> cpu \<Rightarrow> cpu" where
  "set_reg r v c = c\<lparr>gpr := (gpr c)(r := v)\<rparr>"

text \<open>The \<^verbatim>\<open>out\<close> of the constant 0x20 is one of 32 bits, as the constant is an \<^verbatim>\<open>int\<close> in \<^verbatim>\<open>eax\<close>, so it writes four ports; \<^verbatim>\<open>iretq\<close> pops the five words that
  an interrupt pushes.\<close>

fun exec_instr :: "instr \<Rightarrow> cpu \<Rightarrow> cpu" where
  "exec_instr (Push r) c = push_word (gpr c r) c"
| "exec_instr (Pop r) c = set_reg r (top_word c) (drop_word c)"
| "exec_instr (PushImm v) c = push_word v c"
| "exec_instr (PushMem a) c = push_word (mem c a) c"
| "exec_instr PushFlags c = push_word (rflags c) c"
| "exec_instr (Mov d s) c = set_reg d (gpr c s) c"
| "exec_instr (MovImm d v) c = set_reg d v c"
| "exec_instr (Load d a) c = set_reg d (mem c a) c"
| "exec_instr (LoadAt d b i) c = set_reg d (mem c (gpr c b + i)) c"
| "exec_instr (Store a s) c = c\<lparr>mem := (mem c)(a := gpr c s)\<rparr>"
| "exec_instr (StoreAt b i s) c = c\<lparr>mem := (mem c)(gpr c b + i := gpr c s)\<rparr>"
| "exec_instr (AddImm d v) c = set_reg d (gpr c d + v) c"
| "exec_instr (OrImm d v) c = set_reg d (gpr c d OR v) c"
| "exec_instr (MovSeg d s) c = c\<lparr>seg := (seg c)(d := gpr c s)\<rparr>"
| "exec_instr (MovCR3 v) c = c\<lparr>cr3 := v\<rparr>"
| "exec_instr (Out p) c =
     (let c = set_reg RAX 0x20 c in c\<lparr>outs := outs c @ [(p, 0x20), (p + 1, 0), (p + 2, 0), (p + 3, 0)]\<rparr>)"
| "exec_instr Cli c = c\<lparr>rflags := rflags c AND NOT IF_BIT\<rparr>"
| "exec_instr Sti c = c\<lparr>rflags := rflags c OR IF_BIT\<rparr>"
| "exec_instr (Call target next_rip) c = (push_word next_rip c)\<lparr>rip := target\<rparr>"
| "exec_instr Ret c = (drop_word c)\<lparr>rip := top_word c\<rparr>"
| "exec_instr Iret c =
     (let sp = gpr c RSP in
      c\<lparr>rip := mem c sp, seg := (seg c)(CS := mem c (sp + 8), SS := mem c (sp + 32)),
        rflags := mem c (sp + 16), gpr := (gpr c)(RSP := mem c (sp + 24))\<rparr>)"

definition exec_code :: "instr list \<Rightarrow> cpu \<Rightarrow> cpu" where
  "exec_code = fold exec_instr"

lemma exec_code_simps [simp]: "exec_code [] c = c" "exec_code (i # is) c = exec_code is (exec_instr i c)"
  by (simp_all add: exec_code_def)

lemma exec_code_append: "exec_code (is @ js) c = exec_code js (exec_code is c)"
  by (simp add: exec_code_def)

text \<open>An interrupt or an exception in 64-bit mode: on the way from a program of level 3 the processor takes the stack of the
  task state segment; it aligns the stack pointer to 16 bytes, pushes the five words, and an error code where there is one.\<close>

definition user_mode :: "cpu \<Rightarrow> bool" where
  "user_mode c = (seg c CS AND 3 = 3)"

definition interrupt :: "u64 \<Rightarrow> u64 option \<Rightarrow> cpu \<Rightarrow> cpu" where
  "interrupt handler err c =
     (let sp = (if user_mode c then tss_rsp0 c else gpr c RSP) AND NOT 15;
          d = c\<lparr>gpr := (gpr c)(RSP := sp)\<rparr>;
          d = push_word (rip c) (push_word (seg c CS) (push_word (rflags c) (push_word (gpr c RSP) (push_word (seg c SS) d))));
          d = (case err of None \<Rightarrow> d | Some e \<Rightarrow> push_word e d)
      in d\<lparr>rip := handler, rflags := rflags d AND NOT IF_BIT, seg := (seg d)(CS := 8)\<rparr>)"

section \<open>The control block in memory\<close>

text \<open>The word \<open>k\<close> of the control block at \<open>th\<close>: the 400 words of \<^verbatim>\<open>kstack\<close> come first.  The fields after them that are
  words, with their place by the layout of \<^verbatim>\<open>struct PCB\<close>.\<close>

definition slot :: "u64 \<Rightarrow> nat \<Rightarrow> u64" where
  "slot th k = th + 8 * of_nat k"

abbreviation pcb_rsp :: "u64 \<Rightarrow> u64" where "pcb_rsp th \<equiv> slot th 403"
abbreviation pcb_ursp :: "u64 \<Rightarrow> u64" where "pcb_ursp th \<equiv> slot th 405"
abbreviation pcb_gotoaddr :: "u64 \<Rightarrow> u64" where "pcb_gotoaddr th \<equiv> slot th 410"
abbreviation pcb_page_table :: "u64 \<Rightarrow> u64" where "pcb_page_table th \<equiv> slot th 411"
abbreviation pcb_rax :: "u64 \<Rightarrow> u64" where "pcb_rax th \<equiv> slot th 412"
abbreviation pcb_rbx :: "u64 \<Rightarrow> u64" where "pcb_rbx th \<equiv> slot th 413"
abbreviation pcb_rdx :: "u64 \<Rightarrow> u64" where "pcb_rdx th \<equiv> slot th 414"
abbreviation pcb_rdi :: "u64 \<Rightarrow> u64" where "pcb_rdi th \<equiv> slot th 415"
abbreviation pcb_rsi :: "u64 \<Rightarrow> u64" where "pcb_rsi th \<equiv> slot th 416"
abbreviation pcb_rcx :: "u64 \<Rightarrow> u64" where "pcb_rcx th \<equiv> slot th 417"
abbreviation pcb_rbp :: "u64 \<Rightarrow> u64" where "pcb_rbp th \<equiv> slot th 418"
abbreviation pcb_r12 :: "u64 \<Rightarrow> u64" where "pcb_r12 th \<equiv> slot th 419"

definition PCB_WORDS :: nat where
  "PCB_WORDS = 427"

section \<open>Switching threads\<close>

definition set_tss_rsp :: "u64 \<Rightarrow> cpu \<Rightarrow> cpu" where
  "set_tss_rsp rsp c = c\<lparr>tss_rsp0 := rsp\<rparr>"

definition restore_code :: "u64 \<Rightarrow> instr list" where
  "restore_code nxt = [Load RSP (pcb_rsp nxt), Pop R12, Pop RSI, Pop RDI, Pop RDX, Pop RCX, Pop RBX, Pop RBP, Pop RAX, Sti, Ret]"

definition save_code :: "u64 \<Rightarrow> instr list" where
  "save_code me =
     [Pop R8, Pop R9, Push RAX, PushMem (pcb_rbp me), PushMem (pcb_rbx me), PushMem (pcb_rcx me), PushMem (pcb_rdx me),
      PushMem (pcb_rdi me), PushMem (pcb_rsi me), Push R12, Store (pcb_rsp me) RSP]"

definition switch_to :: "u64 \<Rightarrow> u64 \<Rightarrow> cpu \<Rightarrow> cpu" where
  "switch_to me nxt c =
     (let c = exec_instr (MovCR3 (mem c (pcb_page_table nxt) AND NOT 0xFFF)) c;
          c = set_tss_rsp (slot nxt (KSTACKLEN - 1)) c;
          c = exec_code [Pop R8, Pop R8, Pop R8] c
      in if me \<noteq> 0 then exec_code (save_code me @ restore_code nxt) c else exec_code (restore_code nxt) c)"

text \<open>The start of \<^verbatim>\<open>schedule\<close>: the registers go to the control block of the current thread.\<close>

definition schedule_saves :: "u64 \<Rightarrow> cpu \<Rightarrow> cpu" where
  "schedule_saves me =
     exec_code [Cli, Mov R8 RDI, Store (pcb_rdi me) R8, Store (pcb_rbx me) RBX, Store (pcb_rcx me) RCX, Store (pcb_rbp me) RBP,
          Store (pcb_rsi me) RSI, Store (pcb_r12 me) R12, Store (pcb_rdx me) RDX]"

text \<open>Entering user mode.\<close>

definition switch_to_ring_3 :: "u64 \<Rightarrow> cpu \<Rightarrow> cpu" where
  "switch_to_ring_3 tss c =
     (let c = set_tss_rsp (slot tss 399) c;
          pml4 = mem c (pcb_page_table tss) AND NOT 0xFFF
      in exec_code [Cli, MovCR3 pml4, MovImm RAX 0x23, MovSeg DS RAX, MovSeg ES RAX, MovSeg FS RAX, MovSeg GS RAX,
              PushImm 0x23, Load RAX (pcb_ursp tss), Push RAX, PushFlags, Pop RAX, OrImm RAX 0x200, Push RAX,
              PushImm 0x2b, PushMem (pcb_gotoaddr tss), Iret] c)"

section \<open>The gates of the interrupts\<close>

text \<open>The pushes and pops of the timer and of the keyboard, and of the page fault; \<open>pad\<close> are the words of the compiler's frame.\<close>

definition push_words :: "u64 list \<Rightarrow> cpu \<Rightarrow> cpu" where
  "push_words ws c = fold push_word ws c"

definition irq_enter :: "cpu \<Rightarrow> cpu" where
  "irq_enter = exec_code [Push RAX, Push RCX, Push RDX, Push RSI, Push RDI, Push R8, Push R9, Push R12]"

definition irq_leave :: "cpu \<Rightarrow> cpu" where
  "irq_leave = exec_code [Pop R12, Pop R9, Pop R8, Pop RDI, Pop RSI, Pop RDX, Pop RCX, Pop RAX, Pop R11,
                    Mov R9 RAX, Out 0x20, Mov RAX R9, Iret]"

definition fault_enter :: "u64 \<Rightarrow> cpu \<Rightarrow> cpu" where
  "fault_enter me = exec_code [Cli, Push RDI, Push RAX, Push RBX, Push RCX, Push RDX, Push RBP, Push RSI, Push R8, Push R9, Push R12,
                         Store (pcb_rsp me) RSP]"

definition fault_leave :: "cpu \<Rightarrow> cpu" where
  "fault_leave = exec_code [Pop R12, Pop R9, Pop R8, Pop RSI, Pop RBP, Pop RDX, Pop RCX, Pop RBX, Pop RAX, Pop RDI, AddImm RSP 32,
                      Mov R9 RAX, Out 0x20, Mov RAX R9, Sti, Iret]"

text \<open>The gate of the system calls, and the end of \<^verbatim>\<open>syscall_handler\<close> behind the call of the handler.\<close>

definition syscall_enter :: "cpu \<Rightarrow> cpu" where
  "syscall_enter = exec_code [Cli, Push RAX, Push RBX, Push RCX, Push RDX, Push RDI, Push RSI, Push RBP, Push R12]"

definition handler_done :: "cpu \<Rightarrow> cpu" where
  "handler_done = exec_code [StoreAt RSP 128 RAX, Pop R12, Pop RBP, Pop RSI, Pop RDI, Pop RDX, Pop RCX, Pop RBX, Pop RAX, Ret]"

definition syscall_leave :: "cpu \<Rightarrow> cpu" where
  "syscall_leave = exec_code [Pop R12, Pop RBP, Pop RSI, Pop RDI, Pop RDX, Pop RCX, Pop RBX, Pop RAX, AddImm RSP 8,
                        Mov R9 RAX, Out 0x20, Mov RAX R9, Sti, Iret]"

section \<open>The start of a program\<close>

text \<open>\<^verbatim>\<open>_start\<close> up to the call of \<^verbatim>\<open>main\<close>; \<open>main\<close> and \<open>after\<close> are the addresses of \<^verbatim>\<open>main\<close> and behind the call.\<close>

definition crt_start :: "u64 \<Rightarrow> u64 \<Rightarrow> cpu \<Rightarrow> cpu" where
  "crt_start main after =
     exec_code [LoadAt RDI RSP 8, AddImm RSP 16, LoadAt RSI RSP 0, AddImm RSP 8, LoadAt RDX RSP 0, Call main after]"

section \<open>Addresses of a control block\<close>

lemma slot_up: "slot th k + 8 = slot th (k + 1)"
  by (simp add: slot_def algebra_simps)

lemma slot_down_gen: "0 < n \<Longrightarrow> slot th (j + n) - 8 = slot th (j + (n - 1))"
  by (cases n) (simp_all add: slot_def algebra_simps)

lemma slot_down:
  "slot th (j + 1) - 8 = slot th j"
  "slot th (j + numeral n) - 8 = slot th (j + (numeral n - 1))"
  "slot th (numeral n) - 8 = slot th (numeral n - 1)"
  using slot_down_gen [of 1 th j] slot_down_gen [of "numeral n" th j] slot_down_gen [of "numeral n" th 0] by simp_all

lemma slot_sub: "m \<le> k \<Longrightarrow> slot th k - 8 * of_nat m = slot th (k - m)"
  by (simp add: slot_def of_nat_diff algebra_simps)

lemma slot_add: "slot th k + 8 * of_nat m = slot th (k + m)"
  by (simp add: slot_def algebra_simps)

lemmas slot_offsets =
  slot_sub [of 2 _ th for th, simplified] slot_sub [of 3 _ th for th, simplified] slot_sub [of 4 _ th for th, simplified]
  slot_sub [of 5 _ th for th, simplified] slot_sub [of 6 _ th for th, simplified]
  slot_add [of _ _ 2, simplified] slot_add [of _ _ 3, simplified] slot_add [of _ _ 4, simplified]

lemmas slot_simps = slot_up slot_down slot_offsets add.assoc Suc_eq_plus1

declare One_nat_def [simp del] add_2_eq_Suc [simp del] add_2_eq_Suc' [simp del]

lemma slot_inject:
  assumes "i < 2 ^ 60" "j < 2 ^ 60"
  shows "slot th i = slot th j \<longleftrightarrow> i = j"
proof -
  have u: "unat (8 * of_nat k :: u64) = 8 * k" if "k < 2 ^ 60" for k
    using unat_add_mult64 [of 0 8 k] that by simp
  have "(8 * of_nat i :: u64) = 8 * of_nat j \<longleftrightarrow> i = j"
    using u [OF assms(1)] u [OF assms(2)] by (metis mult_left_cancel zero_neq_numeral)
  then show ?thesis by (simp add: slot_def)
qed

text \<open>Two control blocks that do not overlap.\<close>

definition apart :: "u64 \<Rightarrow> u64 \<Rightarrow> bool" where
  "apart a b \<longleftrightarrow> (\<forall>i < PCB_WORDS. \<forall>j < PCB_WORDS. slot a i \<noteq> slot b j)"

lemma apart_slots [simp]: "apart a b \<Longrightarrow> i < 427 \<Longrightarrow> j < 427 \<Longrightarrow> slot a i \<noteq> slot b j"
  by (simp add: apart_def PCB_WORDS_def)

lemma apart_sym: "apart a b \<longleftrightarrow> apart b a"
  unfolding apart_def by metis

lemmas machine = push_word_def top_word_def drop_word_def set_reg_def Let_def

text \<open>The state when \<^verbatim>\<open>switch_to\<close> gives the processor back to a thread whose stack pointer was saved at slot \<open>k\<close>.\<close>

definition resumed :: "u64 \<Rightarrow> nat \<Rightarrow> cpu \<Rightarrow> cpu" where
  "resumed th k c =
     c\<lparr>gpr := (gpr c)(R12 := mem c (slot th k), RSI := mem c (slot th (k + 1)), RDI := mem c (slot th (k + 2)),
              RDX := mem c (slot th (k + 3)), RCX := mem c (slot th (k + 4)), RBX := mem c (slot th (k + 5)),
              RBP := mem c (slot th (k + 6)), RAX := mem c (slot th (k + 7)), RSP := slot th (k + 9)),
       rip := mem c (slot th (k + 8)), rflags := rflags c OR IF_BIT\<rparr>"

lemma restore_resumed:
  assumes "mem c (pcb_rsp nxt) = slot nxt k"
  shows "exec_code (restore_code nxt) c = resumed nxt k c"
  using assms by (simp add: restore_code_def resumed_def machine slot_simps fun_eq_iff)


text \<open>What a switch leaves on the stack of the thread that gives the processor away: eight words below its return address,
  which stands in slot \<open>k + 8\<close>.\<close>

definition parked :: "u64 \<Rightarrow> nat \<Rightarrow> cpu \<Rightarrow> u64 \<Rightarrow> u64" where
  "parked me k c =
     (mem c)(slot me (k + 7) := gpr c RAX, slot me (k + 6) := mem c (pcb_rbp me), slot me (k + 5) := mem c (pcb_rbx me),
             slot me (k + 4) := mem c (pcb_rcx me), slot me (k + 3) := mem c (pcb_rdx me),
             slot me (k + 2) := mem c (pcb_rdi me), slot me (k + 1) := mem c (pcb_rsi me),
             slot me k := gpr c R12, pcb_rsp me := slot me k)"

lemma slot_eq [simp]: "k < 512 \<Longrightarrow> j < 512 \<Longrightarrow> slot th k = slot th j \<longleftrightarrow> k = j"
  by (simp add: slot_inject)

lemma save_parks:
  assumes "gpr c RSP = slot me (k + 3)" "k + 8 < 400"
  shows "exec_code (save_code me) (exec_code [Pop R8, Pop R8, Pop R8] c) =
    c\<lparr>gpr := (gpr c)(R8 := mem c (slot me (k + 6)), R9 := mem c (slot me (k + 7)), RSP := slot me k), mem := parked me k c\<rparr>"
  using assms by (simp add: save_code_def parked_def machine slot_simps fun_eq_iff)

lemma switch_to_parks:
  assumes "gpr c RSP = slot me (k + 3)" "k + 8 < 400" "me \<noteq> 0"
  shows "mem (switch_to me nxt c) = parked me k c"
proof -
  have m: "mem (exec_code (restore_code nxt) d) = mem d" for d
    by (simp add: restore_code_def machine)
  have p: "parked me k (set_tss_rsp a (exec_instr (MovCR3 b) c)) = parked me k c" for a b
    by (simp add: parked_def set_tss_rsp_def)
  have r: "gpr (set_tss_rsp a (exec_instr (MovCR3 b) c)) = gpr c" for a b
    by (simp add: set_tss_rsp_def)
  show ?thesis
    using assms save_parks [of "set_tss_rsp _ (exec_instr (MovCR3 _) c)" me k]
    by (simp add: switch_to_def Let_def exec_code_append m p r del: exec_code_simps exec_instr.simps)
qed


text \<open>What may happen while a thread does not run: another thread runs, and does not write the stack of this thread nor its
  saved stack pointer, or it switches to a third thread.\<close>

definition stack_kept :: "u64 \<Rightarrow> cpu \<Rightarrow> cpu \<Rightarrow> bool" where
  "stack_kept me c d \<longleftrightarrow> (\<forall>j < 400. mem d (slot me j) = mem c (slot me j)) \<and> mem d (pcb_rsp me) = mem c (pcb_rsp me)"

inductive away :: "u64 \<Rightarrow> cpu \<Rightarrow> cpu \<Rightarrow> bool" for me where
  away_refl: "away me c c"
| away_slice: "away me c d \<Longrightarrow> stack_kept me d e \<Longrightarrow> away me c e"
| away_switch: "away me c d \<Longrightarrow> gpr d RSP = slot a (n + 3) \<Longrightarrow> n + 8 < 400 \<Longrightarrow> a \<noteq> 0 \<Longrightarrow> apart me a
    \<Longrightarrow> away me c (switch_to a b d)"

lemma parked_other:
  assumes "n + 8 < 400" "apart me a" "j < 427"
  shows "parked a n c (slot me j) = mem c (slot me j)"
  using assms by (simp add: parked_def)

lemma stack_kept_trans: "stack_kept me c d \<Longrightarrow> stack_kept me d e \<Longrightarrow> stack_kept me c e"
  by (simp add: stack_kept_def)

lemma away_keeps_stack: "away me c d \<Longrightarrow> stack_kept me c d"
proof (induction rule: away.induct)
  case (away_refl c)
  then show ?case by (simp add: stack_kept_def)
next
  case (away_slice c d e)
  then show ?case by (blast intro: stack_kept_trans)
next
  case (away_switch c d a n b)
  then have "stack_kept me d (switch_to a b d)"
    by (simp add: stack_kept_def switch_to_parks [OF away_switch.hyps(2-4)] parked_other)
  with away_switch.IH show ?case by (rule stack_kept_trans)
qed

text \<open>What a thread finds when it gets the processor back, by the words of its stack.\<close>

lemma switch_to_resumes:
  assumes "gpr d RSP = slot a (n + 3)" "n + 8 < 400" "a \<noteq> 0" "apart me a" "mem d (pcb_rsp me) = slot me k" "k + 8 < 400"
  shows "\<exists>g f. switch_to a me d = resumed me k
    (d\<lparr>gpr := g, rflags := f, cr3 := mem d (pcb_page_table me) AND NOT 0xFFF, tss_rsp0 := slot me (KSTACKLEN - 1), mem := parked a n d\<rparr>)"
proof -
  let ?d = "set_tss_rsp (slot me (KSTACKLEN - 1)) (exec_instr (MovCR3 (mem d (pcb_page_table me) AND NOT 0xFFF)) d)"
  let ?g = "(gpr d)(R8 := mem d (slot a (n + 6)), R9 := mem d (slot a (n + 7)), RSP := slot a n)"
  have m: "mem ?d = mem d" "gpr ?d = gpr d" by (simp_all add: set_tss_rsp_def)
  have s: "exec_code (save_code a) (exec_code [Pop R8, Pop R8, Pop R8] ?d) = ?d\<lparr>gpr := ?g, mem := parked a n ?d\<rparr>"
    using save_parks [of ?d a n] assms(1,2) by (simp only: m)
  have p: "parked a n ?d = parked a n d" by (simp only: parked_def m)
  have r: "parked a n d (pcb_rsp me) = slot me k" using assms(2,4,5) by (simp add: parked_other)
  have "switch_to a me d = exec_code (restore_code me) (?d\<lparr>gpr := ?g, mem := parked a n ?d\<rparr>)"
    unfolding switch_to_def Let_def exec_code_append using assms(3) s by simp
  also have "\<dots> = resumed me k (?d\<lparr>gpr := ?g, mem := parked a n ?d\<rparr>)"
    by (rule restore_resumed) (use p r in simp)
  finally show ?thesis unfolding p
    by (auto simp: set_tss_rsp_def resumed_def intro!: exI [of _ ?g] exI [of _ "rflags d"])
qed

lemma switch_back:
  assumes "gpr c RSP = slot me (k + 3)" "k + 8 < 400" "me \<noteq> 0"
    and "away me (switch_to me nxt c) d"
    and "gpr d RSP = slot a (n + 3)" "n + 8 < 400" "a \<noteq> 0" "apart me a"
  obtains f where "switch_to a me d = resumed me k f" "cr3 f = mem d (pcb_page_table me) AND NOT 0xFFF" "tss_rsp0 f = slot me 399"
    and "\<And>j. j < 400 \<Longrightarrow> mem f (slot me j) = parked me k c (slot me j)"
proof -
  have kept: "j < 400 \<or> j = 403 \<Longrightarrow> mem d (slot me j) = parked me k c (slot me j)" for j
    using away_keeps_stack [OF assms(4)] by (auto simp: stack_kept_def switch_to_parks [OF assms(1-3)])
  have rsp: "mem d (pcb_rsp me) = slot me k" using kept [of 403] by (simp add: parked_def)
  show ?thesis
    using switch_to_resumes [OF assms(5-8) rsp assms(2)] kept assms(6,8)
    by (auto simp: parked_other KSTACKLEN_def intro!: that)
qed

lemma if_bit_set [simp]: "(x OR IF_BIT) AND IF_BIT = IF_BIT"
  by (rule bit_word_eqI) (auto simp: bit_simps)

text \<open>C8: A thread that gives the processor away gets it back as it left it, whatever other threads run in between and
  however often they switch, as long as they leave its kernel stack alone: it goes on at the return address of
  \<^verbatim>\<open>schedule\<close> with its stack, with \<^verbatim>\<open>rax\<close> and \<^verbatim>\<open>r12\<close> from the switch and with the six registers that \<^verbatim>\<open>schedule\<close> had
  put into the control block, on its own page table, and with interrupts enabled.\<close>

theorem switch_back_resumes:
  assumes "gpr c RSP = slot me (k + 3)" "k + 8 < 400" "me \<noteq> 0"
    and "away me (switch_to me nxt c) d"
    and "gpr d RSP = slot a (n + 3)" "n + 8 < 400" "a \<noteq> 0" "apart me a"
    and "e = switch_to a me d"
  shows "rip e = mem c (slot me (k + 8)) \<and> gpr e RSP = slot me (k + 9)
    \<and> (\<forall>j. k + 8 \<le> j \<and> j < 400 \<longrightarrow> mem e (slot me j) = mem c (slot me j))
    \<and> gpr e RAX = gpr c RAX \<and> gpr e R12 = gpr c R12
    \<and> gpr e RBP = mem c (pcb_rbp me) \<and> gpr e RBX = mem c (pcb_rbx me) \<and> gpr e RCX = mem c (pcb_rcx me)
    \<and> gpr e RDX = mem c (pcb_rdx me) \<and> gpr e RDI = mem c (pcb_rdi me) \<and> gpr e RSI = mem c (pcb_rsi me)
    \<and> cr3 e = mem d (pcb_page_table me) AND NOT 0xFFF \<and> tss_rsp0 e = slot me 399 \<and> rflags e AND IF_BIT = IF_BIT"
proof -
  obtain f where f: "switch_to a me d = resumed me k f" "cr3 f = mem d (pcb_page_table me) AND NOT 0xFFF" "tss_rsp0 f = slot me 399"
      "\<And>j. j < 400 \<Longrightarrow> mem f (slot me j) = parked me k c (slot me j)"
    using switch_back [OF assms(1-8)] by blast
  show ?thesis
    unfolding assms(9) f(1) resumed_def using assms(2) by (simp add: f(2-4)) (simp add: parked_def)
qed

section \<open>Interrupts are transparent to the program, almost\<close>

text \<open>Compiled code of the kernel on the stack of \<open>th\<close>, called with the stack pointer at slot \<open>k\<close>: it returns with the same stack
  pointer and the registers that a function keeps, and does not touch the stack above.\<close>

definition c_code :: "u64 \<Rightarrow> nat \<Rightarrow> cpu \<Rightarrow> cpu \<Rightarrow> bool" where
  "c_code th k c d \<longleftrightarrow> gpr d RSP = gpr c RSP \<and> gpr d RBX = gpr c RBX \<and> gpr d RBP = gpr c RBP \<and> gpr d R12 = gpr c R12
     \<and> (\<forall>j. k \<le> j \<and> j < 400 \<longrightarrow> mem d (slot th j) = mem c (slot th j))"

text \<open>The program goes on where it was, with the registers that the gates bring back.\<close>

definition same_program :: "cpu \<Rightarrow> cpu \<Rightarrow> bool" where
  "same_program c f \<longleftrightarrow> rip f = rip c \<and> seg f CS = seg c CS \<and> seg f SS = seg c SS \<and> rflags f = rflags c
     \<and> (\<forall>r \<in> {RAX, RBX, RCX, RDX, RSI, RDI, RBP, RSP, R8, R12}. gpr f r = gpr c r)"

definition in_program :: "u64 \<Rightarrow> cpu \<Rightarrow> bool" where
  "in_program th c \<longleftrightarrow> user_mode c \<and> tss_rsp0 c = slot th 399 \<and> th AND 15 = 0"

lemma and_split: "x = (x AND y) + (x AND NOT y)" for x y :: u64
proof -
  have d: "(x AND y) AND (x AND NOT y) = 0" by (rule bit_word_eqI) (auto simp: bit_simps)
  have "(x AND y) OR (x AND NOT y) = x" by (rule bit_word_eqI) (auto simp: bit_simps)
  then show ?thesis using disjunctive_add_eq_or [OF d] by simp
qed

lemma take_bit_add_u64: "take_bit n (take_bit n a + take_bit n b) = take_bit n (a + b :: u64)"
  by transfer (simp add: take_bit_add min_def)

lemma align_rsp0:
  assumes "th AND 15 = 0"
  shows "slot th 399 AND - 16 = slot th 398"
proof -
  have f: "x AND 15 = take_bit 4 x" for x :: u64 by (simp add: take_bit_eq_mask mask_eq_exp_minus_1)
  have "slot th 399 AND 15 = take_bit 4 (th + 3192)" by (simp only: f) (simp add: slot_def)
  also have "\<dots> = take_bit 4 (take_bit 4 th + take_bit 4 3192)" by (rule take_bit_add_u64 [symmetric])
  also have "\<dots> = take_bit 4 (0 + take_bit 4 3192)" using assms by (simp only: f)
  also have "\<dots> = (3192 AND 15) AND 15" by (simp only: f add_0)
  also have "\<dots> = 8" by simp
  finally have t: "slot th 399 AND 15 = 8" .
  have "slot th 399 = (slot th 399 AND 15) + (slot th 399 AND NOT 15)"
    by (rule and_split)
  then show ?thesis unfolding t by (simp add: slot_def algebra_simps)
qed

definition gate_frame :: "u64 \<Rightarrow> u64 option \<Rightarrow> cpu \<Rightarrow> cpu" where
  "gate_frame th err c =
     (let m = (mem c)(slot th 397 := seg c SS, slot th 396 := gpr c RSP, slot th 395 := rflags c, slot th 394 := seg c CS,
                      slot th 393 := rip c) in
      case err of None \<Rightarrow> c\<lparr>gpr := (gpr c)(RSP := slot th 393), mem := m\<rparr>
      | Some e \<Rightarrow> c\<lparr>gpr := (gpr c)(RSP := slot th 392), mem := m(slot th 392 := e)\<rparr>)"

lemma interrupt_frame:
  assumes "in_program th c"
  shows "interrupt handler err c =
    (gate_frame th err c)\<lparr>rip := handler, rflags := rflags c AND NOT IF_BIT, seg := (seg c)(CS := 8)\<rparr>"
  using assms
  by (cases err) (simp_all add: in_program_def interrupt_def gate_frame_def align_rsp0 machine slot_simps)

definition irq_entry :: "u64 \<Rightarrow> u64 \<Rightarrow> cpu \<Rightarrow> cpu" where
  "irq_entry handler w c = irq_enter (push_word w (interrupt handler None c))"

definition fault_entry :: "u64 \<Rightarrow> u64 \<Rightarrow> u64 \<Rightarrow> u64 list \<Rightarrow> cpu \<Rightarrow> cpu" where
  "fault_entry th handler err ws c = fault_enter th (push_words ws (interrupt handler (Some err) c))"

lemma irq_entry_state:
  assumes "in_program th c"
  shows "gpr (irq_entry handler w c) = (gpr c)(RSP := slot th 384)"
    and "mem (irq_entry handler w c) = (mem c)(slot th 397 := seg c SS, slot th 396 := gpr c RSP, slot th 395 := rflags c,
      slot th 394 := seg c CS, slot th 393 := rip c, slot th 392 := w, slot th 391 := gpr c RAX, slot th 390 := gpr c RCX,
      slot th 389 := gpr c RDX, slot th 388 := gpr c RSI, slot th 387 := gpr c RDI, slot th 386 := gpr c R8,
      slot th 385 := gpr c R9, slot th 384 := gpr c R12)"
  using assms
  by (simp_all add: irq_entry_def interrupt_frame irq_enter_def gate_frame_def machine slot_simps)

text \<open>The return of the gate, whatever the handler has done in between.\<close>

lemma irq_gate_returns:
  assumes "in_program th c" "d = irq_entry handler w c" "gpr e RSP = slot th 384"
    and "gpr e RBX = gpr c RBX" "gpr e RBP = gpr c RBP"
    and "\<forall>j. 384 \<le> j \<and> j < 400 \<longrightarrow> mem e (slot th j) = mem d (slot th j)"
  shows "same_program c (irq_leave e)" "gpr (irq_leave e) R9 = gpr c RAX" "gpr (irq_leave e) R11 = w"
    "\<forall>r \<in> {R10, R13, R14, R15}. gpr (irq_leave e) r = gpr e r"
proof -
  have "384 \<le> j \<Longrightarrow> j < 400 \<Longrightarrow> mem e (slot th j) = mem d (slot th j)" for j using assms(6) by simp
  note m = this [unfolded assms(2) irq_entry_state(2) [OF assms(1)]]
  show "same_program c (irq_leave e)" "gpr (irq_leave e) R9 = gpr c RAX" "gpr (irq_leave e) R11 = w"
    "\<forall>r \<in> {R10, R13, R14, R15}. gpr (irq_leave e) r = gpr e r"
    using assms(3-5) by (simp_all add: same_program_def irq_leave_def machine slot_simps m)
qed


lemma schedule_saves_state:
  "gpr (schedule_saves me c) = (gpr c)(R8 := gpr c RDI)"
  "mem (schedule_saves me c) = (mem c)(pcb_rdi me := gpr c RDI, pcb_rbx me := gpr c RBX, pcb_rcx me := gpr c RCX,
     pcb_rbp me := gpr c RBP, pcb_rsi me := gpr c RSI, pcb_r12 me := gpr c R12, pcb_rdx me := gpr c RDX)"
  by (simp_all add: schedule_saves_def machine)

text \<open>The program of \<open>c\<close>, interrupted by the timer, behind the return from the kernel's registers \<open>e\<close>.\<close>

definition timer_resumed :: "cpu \<Rightarrow> u64 \<Rightarrow> cpu \<Rightarrow> bool" where
  "timer_resumed c w e \<longleftrightarrow> same_program c (irq_leave e) \<and> gpr (irq_leave e) R9 = gpr c RAX \<and> gpr (irq_leave e) R11 = w
     \<and> (\<forall>r \<in> {R10, R13, R14, R15}. gpr (irq_leave e) r = gpr e r)"

lemma irq_switched_resumes:
  assumes "in_program th c" "th \<noteq> 0"
    and "c_code th 384 (irq_entry handler w c) d"
    and "call = schedule_saves th (push_word ret d)"
    and "gpr d' RSP = slot th 378"
    and "\<forall>j. 383 \<le> j \<and> j < 400 \<or> 412 \<le> j \<and> j < 420 \<longrightarrow> mem d' (slot th j) = mem call (slot th j)"
    and "away th (switch_to th nxt d') o'"
    and "gpr o' RSP = slot a (n + 3)" "n + 8 < 400" "a \<noteq> 0" "apart th a"
    and "c_code th 384 (switch_to a th o') e"
  shows "rip (switch_to a th o') = ret \<and> timer_resumed c w e"
proof -
  let ?i = "irq_entry handler w c" and ?b = "switch_to a th o'"
  have d: "gpr d RSP = slot th 384" "gpr d RBX = gpr c RBX" "gpr d RBP = gpr c RBP"
    "\<And>j. 384 \<le> j \<Longrightarrow> j < 400 \<Longrightarrow> mem d (slot th j) = mem ?i (slot th j)"
    using assms(3) by (simp_all add: c_code_def irq_entry_state(1) [OF assms(1)])
  have call: "mem call (slot th 383) = ret" "mem call (pcb_rbx th) = gpr c RBX" "mem call (pcb_rbp th) = gpr c RBP"
    "\<And>j. 384 \<le> j \<Longrightarrow> j < 400 \<Longrightarrow> mem call (slot th j) = mem ?i (slot th j)"
    using d unfolding assms(4) schedule_saves_state by (simp_all add: machine slot_simps)
  have d': "383 \<le> j \<Longrightarrow> j < 400 \<Longrightarrow> mem d' (slot th j) = mem call (slot th j)"
    "412 \<le> j \<Longrightarrow> j < 420 \<Longrightarrow> mem d' (slot th j) = mem call (slot th j)" for j
    using assms(6) by simp_all
  have again: "rip ?b = mem d' (slot th 383) \<and> gpr ?b RSP = slot th 384
    \<and> (\<forall>j. 383 \<le> j \<and> j < 400 \<longrightarrow> mem ?b (slot th j) = mem d' (slot th j))
    \<and> gpr ?b RBP = mem d' (pcb_rbp th) \<and> gpr ?b RBX = mem d' (pcb_rbx th)"
  proof -
    obtain f where "?b = resumed th 375 f" "\<And>j. j < 400 \<Longrightarrow> mem f (slot th j) = parked th 375 d' (slot th j)"
      using switch_back [of d' th 375, OF _ _ assms(2,7-11)] assms(5) by auto
    then show ?thesis unfolding resumed_def by simp (simp add: parked_def)
  qed
  have e: "gpr e RSP = slot th 384" "gpr e RBX = gpr c RBX" "gpr e RBP = gpr c RBP"
    "\<forall>j. 384 \<le> j \<and> j < 400 \<longrightarrow> mem e (slot th j) = mem ?i (slot th j)"
    using assms(12) again call d' by (simp_all add: c_code_def)
  show ?thesis
    unfolding timer_resumed_def using irq_gate_returns [OF assms(1) refl e] again call(1) d'(1) [of 383] by simp
qed

text \<open>C9: A program that the timer interrupts goes on where it was.  When the tick does not switch, the C code of the handler \<open>d\<close> leaves
  from the kernel stack as the entry has made it; when the time slice is used up, the handler calls \<^verbatim>\<open>schedule\<close>, that
  switches to another thread with a control block of its own, other threads run, one of them switches
  back, and the handler goes on behind its call.  In both cases the program has the same instruction, stack, flags and
  segments, and the same registers \<^verbatim>\<open>rax\<close>, \<^verbatim>\<open>rbx\<close>,
  \<^verbatim>\<open>rcx\<close>, \<^verbatim>\<open>rdx\<close>, \<^verbatim>\<open>rsi\<close>, \<^verbatim>\<open>rdi\<close>, \<^verbatim>\<open>rbp\<close>, \<^verbatim>\<open>r8\<close> and \<^verbatim>\<open>r12\<close>.  But \<^verbatim>\<open>r9\<close> has the value of \<^verbatim>\<open>rax\<close>, \<^verbatim>\<open>r11\<close> is a word of the kernel's
  frame, and \<^verbatim>\<open>r10\<close>, \<^verbatim>\<open>r13\<close>, \<^verbatim>\<open>r14\<close> and \<^verbatim>\<open>r15\<close> are what the kernel and the other threads have left in them.\<close>

theorem timer_interrupt_resumes_program:
  assumes "in_program th c" "th \<noteq> 0" "c_code th 384 (irq_entry handler w c) d"
  shows "timer_resumed c w d \<and>
    (\<forall>ret call d' nxt o' a n e. call = schedule_saves th (push_word ret d) \<longrightarrow> gpr d' RSP = slot th 378 \<longrightarrow>
      (\<forall>j. 383 \<le> j \<and> j < 400 \<or> 412 \<le> j \<and> j < 420 \<longrightarrow> mem d' (slot th j) = mem call (slot th j)) \<longrightarrow>
      away th (switch_to th nxt d') o' \<longrightarrow> gpr o' RSP = slot a (n + 3) \<longrightarrow> n + 8 < 400 \<longrightarrow> a \<noteq> 0 \<longrightarrow> apart th a \<longrightarrow>
      c_code th 384 (switch_to a th o') e \<longrightarrow>
      rip (switch_to a th o') = ret \<and> timer_resumed c w e)"
proof -
  have "gpr d RSP = slot th 384" "gpr d RBX = gpr c RBX" "gpr d RBP = gpr c RBP"
    "\<forall>j. 384 \<le> j \<and> j < 400 \<longrightarrow> mem d (slot th j) = mem (irq_entry handler w c) (slot th j)"
    using assms(3) by (simp_all add: c_code_def irq_entry_state(1) [OF assms(1)])
  from irq_gate_returns [OF assms(1) refl this] have "timer_resumed c w d" unfolding timer_resumed_def by simp
  then show ?thesis using irq_switched_resumes [OF assms] by blast
qed

section \<open>The page fault\<close>

lemma fault_entry_state:
  assumes "in_program th c"
  shows "gpr (fault_entry th handler err [w1, w2, w3] c) = (gpr c)(RSP := slot th 379)"
    and "mem (fault_entry th handler err [w1, w2, w3] c) = (mem c)(slot th 397 := seg c SS, slot th 396 := gpr c RSP,
      slot th 395 := rflags c, slot th 394 := seg c CS, slot th 393 := rip c, slot th 392 := err, slot th 391 := w1,
      slot th 390 := w2, slot th 389 := w3, slot th 388 := gpr c RDI, slot th 387 := gpr c RAX, slot th 386 := gpr c RBX,
      slot th 385 := gpr c RCX, slot th 384 := gpr c RDX, slot th 383 := gpr c RBP, slot th 382 := gpr c RSI,
      slot th 381 := gpr c R8, slot th 380 := gpr c R9, slot th 379 := gpr c R12, pcb_rsp th := slot th 379)"
  using assms
  by (simp_all add: fault_entry_def interrupt_frame fault_enter_def push_words_def gate_frame_def machine slot_simps)

text \<open>After a page fault the program repeats its instruction with all registers that the handler saves, except \<^verbatim>\<open>r9\<close>: the
  acknowledgement keeps \<^verbatim>\<open>rax\<close> in it after it has been restored.\<close>

theorem page_fault_resumes_program:
  assumes "in_program th c" "d = fault_entry th handler err [w1, w2, w3] c" "gpr e RSP = slot th 379"
    and "\<forall>j. 379 \<le> j \<and> j < 400 \<longrightarrow> mem e (slot th j) = mem d (slot th j)"
  shows "same_program c (fault_leave e) \<and> gpr (fault_leave e) R9 = gpr c RAX
    \<and> (\<forall>r \<in> {R10, R11, R13, R14, R15}. gpr (fault_leave e) r = gpr e r)"
proof -
  have "379 \<le> j \<Longrightarrow> j < 400 \<Longrightarrow> mem e (slot th j) = mem d (slot th j)" for j using assms(4) by simp
  note m = this [unfolded assms(2) fault_entry_state(2) [OF assms(1)]]
  show ?thesis using assms(3) by (simp add: same_program_def fault_leave_def machine slot_simps m)
qed


section \<open>The first run of a thread\<close>

text \<open>The words of a control block that the switch reads.\<close>

definition pcb_in_memory :: "u64 \<Rightarrow> pcb \<Rightarrow> cpu \<Rightarrow> bool" where
  "pcb_in_memory th p c \<longleftrightarrow> (\<forall>k < 400. mem c (slot th k) = p_kstack p ! k) \<and> mem c (pcb_rsp th) = p_rsp p
     \<and> mem c (pcb_ursp th) = p_ursp p \<and> mem c (pcb_gotoaddr th) = p_gotoaddr p \<and> mem c (pcb_page_table th) = p_page_table p"

lemma first_switch:
  assumes "pcb_in_memory th p d" "p_rsp p = slot th k" "k + 8 < 400"
    and "gpr d RSP = slot a (n + 3)" "n + 8 < 400" "a \<noteq> 0" "apart th a"
  obtains f where "switch_to a th d = resumed th k f" "cr3 f = p_page_table p AND NOT 0xFFF" "tss_rsp0 f = slot th 399"
    and "\<And>j. j < 400 \<Longrightarrow> mem f (slot th j) = p_kstack p ! j"
proof -
  have r: "mem d (pcb_rsp th) = slot th k" using assms(1,2) by (simp add: pcb_in_memory_def)
  show ?thesis
    using switch_to_resumes [OF assms(4-7) r assms(3)] assms(1,5,7)
    by (auto simp: parked_other KSTACKLEN_def pcb_in_memory_def intro!: that)
qed

text \<open>The first switch to a thread that \<^verbatim>\<open>create_thread\<close> has made enters its function, with all registers that are loaded
  zero, on an empty stack whose return address is the function for completed threads.\<close>

theorem new_thread_enters_function:
  assumes "create_thread th retfun pml4 faddr s = Some s'" "length (p_kstack (pcbs s th)) = KSTACKLEN"
    and "pcb_in_memory th (pcbs s' th) d"
    and "gpr d RSP = slot a (n + 3)" "n + 8 < 400" "a \<noteq> 0" "apart th a" "e = switch_to a th d"
  shows "rip e = faddr \<and> gpr e RSP = slot th 399 \<and> mem e (slot th 399) = retfun
    \<and> (\<forall>r \<in> {RAX, RBX, RCX, RDX, RSI, RDI, RBP, R12}. gpr e r = 0) \<and> cr3 e = pml4 AND NOT 0xFFF"
proof -
  have p: "p_kstack (pcbs s' th) = replicate 398 0 @ [faddr, retfun]" "p_rsp (pcbs s' th) = slot th 390"
    "p_page_table (pcbs s' th) = pml4"
    using assms(1) unfolding create_thread_eq [OF assms(2)]
    by (auto simp: Let_def bind_eq_Some_conv fresh_thread_def KSTACKLEN_def slot_def)
  have z: "(replicate 398 0 @ [faddr, retfun]) ! j = (if j < 398 then 0 else if j = 398 then faddr else retfun)" if "j < 400" for j
    using that by (simp add: nth_append nth_Cons')
  obtain f where f: "e = resumed th 390 f" "cr3 f = pml4 AND NOT 0xFFF"
      "\<And>j. j < 400 \<Longrightarrow> mem f (slot th j) = (replicate 398 0 @ [faddr, retfun]) ! j"
    using first_switch [OF assms(3) p(2) _ assms(4-7)] p assms(8) by auto
  show ?thesis unfolding f(1) resumed_def by (simp add: f(2,3) z)
qed

section \<open>The first run of a forked process\<close>

lemma stack_slot_index:
  assumes "k < 400"
  shows "stack_slot th (slot th k) j = of_nat k - j"
proof -
  have d: "th + 8 * of_nat 399 - slot th k = 8 * of_nat (399 - k)"
    using assms by (simp add: slot_def of_nat_diff)
  have q: "(8 * of_nat m :: u64) div 8 = of_nat m" if "m < 400" for m
    using that unat_add_mult64 [of 0 8 m] by (simp add: word_unat_eq_iff unat_div unat_of_nat64)
  have "KSTACKLEN - 1 = 399" by (simp add: KSTACKLEN_def)
  then show ?thesis
    unfolding stack_slot_def using q [of "399 - k"] assms by (simp only: d) (simp add: of_nat_diff)
qed

lemma for_7: "for_n 0 7 body s = do { s \<leftarrow> body 0 s; s \<leftarrow> body 1 s; s \<leftarrow> body 2 s; s \<leftarrow> body 3 s;
    s \<leftarrow> body 4 s; s \<leftarrow> body 5 s; body 6 s }"
proof -
  have "for_n i (Suc n) body = (\<lambda>s. body i s \<bind> for_n (Suc i) n body)" "for_n i 0 body = Some" for i n
    by (simp_all add: fun_eq_iff)
  then show ?thesis by (simp add: eval_nat_numeral One_nat_def)
qed

lemma fork_stack_words:
  assumes "8 \<le> k" "k < 400" "length kst = 400"
  shows "fork_stack (\<lambda>j. of_nat k - j) r12 kst =
    Some (kst[k - 1 := 0, k - 2 := 0, k - 3 := 0, k - 4 := 0, k - 5 := 0, k - 6 := 0, k - 7 := 0, k - 8 := r12])"
proof -
  have u: "unat (of_nat k - of_nat j :: u64) = k - j" if "j \<le> 8" for j
  proof -
    have "(of_nat k - of_nat j :: u64) = of_nat (k - j)" using that assms(1) by (simp add: of_nat_diff)
    then show ?thesis using assms(2) by (simp add: unat_of_nat64)
  qed
  note u' = u [of 1, simplified] u [of 2, simplified] u [of 3, simplified] u [of 4, simplified] u [of 5, simplified]
    u [of 6, simplified] u [of 7, simplified] u [of 8, simplified]
  show ?thesis
    unfolding fork_stack_def put_stack_def for_7 using assms by (simp add: u')
qed

definition syscall_entry :: "u64 \<Rightarrow> u64 \<Rightarrow> cpu \<Rightarrow> cpu" where
  "syscall_entry handler w c = syscall_enter (push_word w (interrupt handler None c))"

lemma syscall_entry_state:
  assumes "in_program th c"
  shows "gpr (syscall_entry handler w c) = (gpr c)(RSP := slot th 384)"
    and "mem (syscall_entry handler w c) = (mem c)(slot th 397 := seg c SS, slot th 396 := gpr c RSP, slot th 395 := rflags c,
      slot th 394 := seg c CS, slot th 393 := rip c, slot th 392 := w, slot th 391 := gpr c RAX, slot th 390 := gpr c RBX,
      slot th 389 := gpr c RCX, slot th 388 := gpr c RDX, slot th 387 := gpr c RDI, slot th 386 := gpr c RSI,
      slot th 385 := gpr c RBP, slot th 384 := gpr c R12)"
  using assms
  by (simp_all add: syscall_entry_def interrupt_frame syscall_enter_def gate_frame_def machine slot_simps)

text \<open>The end of a system call: \<^verbatim>\<open>syscall_handler\<close> puts the result into the saved \<^verbatim>\<open>rax\<close>, and the gate brings the registers back.\<close>

lemma handler_done_state:
  assumes "gpr e RSP = slot th 375"
  shows "gpr (handler_done e) RSP = slot th 384" "rip (handler_done e) = mem e (slot th 383)"
    "mem (handler_done e) = (mem e)(slot th 391 := gpr e RAX)"
  using assms slot_add [of th 375 16] by (simp_all add: handler_done_def machine slot_simps)

lemma syscall_returns:
  assumes "in_program th c" "d = syscall_entry handler w c" "gpr e RSP = slot th' 375"
    and "\<And>j. 384 \<le> j \<Longrightarrow> j < 400 \<Longrightarrow> mem e (slot th' j) = mem d (slot th j)"
    and "c_code th' 384 (handler_done e) g"
  shows "same_program (c\<lparr>gpr := (gpr c)(RAX := gpr e RAX, R8 := gpr g R8)\<rparr>) (syscall_leave g)"
proof -
  note m = assms(4) [unfolded assms(2) syscall_entry_state(2) [OF assms(1)]]
  have g: "gpr g RSP = slot th' 384"
    "\<And>j. 384 \<le> j \<Longrightarrow> j < 400 \<Longrightarrow> mem g (slot th' j) = ((mem e)(slot th' 391 := gpr e RAX)) (slot th' j)"
    using assms(5) by (simp_all add: c_code_def handler_done_state [OF assms(3)])
  have f: "mem g (slot th' 397) = seg c SS" "mem g (slot th' 396) = gpr c RSP" "mem g (slot th' 395) = rflags c"
    "mem g (slot th' 394) = seg c CS" "mem g (slot th' 393) = rip c" "mem g (slot th' 391) = gpr e RAX"
    "mem g (slot th' 390) = gpr c RBX" "mem g (slot th' 389) = gpr c RCX" "mem g (slot th' 388) = gpr c RDX"
    "mem g (slot th' 387) = gpr c RDI" "mem g (slot th' 386) = gpr c RSI" "mem g (slot th' 385) = gpr c RBP"
    "mem g (slot th' 384) = gpr c R12"
    by (simp_all add: g(2) m)
  show ?thesis by (simp add: same_program_def syscall_leave_def machine slot_simps g(1) f)
qed

text \<open>C10: \<^verbatim>\<open>fork\<close> returns a second time, in the child, with 0: the stack that \<^verbatim>\<open>sys_fork\<close> prepares for the child is a copy of the
  parent's with eight words below the return address of the handler, so the first switch to the child returns into
  \<^verbatim>\<open>syscall_handler\<close> as if the handler had returned 0, and the gate leads back to the parent's program: same instruction, stack,
  flags and saved registers, on the page table of the child.\<close>

theorem fork_child_returns_zero:
  assumes "in_program me c" "d = syscall_entry handler w c"
    and "length kst = 400" "\<forall>j. 384 \<le> j \<and> j < 400 \<longrightarrow> kst ! j = mem d (slot me j)"
    and "rsp = slot me 371" "fork_stack (stack_slot me (rsp + 24)) r12 kst = Some st"
    and "p_kstack p = st" "p_rsp p = child + 8 * stack_slot me (rsp + 24) 8" "pcb_in_memory child p o'"
    and "gpr o' RSP = slot a (n + 3)" "n + 8 < 400" "a \<noteq> 0" "apart child a" "e = switch_to a child o'"
    and "c_code child 384 (handler_done e) g"
  shows "rip e = kst ! 374 \<and> gpr e RAX = 0 \<and> rip (handler_done e) = kst ! 383 \<and> cr3 e = p_page_table p AND NOT 0xFFF
    \<and> same_program (c\<lparr>gpr := (gpr c)(RAX := 0, R8 := gpr g R8)\<rparr>) (syscall_leave g)"
proof -
  have "rsp + 24 = slot me 374" using slot_add [of me 371 3] assms(5) by simp
  then have sl: "stack_slot me (rsp + 24) = (\<lambda>j. of_nat 374 - j)" by (simp add: stack_slot_index fun_eq_iff)
  have st: "st = kst[373 := 0, 372 := 0, 371 := 0, 370 := 0, 369 := 0, 368 := 0, 367 := 0, 366 := r12]"
    using fork_stack_words [of 374 kst r12] assms(3,6) unfolding sl by simp
  have rsp: "p_rsp p = slot child 366" unfolding assms(8) sl by (simp add: slot_def)
  obtain f where f: "e = resumed child 366 f" "cr3 f = p_page_table p AND NOT 0xFFF"
      "\<And>j. j < 400 \<Longrightarrow> mem f (slot child j) = st ! j"
    using first_switch [OF assms(9) rsp _ assms(10-13)] assms(7,14) by auto
  have e: "rip e = kst ! 374" "gpr e RAX = 0" "gpr e RSP = slot child 375" "cr3 e = p_page_table p AND NOT 0xFFF"
    "\<And>j. 374 \<le> j \<Longrightarrow> j < 400 \<Longrightarrow> mem e (slot child j) = kst ! j"
    unfolding f(1) resumed_def using assms(3) by (simp_all add: f(2,3) st)
  have k: "\<And>j. 384 \<le> j \<Longrightarrow> j < 400 \<Longrightarrow> mem e (slot child j) = mem d (slot me j)"
    using e(5) assms(4) by simp
  show ?thesis
    using e syscall_returns [OF assms(1,2) e(3) k assms(15)] handler_done_state(2) [OF e(3)] by simp
qed

section \<open>Entering a program\<close>

text \<open>The five words that \<^verbatim>\<open>switch_to_ring_3\<close> uses below the stack pointer of the kernel.\<close>

definition below :: "u64 \<Rightarrow> u64 set" where
  "below sp = {sp - 8, sp - 16, sp - 24, sp - 32, sp - 40}"

lemma clear_then_set: "(x AND NOT y) OR y = x OR (y :: u64)"
  by (rule bit_word_eqI) (auto simp: bit_simps)

lemma ring_3_state:
  assumes "pcb_ursp th \<notin> below (gpr c RSP)" "pcb_gotoaddr th \<notin> below (gpr c RSP)"
  shows "rip (switch_to_ring_3 th c) = mem c (pcb_gotoaddr th)" "gpr (switch_to_ring_3 th c) RSP = mem c (pcb_ursp th)"
    "seg (switch_to_ring_3 th c) = (\<lambda>s. if s = CS then 0x2b else 0x23)"
    "rflags (switch_to_ring_3 th c) = rflags c OR IF_BIT" "tss_rsp0 (switch_to_ring_3 th c) = slot th 399"
    "cr3 (switch_to_ring_3 th c) = mem c (pcb_page_table th) AND NOT 0xFFF"
    "x \<notin> below (gpr c RSP) \<Longrightarrow> mem (switch_to_ring_3 th c) x = mem c x"
  using assms clear_then_set [of "rflags c" "0x200", simplified] sreg.exhaust
  by (simp_all add: switch_to_ring_3_def set_tss_rsp_def machine below_def IF_BIT_def fun_eq_iff) metis

text \<open>What the first instructions of a program do with the three words on its stack; \<open>fp\<close> is the word that the compiler's
  prologue pushes.\<close>

lemma crt_start_state:
  assumes "mem c (gpr c RSP) = argc" "mem c (gpr c RSP + 8) = argv" "mem c (gpr c RSP + 16) = envp"
  shows "rip (crt_start main after (push_word fp c)) = main" "gpr (crt_start main after (push_word fp c)) RDI = argc"
    "gpr (crt_start main after (push_word fp c)) RSI = argv" "gpr (crt_start main after (push_word fp c)) RDX = envp"
    "x \<notin> {gpr c RSP - 8, gpr c RSP + 8} \<Longrightarrow> mem (crt_start main after (push_word fp c)) x = mem c x"
  using assms by (simp_all add: crt_start_def machine add.commute [of 8] add.commute [of 16])


section \<open>Witnesses\<close>

text \<open>Two control blocks, a program in user mode on the first, and the state in which the second gives the processor back.\<close>

definition demo_cpu :: cpu where
  "demo_cpu = \<lparr>gpr = (\<lambda>r. if r = RSP then 0x7000 else if r = RAX then 5 else if r = R9 then 9 else 1),
     seg = (\<lambda>s. if s = CS then 0x2b else 0x23), rip = 0x400000, rflags = 0x202, cr2 = 0, cr3 = 0x5000,
     tss_rsp0 = slot 0x10000 399, outs = [], mem = (\<lambda>_. 0)\<rparr>"

lemma apart_far:
  assumes "unat a + 8 * PCB_WORDS \<le> unat b" "unat b + 8 * PCB_WORDS < 2 ^ 64"
  shows "apart a b"
proof -
  have u: "unat (slot x k) = unat x + 8 * k" if "k < PCB_WORDS" "unat x + 8 * PCB_WORDS < 2 ^ 64" for x k
    using unat_add_mult64 [of x 8 k] that by (simp add: slot_def)
  have "slot a i \<noteq> slot b j" if "i < PCB_WORDS" "j < PCB_WORDS" for i j
  proof -
    have "unat (slot a i) < unat a + 8 * PCB_WORDS" "unat b \<le> unat (slot b j)"
      using u [OF that(1), of a] u [OF that(2), of b] assms that by simp_all
    then show ?thesis using assms(1) by auto
  qed
  then show ?thesis by (simp add: apart_def)
qed

lemma demo_apart: "apart 0x10000 0x20000"
  by (rule apart_far) (simp_all add: PCB_WORDS_def)

lemma demo_in_program: "in_program 0x10000 demo_cpu"
  by (simp add: in_program_def user_mode_def demo_cpu_def)

definition demo_kernel_cpu :: cpu where
  "demo_kernel_cpu = demo_cpu\<lparr>gpr := (gpr demo_cpu)(RSP := slot 0x10000 378)\<rparr>"

text \<open>The second thread is about to switch.\<close>

definition demo_turn :: "cpu \<Rightarrow> cpu" where
  "demo_turn c = c\<lparr>gpr := (gpr c)(RSP := slot 0x20000 303)\<rparr>"

lemma away_turn: "away me c (demo_turn c)"
  by (rule away_slice [OF away_refl]) (simp add: stack_kept_def demo_turn_def)

lemma demo_turn_rsp: "gpr (demo_turn c) RSP = slot 0x20000 (300 + 3)"
  by (simp add: demo_turn_def)

theorem switch_back_resumes_witness:
  "gpr (switch_to 0x20000 0x10000 (demo_turn (switch_to 0x10000 0x20000 demo_kernel_cpu))) RAX = 5
   \<and> gpr (switch_to 0x20000 0x10000 (demo_turn (switch_to 0x10000 0x20000 demo_kernel_cpu))) RSP = slot 0x10000 384"
  using switch_back_resumes [of demo_kernel_cpu "0x10000" 375, OF _ _ _ away_turn demo_turn_rsp _ _ demo_apart refl]
  by (simp add: demo_kernel_cpu_def demo_cpu_def)


lemma c_code_refl: "c_code th k c c"
  by (simp add: c_code_def)

text \<open>The program above, interrupted at the end of its slice: \<^verbatim>\<open>schedule\<close>, the other thread, and back.\<close>

definition demo_call :: cpu where
  "demo_call = schedule_saves 0x10000 (push_word 0x1234 (irq_entry 0x1000 7 demo_cpu))"

definition demo_back :: cpu where
  "demo_back = switch_to 0x20000 0x10000
     (demo_turn (switch_to 0x10000 0x20000 (demo_call\<lparr>gpr := (gpr demo_call)(RSP := slot 0x10000 378)\<rparr>)))"

theorem timer_interrupt_resumes_program_witness:
  "gpr demo_cpu R9 = 9 \<and> same_program demo_cpu (irq_leave (irq_entry 0x1000 7 demo_cpu)) \<and> gpr (irq_leave (irq_entry 0x1000 7 demo_cpu)) R9 = 5
    \<and> same_program demo_cpu (irq_leave demo_back) \<and> gpr (irq_leave demo_back) R9 = 5"
proof -
  let ?d = "demo_call\<lparr>gpr := (gpr demo_call)(RSP := slot 0x10000 378)\<rparr>"
  have "(0x10000 :: u64) \<noteq> 0" by simp
  note t = timer_interrupt_resumes_program [where handler = "0x1000" and w = "7", OF demo_in_program this c_code_refl]
  have "rip demo_back = 0x1234 \<and> timer_resumed demo_cpu 7 demo_back"
    unfolding demo_back_def
    by (rule t [THEN conjunct2, rule_format, OF demo_call_def _ _ away_turn demo_turn_rsp _ _ demo_apart c_code_refl])
      (simp_all add: machine)
  with conjunct1 [OF t] show ?thesis by (simp add: timer_resumed_def demo_cpu_def)
qed

definition demo_fault :: cpu where
  "demo_fault = fault_entry 0x10000 0x2000 4 [0, 0, 0] demo_cpu"

theorem page_fault_resumes_program_witness:
  "same_program demo_cpu (fault_leave demo_fault) \<and> gpr demo_cpu R9 = 9 \<and> gpr (fault_leave demo_fault) R9 = 5"
proof -
  have "gpr demo_fault RSP = slot 0x10000 379"
    unfolding demo_fault_def by (simp add: fault_entry_state [OF demo_in_program])
  from page_fault_resumes_program [OF demo_in_program demo_fault_def this]
  show ?thesis by (simp add: demo_cpu_def)
qed

text \<open>A system of one thread, and the memory in which a second one has been created.\<close>

definition demo_threads :: sys where
  "demo_threads = \<lparr>pcbs = (\<lambda>_. blank_pcb\<lparr>p_kstack := replicate KSTACKLEN 0\<rparr>), threadlist = 0x20000, currentthread = 0x20000,
     mainthread = 0x20000, blockedlist = 0, processcount = 0\<rparr>"

text \<open>A machine whose memory holds a control block.\<close>

definition with_pcb :: "u64 \<Rightarrow> pcb \<Rightarrow> cpu \<Rightarrow> cpu" where
  "with_pcb th p c = c\<lparr>mem := (\<lambda>x. if x = pcb_rsp th then p_rsp p else if x = pcb_ursp th then p_ursp p
     else if x = pcb_gotoaddr th then p_gotoaddr p else if x = pcb_page_table th then p_page_table p
     else if x - th < 3200 then p_kstack p ! (unat (x - th) div 8) else mem c x)\<rparr>"

lemma with_pcb_in_memory: "pcb_in_memory th p (with_pcb th p c)"
proof -
  have "slot th k - th < 3200 \<and> unat (slot th k - th) div 8 = k" if "k < 400" for k
    using that unat_add_mult64 [of 0 8 k] by (simp add: slot_def word_less_nat_alt)
  then show ?thesis by (simp add: pcb_in_memory_def with_pcb_def)
qed

lemma with_pcb_gpr [simp]: "gpr (with_pcb th p c) = gpr c"
  by (simp add: with_pcb_def)

theorem new_thread_enters_function_witness:
  "\<exists>s'. create_thread 0x10000 0x1234 0x5000 0x5678 demo_threads = Some s' \<and>
     rip (switch_to 0x20000 0x10000 (with_pcb 0x10000 (pcbs s' 0x10000) (demo_turn demo_cpu))) = 0x5678"
proof -
  let ?t = "upd 0x10000 (fresh_thread 0x10000 0x1234 0x5000 0x5678) demo_threads"
  let ?s = "upd 0x20000 (\<lambda>p. p\<lparr>p_next := 0x10000\<rparr>) ?t"
  have l: "length (p_kstack (pcbs demo_threads 0x10000)) = KSTACKLEN" by (simp add: demo_threads_def)
  have "last_node ?t (threadlist demo_threads) = Some 0x20000"
    by (simp add: last_node.simps demo_threads_def blank_pcb_def)
  then have c: "create_thread 0x10000 0x1234 0x5000 0x5678 demo_threads = Some ?s"
    unfolding create_thread_eq [OF l] by (simp add: Let_def)
  from new_thread_enters_function [OF c l with_pcb_in_memory _ _ _ demo_apart refl, of "demo_turn demo_cpu" 300]
  show ?thesis using c demo_turn_rsp by auto
qed


definition demo_parent :: cpu where
  "demo_parent = syscall_entry 0x3000 0 demo_cpu"

definition demo_kstack :: "u64 list" where
  "demo_kstack = map (\<lambda>j. mem demo_parent (slot 0x10000 j)) [0..<400]"

definition demo_child :: pcb where
  "demo_child = blank_pcb\<lparr>p_kstack := the (fork_stack (stack_slot 0x10000 (slot 0x10000 371 + 24)) 0 demo_kstack),
     p_rsp := 0x30000 + 8 * stack_slot 0x10000 (slot 0x10000 371 + 24) 8\<rparr>"

theorem fork_child_returns_zero_witness:
  "gpr demo_cpu RAX = 5 \<and> (\<exists>f. f = syscall_leave (handler_done (switch_to 0x20000 0x30000 (with_pcb 0x30000 demo_child (demo_turn demo_cpu))))
     \<and> rip f = rip demo_cpu \<and> gpr f RSP = gpr demo_cpu RSP \<and> gpr f RAX = 0)"
proof -
  have l: "length demo_kstack = 400" and w: "\<forall>j. 384 \<le> j \<and> j < 400 \<longrightarrow> demo_kstack ! j = mem demo_parent (slot 0x10000 j)"
    by (simp_all add: demo_kstack_def)
  have "slot 0x10000 371 + 24 = slot 0x10000 374" using slot_add [of "0x10000" 371 3] by simp
  then have sl: "stack_slot 0x10000 (slot 0x10000 371 + 24) = (\<lambda>j. of_nat 374 - j)" by (simp add: stack_slot_index fun_eq_iff)
  have st: "fork_stack (stack_slot 0x10000 (slot 0x10000 371 + 24)) 0 demo_kstack = Some (p_kstack demo_child)"
    unfolding demo_child_def sl using fork_stack_words [of 374 demo_kstack 0] l by simp
  have r: "p_rsp demo_child = 0x30000 + 8 * stack_slot 0x10000 (slot 0x10000 371 + 24) 8" by (simp add: demo_child_def)
  have ap: "apart 0x30000 0x20000" by (subst apart_sym) (rule apart_far, simp_all add: PCB_WORDS_def)
  show ?thesis
    using fork_child_returns_zero [OF demo_in_program demo_parent_def l w refl st refl r with_pcb_in_memory _ _ _ ap refl c_code_refl,
        of "demo_turn demo_cpu" 300]
    by (simp add: demo_turn_rsp [simplified] same_program_def) (simp add: demo_cpu_def)
qed

declare One_nat_def [simp] add_2_eq_Suc [simp] add_2_eq_Suc' [simp]

end
