(* ===== verification/Boot.thy ===== *)
theory Boot
  imports Allocator
begin

text \<open>
  The start of the kernel: the segment table of \<^verbatim>\<open>sys/gdt.c\<close>, the commands of \<^verbatim>\<open>sys/pic.c\<close> to the interrupt controllers, and
  the search of \<^verbatim>\<open>start\<close> in \<^verbatim>\<open>sys/main.c\<close> for the end of physical memory in the list that the boot loader passes.
\<close>

section \<open>The segment table\<close>

definition GDT_CS :: u64 where "GDT_CS = 0x00180000000000"
definition GDT_DS :: u64 where "GDT_DS = 0x00100000000000"
definition DPL0 :: u64 where "DPL0 = 0"
definition DPL3 :: u64 where "DPL3 = 0x00600000000000"
definition P_bit :: u64 where "P_bit = 0x00800000000000"
definition L_bit :: u64 where "L_bit = 0x20000000000000"
definition W_bit :: u64 where "W_bit = 0x00020000000000"

definition MAX_GDT :: nat where
  "MAX_GDT = 32"

definition gdt :: "u64 list" where
  "gdt = [0, GDT_CS OR P_bit OR DPL0 OR L_bit, GDT_DS OR P_bit OR W_bit OR DPL0, 0,
          GDT_DS OR P_bit OR W_bit OR DPL3, GDT_CS OR P_bit OR DPL3 OR L_bit, 0, 0]
         @ replicate (MAX_GDT - 8) 0"

definition tss_size :: nat where
  "tss_size = 4 + 3 * 8 + 8 + 7 * 8 + 8 + 2 + 2"

text \<open>An assignment to a bit field of \<open>n\<close> bits at bit \<open>lo\<close>; the fields of \<^verbatim>\<open>struct sys_segment_descriptor\<close> follow each
  other without gaps in 128 bits.\<close>

definition assign_field :: "nat \<Rightarrow> nat \<Rightarrow> u64 \<Rightarrow> 128 word \<Rightarrow> 128 word" where
  "assign_field lo n v w = (w AND NOT (push_bit lo (mask n))) OR push_bit lo (take_bit n (ucast v))"

definition tss_descriptor :: "u64 \<Rightarrow> 128 word \<Rightarrow> 128 word" where
  "tss_descriptor tss sd =
     (let sd = assign_field 0 16 (of_nat (tss_size - 1)) sd;
          sd = assign_field 16 24 tss sd;
          sd = assign_field 40 5 9 sd;
          sd = assign_field 45 2 0 sd;
          sd = assign_field 47 1 1 sd;
          sd = assign_field 48 4 0 sd;
          sd = assign_field 55 1 0 sd
      in assign_field 56 40 (drop_bit 24 tss) sd)"

text \<open>\<open>tss\<close> is the address of the task state segment.\<close>

definition init_gdt :: "u64 \<Rightarrow> u64 list \<Rightarrow> u64 list option" where
  "init_gdt tss table =
     do { lo \<leftarrow> aget table 6;
          hi \<leftarrow> aget table 7;
          let sd = tss_descriptor tss (ucast lo OR push_bit 64 (ucast hi));
          table \<leftarrow> aput table 6 (ucast sd);
          aput table 7 (ucast (drop_bit 64 sd)) }"

section \<open>The interrupt controllers\<close>

text \<open>The bytes written, with their ports: \<open>inb\<close> are the masks that were read first.  The writes to port 0x80 are delays.\<close>

definition init_pic :: "(u16 \<Rightarrow> u8) \<Rightarrow> (u16 \<times> u8) list" where
  "init_pic inb =
     (let pic1mask = inb 0x21; pic2mask = inb 0xa1 in
      [(0x20, 0x11), (0x80, 0), (0xa0, 0x11), (0x80, 0),
       (0x21, 0x20), (0x80, 0), (0xa1, 0x34), (0x80, 0),
       (0x21, 0x04), (0x80, 0), (0xa1, 0x02), (0x80, 0),
       (0x21, 0x01), (0x80, 0), (0xa1, 0x01), (0x80, 0),
       (0x21, pic1mask), (0xa1, pic2mask), (0x21, 0xfd)])"

section \<open>The memory map\<close>

record smap_t =
  sm_base :: u64
  sm_length :: u64
  sm_type :: u32

text \<open>The list of modules is an array of 32-bit words: type, size and data.  The loop to the module of type 0x9001 does not
  end when there is none; past the end of the array it faults.\<close>

partial_function (option) find_module :: "u32 list \<Rightarrow> nat \<Rightarrow> nat option" where
  "find_module mods i =
     do { t \<leftarrow> aget mods i;
          if t = 0x9001 then Some i
          else do { n \<leftarrow> aget mods (i + 1); find_module mods (i + unat (n + 2)) } }"

declare find_module.simps [simp del]

definition u64_of :: "u32 \<Rightarrow> u32 \<Rightarrow> u64" where
  "u64_of lo hi = ucast lo OR push_bit 32 (ucast hi)"

definition smap_at :: "u32 list \<Rightarrow> nat \<Rightarrow> smap_t option" where
  "smap_at mods i =
     do { b0 \<leftarrow> aget mods i; b1 \<leftarrow> aget mods (i + 1);
          l0 \<leftarrow> aget mods (i + 2); l1 \<leftarrow> aget mods (i + 3);
          t \<leftarrow> aget mods (i + 4);
          Some \<lparr>sm_base = u64_of b0 b1, sm_length = u64_of l0 l1, sm_type = t\<rparr> }"

definition usable :: "u64 \<Rightarrow> smap_t \<Rightarrow> bool" where
  "usable physfree smap =
     (sm_type smap = 1 \<and> sm_length smap \<noteq> 0 \<and> sm_base smap < physfree \<and> physfree < sm_base smap + sm_length smap)"

text \<open>The loop over the entries of 20 bytes in \<open>n\<close> bytes of data.\<close>

function smap_loop :: "u32 list \<Rightarrow> u64 \<Rightarrow> nat \<Rightarrow> nat \<Rightarrow> nat \<Rightarrow> u64 \<Rightarrow> u64 option" where
  "smap_loop mods physfree i n e physend =
     (if 20 * e < n
      then do { smap \<leftarrow> smap_at mods (i + 5 * e);
                smap_loop mods physfree i n (Suc e)
                  (if usable physfree smap then sm_base smap + sm_length smap else physend) }
      else Some physend)"
  by pat_completeness auto
termination by (relation "measure (\<lambda>(mods, physfree, i, n, e, physend). n - 20 * e)") auto

declare smap_loop.simps [simp del]

definition find_physend :: "u32 list \<Rightarrow> u64 \<Rightarrow> u64 option" where
  "find_physend mods physfree =
     do { i \<leftarrow> find_module mods 0;
          n \<leftarrow> aget mods (i + 1);
          smap_loop mods physfree (i + 2) (unat n) 0 0 }"

section \<open>The descriptor that the processor reads\<close>

lemma bit_assign_field:
  "bit (assign_field lo n v w) i \<longleftrightarrow> i < 128 \<and> (if lo \<le> i \<and> i < lo + n then bit v (i - lo) else bit w i)"
  by (auto simp: assign_field_def bit_simps dest: bit_imp_le_length)

text \<open>The base address, the limit and the access byte of a system descriptor.\<close>

definition segment_base :: "u64 \<Rightarrow> u64 \<Rightarrow> u64" where
  "segment_base lo hi = take_bit 24 (drop_bit 16 lo) OR push_bit 24 (take_bit 8 (drop_bit 56 lo)) OR push_bit 32 (take_bit 32 hi)"

definition segment_limit :: "u64 \<Rightarrow> u64" where
  "segment_limit lo = take_bit 16 lo OR push_bit 16 (take_bit 4 (drop_bit 48 lo))"

definition segment_access :: "u64 \<Rightarrow> u64" where
  "segment_access lo = take_bit 8 (drop_bit 40 lo)"

lemma bit_descriptor:
  "bit (tss_descriptor tss sd) i \<longleftrightarrow> i < 128 \<and>
    (if i < 16 then bit (103 :: u64) i else if i < 40 then bit tss (i - 16) else if i < 45 then bit (9 :: u64) (i - 40)
     else if i < 47 then False else if i < 48 then bit (1 :: u64) (i - 47) else if i < 52 then False else if i < 55 then bit sd i
     else if i < 56 then False else if i < 96 then bit tss (i - 32) else bit sd i)"
  by (auto simp: tss_descriptor_def bit_assign_field tss_size_def Let_def bit_simps)

lemma descriptor_base: "segment_base (ucast (tss_descriptor tss sd)) (ucast (drop_bit 64 (tss_descriptor tss sd))) = tss"
proof (rule bit_word_eqI)
  fix i assume "i < LENGTH(64)"
  then have i: "i < 64" by simp
  consider "i < 24" | "24 \<le> i" "i < 32" | "32 \<le> i" by linarith
  then show "bit (segment_base (ucast (tss_descriptor tss sd)) (ucast (drop_bit 64 (tss_descriptor tss sd)))) i \<longleftrightarrow> bit tss i"
    by cases (use i in \<open>auto simp: segment_base_def bit_simps bit_descriptor\<close>)
qed

lemma descriptor_limit: "segment_limit (ucast (tss_descriptor tss sd)) = 103"
proof (rule bit_word_eqI)
  fix i assume "i < LENGTH(64)"
  have "\<not> bit (103 :: u64) n" if "16 \<le> n" for n
    using that bit_take_bit_iff [of 16 "103 :: u64" n] by (simp add: take_bit_eq_mod)
  then show "bit (segment_limit (ucast (tss_descriptor tss sd))) i \<longleftrightarrow> bit (103 :: u64) i"
    using \<open>i < LENGTH(64)\<close> by (auto simp: segment_limit_def bit_simps bit_descriptor)
qed

lemma descriptor_access: "segment_access (ucast (tss_descriptor tss sd)) = 0x89"
proof (rule bit_word_eqI)
  fix i assume "i < LENGTH(64)"
  have "\<not> bit (0x89 :: u64) n" if "8 \<le> n" for n
    using that bit_take_bit_iff [of 8 "0x89 :: u64" n] by (simp add: take_bit_eq_mod)
  moreover have "i < 8 \<Longrightarrow> i \<in> {0, 1, 2, 3, 4, 5, 6, 7}" by auto
  ultimately show "bit (segment_access (ucast (tss_descriptor tss sd))) i \<longleftrightarrow> bit (0x89 :: u64) i"
    by (cases "i < 8") (auto simp: segment_access_def bit_simps bit_descriptor)
qed

lemma init_gdt_eq:
  assumes "length table = 32"
  shows "\<exists>sd. init_gdt tss table = Some (table[6 := ucast (tss_descriptor tss sd), 7 := ucast (drop_bit 64 (tss_descriptor tss sd))])"
  using assms by (auto simp: init_gdt_def Let_def)

section \<open>The memory map\<close>

text \<open>A module of the list: its type and its data.\<close>

definition module_words :: "u32 \<times> u32 list \<Rightarrow> u32 list" where
  "module_words m = fst m # of_nat (length (snd m)) # snd m"

definition smap_words :: "smap_t \<Rightarrow> u32 list" where
  "smap_words r = [ucast (sm_base r), ucast (drop_bit 32 (sm_base r)), ucast (sm_length r), ucast (drop_bit 32 (sm_length r)), sm_type r]"

lemma u64_of_halves [simp]: "u64_of (ucast x) (ucast (drop_bit 32 x)) = x"
proof (rule bit_word_eqI)
  fix i assume "i < LENGTH(64)"
  then show "bit (u64_of (ucast x) (ucast (drop_bit 32 x))) i \<longleftrightarrow> bit x i"
    by (cases "i < 32") (auto simp: u64_of_def bit_simps)
qed

lemma find_module_list:
  assumes "\<forall>m \<in> set ms. fst m \<noteq> 0x9001 \<and> length (snd m) + 2 < 2 ^ 32"
  shows "find_module (pre @ concat (map module_words ms) @ 0x9001 # rest) (length pre) = Some (length pre + length (concat (map module_words ms)))"
  using assms
proof (induction ms arbitrary: pre)
  case Nil
  then show ?case by (subst find_module.simps) simp
next
  case (Cons m ms)
  let ?mods = "pre @ concat (map module_words (m # ms)) @ 0x9001 # rest"
  have "unat (of_nat (length (snd m)) + 2 :: u32) = length (snd m) + 2"
    using Cons.prems by (simp add: unat_word_ariths unat_of_nat take_bit_nat_eq_self)
  then have n: "aget ?mods (length pre + 1) = Some (of_nat (length (snd m)))"
    "length pre + unat (of_nat (length (snd m)) + 2 :: u32) = length (pre @ module_words m)"
    by (simp_all add: module_words_def nth_append aget_def)
  have "find_module ?mods (length pre) = find_module ?mods (length (pre @ module_words m))"
    using Cons.prems n by (subst find_module.simps) (simp add: module_words_def nth_append)
  also have "\<dots> = Some (length (pre @ module_words m) + length (concat (map module_words ms)))"
    using Cons.IH [of "pre @ module_words m"] Cons.prems by simp
  finally show ?case by simp
qed

definition physend_of :: "u64 \<Rightarrow> smap_t list \<Rightarrow> u64 \<Rightarrow> u64" where
  "physend_of physfree = fold (\<lambda>r physend. if usable physfree r then sm_base r + sm_length r else physend)"

lemma smap_at_entry:
  "smap_at (pre @ smap_words r @ rest) (length pre) = Some (r :: smap_t)"
  by (simp add: smap_at_def smap_words_def aget_def nth_append)

lemma smap_loop_entries:
  assumes "n = 20 * (e + length rs)" "length pre = i + 5 * e"
  shows "smap_loop (pre @ concat (map smap_words rs) @ rest) physfree i n e physend = Some (physend_of physfree rs physend)"
  using assms
proof (induction rs arbitrary: e pre physend)
  case Nil
  then show ?case by (subst smap_loop.simps) (simp add: physend_of_def)
next
  case (Cons r rs)
  have s: "smap_at (pre @ concat (map smap_words (r # rs)) @ rest) (i + 5 * e) = Some r"
    using smap_at_entry [of pre r "concat (map smap_words rs) @ rest"] Cons.prems(2) by simp
  have "smap_loop ((pre @ smap_words r) @ concat (map smap_words rs) @ rest) physfree i n (Suc e)
      (if usable physfree r then sm_base r + sm_length r else physend)
    = Some (physend_of physfree rs (if usable physfree r then sm_base r + sm_length r else physend))"
    by (rule Cons.IH) (use Cons.prems in \<open>simp_all add: smap_words_def\<close>)
  then show ?case using s Cons.prems(1) by (subst smap_loop.simps) (simp add: physend_of_def)
qed

lemma physend_of_last:
  "physend_of physfree rs physend = (case filter (usable physfree) rs of [] \<Rightarrow> physend | us \<Rightarrow> sm_base (last us) + sm_length (last us))"
  by (induction rs arbitrary: physend) (auto simp: physend_of_def split: list.splits)

lemma find_physend_words:
  assumes "\<forall>m \<in> set ms. fst m \<noteq> 0x9001 \<and> length (snd m) + 2 < 2 ^ 32" "20 * length rs < 2 ^ 32"
  shows "find_physend (concat (map module_words ms) @ 0x9001 # of_nat (20 * length rs) # concat (map smap_words rs) @ rest) physfree
    = Some (physend_of physfree rs 0)"
proof -
  let ?pre = "concat (map module_words ms)" and ?n = "of_nat (20 * length rs) :: u32"
  let ?mods = "?pre @ 0x9001 # ?n # concat (map smap_words rs) @ rest"
  have "find_module ?mods 0 = Some (length ?pre)"
    using find_module_list [OF assms(1), of "[]" "?n # concat (map smap_words rs) @ rest"] by simp
  moreover have "aget ?mods (length ?pre + 1) = Some ?n" by (simp add: aget_def nth_append)
  moreover have "unat ?n = 20 * (0 + length rs)" using assms(2) by (simp add: unat_of_nat take_bit_nat_eq_self del: of_nat_mult)
  moreover have "smap_loop ((?pre @ [0x9001, ?n]) @ concat (map smap_words rs) @ rest) physfree (length ?pre + 2) (20 * (0 + length rs)) 0 0
      = Some (physend_of physfree rs 0)"
    by (rule smap_loop_entries) simp_all
  ultimately show ?thesis by (simp add: find_physend_def del: of_nat_mult)
qed

section \<open>Properties\<close>

text \<open>\<^verbatim>\<open>init_gdt\<close> makes the descriptor of the task state segment: the processor reads the address of the segment, the limit of its
  104 bytes, and an access byte for a present 64-bit segment of level 0.  All other descriptors stay.\<close>

theorem init_gdt_describes_tss:
  assumes "length table = MAX_GDT"
  shows "\<exists>table'. init_gdt tss table = Some table' \<and> segment_base (table' ! 6) (table' ! 7) = tss \<and>
    segment_limit (table' ! 6) = of_nat (tss_size - 1) \<and> segment_access (table' ! 6) = 0x89 \<and>
    (\<forall>i < MAX_GDT. i \<notin> {6, 7} \<longrightarrow> table' ! i = table ! i)"
proof -
  have l: "length table = 32" using assms by (simp add: MAX_GDT_def)
  obtain sd where sd: "init_gdt tss table = Some (table[6 := ucast (tss_descriptor tss sd), 7 := ucast (drop_bit 64 (tss_descriptor tss sd))])"
    using init_gdt_eq [OF l] by blast
  show ?thesis
    using l descriptor_base [of tss sd] descriptor_limit [of tss sd] descriptor_access [of tss sd]
    unfolding sd by (simp add: tss_size_def)
qed

theorem init_gdt_describes_tss_witness:
  "\<exists>table'. init_gdt 0xffffffff80204060 gdt = Some table' \<and> segment_base (table' ! 6) (table' ! 7) = 0xffffffff80204060
    \<and> segment_limit (table' ! 6) = 103 \<and> table' ! 5 = gdt ! 5"
proof -
  have "length gdt = MAX_GDT" by (simp add: gdt_def MAX_GDT_def)
  from init_gdt_describes_tss [OF this, of "0xffffffff80204060"] show ?thesis by (auto simp: tss_size_def MAX_GDT_def)
qed

text \<open>The end of physical memory that \<^verbatim>\<open>start\<close> finds: of the usable ranges of the memory map it is the end of the last one that the
  first free address lies strictly inside of, and 0 when there is none.  The modules in front of the map are
  skipped by their size in words although the map's own size is in bytes.\<close>

theorem find_physend_last_range:
  assumes "\<forall>m \<in> set ms. fst m \<noteq> 0x9001 \<and> length (snd m) + 2 < 2 ^ 32" "20 * length rs < 2 ^ 32"
  shows "find_physend (concat (map module_words ms) @ 0x9001 # of_nat (20 * length rs) # concat (map smap_words rs) @ rest) physfree
    = Some (case filter (usable physfree) rs of [] \<Rightarrow> 0 | us \<Rightarrow> sm_base (last us) + sm_length (last us))"
  using find_physend_words [OF assms] by (simp only: physend_of_last)

theorem find_physend_last_range_witness:
  "find_physend ([7, 1, 9] @ 0x9001 # 40 # [0, 0, 0x9fc00, 0, 1, 0x100000, 0, 0x7ee0000, 0, 1]) 0x250000 = Some 0x7fe0000"
proof -
  let ?a = "\<lparr>sm_base = 0, sm_length = 0x9fc00, sm_type = 1\<rparr>" and ?b = "\<lparr>sm_base = 0x100000, sm_length = 0x7ee0000, sm_type = 1\<rparr>"
  have "concat (map smap_words [?a, ?b]) = [0, 0, 0x9fc00, 0, 1, 0x100000, 0, 0x7ee0000, 0, 1]"
    by (simp add: smap_words_def drop_bit_eq_div)
  moreover have "concat (map module_words [(7, [9])]) = [7, 1, 9]" by (simp add: module_words_def)
  ultimately show ?thesis
    using find_physend_last_range [of "[(7, [9])]" "[?a, ?b]" "[]" "0x250000"] by (simp add: usable_def)
qed

text \<open>The last mask that \<^verbatim>\<open>init_pic\<close> writes lets only the interrupt of the keyboard through: the timer is masked, and with it
  the clock, the preemption of processes and \<^verbatim>\<open>sleep\<close>.\<close>

theorem init_pic_masks_timer:
  "map snd (filter (\<lambda>(port, _). port = 0x21) (init_pic inb)) = [0x20, 0x04, 0x01, inb 0x21, 0xfd] \<and>
   (\<forall>irq < 8. bit (snd (last (init_pic inb))) irq = (irq \<noteq> 1))"
proof -
  have "\<forall>irq \<in> set [0..<8]. bit (0xfd :: u8) irq = (irq \<noteq> 1)" by code_simp
  then show ?thesis by (simp add: init_pic_def Let_def)
qed

end
