(* ===== verification/Start.thy ===== *)
theory Start
  imports Switch Exec Boot Console Interrupts Tarfs
begin

text \<open>
  From the boot loader to the first program: \<^verbatim>\<open>boot\<close> and \<^verbatim>\<open>start\<close> of \<^verbatim>\<open>sys/main.c\<close>, \<^verbatim>\<open>context_switch\<close>, \<^verbatim>\<open>fun1\<close> and
  \<^verbatim>\<open>idle_func\<close> of \<^verbatim>\<open>sys/contextswitch.c\<close>, which call the initialisations of the other components in their order, and how
  the stack that \<^verbatim>\<open>exec\<close> builds reaches \<^verbatim>\<open>main\<close> of a program (\<^verbatim>\<open>crt/crt1.c\<close>).
\<close>

section \<open>The first threads\<close>

text \<open>The addresses of functions, and of the pages that \<^verbatim>\<open>bump\<close> returns for the control blocks.\<close>

record code_addresses =
  at_completion :: u64
  at_fun1 :: u64
  at_idle_func :: u64
  at_user_process :: u64

text \<open>The thread part of \<^verbatim>\<open>start\<close>, the thread that boots, and of \<^verbatim>\<open>context_switch\<close>, which runs on it.\<close>

definition main_thread :: "u64 \<Rightarrow> u64 \<Rightarrow> sys \<Rightarrow> sys" where
  "main_thread main pml4 s =
     (let s = s\<lparr>mainthread := main, threadlist := main\<rparr>;
          s = upd main (\<lambda>p. p\<lparr>p_next := 0, p_state := RUNNING, p_totalslice := 1, p_page_table := pml4\<rparr>) s
      in s\<lparr>currentthread := main\<rparr>)"

definition first_thread :: "code_addresses \<Rightarrow> u64 \<Rightarrow> u64 \<Rightarrow> sys \<Rightarrow> sys option" where
  "first_thread at pml4 t s =
     do { s \<leftarrow> create_thread t (at_completion at) pml4 (at_fun1 at) s;
          schedule s }"

text \<open>\<^verbatim>\<open>fun1\<close>, run by the thread of \<^verbatim>\<open>context_switch\<close>, and one turn of the idle thread.\<close>

definition fun1 :: "code_addresses \<Rightarrow> u64 \<Rightarrow> u64 \<Rightarrow> u64 \<Rightarrow> sys \<Rightarrow> sys option" where
  "fun1 at pml4 t u s =
     do { s \<leftarrow> create_thread t (at_completion at) pml4 (at_idle_func at) s;
          s \<leftarrow> create_thread u (at_completion at) pml4 (at_user_process at) s;
          schedule s }"

definition idle_turn :: "sys \<Rightarrow> sys option" where
  "idle_turn s = schedule s"

section \<open>\<^verbatim>\<open>start\<close> and \<^verbatim>\<open>boot\<close>\<close>

text \<open>The attribute bytes of the screen.\<close>

definition white :: "u64 \<Rightarrow> bytes \<Rightarrow> bytes" where
  "white base = fold (\<lambda>i m. m(base + 0xb8001 + 2 * of_nat i := CHR 0x07)) [0..<2000]"

definition initialize_keyboard_buffer :: "nat \<Rightarrow> keyboard \<Rightarrow> kernel \<Rightarrow> (keyboard \<times> kernel) option" where
  "initialize_keyboard_buffer depth kb k =
     do { (buf, k) \<leftarrow> bump depth 1024 k;
          Some (kb\<lparr>terminal_buf := buf, address_of_buf := buf, kb_size := 0\<rparr>, k) }"

definition context_switch :: "nat \<Rightarrow> code_addresses \<Rightarrow> keyboard \<Rightarrow> kernel \<Rightarrow> (keyboard \<times> kernel) option" where
  "context_switch depth at kb k =
     do { (kb, k) \<leftarrow> initialize_keyboard_buffer depth kb k;
          (thread, k) \<leftarrow> bump depth PCB_SIZE k;
          s \<leftarrow> first_thread at (pml4t_t k - KERNBASE) thread (procs k);
          Some (kb, k\<lparr>procs := s\<rparr>) }"

text \<open>The memory part of \<^verbatim>\<open>start\<close>, up to \<^verbatim>\<open>init_after_paging\<close>.\<close>

definition start_memory :: "u32 list \<Rightarrow> u64 \<Rightarrow> u64 \<Rightarrow> 'a kmem_scheme \<Rightarrow> 'a kmem_scheme option" where
  "start_memory mods physbase physfree k =
     do { physend \<leftarrow> find_physend mods physfree;
          k \<leftarrow> initbump physbase physfree physend k;
          let (root, k) = bump_initial 4096 k;
          let k = zero_table root (k\<lparr>pml4t_t := root\<rparr>);
          k \<leftarrow> init_paging k;
          init_after_paging (enable_paging k) }"

text \<open>The arguments of the initialisations: the archive and its place, the row buffer of the path splitter on entry and the
  pages for the nodes of the file tree.\<close>

record boot_image =
  bi_modules :: "u32 list"
  bi_physbase :: u64
  bi_physfree :: u64
  bi_archive :: memory
  bi_tarfs_start :: u64
  bi_buf :: u64
  bi_rows :: "string list"
  bi_pages :: "u64 list"

definition start :: "nat \<Rightarrow> code_addresses \<Rightarrow> boot_image \<Rightarrow> kernel \<times> console \<times> keyboard \<Rightarrow> (kernel \<times> console \<times> keyboard) option" where
  "start depth at b = (\<lambda>(k, c, kb).
     do { k \<leftarrow> start_memory (bi_modules b) (bi_physbase b) (bi_physfree b) k;
          let c = c\<lparr>screen := white KERNBASE (screen c)\<rparr>;
          k \<leftarrow> map_pagetables depth k;
          (main, k) \<leftarrow> bump depth PCB_SIZE k;
          let pml4 = pml4t_t k - KERNBASE;
          let k = k\<lparr>procs := main_thread main pml4 (procs k)\<rparr>;
          (s, _) \<leftarrow> initialise_file_system (bi_archive b) (bi_tarfs_start b) (bi_buf b) (bi_rows b) (fs k, bi_pages b);
          (kb, k) \<leftarrow> context_switch depth at kb (k\<lparr>fs := s\<rparr>);
          Some (k, c, kb) })"

text \<open>\<^verbatim>\<open>boot\<close> hands the tables and the commands to the processor: the segment table with the task state segment at \<open>tss\<close>, the
  interrupt table, and the bytes for the interrupt controllers.\<close>

definition boot :: "nat \<Rightarrow> code_addresses \<Rightarrow> handlers \<Rightarrow> u64 \<Rightarrow> (u16 \<Rightarrow> u8) \<Rightarrow> boot_image \<Rightarrow> idtr_item list \<Rightarrow> kernel \<times> console \<times> keyboard
    \<Rightarrow> (u64 list \<times> idtr_item list \<times> (u16 \<times> u8) list \<times> kernel \<times> console \<times> keyboard) option" where
  "boot depth at h tss inb b idt = (\<lambda>(k, c, kb).
     do { let c = c\<lparr>screen := white 0 (screen c)\<rparr>;
          segments \<leftarrow> init_gdt tss gdt;
          idt \<leftarrow> init_idt h idt;
          let commands = init_pic inb;
          st \<leftarrow> start depth at b (k, c, kb);
          Some (segments, idt, commands, st) })"

section \<open>The interrupt mask\<close>

text \<open>The mask of the first controller after some bytes were written to ports: the last byte for port 0x21.\<close>

definition pic_mask :: "(u16 \<times> u8) list \<Rightarrow> u8" where
  "pic_mask ws = snd (last (filter (\<lambda>(port, _). port = 0x21) ws))"

lemma irq_leave_outs: "outs (irq_leave c) = outs c @ [(0x20, 0x20), (0x21, 0), (0x22, 0), (0x23, 0)]"
  by (simp add: irq_leave_def machine)

text \<open>C19: Only the keyboard may interrupt after \<^verbatim>\<open>init_pic\<close>: its last mask blocks the timer.  The first interrupt that is acknowledged
  takes the mask away, as the acknowledgement is written with 32 bits and puts 0 into the mask: from then on the timer
  interrupts.\<close>

theorem acknowledgement_unmasks_timer:
  assumes "outs c = before @ init_pic inb @ after" "\<forall>(port, v) \<in> set after. port \<noteq> 0x21"
  shows "(\<forall>irq < 8. bit (pic_mask (outs c)) irq = (irq \<noteq> 1)) \<and> pic_mask (outs (irq_leave c)) = 0"
proof -
  have f: "filter (\<lambda>(port, _). port = 0x21) after = []" using assms(2) by (auto simp: filter_empty_conv)
  have "\<forall>irq \<in> set [0..<8]. bit (0xfd :: u8) irq = (irq \<noteq> 1)" by code_simp
  moreover have "pic_mask (outs c) = 0xfd" using f by (simp add: assms(1) pic_mask_def init_pic_def Let_def)
  ultimately show ?thesis by (simp add: irq_leave_outs pic_mask_def)
qed

theorem acknowledgement_unmasks_timer_witness:
  "bit (pic_mask (init_pic (\<lambda>_. 0xff))) 0 \<and> pic_mask (outs (irq_leave (demo_cpu\<lparr>outs := init_pic (\<lambda>_. 0xff)\<rparr>))) = 0"
  using acknowledgement_unmasks_timer [of "demo_cpu\<lparr>outs := init_pic (\<lambda>_. 0xff)\<rparr>" "[]" "\<lambda>_. 0xff" "[]"] by simp

section \<open>Without memory the kernel hangs\<close>

lemma aligned_below_top:
  assumes "i AND 0xFFF = (0 :: u64)"
  shows "i \<le> 0 - 4096" "(i + 4096) AND 0xFFF = 0"
proof -
  have "i = (i AND 0xFFF) + (i AND NOT 0xFFF)" by (rule and_split)
  then have "i = i AND NOT 0xFFF" using assms by simp
  also have "\<dots> \<le> NOT 0xFFF" by (rule word_and_le1)
  finally show "i \<le> 0 - 4096" by simp
  have f: "x AND 0xFFF = take_bit 12 x" for x :: u64 by (simp add: take_bit_eq_mask mask_eq_exp_minus_1)
  have "take_bit 12 (i + 4096) = take_bit 12 (take_bit 12 i + take_bit 12 4096)" by (rule take_bit_add_u64 [symmetric])
  then show "(i + 4096) AND 0xFFF = 0" using assms by (simp add: f)
qed

lemma initbump_loop_endless:
  assumes "initbump_loop physend i j k s = Some r"
  shows "\<not> (physend = 0 \<and> i AND 0xFFF = 0)"
  using assms
proof (rule initbump_loop.raw_induct [where P = "\<lambda>physend i j k s r. \<not> (physend = 0 \<and> i AND 0xFFF = 0)", rotated], goal_cases)
  case (1 f physend i j k s r)
  show ?case
  proof
    assume z: "physend = 0 \<and> i AND 0xFFF = 0"
    then have "i \<le> physend - 4096" "(i + 4096) AND 0xFFF = 0" using aligned_below_top [of i] by simp_all
    moreover from this(1) 1(2) obtain s' where "f physend (i + 4096) (j + 16) (k + 1) s' = Some r" by auto
    ultimately show False using 1(1) z by blast
  qed
qed

text \<open>When no usable range of the memory map has the first free address inside, which is at the start of a page, the kernel never gets
  past the memory map: the end of physical memory is then 0, the bound of the loop over the pages wraps around, and the loop of
  \<^verbatim>\<open>initbump\<close> has no end: it goes on to write nodes until one of its stores faults.\<close>

theorem start_hangs_without_memory:
  assumes "bi_modules b = concat (map module_words ms) @ 0x9001 # of_nat (20 * length rs) # concat (map smap_words rs) @ rest"
    and "\<forall>m \<in> set ms. fst m \<noteq> 0x9001 \<and> length (snd m) + 2 < 2 ^ 32" "20 * length rs < 2 ^ 32"
    and "\<forall>r \<in> set rs. \<not> usable (bi_physfree b) r" "bi_physfree b AND 0xFFF = 0"
  shows "start depth at b st = None"
proof -
  have "filter (usable (bi_physfree b)) rs = []" using assms(4) by (simp add: filter_empty_conv)
  then have e: "find_physend (bi_modules b) (bi_physfree b) = Some 0"
    using find_physend_words [OF assms(2,3), of rest "bi_physfree b"] unfolding assms(1) by (simp add: physend_of_last)
  have "initbump_loop 0 (bi_physfree b) (bi_physfree b) 0 s = None" for s :: kernel
    using initbump_loop_endless [of 0 "bi_physfree b"] assms(5) by (cases "initbump_loop 0 (bi_physfree b) (bi_physfree b) 0 s") auto
  then show ?thesis by (cases st) (simp add: start_def start_memory_def e initbump_def)
qed

definition demo_addresses :: code_addresses where
  "demo_addresses = \<lparr>at_completion = 0x1000, at_fun1 = 0x2000, at_idle_func = 0x3000, at_user_process = 0x4000\<rparr>"

theorem start_hangs_without_memory_witness:
  "\<forall>st. start 1 demo_addresses \<lparr>bi_modules = [0x9001, 20, 0, 0, 0x9fc00, 0, 1], bi_physbase = 0x200000, bi_physfree = 0x250000,
     bi_archive = (\<lambda>_. NUL), bi_tarfs_start = 0, bi_buf = 0, bi_rows = [], bi_pages = []\<rparr> st = None"
proof -
  let ?r = "\<lparr>sm_base = 0, sm_length = 0x9fc00, sm_type = 1\<rparr>"
  have w: "smap_words ?r = [0, 0, 0x9fc00, 0, 1]" by (simp add: smap_words_def drop_bit_eq_div)
  show ?thesis
    by (rule allI, rule start_hangs_without_memory [of _ "[]" "[?r]" "[]"]) (simp_all add: w usable_def)
qed

section \<open>The order of the start\<close>

text \<open>What a control block at \<open>x\<close> holds for the switch to its thread; \<open>enters\<close> says that this is the function \<open>faddr\<close>, with \<open>retfun\<close>
  as its return address, on an empty stack.\<close>

definition thread_words :: "pcb \<Rightarrow> u64 list \<times> u64 \<times> u64 \<times> u64" where
  "thread_words p = (p_kstack p, p_rsp p, p_gotoaddr p, p_page_table p)"

definition enters :: "u64 \<Rightarrow> u64 \<Rightarrow> u64 \<Rightarrow> u64 \<Rightarrow> pcb \<Rightarrow> bool" where
  "enters x faddr retfun pml4 p \<longleftrightarrow>
     p_kstack p = replicate 398 0 @ [faddr, retfun] \<and> p_rsp p = x + 8 * 390 \<and> p_gotoaddr p = faddr \<and> p_page_table p = pml4"

lemma enters_words: "thread_words p = thread_words q \<Longrightarrow> enters x faddr retfun pml4 p = enters x faddr retfun pml4 q"
  by (simp add: thread_words_def enters_def)

lemma enters_fresh: "enters x faddr retfun pml4 (fresh_thread x retfun pml4 faddr p)"
  by (simp add: enters_def fresh_thread_def KSTACKLEN_def)

lemma created:
  assumes "chain (pnext s) (threadlist s) xs 0" "xs \<noteq> []" "t \<notin> set xs" "t \<noteq> 0" "distinct xs"
    and "length (p_kstack (pcbs s t)) = KSTACKLEN"
  obtains s' where "create_thread t retfun pml4 faddr s = Some s'" "chain (pnext s') (threadlist s') (xs @ [t]) 0"
    "\<And>a. state_of s' a = (if a = t then SLEEPING else state_of s a)"
    "\<And>a. p_kstack (pcbs s' a) = (if a = t then replicate (KSTACKLEN - 2) 0 @ [faddr, retfun] else p_kstack (pcbs s a))"
    "currentthread s' = currentthread s" "mainthread s' = mainthread s" "threadlist s' = threadlist s"
    "enters t faddr retfun pml4 (pcbs s' t)" "\<And>a. a \<noteq> t \<Longrightarrow> thread_words (pcbs s' a) = thread_words (pcbs s a)"
proof -
  obtain ys y where xs: "xs = ys @ [y]" using assms(2) by (cases xs rule: rev_cases) auto
  let ?t = "upd t (fresh_thread t retfun pml4 faddr) s"
  let ?s = "upd y (\<lambda>p. p\<lparr>p_next := t\<rparr>) ?t"
  have ch: "chain ((pnext s)(t := 0)) (threadlist s) xs 0" using assms(1, 3) by simp
  have nt: "pnext ?t = (pnext s)(t := 0)" by (auto simp: fresh_thread_def)
  have "last_node ?t (threadlist s) = Some y" by (intro last_node_chain) (use ch nt xs in simp)
  then have r: "create_thread t retfun pml4 faddr s = Some ?s"
    by (simp add: create_thread_eq [OF assms(6)])
  have "pnext ?s = ((pnext s)(t := 0))(y := t)" by (auto simp: fun_eq_iff fresh_thread_def)
  moreover have "chain (((pnext s)(t := 0))(y := t)) (threadlist s) (xs @ [t]) 0"
    using ch assms(3-5) xs by (auto simp: chain_append)
  moreover have "y \<noteq> t" using assms(3) xs by auto
  moreover have "enters t faddr retfun pml4 (pcbs ?s t)"
    using enters_fresh [of t faddr retfun pml4 "pcbs s t"] \<open>y \<noteq> t\<close> by simp
  moreover have "thread_words (pcbs ?s a) = thread_words (pcbs s a)" if "a \<noteq> t" for a
    using that by (simp add: thread_words_def)
  ultimately show ?thesis by (intro that [OF r]) (auto simp: fresh_thread_def)
qed


text \<open>A new thread joins a running system at the end, ready.\<close>

lemma created_running:
  assumes "running_system xs as i s" "t \<notin> set xs" "t \<noteq> 0" "mainthread s \<noteq> t"
    and "length (p_kstack (pcbs s t)) = KSTACKLEN"
  obtains s' where "create_thread t retfun pml4 faddr s = Some s'" "running_system (xs @ [t]) (as @ [t]) i s'"
    "mainthread s' = mainthread s" "\<And>a. a \<noteq> t \<Longrightarrow> thread_words (pcbs s' a) = thread_words (pcbs s a)"
    "enters t faddr retfun pml4 (pcbs s' t)"
proof -
  have s: "chain (pnext s) (threadlist s) xs 0" "distinct xs" "alive s xs = as" "i < length as" "currentthread s = as ! i"
    "mainthread s \<notin> set as" "\<forall>a\<in>set as. state_of s a = (if a = as ! i then RUNNING else SLEEPING)"
    using assms(1) by (simp_all add: running_system_def)
  have sub: "set as \<subseteq> set xs" using s(3) by (auto simp: alive_def)
  have ti: "as ! i \<noteq> t" using sub assms(2) nth_mem [OF s(4)] by auto
  have ne: "xs \<noteq> []" using s(3,4) by (auto simp: alive_def)
  obtain s' where c: "create_thread t retfun pml4 faddr s = Some s'" "chain (pnext s') (threadlist s') (xs @ [t]) 0"
    "\<And>a. state_of s' a = (if a = t then SLEEPING else state_of s a)"
    "\<And>a. p_kstack (pcbs s' a) = (if a = t then replicate (KSTACKLEN - 2) 0 @ [faddr, retfun] else p_kstack (pcbs s a))"
    "currentthread s' = currentthread s" "mainthread s' = mainthread s"
    "enters t faddr retfun pml4 (pcbs s' t)" "\<And>a. a \<noteq> t \<Longrightarrow> thread_words (pcbs s' a) = thread_words (pcbs s a)"
    by (rule created [OF s(1) ne assms(2,3) s(2) assms(5), of retfun pml4 faddr]) (rule that)
  have "filter (\<lambda>a. state_of s' a \<noteq> ZOMBIE) xs = filter (\<lambda>a. state_of s a \<noteq> ZOMBIE) xs"
    by (rule filter_cong) (use assms(2) c(3) in auto)
  then have "alive s' (xs @ [t]) = as @ [t]" using s(3) by (simp add: alive_def c(3))
  then have "running_system (xs @ [t]) (as @ [t]) i s'"
    using s c sub assms(2,4) ti by (auto simp: running_system_def nth_append)
  then show ?thesis by (rule that [OF c(1)]) (simp_all add: c)
qed

lemma first_thread_runs:
  assumes "0 \<notin> {main, t}" "main \<noteq> t" "length (p_kstack (pcbs s t)) = KSTACKLEN"
  obtains s' where "first_thread at pml4 t (main_thread main pml4 s) = Some s'" "running_system [main, t] [t] 0 s'"
    "mainthread s' = main" "\<And>a. a \<noteq> t \<Longrightarrow> p_kstack (pcbs s' a) = p_kstack (pcbs s a)"
    "enters t (at_fun1 at) (at_completion at) pml4 (pcbs s' t)"
proof -
  let ?s = "main_thread main pml4 s"
  have m: "chain (pnext ?s) (threadlist ?s) [main] 0" "currentthread ?s = main" "mainthread ?s = main" "state_of ?s main = RUNNING"
    "\<And>a. p_kstack (pcbs ?s a) = p_kstack (pcbs s a)"
    using assms(1) by (simp_all add: main_thread_def Let_def)
  obtain s' where c: "create_thread t (at_completion at) pml4 (at_fun1 at) ?s = Some s'" "chain (pnext s') (threadlist s') [main, t] 0"
    "\<And>a. state_of s' a = (if a = t then SLEEPING else state_of ?s a)"
    "\<And>a. p_kstack (pcbs s' a) = (if a = t then replicate (KSTACKLEN - 2) 0 @ [at_fun1 at, at_completion at] else p_kstack (pcbs ?s a))"
    "currentthread s' = main" "mainthread s' = main" "enters t (at_fun1 at) (at_completion at) pml4 (pcbs s' t)"
    by (rule created [OF m(1), of t]) (use assms m in auto)
  have "thread_words (pcbs (switched t s') t) = thread_words (pcbs s' t)"
    by (simp add: switched_def thread_words_def Let_def)
  then have e: "enters t (at_fun1 at) (at_completion at) pml4 (pcbs (switched t s') t)" using c(7) enters_words by blast
  have "chain (pnext s') (threadlist s') ([] @ main # [t]) 0" "state_of s' main \<noteq> BLOCKED"
    using c(2,3) m(4) assms(2) by simp_all
  then have "pick_next s' = Some t"
    using pick_next_spec [of s' "[]" main "[t]"] c(3,5) m(4) assms(2) by (simp add: ready_def)
  then have "first_thread at pml4 t ?s = Some (switched t s')" by (simp add: first_thread_def c(1) schedule_eq)
  moreover have "running_system [main, t] [t] 0 (switched t s')"
    using c m(4) assms by (simp add: running_system_def alive_def switched_def Let_def)
  ultimately show ?thesis
    by (rule that) (use c m assms(2) e in \<open>auto simp: switched_def Let_def\<close>)
qed


lemma schedule_running:
  assumes "running_system xs as i s" "2 \<le> length as"
  obtains s' where "schedule s = Some s'" "running_system xs as (Suc i mod length as) s'"
    "\<And>a. thread_words (pcbs s' a) = thread_words (pcbs s a)"
  using schedule_step [OF assms] unfolding schedule_eq
  by (auto simp: switched_def thread_words_def Let_def)

text \<open>C14: The start of the threads, \<open>main\<close>, \<open>t\<close>, \<open>u\<close> and \<open>v\<close> being the pages for the control blocks, none of them null and no two the same.  \<^verbatim>\<open>start\<close> becomes the first thread;
  \<^verbatim>\<open>context_switch\<close> gives the processor for good to a new thread, the only one that is not over, which enters \<^verbatim>\<open>fun1\<close>.  \<^verbatim>\<open>fun1\<close> makes two more threads and
  gives the processor to the first of them, which enters \<^verbatim>\<open>idle_func\<close>, and one turn of that gives it to the second, which enters
  \<^verbatim>\<open>user_process\<close>.  Each of them starts on an empty kernel stack of its own with the kernel's page table, ten words below its end, and would return to
  \<^verbatim>\<open>thread_on_completion\<close>.  From then on
  the system is one of round robin between these three threads, the boot thread being over.\<close>

theorem boot_starts_user_process:
  assumes "distinct [0, main, t, u, v]" "\<forall>a \<in> {t, u, v}. length (p_kstack (pcbs s a)) = KSTACKLEN"
  shows "\<exists>s1 s2 s3. first_thread at pml4 t (main_thread main pml4 s) = Some s1
    \<and> running_system [main, t] [t] 0 s1 \<and> currentthread s1 = t \<and> enters t (at_fun1 at) (at_completion at) pml4 (pcbs s1 t)
    \<and> fun1 at pml4 u v s1 = Some s2
    \<and> running_system [main, t, u, v] [t, u, v] 1 s2 \<and> currentthread s2 = u \<and> enters u (at_idle_func at) (at_completion at) pml4 (pcbs s2 u)
    \<and> idle_turn s2 = Some s3
    \<and> running_system [main, t, u, v] [t, u, v] 2 s3 \<and> currentthread s3 = v \<and> enters v (at_user_process at) (at_completion at) pml4 (pcbs s3 v)"
proof -
  obtain s1 where s1: "first_thread at pml4 t (main_thread main pml4 s) = Some s1" "running_system [main, t] [t] 0 s1"
      "mainthread s1 = main" "\<And>a. a \<noteq> t \<Longrightarrow> p_kstack (pcbs s1 a) = p_kstack (pcbs s a)"
      "enters t (at_fun1 at) (at_completion at) pml4 (pcbs s1 t)"
    by (rule first_thread_runs [of main t s at pml4]) (use assms in auto)
  obtain s2 where s2: "create_thread u (at_completion at) pml4 (at_idle_func at) s1 = Some s2"
      "running_system [main, t, u] [t, u] 0 s2" "mainthread s2 = main"
      "\<And>a. a \<noteq> u \<Longrightarrow> thread_words (pcbs s2 a) = thread_words (pcbs s1 a)"
      "enters u (at_idle_func at) (at_completion at) pml4 (pcbs s2 u)"
    by (rule created_running [OF s1(2), of u "at_completion at" pml4 "at_idle_func at"]) (use assms s1 in auto)
  have "thread_words (pcbs s2 v) = thread_words (pcbs s1 v)" using s2(4) assms(1) by auto
  moreover have "v \<noteq> t" using assms(1) by auto
  ultimately have l: "length (p_kstack (pcbs s2 v)) = KSTACKLEN" using s1(4) [of v] assms(2) by (simp add: thread_words_def)
  obtain s3 where s3: "create_thread v (at_completion at) pml4 (at_user_process at) s2 = Some s3"
      "running_system [main, t, u, v] [t, u, v] 0 s3"
      "\<And>a. a \<noteq> v \<Longrightarrow> thread_words (pcbs s3 a) = thread_words (pcbs s2 a)"
      "enters v (at_user_process at) (at_completion at) pml4 (pcbs s3 v)"
    by (rule created_running [OF s2(2), of v "at_completion at" pml4 "at_user_process at"]) (use assms s2 l in auto)
  obtain s4 where s4: "schedule s3 = Some s4" "running_system [main, t, u, v] [t, u, v] 1 s4"
      "\<And>a. thread_words (pcbs s4 a) = thread_words (pcbs s3 a)"
    by (rule schedule_running [OF s3(2)]) auto
  obtain s5 where s5: "schedule s4 = Some s5" "running_system [main, t, u, v] [t, u, v] 2 s5"
      "\<And>a. thread_words (pcbs s5 a) = thread_words (pcbs s4 a)"
    by (rule schedule_running [OF s4(2)]) (auto simp: numeral_2_eq_2)
  have "thread_words (pcbs s4 u) = thread_words (pcbs s2 u)" "thread_words (pcbs s5 v) = thread_words (pcbs s3 v)"
    using s4(3) s5(3) s3(3) assms(1) by auto
  then have e: "enters u (at_idle_func at) (at_completion at) pml4 (pcbs s4 u)" "enters v (at_user_process at) (at_completion at) pml4 (pcbs s5 v)"
    using s2(5) s3(4) enters_words by blast+
  have "currentthread s1 = t" "currentthread s4 = u" "currentthread s5 = v" using s1(2) s4(2) s5(2) by (simp_all add: running_system_def)
  moreover have "fun1 at pml4 u v s1 = Some s4" by (simp add: fun1_def s2(1) s3(1) s4(1))
  ultimately show ?thesis using s1(1,2,5) s4(2) s5(1,2) e by (auto simp: idle_turn_def)
qed

theorem boot_starts_user_process_witness:
  "\<exists>s1 s2 s3. first_thread demo_addresses 0x5000 16 (main_thread 8 0x5000 demo_threads) = Some s1
    \<and> fun1 demo_addresses 0x5000 24 32 s1 = Some s2 \<and> currentthread s2 = 24 \<and> p_kstack (pcbs s2 24) ! 398 = 0x3000
    \<and> idle_turn s2 = Some s3 \<and> currentthread s3 = 32 \<and> p_kstack (pcbs s3 32) ! 398 = 0x4000 \<and> p_rsp (pcbs s3 32) = 0xc50"
proof -
  have d: "distinct [0, 8, 16, 24, 32 :: u64]" by simp
  have l: "\<forall>a \<in> {16, 24, 32}. length (p_kstack (pcbs demo_threads a)) = KSTACKLEN" by (simp add: demo_threads_def)
  show ?thesis
    using boot_starts_user_process [OF d l, of demo_addresses "0x5000"]
    by (auto simp: nth_append enters_def demo_addresses_def)
qed

section \<open>From the image of the arguments to \<^verbatim>\<open>main\<close>\<close>

text \<open>The machine's memory holds a byte image: the first \<open>n\<close> words from \<open>a\<close> on.\<close>

definition holds_words :: "cpu \<Rightarrow> memory \<Rightarrow> u64 \<Rightarrow> nat \<Rightarrow> bool" where
  "holds_words c um a n \<longleftrightarrow> (\<forall>k < n. mem c (a + 8 * of_nat k) = load_le um (a + 8 * of_nat k) 8)"

lemma take_bit_split: "take_bit 8 v + 256 * take_bit n (drop_bit 8 v) = take_bit (n + 8) v" for v :: u64
proof -
  have p: "256 * x = push_bit 8 x" for x :: u64 by (simp add: push_bit_eq_mult)
  have d: "take_bit 8 v AND push_bit 8 (take_bit n (drop_bit 8 v)) = 0"
    by (rule bit_word_eqI) (auto simp: bit_simps)
  have "take_bit 8 v OR push_bit 8 (take_bit n (drop_bit 8 v)) = take_bit (n + 8) v"
    by (rule bit_word_eqI) (auto simp: bit_simps)
  then show ?thesis unfolding p disjunctive_add_eq_or [OF d] .
qed

lemma of_char_byte: "(of_char (char_of (uint v)) :: u64) = take_bit 8 v"
proof -
  have g: "(of_char c :: u64) = of_int (of_char c)" for c :: char by (cases c) simp
  have i: "(of_char (char_of (uint v) :: char) :: int) = take_bit 8 (uint v)" by (simp add: take_bit_eq_mod)
  have "(of_char (char_of (uint v)) :: u64) = of_int (of_char (char_of (uint v) :: char))" by (rule g)
  also have "\<dots> = of_int (take_bit 8 (uint v))" by (simp only: i)
  also have "\<dots> = take_bit 8 v" by (metis unsigned_take_bit_eq word_of_int_uint)
  finally show ?thesis .
qed

lemma load_le_bytes_of:
  "(\<And>i. i < n \<Longrightarrow> um (a + of_nat i) = char_of (uint (drop_bit (8 * i) v))) \<Longrightarrow> load_le um a n = take_bit (8 * n) v"
proof (induction n arbitrary: a v)
  case (Suc n)
  have "um (a + 1 + of_nat i) = char_of (uint (drop_bit (8 * i) (drop_bit 8 v)))" if "i < n" for i
    using Suc.prems [of "Suc i"] that by (simp add: algebra_simps)
  from Suc.IH [OF this] have "load_le um (a + 1) n = take_bit (8 * n) (drop_bit 8 v)" .
  moreover have "um a = char_of (uint v)" using Suc.prems [of 0] by simp
  ultimately show ?case using take_bit_split [of v "8 * n"] by (simp add: of_char_byte add.commute)
qed simp

lemma load_le_word:
  assumes "length (pre @ word_bytes v @ post) < 2 ^ 64"
  shows "load_le (store_bytes a (pre @ word_bytes v @ post) um) (a + of_nat (length pre)) 8 = v"
proof -
  let ?b = "pre @ word_bytes v @ post"
  have "store_bytes a ?b um (a + of_nat (length pre) + of_nat i) = char_of (uint (drop_bit (8 * i) v))" if "i < 8" for i
    using store_bytes_at [of "length pre + i" ?b a um] assms that
    by (simp add: algebra_simps nth_append word_bytes_def)
  from load_le_bytes_of [of 8, OF this] show ?thesis by (simp add: take_bit_word_eq_self)
qed

lemma load_le_words:
  assumes "k < length ws" "length (words ws @ post) < 2 ^ 64"
  shows "load_le (store_bytes a (words ws @ post) um) (a + 8 * of_nat k) 8 = ws ! k"
proof -
  have s: "words ws @ post = words (take k ws) @ word_bytes (ws ! k) @ (words (drop (Suc k) ws) @ post)"
    using assms(1) by (subst id_take_nth_drop [of k ws]) simp_all
  have l: "length (words (take k ws)) = 8 * k" using assms(1) by simp
  show ?thesis
    using load_le_word [of "words (take k ws)" "ws ! k" "words (drop (Suc k) ws) @ post" a um] assms(2)
    unfolding s l by simp
qed


lemma layout_words_at:
  assumes "k < length as"
  shows "layout_words as es base ! (3 + k) = addresses (args_at as es base) as ! k"
  using assms by (simp add: layout_words_def Let_def nth_append)

lemma layout_words_env:
  assumes "k < length es"
  shows "layout_words as es base ! (length as + 4 + k) = addresses (base - of_nat (length (strings es))) es ! k"
  using assms by (simp add: layout_words_def Let_def nth_append)

text \<open>C13: From \<^verbatim>\<open>exec\<close> to \<^verbatim>\<open>main\<close>: when \<^verbatim>\<open>switch_to_ring_3\<close> enters the program whose stack \<^verbatim>\<open>exec\<close> has built, the program runs in user
  mode at its entry, with interrupts enabled and its own page table, and its first instructions call \<^verbatim>\<open>main\<close> with the number of arguments and the
  addresses of the two vectors, whose entries lead to the strings of the arguments and of the environment.  It relies on
  one word that the compiler pushes in \<^verbatim>\<open>_start\<close> before.\<close>

theorem program_gets_arguments:
  assumes "argc \<le> length args" "envc \<le> length envs" "\<And>r. r \<in> set args \<union> set envs \<Longrightarrow> terminated r"
    and "length (strings (take argc args)) + length (strings (take envc envs)) + 8 * (argc + envc + 5) < 2 ^ 63"
    and "stack_layout args argc envs envc base um = Some (sp, um')"
    and "holds_words c um' sp 3" "mem c (pcb_ursp th) = sp" "mem c (pcb_gotoaddr th) = entry"
    and "{pcb_ursp th, pcb_gotoaddr th, sp, sp + 8, sp + 16} \<inter> below (gpr c RSP) = {}"
    and "c' = switch_to_ring_3 th c" "d = crt_start main after (push_word fp c')"
  shows "rip c' = entry \<and> user_mode c' \<and> tss_rsp0 c' = slot th 399 \<and> rflags c' AND IF_BIT = IF_BIT
      \<and> cr3 c' = mem c (pcb_page_table th) AND NOT 0xFFF
    \<and> rip d = main \<and> gpr d RDI = of_nat argc
    \<and> (\<forall>i < argc. text_at um' (load_le um' (gpr d RSI + 8 * of_nat i) 8) (cstr (args ! i)))
    \<and> (\<forall>i < envc. text_at um' (load_le um' (gpr d RDX + 8 * of_nat i) 8) (cstr (envs ! i)))"
proof -
  define as es where "as = take argc args" and "es = take envc envs"
  have l: "length as = argc" "length es = envc" using assms(1,2) by (simp_all add: as_def es_def)
  define ws where "ws = layout_words as es base"
  have lw: "length ws = argc + envc + 5" by (simp add: ws_def layout_words_def Let_def l)
  have sz: "length (strings as) + length (strings es) + 8 * (length as + length es + 5) < 2 ^ 63"
    using assms(4) unfolding l by (simp add: as_def es_def)
  have sp: "sp = layout_pointer as es base" and um: "um' = store_bytes sp (words (layout_words as es base) @ strings as @ strings es) um"
    using assms(5) stack_layout_image [OF assms(1-4), of base um] by (simp_all add: Let_def as_def es_def)
  have w: "load_le um' (sp + 8 * of_nat k) 8 = ws ! k" if "k < argc + envc + 5" for k
    using load_le_words [of k ws "strings as @ strings es" sp um] sz that unfolding um ws_def [symmetric] by (simp add: lw l)
  have m: "mem c sp = of_nat argc" "mem c (sp + 8) = sp + 24" "mem c (sp + 16) = sp + 24 + 8 * of_nat (argc + 1)"
    using assms(6) [unfolded holds_words_def, rule_format, of 0] assms(6) [unfolded holds_words_def, rule_format, of 1]
      assms(6) [unfolded holds_words_def, rule_format, of 2] w [of 0] w [of 1] w [of 2]
    by (simp_all add: ws_def layout_words_def Let_def sp l)
  have r: "pcb_ursp th \<notin> below (gpr c RSP)" "pcb_gotoaddr th \<notin> below (gpr c RSP)" and
    n: "sp \<notin> below (gpr c RSP)" "sp + 8 \<notin> below (gpr c RSP)" "sp + 16 \<notin> below (gpr c RSP)"
    using assms(9) by auto
  note c' = ring_3_state [OF r, folded assms(10)]
  have m': "mem c' (gpr c' RSP) = of_nat argc" "mem c' (gpr c' RSP + 8) = sp + 24"
    "mem c' (gpr c' RSP + 16) = sp + 24 + 8 * of_nat (argc + 1)"
    unfolding c'(2) assms(7) by (simp_all add: c'(7) n m)
  have d: "rip d = main" "gpr d RDI = of_nat argc" "gpr d RSI = sp + 24" "gpr d RDX = sp + 24 + 8 * of_nat (argc + 1)"
    unfolding assms(11) using crt_start_state(1-4) [OF m'] by simp_all
  have a: "text_at um' (load_le um' (gpr d RSI + 8 * of_nat i) 8) (cstr (args ! i))" if "i < argc" for i
    using w [of "3 + i"] layout_words_at [of i as es base] layout_texts(1) [OF sp um sz, of i] that assms(1)
    by (simp add: d(3) ws_def l as_def algebra_simps)
  have e: "text_at um' (load_le um' (gpr d RDX + 8 * of_nat i) 8) (cstr (envs ! i))" if "i < envc" for i
    using w [of "argc + 4 + i"] layout_words_env [of i es as base] layout_texts(2) [OF sp um sz, of i] that assms(2)
    by (simp add: d(4) ws_def l es_def algebra_simps)
  show ?thesis
    using c' d a e assms(7,8) by (simp add: user_mode_def)
qed


text \<open>The program \<^verbatim>\<open>ls\<close> with an option.\<close>

definition demo_args :: "string list" where
  "demo_args = [''ls'' @ [NUL], ''-l'' @ [NUL]]"

definition demo_image :: "u64 \<times> memory" where
  "demo_image = the (stack_layout demo_args 2 [] 0 0x1000 (\<lambda>_. CHR ''?''))"

definition demo_ring_0 :: cpu where
  "demo_ring_0 = demo_cpu\<lparr>gpr := (gpr demo_cpu)(RSP := 0x90000),
     mem := (\<lambda>x. if x = pcb_ursp 0x10000 then fst demo_image else if x = pcb_gotoaddr 0x10000 then 0x400000
               else load_le (snd demo_image) x 8)\<rparr>"

lemma all_below_3: "(\<forall>k < 3. P k) \<longleftrightarrow> P 0 \<and> P 1 \<and> P (2 :: nat)"
  by (auto simp: numeral_3_eq_3 numeral_2_eq_2 less_Suc_eq)

theorem program_gets_arguments_witness:
  "\<exists>d. d = crt_start 0x400100 0x400020 (push_word 0 (switch_to_ring_3 0x10000 demo_ring_0)) \<and> gpr d RDI = 2
     \<and> text_at (snd demo_image) (load_le (snd demo_image) (gpr d RSI + 8) 8) ''-l''"
proof -
  have t: "\<And>r. r \<in> set demo_args \<union> set [] \<Longrightarrow> terminated r" by (auto simp: demo_args_def terminated_def)
  have c: "cstr (''ls'' @ [NUL]) = ''ls''" "cstr (''-l'' @ [NUL]) = ''-l''" by (simp_all add: cstr_Cons NUL_def)
  have sz: "length (strings (take 2 demo_args)) + length (strings (take 0 [])) + 8 * (2 + 0 + 5) < 2 ^ 63"
    by (simp add: demo_args_def c del: append.simps)
  have n: "2 \<le> length demo_args" "0 \<le> length ([] :: string list)" by (simp_all add: demo_args_def)
  have "layout_pointer demo_args [] 0x1000 = 0xfc2"
    unfolding layout_pointer_def args_at_def demo_args_def strings_simps c by simp
  moreover have "take 2 demo_args = demo_args" by (simp add: demo_args_def)
  ultimately have i: "stack_layout demo_args 2 [] 0 0x1000 (\<lambda>_. CHR ''?'') = Some (fst demo_image, snd demo_image)" "fst demo_image = 0xfc2"
    using stack_layout_image [OF n t sz, of "0x1000" "\<lambda>_. CHR ''?''"] by (simp_all add: demo_image_def Let_def)
  have w: "holds_words demo_ring_0 (snd demo_image) (fst demo_image) 3"
    unfolding holds_words_def all_below_3 by (simp add: demo_ring_0_def i(2) slot_def)
  have b: "{pcb_ursp 0x10000, pcb_gotoaddr 0x10000, fst demo_image, fst demo_image + 8, fst demo_image + 16} \<inter> below (gpr demo_ring_0 RSP) = {}"
    by (simp add: below_def demo_ring_0_def i(2) slot_def)
  have p: "mem demo_ring_0 (pcb_ursp 0x10000) = fst demo_image" "mem demo_ring_0 (pcb_gotoaddr 0x10000) = 0x400000"
    by (simp_all add: demo_ring_0_def slot_def)
  have a: "cstr (demo_args ! 1) = ''-l''" unfolding demo_args_def by (simp add: c del: append.simps)
  let ?d = "crt_start 0x400100 0x400020 (push_word 0 (switch_to_ring_3 0x10000 demo_ring_0))"
  have "gpr ?d RDI = of_nat 2" and
    "\<forall>k<2. text_at (snd demo_image) (load_le (snd demo_image) (gpr ?d RSI + 8 * of_nat k) 8) (cstr (demo_args ! k))"
    using program_gets_arguments [OF n t sz i(1) w p b refl refl, of "0x400100" "0x400020" 0] by blast+
  from this(1) this(2) [rule_format, of 1] show ?thesis by (simp add: a del: One_nat_def)
qed

end
