(* ===== verification/Ahci.thy ===== *)
theory Ahci
  imports Disk
begin

text \<open>
  The layouts of \<^verbatim>\<open>include/sys/ahci.h\<close>: the frames that pass between host and device, the command structures in memory and
  the registers.  A structure is the list of its fields with their widths; all of them are packed, and some are aligned.
  The lemmas relate the offsets that the driver's model uses as numbers to the fields they stand for.
\<close>

section \<open>Packed structures\<close>

datatype layout = Bits nat | Array nat layout | Struct "(string \<times> layout) list" nat

abbreviation U8 :: layout where "U8 \<equiv> Bits 8"
abbreviation U16 :: layout where "U16 \<equiv> Bits 16"
abbreviation U32 :: layout where "U32 \<equiv> Bits 32"
abbreviation U64 :: layout where "U64 \<equiv> Bits 64"

definition round_up :: "nat \<Rightarrow> nat \<Rightarrow> nat" where
  "round_up a n = (n + (a - 1)) div a * a"

text \<open>The width in bits; a structure takes whole bytes, and a multiple of its alignment.\<close>

fun bit_width :: "layout \<Rightarrow> nat" where
  "bit_width (Bits n) = n"
| "bit_width (Array n t) = n * bit_width t"
| "bit_width (Struct fs a) = 8 * round_up a (round_up 8 (sum_list (map (\<lambda>(_, t). bit_width t) fs)) div 8)"

definition sizeof :: "layout \<Rightarrow> nat" where
  "sizeof t = bit_width t div 8"

text \<open>The first bit and the width of a field.\<close>

fun find_field :: "(string \<times> layout) list \<Rightarrow> string \<Rightarrow> nat \<Rightarrow> (nat \<times> nat) option" where
  "find_field [] x pos = None"
| "find_field ((y, t) # fs) x pos = (if y = x then Some (pos, bit_width t) else find_field fs x (pos + bit_width t))"

fun field_of :: "layout \<Rightarrow> string \<Rightarrow> (nat \<times> nat) option" where
  "field_of (Struct fs a) x = find_field fs x 0"
| "field_of _ x = None"

definition offset_of :: "layout \<Rightarrow> string \<Rightarrow> nat option" where
  "offset_of t x = map_option (\<lambda>(pos, _). pos div 8) (field_of t x)"

section \<open>Frames\<close>

datatype fis_type = FIS_TYPE_REG_H2D | FIS_TYPE_REG_D2H | FIS_TYPE_DMA_ACT | FIS_TYPE_DMA_SETUP | FIS_TYPE_DATA
  | FIS_TYPE_BIST | FIS_TYPE_PIO_SETUP | FIS_TYPE_DEV_BITS

fun fis_code :: "fis_type \<Rightarrow> u8" where
  "fis_code FIS_TYPE_REG_H2D = 0x27"
| "fis_code FIS_TYPE_REG_D2H = 0x34"
| "fis_code FIS_TYPE_DMA_ACT = 0x39"
| "fis_code FIS_TYPE_DMA_SETUP = 0x41"
| "fis_code FIS_TYPE_DATA = 0x46"
| "fis_code FIS_TYPE_BIST = 0x58"
| "fis_code FIS_TYPE_PIO_SETUP = 0x5F"
| "fis_code FIS_TYPE_DEV_BITS = 0xA1"

definition fis_reg_h2d_t :: layout where
  "fis_reg_h2d_t = Struct
     [(''fis_type'', U8), (''pmport'', Bits 4), (''rsv0'', Bits 3), (''c'', Bits 1), (''command'', U8), (''featurel'', U8),
      (''lba0'', U8), (''lba1'', U8), (''lba2'', U8), (''device'', U8),
      (''lba3'', U8), (''lba4'', U8), (''lba5'', U8), (''featureh'', U8),
      (''count'', U16), (''icc'', U8), (''control'', U8), (''aux'', U16), (''rsv1'', Array 2 U8)] 1"

definition fis_reg_d2h_t :: layout where
  "fis_reg_d2h_t = Struct
     [(''fis_type'', U8), (''pmport'', Bits 4), (''rsv0'', Bits 2), (''i'', Bits 1), (''rsv1'', Bits 1), (''status'', U8), (''error'', U8),
      (''lba0'', U8), (''lba1'', U8), (''lba2'', U8), (''device'', U8),
      (''lba3'', U8), (''lba4'', U8), (''lba5'', U8), (''rsv2'', U8),
      (''count'', U16), (''rsv3'', Array 2 U8), (''rsv4'', Array 4 U8)] 1"

definition fis_dev_bits_t :: layout where
  "fis_dev_bits_t = Struct
     [(''fis_type'', U8), (''pmport'', Bits 4), (''rsv0'', Bits 2), (''i'', Bits 1), (''n'', Bits 1),
      (''statusl'', Bits 3), (''rsv1'', Bits 1), (''statush'', Bits 3), (''rsv2'', Bits 1), (''error'', U8), (''protocol'', U32)] 1"

definition fis_dma_setup_t :: layout where
  "fis_dma_setup_t = Struct
     [(''fis_type'', U8), (''pmport'', Bits 4), (''rsv0'', Bits 1), (''d'', Bits 1), (''i'', Bits 1), (''a'', Bits 1), (''rsved'', Array 2 U8),
      (''buf_id'', U64), (''rsv1'', U32), (''buf_offset'', U32), (''trans_count'', U32), (''rsv2'', U32)] 1"

definition fis_pio_setup_t :: layout where
  "fis_pio_setup_t = Struct
     [(''fis_type'', U8), (''pmport'', Bits 4), (''rsv0'', Bits 1), (''d'', Bits 1), (''i'', Bits 1), (''rsv1'', Bits 1), (''status'', U8), (''error'', U8),
      (''lba0'', U8), (''lba1'', U8), (''lba2'', U8), (''device'', U8),
      (''lba3'', U8), (''lba4'', U8), (''lba5'', U8), (''rsv2'', U8),
      (''count'', U16), (''rsv3'', U8), (''e_status'', U8), (''trans_count'', U16), (''rsv4'', Array 2 U8)] 1"

definition fis_data_t :: layout where
  "fis_data_t = Struct
     [(''fis_type'', U8), (''pmport'', Bits 4), (''rsv0'', Bits 4), (''rsv1'', Array 2 U8), (''data'', Array 1 U32)] 1"

section \<open>Commands and registers\<close>

definition hba_prdt_entry_t :: layout where
  "hba_prdt_entry_t = Struct [(''dba'', U64), (''rsv0'', U32), (''dbc'', Bits 22), (''rsv1'', Bits 9), (''i'', Bits 1)] 1"

definition hba_cmd_tbl_t :: layout where
  "hba_cmd_tbl_t = Struct
     [(''cfis'', Array 64 U8), (''acmd'', Array 16 U8), (''rsv'', Array 48 U8), (''prdt_entry'', Array 1 hba_prdt_entry_t)] 128"

definition hba_cmd_header_t :: layout where
  "hba_cmd_header_t = Struct
     [(''cfl'', Bits 5), (''a'', Bits 1), (''w'', Bits 1), (''p'', Bits 1), (''r'', Bits 1), (''b'', Bits 1), (''c'', Bits 1),
      (''rsv0'', Bits 1), (''pmp'', Bits 4), (''prdtl'', U16), (''prdbc'', U32), (''ctba'', U64), (''rsv1'', Array 4 U32)] 1"

definition hba_fis_t :: layout where
  "hba_fis_t = Struct
     [(''dsfis'', fis_dma_setup_t), (''pad0'', Array 4 U8), (''psfis'', fis_pio_setup_t), (''pad1'', Array 12 U8),
      (''rfis'', fis_reg_d2h_t), (''pad2'', Array 4 U8), (''sdbfis'', fis_dev_bits_t), (''ufis'', Array 64 U8), (''rsv'', Array 96 U8)] 256"

definition MAX_CMD_SLOT_CNT :: nat where "MAX_CMD_SLOT_CNT = 32"
definition MAX_PORT_CNT :: nat where "MAX_PORT_CNT = 32"

definition hba_cmd_list_t :: layout where
  "hba_cmd_list_t = Struct [(''headers'', Array MAX_CMD_SLOT_CNT hba_cmd_header_t)] 1024"

definition hba_port_t :: layout where
  "hba_port_t = Struct
     [(''clb'', U64), (''fb'', U64), (''is_rwc'', U32), (''ie'', U32), (''cmd'', U32), (''rsv0'', U32), (''tfd'', U32), (''sig'', U32),
      (''ssts'', U32), (''sctl'', U32), (''serr_rwc'', U32), (''sact'', U32), (''ci'', U32), (''sntf_rwc'', U32), (''fbs'', U32),
      (''rsv1'', Array 11 U32), (''vendor'', Array 4 U32)] 1"

definition hba_mem_t :: layout where
  "hba_mem_t = Struct
     [(''cap'', U32), (''ghc'', U32), (''is_rwc'', U32), (''pi'', U32), (''vs'', U32), (''ccc_ctl'', U32), (''ccc_pts'', U32),
      (''em_loc'', U32), (''em_ctl'', U32), (''cap2'', U32), (''bohc'', U32), (''rsv'', Array (0xA0 - 0x2C) U8),
      (''vendor'', Array (0x100 - 0xA0) U8), (''ports'', Array MAX_PORT_CNT hba_port_t)] 1"

lemmas layouts = fis_reg_h2d_t_def fis_reg_d2h_t_def fis_dev_bits_t_def fis_dma_setup_t_def fis_pio_setup_t_def fis_data_t_def
  hba_prdt_entry_t_def hba_cmd_tbl_t_def hba_cmd_header_t_def hba_fis_t_def hba_cmd_list_t_def hba_port_t_def hba_mem_t_def

lemmas layout_eval = layouts sizeof_def offset_of_def round_up_def MAX_CMD_SLOT_CNT_def MAX_PORT_CNT_def

section \<open>The offsets that the driver uses\<close>

text \<open>The sizes of the frames, and the places where the comments of the header put them.\<close>

lemma frame_sizes:
  "map sizeof [fis_reg_h2d_t, fis_reg_d2h_t, fis_dev_bits_t, fis_dma_setup_t, fis_pio_setup_t, fis_data_t] = [20, 20, 8, 28, 20, 8]"
  by (simp add: layout_eval)

lemma received_frames:
  "map (offset_of hba_fis_t) [''dsfis'', ''psfis'', ''rfis'', ''sdbfis'', ''ufis'', ''rsv''] = map Some [0, 0x20, 0x40, 0x58, 0x60, 0xA0]"
  by (simp add: layout_eval)

text \<open>The areas that \<^verbatim>\<open>port_rebase\<close> reserves: 1024 bytes for the commands of a port, 256 for its frames, 256 for a command table.
  The table has one region by its type; with the alignment there is room for eight.\<close>

lemma area_sizes:
  "sizeof hba_cmd_list_t = 1024 \<and> sizeof hba_cmd_header_t = 32 \<and> sizeof hba_fis_t = 256 \<and> sizeof hba_cmd_tbl_t = 256
   \<and> offset_of hba_cmd_tbl_t ''prdt_entry'' = Some 0x80 \<and> 0x80 + 8 * sizeof hba_prdt_entry_t = sizeof hba_cmd_tbl_t"
  by (simp add: layout_eval)

lemma port_offsets:
  "offset_of hba_mem_t ''ports'' = Some 0x100 \<and> sizeof hba_port_t = 0x80
   \<and> map (offset_of hba_port_t) [''clb'', ''fb'', ''is_rwc'', ''cmd'', ''tfd'', ''sig'', ''ssts'', ''sctl'', ''serr_rwc'', ''sact'', ''ci'', ''vendor'']
     = map Some [0, 8, 0x10, 0x18, 0x20, 0x24, 0x28, 0x2C, 0x30, 0x34, 0x38, 0x70]"
  by (simp add: layout_eval)


section \<open>The driver writes the fields of the layouts\<close>

text \<open>An assignment to a field of a structure at \<open>base\<close>: the field lies in one double word.\<close>

definition assign :: "layout \<Rightarrow> u64 \<Rightarrow> string \<Rightarrow> u32 \<Rightarrow> dwords \<Rightarrow> dwords" where
  "assign t base x v m =
     (case field_of t x of None \<Rightarrow> m
      | Some (pos, len) \<Rightarrow> (let a = base + 4 * of_nat (pos div 32) in m(a := set_field (pos mod 32) len v (m a))))"

text \<open>The fields of the command frame in the order of \<^verbatim>\<open>read\<close> and \<^verbatim>\<open>write_to_disk\<close>.\<close>

definition frame_fields :: "bool \<Rightarrow> u32 \<Rightarrow> u32 \<Rightarrow> u32 \<Rightarrow> (string \<times> u32) list" where
  "frame_fields reading startl starth count =
     [(''fis_type'', ucast (fis_code FIS_TYPE_REG_H2D))] @ (if reading then [(''pmport'', 0)] else []) @
     [(''c'', 1), (''command'', if reading then 0x25 else 0x35)] @ (if reading then [(''featurel'', 0)] else []) @
     [(''lba0'', startl), (''lba1'', drop_bit 8 startl), (''lba2'', drop_bit 16 startl), (''device'', 0x40),
      (''lba3'', drop_bit 24 startl), (''lba4'', starth), (''lba5'', drop_bit 8 starth), (''count'', count)]"

lemma field_places:
  "map (field_of fis_reg_h2d_t) [''fis_type'', ''pmport'', ''c'', ''command'', ''featurel'', ''lba0'', ''lba1'', ''lba2'', ''device'',
     ''lba3'', ''lba4'', ''lba5'', ''count'']
   = map Some [(0, 8), (8, 4), (15, 1), (16, 8), (24, 8), (32, 8), (40, 8), (48, 8), (56, 8), (64, 8), (72, 8), (80, 8), (96, 16)]"
  "map (field_of hba_cmd_header_t) [''cfl'', ''w'', ''prdtl'', ''ctba''] = map Some [(0, 5), (6, 1), (16, 16), (64, 64)]"
  "map (field_of hba_prdt_entry_t) [''dba'', ''dbc'', ''i''] = map Some [(0, 64), (96, 22), (127, 1)]"
  by (simp_all add: layout_eval)

text \<open>The numbers in the driver's command are the places of the fields that the code assigns: the header, every region of the table and
  the frame are written field by field as the layouts of the header file place them, and the length of the command is that of
  its frame.\<close>

theorem driver_assigns_fields:
  "fill_header header w prdtl m =
     assign hba_cmd_header_t header ''prdtl'' (ucast prdtl) (assign hba_cmd_header_t header ''w'' w
       (assign hba_cmd_header_t header ''cfl'' (of_nat (sizeof fis_reg_h2d_t div 4)) m))
   \<and> prdt_entry tbl i = tbl + of_nat (the (offset_of hba_cmd_tbl_t ''prdt_entry'')) + of_nat (sizeof hba_prdt_entry_t) * of_nat i
   \<and> put_entry e dba dbc m = assign hba_prdt_entry_t e ''i'' 1 (assign hba_prdt_entry_t e ''dbc'' dbc (put64 e dba m))
   \<and> fill_fis reading tbl startl starth count m =
      fold (\<lambda>(x, v). assign fis_reg_h2d_t tbl x v) (frame_fields reading startl starth count) m"
proof (intro conjI)
  show "fill_header header w prdtl m =
     assign hba_cmd_header_t header ''prdtl'' (ucast prdtl) (assign hba_cmd_header_t header ''w'' w
       (assign hba_cmd_header_t header ''cfl'' (of_nat (sizeof fis_reg_h2d_t div 4)) m))"
    using field_places(2) frame_sizes by (simp add: assign_def fill_header_def)
  show "prdt_entry tbl i = tbl + of_nat (the (offset_of hba_cmd_tbl_t ''prdt_entry'')) + of_nat (sizeof hba_prdt_entry_t) * of_nat i"
    by (simp add: prdt_entry_def layout_eval)
  show "put_entry e dba dbc m = assign hba_prdt_entry_t e ''i'' 1 (assign hba_prdt_entry_t e ''dbc'' dbc (put64 e dba m))"
    using field_places(3) by (simp add: assign_def put_entry_def Let_def)
  show "fill_fis reading tbl startl starth count m =
      fold (\<lambda>(x, v). assign fis_reg_h2d_t tbl x v) (frame_fields reading startl starth count) m"
    using field_places(1) by (simp add: assign_def fill_fis_def frame_fields_def Let_def)
qed

end
