(* ===== verification/Tree_Print.thy ===== *)
theory Tree_Print
  imports Fs
begin

text \<open>
  The functions of \<^verbatim>\<open>sys/fs.c\<close> that the kernel has for tests and later use, and does not call: \<^verbatim>\<open>open_vfs\<close>, \<^verbatim>\<open>do_read\<close>
  and \<^verbatim>\<open>print_path\<close>, which prints the file tree.  What is printed is the list of the texts of the calls of \<^verbatim>\<open>kprintf\<close>.
\<close>

section \<open>The functions\<close>

text \<open>\<open>run f name\<close> is the result of the function behind a function pointer.\<close>

definition open_vfs :: "(file_fn \<Rightarrow> string \<Rightarrow> int) \<Rightarrow> u64 \<Rightarrow> string \<Rightarrow> fsys \<Rightarrow> int" where
  "open_vfs run node file_name s =
     (if i_open (inodes s node) \<noteq> NoFn then run (i_open (inodes s node)) file_name else 0)"

text \<open>Words are copied from the position, which is an address; the offset and the key are not used.\<close>

definition do_read :: "(u64 \<Rightarrow> u64) \<Rightarrow> u64 list \<Rightarrow> int \<Rightarrow> u64 \<Rightarrow> (int \<times> u64 list) option" where
  "do_read mem buf sz position =
     do { buf \<leftarrow> for_n 0 (nat sz) (\<lambda>i b. aput b i (mem (position + 8 * of_nat i))) buf;
          Some (0, buf) }"

text \<open>One line of \<^verbatim>\<open>print_path\<close>, and its second loop over \<open>n\<close> remaining files.\<close>

definition path_line :: "fsys \<Rightarrow> u64 \<Rightarrow> u64 \<Rightarrow> string option" where
  "path_line s node sub =
     (let a = t_name (tnodes s node); b = t_name (tnodes s sub)
      in if terminated a \<and> terminated b then Some ('' '' @ cstr a @ '' -> '' @ cstr b @ '' \<newline>'') else None)"

fun print_files :: "fsys \<Rightarrow> u64 \<Rightarrow> nat \<Rightarrow> nat \<Rightarrow> string list option" where
  "print_files s node i 0 = Some []"
| "print_files s node i (Suc n) =
     do { l \<leftarrow> path_line s node (tnode_at (sub_files_list (inode_of s node)) i);
          ls \<leftarrow> print_files s node (Suc i) n;
          Some (l # ls) }"

text \<open>\<^verbatim>\<open>print_path\<close> from the directory number \<open>i\<close> on; a tree that contains itself is printed for ever.\<close>

partial_function (option) print_from :: "fsys \<Rightarrow> u64 \<Rightarrow> nat \<Rightarrow> string list option" where
  "print_from s node i =
     (let ino = inode_of s node
      in if int i < num_sub_directory ino
         then do { let sub = tnode_at (sub_directory_list ino) i;
                   l \<leftarrow> path_line s node sub;
                   below \<leftarrow> print_from s sub 0;
                   rest \<leftarrow> print_from s node (Suc i);
                   Some (l # below @ rest) }
         else print_files s node 0 (nat (num_sub_files ino)))"

declare print_from.simps [simp del]

definition print_path :: "fsys \<Rightarrow> u64 \<Rightarrow> string list option" where
  "print_path s current_node = print_from s current_node 0"

section \<open>Reading\<close>

lemma do_read_eq:
  "do_read mem buf sz position =
    (if nat sz \<le> length buf then Some (0, map (\<lambda>i. mem (position + 8 * of_nat i)) [0..<nat sz] @ drop (nat sz) buf) else None)"
  by (simp add: do_read_def for_n_fill)

section \<open>The printed tree\<close>

definition entry_line :: "string \<Rightarrow> ftree \<Rightarrow> string" where
  "entry_line nm t = '' '' @ nm @ '' -> '' @ ename t @ '' \<newline>''"

text \<open>The listing: behind the line of a directory the listing of it, then the files.\<close>

fun listing :: "ftree \<Rightarrow> string list" where
  "listing (Entry nm a d ds fs) = concat (map (\<lambda>t. entry_line nm t # listing t) ds) @ map (entry_line nm) fs"

fun folders :: "ftree \<Rightarrow> bool" where
  "folders (Entry nm a d ds fs) \<longleftrightarrow> d \<and> (\<forall>t \<in> set ds. folders t)"

lemma repr_name: "repr s t \<Longrightarrow> terminated (t_name (tnodes s (eaddr t))) \<and> cstr (t_name (tnodes s (eaddr t))) = ename t"
  by (cases t) simp

lemma path_line_entry:
  assumes "repr s p" "repr s t"
  shows "path_line s (eaddr p) (eaddr t) = Some (entry_line (ename p) t)"
  using repr_name [OF assms(1)] repr_name [OF assms(2)] by (simp add: path_line_def entry_line_def)

lemma print_files_lines:
  assumes "repr s p" "\<And>j. j < length ts \<Longrightarrow> eaddr (ts ! j) = tnode_at (sub_files_list (inode_of s (eaddr p))) (i + j)"
    and "\<forall>t \<in> set ts. repr s t"
  shows "print_files s (eaddr p) i (length ts) = Some (map (entry_line (ename p)) ts)"
  using assms(2,3)
proof (induction ts arbitrary: i)
  case (Cons t ts)
  have "path_line s (eaddr p) (tnode_at (sub_files_list (inode_of s (eaddr p))) i) = Some (entry_line (ename p) t)"
    using path_line_entry [OF assms(1), of t] Cons.prems(1) [of 0] Cons.prems(2) by simp
  moreover have "print_files s (eaddr p) (Suc i) (length ts) = Some (map (entry_line (ename p)) ts)"
    by (rule Cons.IH) (use Cons.prems Cons.prems(1) [of "Suc j" for j] in auto)
  ultimately show ?case by simp
qed simp

lemma print_dirs_lines:
  assumes p: "p = Entry nm a True all fs" and "repr s p" "all = done @ ts"
    and "\<And>t. t \<in> set ts \<Longrightarrow> print_from s (eaddr t) 0 = Some (listing t)"
  shows "print_from s a (length done) = Some (concat (map (\<lambda>t. entry_line nm t # listing t) ts) @ map (entry_line nm) fs)"
  using assms(3,4)
proof (induction ts arbitrary: "done")
  case Nil
  have "print_files s (eaddr p) 0 (length fs) = Some (map (entry_line nm) fs)"
    using print_files_lines [OF assms(2), of fs 0] assms(2) p by (simp add: stored_at_def)
  then show ?case using assms(2) p Nil by (subst print_from.simps) (simp add: Let_def)
next
  case (Cons t ts)
  have "tnode_at (sub_directory_list (inode_of s a)) (length done) = eaddr t"
    using assms(2) p Cons.prems(1) by (auto simp: stored_at_def dest!: spec [of _ "length done"])
  moreover have "path_line s a (eaddr t) = Some (entry_line nm t)"
    using path_line_entry [OF assms(2), of t] assms(2) p Cons.prems(1) by simp
  moreover have "print_from s a (Suc (length done)) = Some (concat (map (\<lambda>t. entry_line nm t # listing t) ts) @ map (entry_line nm) fs)"
    using Cons.IH [of "done @ [t]"] Cons.prems by simp
  moreover have "int (length done) < num_sub_directory (inode_of s a)" using assms(2) p Cons.prems(1) by simp
  ultimately show ?case using Cons.prems(2) [of t] by (subst print_from.simps) (simp add: Let_def)
qed

text \<open>The code prints the listing of the tree that its structures represent.\<close>

theorem print_path_lists_tree:
  assumes "repr s t" "folders t"
  shows "print_path s (eaddr t) = Some (listing t)"
  using assms unfolding print_path_def
proof (induction t)
  case (Entry nm a d ds fs)
  have "print_from s (eaddr t) 0 = Some (listing t)" if "t \<in> set ds" for t
    using Entry.IH(1) [OF that] Entry.prems that by simp
  then show ?case
    using print_dirs_lines [of "Entry nm a d ds fs" nm a ds fs s "[]" ds] Entry.prems by simp
qed

theorem print_path_lists_tree_witness:
  "print_path demo_fs 100 = Some ['' / -> bin/ \<newline>'', '' bin/ -> ls \<newline>'']"
  using print_path_lists_tree [OF conjunct1 [OF demo_repr]] by (simp add: demo_tree_def entry_line_def)

end
