(* ===== verification/Spec2Isabelle.thy ===== *)
theory Spec2Isabelle
  imports Klibc Syscalls Interrupts Exec Console Disk Programs System_Call Start Ahci Tree_Print
begin

text \<open>
  \<^bold>\<open>A verification library for the kernel.\<close>

  The program is a small preemptive 64-bit operating system.  The kernel under \<^verbatim>\<open>src/sys/\<close> owns physical memory
  (\<^verbatim>\<open>allocator.c\<close>), builds page tables (\<^verbatim>\<open>virtualmem.c\<close>), keeps processes in linked lists that the timer
  rotates (\<^verbatim>\<open>contextswitch.c\<close>, \<^verbatim>\<open>process.c\<close>, \<^verbatim>\<open>idt.c\<close>), reads programs and files from a tar archive that is linked
  to the kernel (\<^verbatim>\<open>tarfs.c\<close>, \<^verbatim>\<open>fs.c\<close>), and offers system calls (\<^verbatim>\<open>syscall.c\<close>) to the programs under \<^verbatim>\<open>src/bin/\<close>.

  \<^bold>\<open>Which theory models what.\<close>

  \<^item> \<^verbatim>\<open>Kernel_Prelude\<close>: words, arrays that fault outside of their bounds, counted loops, C strings, chains of
    pointers.
  \<^item> \<^verbatim>\<open>Klibc\<close>: \<^verbatim>\<open>sys/klibc.c\<close>, every function with the exact set of its faults.
  \<^item> \<^verbatim>\<open>Frame_Queue\<close>, \<^verbatim>\<open>Allocator\<close>: the abstract queue of frames as a locale, and \<^verbatim>\<open>sys/allocator.c\<close>: the ring of
    \<^verbatim>\<open>struct free_list\<close> nodes with its three pointers.  The ring refines the queue
    (\<^verbatim>\<open>allocator_refines_queue\<close>), and \<^verbatim>\<open>boot_pool_frames\<close> shows which frames the boot sequence puts into it.
  \<^item> \<^verbatim>\<open>Paging\<close>, \<^verbatim>\<open>Address_Space\<close>, \<^verbatim>\<open>Cow\<close>: \<^verbatim>\<open>sys/virtualmem.c\<close>, \<^verbatim>\<open>bump\<close> and \<^verbatim>\<open>kfree\<close>.  Tables are words in a memory
    of quadwords, the page walk of the processor is \<^verbatim>\<open>walk\<close>.  What mapping needs of an allocator of tables is the
    locale \<^verbatim>\<open>table_source\<close>, interpreted by \<^verbatim>\<open>bump\<close>.
  \<^item> \<^verbatim>\<open>Objects\<close>, \<^verbatim>\<open>Process\<close>: \<^verbatim>\<open>bump\<close> as an allocator of kernel structures, and \<^verbatim>\<open>sys/process.c\<close>: memory areas,
    \<^verbatim>\<open>copy_process\<close>, \<^verbatim>\<open>createheap\<close>, the entries of \<^verbatim>\<open>/proc\<close>, and \<^verbatim>\<open>sys_fork\<close>.  The record \<^verbatim>\<open>kernel\<close> extends
    the memory of the paging theory by the process table, the areas and the file system.
    The locale \<^verbatim>\<open>object_source\<close> states what copying needs of an allocator, \<^verbatim>\<open>bump\<close> interprets it.
  \<^item> \<^verbatim>\<open>Umalloc\<close>: the user heap, \<^verbatim>\<open>do_malloc\<close> and \<^verbatim>\<open>do_free\<close> of \<^verbatim>\<open>sys/process.c\<close>.
  \<^item> \<^verbatim>\<open>Sched\<close>: \<^verbatim>\<open>sys/contextswitch.c\<close>, \<^verbatim>\<open>sys_waitpid\<close> and the preemption of the timer.  The operations are the
    steps of the relation \<^verbatim>\<open>sched_step\<close>, whose invariant is that at most one process runs.
  \<^item> \<^verbatim>\<open>Switch\<close>: the assembly.  The statements of inline assembly of \<^verbatim>\<open>switch_to\<close>, \<^verbatim>\<open>schedule\<close>, \<^verbatim>\<open>switch_to_ring_3\<close>, the gates
    of \<^verbatim>\<open>sys/idt.c\<close>, the end of \<^verbatim>\<open>syscall_handler\<close> and \<^verbatim>\<open>_start\<close> are instructions of a small machine with registers, flags, stacks
    and memory; \<^verbatim>\<open>away\<close> is what the other threads may do between two turns of a thread.  The control block of the theory
    of scheduling and its picture in this memory are related by \<^verbatim>\<open>pcb_in_memory\<close>.
  \<^item> \<^verbatim>\<open>Fs\<close>, \<^verbatim>\<open>Tarfs\<close>: \<^verbatim>\<open>sys/fs.c\<close> and the archive part of \<^verbatim>\<open>sys/tarfs.c\<close>: path lookup against an abstract tree,
    descriptors, reading, directory streams, and the construction of the tree at boot.
  \<^item> \<^verbatim>\<open>Syscalls\<close>: \<^verbatim>\<open>kill\<close>, \<^verbatim>\<open>chdir\<close>, \<^verbatim>\<open>getcwd\<close>, \<^verbatim>\<open>access\<close>, \<^verbatim>\<open>unlink\<close>.
  \<^item> \<^verbatim>\<open>Interrupts\<close>: \<^verbatim>\<open>sys/idt.c\<close>: the interrupt table, the clock and timer, the page fault handler; \<^verbatim>\<open>sys_sleep\<close>.
  \<^item> \<^verbatim>\<open>Exec\<close>: the ELF loader of \<^verbatim>\<open>sys/tarfs.c\<close>, \<^verbatim>\<open>do_execvpe\<close> and \<^verbatim>\<open>user_process\<close> of \<^verbatim>\<open>sys/process.c\<close>.
  \<^item> \<^verbatim>\<open>Console\<close>: \<^verbatim>\<open>sys/kprintf.c\<close> (the screen, the formatter), \<^verbatim>\<open>sys/kscanf.c\<close> (the keyboard interrupt and the line
    it collects) and the terminal of \<^verbatim>\<open>sys/fs.c\<close>.  A line editor on character lists (\<^verbatim>\<open>press\<close>, \<^verbatim>\<open>edits\<close>) is the
    specification of the keyboard buffer.
  \<^item> \<^verbatim>\<open>Disk\<close>: \<^verbatim>\<open>sys/pci.c\<close> with the structures of \<^verbatim>\<open>include/sys/ahci.h\<close>: the scan of the bus, the set-up of the
    ports, the command headers and tables, reading and writing sectors.  The device answers through the parameters
    \<^verbatim>\<open>port_ops\<close>, \<^verbatim>\<open>host_ops\<close> and \<^verbatim>\<open>pci_ops\<close>.
  \<^item> \<^verbatim>\<open>Ulib\<close>: \<^verbatim>\<open>libc/string.c\<close> and \<^verbatim>\<open>libc/stdio.c\<close>: the strings, \<^verbatim>\<open>tokenize\<close>, \<^verbatim>\<open>fgets\<close>, \<^verbatim>\<open>printf\<close> of the user programs.
  \<^item> \<^verbatim>\<open>System_Call\<close>: the way of a system call from the stub of the C library (\<^verbatim>\<open>libc/unistd.c\<close> and the like) through the stack
    frame, the table of \<^verbatim>\<open>sys/idt.c\<close> and \<^verbatim>\<open>syscall_handler\<close> to its handler and back; the handlers of \<^verbatim>\<open>sys/syscall.c\<close> that
    pass their arguments on; waiting for the terminal; the interrupts of the keyboard and of exceptions.
  \<^item> \<^verbatim>\<open>Shell\<close>, \<^verbatim>\<open>Programs\<close>: the programs under \<^verbatim>\<open>src/bin/\<close>: \<^verbatim>\<open>sbush\<close> and \<^verbatim>\<open>sh\<close> as the list of their system calls (\<^verbatim>\<open>act\<close>),
    \<^verbatim>\<open>ls\<close>, \<^verbatim>\<open>ps\<close>, \<^verbatim>\<open>cat\<close> and the smaller ones on top of the file system of the kernel.  The calls of \<^verbatim>\<open>malloc\<close> are an argument
    with its state; \<^verbatim>\<open>kernel_malloc\<close> is \<^verbatim>\<open>do_malloc\<close> in its place.  What \<^verbatim>\<open>cat\<close> writes goes through \<^verbatim>\<open>do_write\<close> to the screen.  What reading
    lines needs of a file is the locale \<^verbatim>\<open>byte_source\<close>, in which \<^verbatim>\<open>fgets\<close> and the run of a script are proved; the open
    files of the kernel interpret it.
  \<^item> \<^verbatim>\<open>Boot\<close>, \<^verbatim>\<open>Start\<close>: the segment table of \<^verbatim>\<open>sys/gdt.c\<close>, the commands of \<^verbatim>\<open>sys/pic.c\<close>, the search of \<^verbatim>\<open>sys/main.c\<close> for the end of
    memory; then \<^verbatim>\<open>start\<close> and \<^verbatim>\<open>boot\<close> as the composition of the initialisations of all components, the first threads, and the
    way of the arguments from \<^verbatim>\<open>exec\<close> to \<^verbatim>\<open>main\<close>.
  \<^item> \<^verbatim>\<open>Ahci\<close>: the structures of \<^verbatim>\<open>include/sys/ahci.h\<close> as layouts, with their sizes and the places of their fields, and the
    proof that the numbers in \<^verbatim>\<open>Disk\<close> are these places.
  \<^item> \<^verbatim>\<open>Tree_Print\<close>: the functions of \<^verbatim>\<open>sys/fs.c\<close> that nothing calls.

  \<^bold>\<open>How the code is translated.\<close>

  An operation is a function of the state that returns the new state, in \<^typ>\<open>'a option\<close> where the code can leave
  its buffers, read through the null pointer or loop for ever: \<^const>\<open>None\<close> stands for that undefined behaviour.
  Integers keep their width (\<^verbatim>\<open>uint64_t\<close> is a word of 64 bits), \<^verbatim>\<open>int\<close> is an integer where the code cannot
  overflow it, and a word where a property reaches its bound: the counters of \<^verbatim>\<open>initbump\<close> and of the program loader.  A structure is a record and a map from addresses to records is the memory that holds them.
  Loops that follow pointers are partial functions; the properties state their results for every list that
  is a chain ending in the null pointer, and where a loop does not end that is stated as \<^const>\<open>None\<close>.
  \<^verbatim>\<open>bump\<close> maps the page it returns and may need page tables from \<^verbatim>\<open>bump\<close>: its first argument bounds this recursion,
  and the properties hold for every bound above 0 because the kernel's tables for its own pages exist
  (\<^verbatim>\<open>bump_left\<close>).  Registers that inline assembly reads, the linked archive and the readings of the tick counter are
  arguments.  A loop that polls a device register is a partial function of the device's behaviour: the loop with a
  counter of a million attempts is proved to end for every device, the loops without one are not, and
  \<^verbatim>\<open>wait_done_first_stop\<close> says exactly when they do.

  \<^bold>\<open>What the properties show.\<close>

  Each theory ends with its properties, each with an instance of its hypotheses on a concrete state.  The
  main results: the allocator is a queue; mapping makes the page walk find the frames asked for; \<^verbatim>\<open>fork\<close>
  shares pages copy-on-write; scheduling is round-robin with one running process; the path lookup
  finds what a search of the abstract tree finds; \<^verbatim>\<open>malloc\<close> and \<^verbatim>\<open>free\<close> are inverse on a heap of one
  block; the stack of a new program has exactly the layout of its arguments; the clock shows the time; the
  formatter prints what its format describes; the line the shell reads is the line the keys edit; a command table
  describes exactly the transfer asked for, as long as it fits into its table; a call of the C library reaches the
  handler of its name and returns with the registers that the gate restores; a read of the terminal waits for a line, or for exactly as
  many characters as it asks for; a thread that is switched away, or a program that the timer or a page fault interrupts, continues
  where it was, with the registers that the code saves; \<^verbatim>\<open>fork\<close> returns 0 in the child; the arguments of \<^verbatim>\<open>execvpe\<close> are those
  of \<^verbatim>\<open>main\<close>; the boot sequence arrives at the first process; the shells run their lines and scripts as long as \<^verbatim>\<open>malloc\<close> serves them, which for the
  interactive shell is 36 short commands; \<^verbatim>\<open>cat\<close> and \<^verbatim>\<open>ls\<close> show what is in the file and the directory.
  Many properties state what the code does where that is not what it means to do: the list is
  in the manifest of the development.

  \<^bold>\<open>Not modelled.\<close>

  The assembly of \<^verbatim>\<open>gdt.s\<close>, which loads the tables into the processor, and \<^verbatim>\<open>flush_tlb\<close>: caches of translations are not
  modelled, flushing them is the identity.  The frames that the compiler builds around inline assembly: the number of words that
  the code relies on is fixed, their contents are parameters, and C code between the statements of a gate is any code that keeps
  the stack above it (\<^verbatim>\<open>c_code\<close>).  The endless loops behind \<^verbatim>\<open>start\<close> and \<^verbatim>\<open>boot\<close>, which nothing leaves, the functions that
  only return a variable (\<^verbatim>\<open>gettcount\<close>, \<^verbatim>\<open>get_buffer_value\<close> and the like are record fields), and code in comments, among it the
  whole body of \<^verbatim>\<open>export\<close>.  A child that \<^verbatim>\<open>fork\<close> made is followed up to its \<^verbatim>\<open>execvpe\<close> or \<^verbatim>\<open>exit\<close>.
\<close>

end
